(* ===== verification/Prelude.thy ===== *)
theory Prelude
  imports Main "HOL-Library.Word"
begin

text \<open>
  Shared vocabulary of the development: the outcomes of a C++ call (it returns, throws,
  ends the program with \<open>std::terminate\<close>, or has undefined behaviour), sequencing of calls
  over an explicit state, \<open>try\<close>/\<open>catch\<close>, \<open>noexcept\<close>, and the lifting of a call on a member
  object to a call on the object that contains it.
\<close>

named_theorems outcome_simps \<open>unfolding rules of the outcome combinators\<close>

section \<open>Exceptions and outcomes\<close>

text \<open>
  \<open>std::exception_ptr\<close>: null, or a reference to the exception object with the given identity.
\<close>

datatype eptr = Null | Exn nat

text \<open>
  What a receiver gets through its error channel: an \<open>exception_ptr\<close> (what the library itself
  sends for a caught exception) or an error value of the sender's own type.
\<close>

datatype 'e error = Eptr eptr | Eval 'e

text \<open>
  The outcome of a call that works on a state of type \<open>'s\<close>. A call that throws leaves the state
  as the statements before the throw have made it; \<open>Term\<close> is \<open>std::terminate\<close> (also what an
  exception that leaves a \<open>noexcept\<close> function becomes); \<open>UB\<close> is undefined behaviour.
\<close>

datatype 's outcome = Ret 's | Thr nat 's | Term | UB

type_synonym 's call = "'s \<Rightarrow> 's outcome"

definition skip :: "'s call" where
  "skip s = Ret s"

definition terminate :: "'s call" where
  "terminate s = Term"

definition and_then :: "'s call \<Rightarrow> 's call \<Rightarrow> 's call" where
  "and_then f g s = (case f s of Ret t \<Rightarrow> g t | Thr n t \<Rightarrow> Thr n t | Term \<Rightarrow> Term | UB \<Rightarrow> UB)"

definition try_catch :: "'s call \<Rightarrow> (eptr \<Rightarrow> 's call) \<Rightarrow> 's call" where
  "try_catch f h s = (case f s of Ret t \<Rightarrow> Ret t | Thr n t \<Rightarrow> h (Exn n) t | Term \<Rightarrow> Term | UB \<Rightarrow> UB)"

definition no_except :: "'s call \<Rightarrow> 's call" where
  "no_except f s = (case f s of Ret t \<Rightarrow> Ret t | Thr n t \<Rightarrow> Term | Term \<Rightarrow> Term | UB \<Rightarrow> UB)"

definition map_outcome :: "('s \<Rightarrow> 't) \<Rightarrow> 's outcome \<Rightarrow> 't outcome" where
  "map_outcome g r = (case r of Ret t \<Rightarrow> Ret (g t) | Thr n t \<Rightarrow> Thr n (g t) | Term \<Rightarrow> Term | UB \<Rightarrow> UB)"

text \<open>A call on a member: read the member, run the call on it, store it back.\<close>

definition on_member :: "('t \<Rightarrow> 's) \<Rightarrow> ('s \<Rightarrow> 't \<Rightarrow> 't) \<Rightarrow> 's call \<Rightarrow> 't call" where
  "on_member getm putm f t = map_outcome (\<lambda>s. putm s t) (f (getm t))"

fun run_all :: "'s call list \<Rightarrow> 's call" where
  "run_all [] s = Ret s"
| "run_all (f # fs) s = and_then f (run_all fs) s"

section \<open>Automation for outcomes\<close>

lemma skip_simp [simp, outcome_simps]: "skip s = Ret s"
  by (simp add: skip_def)

lemma terminate_simp [simp, outcome_simps]: "terminate s = Term"
  by (simp add: terminate_def)

lemma map_outcome_simps [simp, outcome_simps]:
  "map_outcome g (Ret s) = Ret (g s)"
  "map_outcome g (Thr n s) = Thr n (g s)"
  "map_outcome g Term = Term"
  "map_outcome g UB = UB"
  by (simp_all add: map_outcome_def)

lemma map_outcome_eq_Ret [simp]: "map_outcome g r = Ret t \<longleftrightarrow> (\<exists>s. r = Ret s \<and> t = g s)"
  by (cases r) auto

lemma map_outcome_eq_Thr [simp]: "map_outcome g r = Thr n t \<longleftrightarrow> (\<exists>s. r = Thr n s \<and> t = g s)"
  by (cases r) auto

lemma map_outcome_eq_Term [simp]: "map_outcome g r = Term \<longleftrightarrow> r = Term"
  by (cases r) auto

lemma map_outcome_eq_UB [simp]: "map_outcome g r = UB \<longleftrightarrow> r = UB"
  by (cases r) auto

lemma map_outcome_comp: "map_outcome g (map_outcome f r) = map_outcome (\<lambda>s. g (f s)) r"
  by (cases r) auto

lemma map_outcome_id [simp]: "map_outcome (\<lambda>s. s) r = r"
  by (cases r) auto

lemma and_then_skip [simp]: "and_then f skip = f"
  by (rule ext) (simp add: and_then_def split: outcome.split)

lemma skip_and_then [simp]: "and_then skip f = f"
  by (rule ext) (simp add: and_then_def)

lemma and_then_assoc: "and_then (and_then f g) h = and_then f (and_then g h)"
  by (rule ext) (simp add: and_then_def split: outcome.split)

lemma and_then_simps [outcome_simps]:
  "f s = Ret t \<Longrightarrow> and_then f g s = g t"
  "f s = Thr n t \<Longrightarrow> and_then f g s = Thr n t"
  "f s = Term \<Longrightarrow> and_then f g s = Term"
  "f s = UB \<Longrightarrow> and_then f g s = UB"
  by (simp_all add: and_then_def)

lemma and_then_eq_Ret: "and_then f g s = Ret u \<longleftrightarrow> (\<exists>t. f s = Ret t \<and> g t = Ret u)"
  by (auto simp: and_then_def split: outcome.splits)

lemma try_catch_simps [outcome_simps]:
  "f s = Ret t \<Longrightarrow> try_catch f h s = Ret t"
  "f s = Thr n t \<Longrightarrow> try_catch f h s = h (Exn n) t"
  "f s = Term \<Longrightarrow> try_catch f h s = Term"
  "f s = UB \<Longrightarrow> try_catch f h s = UB"
  by (simp_all add: try_catch_def)

lemma no_except_simps [outcome_simps]:
  "f s = Ret t \<Longrightarrow> no_except f s = Ret t"
  "f s = Thr n t \<Longrightarrow> no_except f s = Term"
  "f s = Term \<Longrightarrow> no_except f s = Term"
  "f s = UB \<Longrightarrow> no_except f s = UB"
  by (simp_all add: no_except_def)

lemma no_except_never_throws [simp]: "no_except f s \<noteq> Thr n t"
  by (simp add: no_except_def split: outcome.split)

lemma no_except_idem [simp]: "no_except (no_except f) = no_except f"
  by (rule ext) (simp add: no_except_def split: outcome.split)

lemma no_except_eq_Ret [simp]: "no_except f s = Ret t \<longleftrightarrow> f s = Ret t"
  by (simp add: no_except_def split: outcome.split)

lemma run_all_append: "run_all (fs @ gs) = and_then (run_all fs) (run_all gs)"
proof (rule ext)
  fix s show "run_all (fs @ gs) s = and_then (run_all fs) (run_all gs) s"
    by (induction fs arbitrary: s) (auto simp: and_then_def split: outcome.split)
qed

lemma run_all_all_skip: "\<forall>f \<in> set fs. f s = Ret s \<Longrightarrow> run_all fs s = Ret s"
  by (induction fs) (simp_all add: and_then_def)

lemma on_member_Ret [simp]:
  "on_member getm putm f t = Ret u \<longleftrightarrow> (\<exists>s. f (getm t) = Ret s \<and> u = putm s t)"
  by (simp add: on_member_def)

section \<open>Interleaved components\<close>

text \<open>
  A component that several threads work on is a step relation whose steps are the critical
  sections of the code. The interface \<open>invariant_of\<close> states what a component provides about its
  start states and its steps; its client is every property of the reachable states.
\<close>

inductive reachable :: "('s \<Rightarrow> bool) \<Rightarrow> ('s \<Rightarrow> 's \<Rightarrow> bool) \<Rightarrow> 's \<Rightarrow> bool"
  for init :: "'s \<Rightarrow> bool" and step :: "'s \<Rightarrow> 's \<Rightarrow> bool" where
  reach_init: "init s \<Longrightarrow> reachable init step s"
| reach_step: "reachable init step s \<Longrightarrow> step s t \<Longrightarrow> reachable init step t"

locale invariant_of =
  fixes init :: "'s \<Rightarrow> bool" and step :: "'s \<Rightarrow> 's \<Rightarrow> bool" and inv :: "'s \<Rightarrow> bool"
  assumes inv_init: "init s \<Longrightarrow> inv s"
    and inv_step: "inv s \<Longrightarrow> step s t \<Longrightarrow> inv t"
begin

lemma reachable_inv: "reachable init step s \<Longrightarrow> inv s"
  by (induction rule: reachable.induct) (auto intro: inv_init inv_step)

lemma steps_inv: "step\<^sup>*\<^sup>* s t \<Longrightarrow> inv s \<Longrightarrow> inv t"
  by (induction rule: rtranclp_induct) (auto intro: inv_step)

end

lemma reachable_steps: "step\<^sup>*\<^sup>* s t \<Longrightarrow> reachable init step s \<Longrightarrow> reachable init step t"
  by (induction rule: rtranclp_induct) (auto intro: reach_step)

text \<open>
  The interface \<open>simulation\<close>: an abstraction under which every step is a sequence of abstract steps,
  with an invariant of the concrete states. Its client is reachability in the abstract machine.
\<close>

locale simulation =
  fixes init :: "'s \<Rightarrow> bool" and step :: "'s \<Rightarrow> 's \<Rightarrow> bool" and abs :: "'s \<Rightarrow> 'a" and inv :: "'s \<Rightarrow> bool"
    and spec_init :: "'a \<Rightarrow> bool" and spec :: "'a \<Rightarrow> 'a \<Rightarrow> bool"
  assumes sim_init: "init s \<Longrightarrow> inv s \<and> spec_init (abs s)"
    and sim_step: "inv s \<Longrightarrow> step s t \<Longrightarrow> inv t \<and> spec\<^sup>*\<^sup>* (abs s) (abs t)"
begin

lemma simulates_steps: "step\<^sup>*\<^sup>* s t \<Longrightarrow> inv s \<Longrightarrow> inv t \<and> spec\<^sup>*\<^sup>* (abs s) (abs t)"
proof (induction rule: rtranclp_induct)
  case (step t u)
  then show ?case using sim_step [of t u] by auto
qed simp

lemma simulates: "reachable init step s \<Longrightarrow> inv s \<and> reachable spec_init spec (abs s)"
proof (induction rule: reachable.induct)
  case (reach_init s)
  then show ?case using sim_init [of s] by (auto intro: reachable.reach_init)
next
  case (reach_step s t)
  then show ?case using sim_step [of s t] reachable_steps [of spec "abs s" "abs t"] by auto
qed

end

end
