(* ===== verification/Trampoline.thy ===== *)
theory Trampoline
  imports Prelude "HOL-Library.Multiset"
begin

text \<open>
  \<open>trampoline.h\<close>: the per-thread trampoline behind \<open>trampoline()\<close> (the \<open>delegator\<close> executor) and
  \<open>nested_trampoline()\<close> (the \<open>nester\<close>). The thread-local \<open>owner()\<close> is a field of the state; the
  receivers submitted to it are trees of actions, because what a receiver does in \<open>value\<close> may
  submit further receivers. The interpreter has a fuel argument (\<open>None\<close> is fuel exhausted);
  \<open>submit_total\<close> gives the fuel that is enough for every program without \<open>repeat()\<close>.
\<close>

section \<open>Receivers as trees of actions\<close>

text \<open>
  \<open>OwnOrDelegate\<close> and \<open>OwnOrNest\<close> are the tag types \<open>ownordelegate_t\<close> and \<open>ownornest_t\<close>. A task is a
  receiver: its name, whether it has a \<open>done_\<close> guard (every \<open>receiver<>\<close> has one) and what its
  \<open>value\<close> does with the executor it gets: record something, submit a receiver through the
  delegator or the nester, ask for a repeat, throw.
\<close>

datatype tag = OwnOrDelegate | OwnOrNest

datatype act = Emit nat | Submit tag task | Recurse | Raise nat
and task = Task (t_name: nat) (t_guarded: bool) (t_body: "act list")

text \<open>
  What the receivers of a thread observe, in order. A value signal records the trampoline's
  depth at that moment.
\<close>

datatype event = EvValue nat int | EvUser nat | EvError nat nat | EvDone nat

text \<open>A receiver object: its task and its \<open>done_\<close> flag.\<close>

record work =
  w_task :: task
  w_done :: bool

text \<open>\<open>pending_type\<close>: depth, queue, repeat flag.\<close>

record pending =
  depth :: int
  queue :: "work list"
  repeat_flag :: bool

record tramp =
  owner :: "pending option"
  log :: "event list"

type_synonym 'a result = "'a outcome option"

abbreviation logged :: "event \<Rightarrow> tramp \<Rightarrow> tramp" where
  "logged e st \<equiv> st\<lparr>log := log st @ [e]\<rparr>"

definition is_owned :: "tramp \<Rightarrow> bool" where
  "is_owned st \<longleftrightarrow> owner st \<noteq> None"

definition upd_owner :: "(pending \<Rightarrow> pending) \<Rightarrow> tramp \<Rightarrow> tramp" where
  "upd_owner f st = st\<lparr>owner := map_option f (owner st)\<rparr>"

section \<open>Signals to one receiver\<close>

text \<open>
  \<open>set_done\<close> and the error channel of a receiver. The done and error functions of these receivers neither throw nor
  submit: only their value functions are programs.
\<close>

definition work_done :: "work \<Rightarrow> tramp \<Rightarrow> work \<times> tramp" where
  "work_done w st =
     (if t_guarded (w_task w) \<and> w_done w then (w, st)
      else (w\<lparr>w_done := True\<rparr>, logged (EvDone (t_name (w_task w))) st))"

definition work_error :: "work \<Rightarrow> nat \<Rightarrow> tramp \<Rightarrow> work \<times> tramp" where
  "work_error w n st =
     (if t_guarded (w_task w) \<and> w_done w then (w, st)
      else (w\<lparr>w_done := True\<rparr>, logged (EvError (t_name (w_task w)) n) st))"

definition work_new :: "task \<Rightarrow> work" where
  "work_new t = \<lparr>w_task = t, w_done = False\<rparr>"

section \<open>\<open>trampoline<E>::submit\<close>\<close>

text \<open>\<open>submit(Selector, Derived&, recurse_t)\<close>.\<close>

definition submit_recurse :: "tramp call" where
  "submit_recurse st =
     (if \<not> is_owned st then Term else Ret (upd_owner (\<lambda>p. p\<lparr>repeat_flag := True\<rparr>) st))"

text \<open>Taking over the thread, and giving it back.\<close>

definition take_owner :: "tramp \<Rightarrow> tramp" where
  "take_owner st = st\<lparr>owner := Some \<lparr>depth = 0, queue = [], repeat_flag = False\<rparr>\<rparr>"

definition release_owner :: "tramp call" where
  "release_owner st =
     (case owner st of
        None \<Rightarrow> Term
      | Some p \<Rightarrow> if queue p \<noteq> [] then Term else Ret (st\<lparr>owner := None\<rparr>))"

text \<open>The handler for an exception that leaves the owned run: every receiver gets the error.\<close>

definition fail_owner :: "work \<Rightarrow> nat \<Rightarrow> tramp call" where
  "fail_owner awhat n st =
     (case owner st of
        None \<Rightarrow> Term
      | Some p \<Rightarrow>
          let st' = foldl (\<lambda>s w. snd (work_error w n s)) (snd (work_error awhat n st)) (queue p)
          in Thr n (st'\<lparr>owner := None\<rparr>))"

definition push_work :: "work \<Rightarrow> tramp \<Rightarrow> tramp" where
  "push_work w = upd_owner (\<lambda>p. p\<lparr>queue := queue p @ [w]\<rparr>)"

definition add_depth :: "int \<Rightarrow> tramp \<Rightarrow> tramp" where
  "add_depth d = upd_owner (\<lambda>p. p\<lparr>depth := depth p + d\<rparr>)"

text \<open>
  The functions of the class call each other through user code, so each is given its recursive
  calls as an argument \<open>call\<close>; \<open>interp\<close> below ties the knot with fuel.
\<close>

datatype code =
    Body "act list"
  | SubmitDelegate work
  | SubmitNest work
  | NestLoop work
  | Drain

type_synonym caller = "code \<Rightarrow> tramp \<Rightarrow> tramp result"

text \<open>The body of a receiver's \<open>value\<close>: its actions in order.\<close>

fun exec_acts :: "caller \<Rightarrow> act list \<Rightarrow> tramp \<Rightarrow> tramp result" where
  "exec_acts call [] st = Some (Ret st)"
| "exec_acts call (Emit k # acts) st = exec_acts call acts (logged (EvUser k) st)"
| "exec_acts call (Raise k # acts) st = Some (Thr k st)"
| "exec_acts call (Recurse # acts) st =
     (case submit_recurse st of Ret st' \<Rightarrow> exec_acts call acts st' | r \<Rightarrow> Some r)"
| "exec_acts call (Submit tg t # acts) st =
     (case call (case tg of OwnOrDelegate \<Rightarrow> SubmitDelegate (work_new t)
                          | OwnOrNest \<Rightarrow> SubmitNest (work_new t)) st of
        Some (Ret st') \<Rightarrow> exec_acts call acts st' | r \<Rightarrow> r)"

definition current_depth :: "tramp \<Rightarrow> int" where
  "current_depth st = (case owner st of None \<Rightarrow> 0 | Some p \<Rightarrow> depth p)"

text \<open>
  \<open>set_value(awhat, that)\<close>: the customization point sends what the receiver throws to its error
  channel. For a queued item this is \<open>delegate_impl\<close>, which hands the receiver a \<open>delegator\<close>.
\<close>

definition work_value :: "caller \<Rightarrow> work \<Rightarrow> tramp \<Rightarrow> (work \<times> tramp) result" where
  "work_value call w st =
     (if t_guarded (w_task w) \<and> w_done w then Some (Ret (w, st))
      else case call (Body (t_body (w_task w)))
                  (logged (EvValue (t_name (w_task w)) (current_depth st)) st) of
        None \<Rightarrow> None
      | Some (Ret st') \<Rightarrow> Some (Ret (w, st'))
      | Some (Thr k st') \<Rightarrow> Some (Ret (work_error w k st'))
      | Some Term \<Rightarrow> Some Term | Some UB \<Rightarrow> Some UB)"

text \<open>\<open>set_value\<close> then \<open>set_done\<close>.\<close>

definition deliver_work :: "caller \<Rightarrow> work \<Rightarrow> tramp \<Rightarrow> (work \<times> tramp) result" where
  "deliver_work call w st =
     (case work_value call w st of
        Some (Ret (w', st')) \<Rightarrow> Some (Ret (work_done w' st')) | r \<Rightarrow> r)"

text \<open>\<open>submit(ownordelegate_t, SingleReceiver awhat)\<close>.\<close>

definition submit_delegate :: "caller \<Rightarrow> work \<Rightarrow> tramp \<Rightarrow> tramp result" where
  "submit_delegate call awhat st =
     (if is_owned st then
        (let st1 = add_depth 1 st in
         if current_depth st1 > 100
         then Some (Ret (add_depth (-1) (push_work awhat st1)))
         else case deliver_work call awhat st1 of
             None \<Rightarrow> None
           | Some (Ret (w', st2)) \<Rightarrow> Some (Ret (add_depth (-1) st2))
           | Some (Thr k (w', st2)) \<Rightarrow> Some (Thr k (add_depth (-1) st2))
           | Some Term \<Rightarrow> Some Term | Some UB \<Rightarrow> Some UB)
      else
        (case call (SubmitNest awhat) (take_owner st) of
             None \<Rightarrow> None
           | Some (Ret st1) \<Rightarrow> Some (release_owner st1)
           | Some (Thr k st1) \<Rightarrow> Some (fail_owner awhat k st1)
           | Some Term \<Rightarrow> Some Term | Some UB \<Rightarrow> Some UB))"

text \<open>The loop of the tail-call case in \<open>submit(ownornest_t, ...)\<close>: one iteration.\<close>

definition nest_loop :: "caller \<Rightarrow> work \<Rightarrow> tramp \<Rightarrow> tramp result" where
  "nest_loop call awhat st =
     (case deliver_work call awhat (upd_owner (\<lambda>p. p\<lparr>repeat_flag := False\<rparr>) st) of
        None \<Rightarrow> None
      | Some (Ret (w', st1)) \<Rightarrow>
          (case owner st1 of
             None \<Rightarrow> Some UB
           | Some p \<Rightarrow> if repeat_flag p then call (NestLoop w') st1 else Some (Ret st1))
      | Some (Thr k (w', st1)) \<Rightarrow> Some (Thr k st1)
      | Some Term \<Rightarrow> Some Term | Some UB \<Rightarrow> Some UB)"

text \<open>The loop that runs the queued receivers: one iteration.\<close>

definition drain :: "caller \<Rightarrow> tramp \<Rightarrow> tramp result" where
  "drain call st =
     (case owner st of
        None \<Rightarrow> Some UB
      | Some p \<Rightarrow>
          (case queue p of
             [] \<Rightarrow> Some (Ret st)
           | w # ws \<Rightarrow>
               (case deliver_work call w (upd_owner (\<lambda>p. p\<lparr>queue := ws\<rparr>) st) of
                  None \<Rightarrow> None
                | Some (Ret (w', st1)) \<Rightarrow> call Drain st1
                | Some (Thr k (w', st1)) \<Rightarrow> Some (Thr k st1)
                | Some Term \<Rightarrow> Some Term | Some UB \<Rightarrow> Some UB)))"

text \<open>\<open>submit(ownornest_t, SingleReceiver awhat)\<close>.\<close>

definition submit_nest :: "caller \<Rightarrow> work \<Rightarrow> tramp \<Rightarrow> tramp result" where
  "submit_nest call awhat st =
     (case owner st of
        None \<Rightarrow> call (SubmitDelegate awhat) st
      | Some p \<Rightarrow>
          (case (if queue p = [] then call (NestLoop awhat) st else Some (Ret (push_work awhat st))) of
             Some (Ret st1) \<Rightarrow> call Drain st1 | r \<Rightarrow> r))"

fun dispatch :: "caller \<Rightarrow> code \<Rightarrow> tramp \<Rightarrow> tramp result" where
  "dispatch call (Body acts) = exec_acts call acts"
| "dispatch call (SubmitDelegate w) = submit_delegate call w"
| "dispatch call (SubmitNest w) = submit_nest call w"
| "dispatch call (NestLoop w) = nest_loop call w"
| "dispatch call Drain = drain call"

primrec interp :: "nat \<Rightarrow> caller" where
  "interp 0 = (\<lambda>c st. None)"
| "interp (Suc n) = dispatch (interp n)"

text \<open>\<open>trampoline_task<E, Tag>::submit\<close>.\<close>

definition trampoline_submit :: "nat \<Rightarrow> tag \<Rightarrow> task \<Rightarrow> tramp \<Rightarrow> tramp result" where
  "trampoline_submit n tg t st =
     interp n (case tg of OwnOrDelegate \<Rightarrow> SubmitDelegate (work_new t)
                        | OwnOrNest \<Rightarrow> SubmitNest (work_new t)) st"

definition idle_thread :: tramp where
  "idle_thread = \<lparr>owner = None, log = []\<rparr>"

section \<open>What a receiver is expected to observe\<close>

text \<open>
  The specification: every receiver submitted by an action that runs gets one value signal, the
  effects of its body, and its terminal signal: done, or the error its body throws (a receiver
  without a guard then still gets done). The depth of a value signal is erased.
\<close>

fun raised :: "act list \<Rightarrow> nat option" where
  "raised [] = None"
| "raised (Raise k # acts) = Some k"
| "raised (a # acts) = raised acts"

definition ev_final :: "nat \<Rightarrow> bool \<Rightarrow> act list \<Rightarrow> event multiset" where
  "ev_final nm g body =
     (case raised body of
        None \<Rightarrow> {#EvDone nm#}
      | Some k \<Rightarrow> if g then {#EvError nm k#} else {#EvError nm k, EvDone nm#})"

fun ev_acts :: "act list \<Rightarrow> event multiset"
and ev_task :: "task \<Rightarrow> event multiset" where
  "ev_acts [] = {#}"
| "ev_acts (Raise k # acts) = {#}"
| "ev_acts (Emit k # acts) = add_mset (EvUser k) (ev_acts acts)"
| "ev_acts (Recurse # acts) = ev_acts acts"
| "ev_acts (Submit tg t # acts) = ev_task t + ev_acts acts"
| "ev_task (Task nm g body) = add_mset (EvValue nm 0) (ev_acts body + ev_final nm g body)"

fun norec_acts :: "act list \<Rightarrow> bool"
and norec_task :: "task \<Rightarrow> bool" where
  "norec_acts [] = True"
| "norec_acts (Recurse # acts) = False"
| "norec_acts (Submit tg t # acts) = (norec_task t \<and> norec_acts acts)"
| "norec_acts (a # acts) = norec_acts acts"
| "norec_task (Task nm g body) = norec_acts body"

text \<open>The fuel that is enough.\<close>

fun fuel_acts :: "act list \<Rightarrow> nat"
and fuel_task :: "task \<Rightarrow> nat" where
  "fuel_acts [] = 0"
| "fuel_acts (Submit tg t # acts) = fuel_task t + fuel_acts acts"
| "fuel_acts (a # acts) = fuel_acts acts"
| "fuel_task (Task nm g body) = 4 + fuel_acts body"

fun erase :: "event \<Rightarrow> event" where
  "erase (EvValue nm d) = EvValue nm 0"
| "erase e = e"

fun depth_ok :: "event \<Rightarrow> bool" where
  "depth_ok (EvValue nm d) = (0 \<le> d \<and> d \<le> 100)"
| "depth_ok e = True"

section \<open>Correctness of the interpreter\<close>

definition seen :: "tramp \<Rightarrow> event multiset" where
  "seen st = mset (map erase (log st))"

definition queue_ev :: "work list \<Rightarrow> event multiset" where
  "queue_ev ws = sum_list (map (\<lambda>w. ev_task (w_task w)) ws)"

definition queue_fuel :: "work list \<Rightarrow> nat" where
  "queue_fuel ws = sum_list (map (\<lambda>w. Suc (fuel_acts (t_body (w_task w)))) ws)"

text \<open>The invariant of an owned thread: fresh receivers in the queue, no repeat pending, bounded depth.\<close>

definition fresh :: "work \<Rightarrow> bool" where
  "fresh w \<longleftrightarrow> \<not> w_done w \<and> norec_task (w_task w)"

definition pending_ok :: "pending \<Rightarrow> bool" where
  "pending_ok p \<longleftrightarrow> \<not> repeat_flag p \<and> (\<forall>w \<in> set (queue p). fresh w) \<and> 0 \<le> depth p \<and> depth p \<le> 100"

definition log_ok :: "tramp \<Rightarrow> bool" where
  "log_ok st \<longleftrightarrow> (\<forall>e \<in> set (log st). depth_ok e)"

text \<open>
  A run from \<open>st\<close> to \<open>st'\<close> that owes the events \<open>E\<close>: what it has not delivered is in the queue,
  and the depth is back to what it was.
\<close>

definition run_ok :: "event multiset \<Rightarrow> nat \<Rightarrow> tramp \<Rightarrow> tramp \<Rightarrow> bool" where
  "run_ok E z st st' \<longleftrightarrow>
     (\<exists>p p'. owner st = Some p \<and> owner st' = Some p' \<and> pending_ok p' \<and> depth p' = depth p \<and>
        seen st' + queue_ev (queue p') = seen st + queue_ev (queue p) + E \<and>
        queue_fuel (queue p') \<le> queue_fuel (queue p) + z \<and> (log_ok st \<longrightarrow> log_ok st'))"

lemma run_ok_trans:
  assumes "run_ok E z st st'" "run_ok E' z' st' st''"
  shows "run_ok (E + E') (z + z') st st''"
proof -
  obtain p p' where 1: "owner st = Some p" "owner st' = Some p'" "depth p' = depth p"
      "seen st' + queue_ev (queue p') = seen st + queue_ev (queue p) + E"
      "queue_fuel (queue p') \<le> queue_fuel (queue p) + z" "log_ok st \<longrightarrow> log_ok st'"
    using assms(1) by (auto simp: run_ok_def)
  obtain p'' where 2: "owner st'' = Some p''" "pending_ok p''" "depth p'' = depth p'"
      "seen st'' + queue_ev (queue p'') = seen st' + queue_ev (queue p') + E'"
      "queue_fuel (queue p'') \<le> queue_fuel (queue p') + z'" "log_ok st' \<longrightarrow> log_ok st''"
    using assms(2) 1 by (auto simp: run_ok_def)
  have "seen st'' + queue_ev (queue p'') = seen st + queue_ev (queue p) + (E + E')"
    using 1(4) 2(4) by (simp add: ac_simps)
  then show ?thesis
    using 1 2 by (auto simp: run_ok_def)
qed

lemma run_ok_mono: "run_ok E z st st' \<Longrightarrow> z \<le> z' \<Longrightarrow> run_ok E z' st st'"
  by (fastforce simp: run_ok_def)

lemma run_ok_refl: "owner st = Some p \<Longrightarrow> pending_ok p \<Longrightarrow> run_ok {#} 0 st st"
  by (simp add: run_ok_def)

lemma run_ok_logged:
  "owner st = Some p \<Longrightarrow> pending_ok p \<Longrightarrow> depth_ok e \<Longrightarrow> run_ok {#erase e#} 0 st (logged e st)"
  by (auto simp: run_ok_def seen_def log_ok_def)

lemma run_okD:
  "run_ok E z st st' \<Longrightarrow> \<exists>p'. owner st' = Some p' \<and> pending_ok p'"
  by (auto simp: run_ok_def)

lemma run_ok_fuel:
  "run_ok E z st st' \<Longrightarrow> owner st = Some p \<Longrightarrow> owner st' = Some p' \<Longrightarrow>
   queue_fuel (queue p') \<le> queue_fuel (queue p) + z"
  by (auto simp: run_ok_def)

text \<open>The induction hypothesis on the recursive calls: one clause per entry point, by fuel.\<close>

definition body_ok :: "nat \<Rightarrow> bool" where
  "body_ok n \<longleftrightarrow> (\<forall>acts st p. owner st = Some p \<longrightarrow> pending_ok p \<longrightarrow> norec_acts acts \<longrightarrow>
     1 + fuel_acts acts + queue_fuel (queue p) \<le> n \<longrightarrow>
     (\<exists>st'. interp n (Body acts) st = Some (case raised acts of None \<Rightarrow> Ret st' | Some k \<Rightarrow> Thr k st') \<and>
        run_ok (ev_acts acts) (fuel_acts acts) st st'))"

definition entry_ok :: "nat \<Rightarrow> (work \<Rightarrow> code) \<Rightarrow> nat \<Rightarrow> nat \<Rightarrow> bool" where
  "entry_ok n entry c z \<longleftrightarrow> (\<forall>w st p. owner st = Some p \<longrightarrow> pending_ok p \<longrightarrow> fresh w \<longrightarrow>
     c + fuel_acts (t_body (w_task w)) + queue_fuel (queue p) \<le> n \<longrightarrow>
     (\<exists>st'. interp n (entry w) st = Some (Ret st') \<and>
        run_ok (ev_task (w_task w)) (z + fuel_acts (t_body (w_task w))) st st'))"

definition drain_ok :: "nat \<Rightarrow> bool" where
  "drain_ok n \<longleftrightarrow> (\<forall>st p. owner st = Some p \<longrightarrow> pending_ok p \<longrightarrow> 1 + queue_fuel (queue p) \<le> n \<longrightarrow>
     (\<exists>st' p'. interp n Drain st = Some (Ret st') \<and> run_ok {#} 0 st st' \<and>
        owner st' = Some p' \<and> queue p' = []))"

end
