(* ===== verification/Trampoline_Correct.thy ===== *)
theory Trampoline_Correct
  imports Trampoline
begin

text \<open>
  Correctness of the trampoline: with enough fuel and no \<open>repeat()\<close>, a submission returns, every
  receiver submitted on the way has had exactly its value and its terminal signal, the queue is
  empty and the thread is free again; the stack never grows beyond 100 nested deliveries.
\<close>

section \<open>The entry points keep \<open>run_ok\<close>\<close>

lemma run_ok_snoc:
  assumes "run_ok E z st st'" "depth_ok e"
  shows "run_ok (E + {#erase e#}) z st (logged e st')"
proof -
  obtain p' where "owner st' = Some p'" "pending_ok p'" using run_okD [OF assms(1)] by auto
  from run_ok_trans [OF assms(1) run_ok_logged [OF this assms(2)]] show ?thesis by simp
qed

lemma run_ok_snd_work_done:
  assumes "run_ok E z st st'" "\<not> (t_guarded (w_task w) \<and> w_done w)"
  shows "run_ok (E + {#EvDone (t_name (w_task w))#}) z st (snd (work_done w st'))"
  using run_ok_snoc [OF assms(1), of "EvDone (t_name (w_task w))"] assms(2)
  by (auto simp: work_done_def)

lemma deliver_ok:
  assumes body: "body_ok n" and st: "owner st = Some p" "pending_ok p" and w: "fresh w"
    and fuel: "1 + fuel_acts (t_body (w_task w)) + queue_fuel (queue p) \<le> n"
  shows "\<exists>w' st'. deliver_work (interp n) w st = Some (Ret (w', st')) \<and>
           run_ok (ev_task (w_task w)) (fuel_acts (t_body (w_task w))) st st'"
proof -
  obtain nm g acts where t: "w_task w = Task nm g acts" by (cases "w_task w")
  have nd: "\<not> w_done w" and nr: "norec_acts acts" using w t by (auto simp: fresh_def)
  let ?e = "EvValue nm (current_depth st)"
  let ?st1 = "logged ?e st"
  have de: "depth_ok ?e" using st by (simp add: current_depth_def pending_ok_def)
  have r1: "run_ok {#EvValue nm 0#} 0 st ?st1" using run_ok_logged [OF st de] by simp
  have o1: "owner ?st1 = Some p" using st by simp
  obtain st2 where b: "interp n (Body acts) ?st1 =
        Some (case raised acts of None \<Rightarrow> Ret st2 | Some k \<Rightarrow> Thr k st2)"
      and r2: "run_ok (ev_acts acts) (fuel_acts acts) ?st1 st2"
    using body [unfolded body_ok_def, rule_format, OF o1 st(2) nr] fuel t by auto
  have r12: "run_ok ({#EvValue nm 0#} + ev_acts acts) (fuel_acts acts) st st2"
    using run_ok_trans [OF r1 r2] by simp
  show ?thesis
  proof (cases "raised acts")
    case None
    have v: "work_value (interp n) w st = Some (Ret (w, st2))"
      using b None nd t by (simp add: work_value_def)
    have "run_ok (ev_task (w_task w)) (fuel_acts acts) st (logged (EvDone nm) st2)"
      using run_ok_snoc [OF r12, of "EvDone nm"] t None by (simp add: ev_final_def add_mset_commute)
    then show ?thesis using v nd t by (auto simp: deliver_work_def work_done_def)
  next
    case (Some k)
    have v: "work_value (interp n) w st =
        Some (Ret (w\<lparr>w_done := True\<rparr>, logged (EvError nm k) st2))"
      using b Some nd t by (simp add: work_value_def work_error_def)
    have r3: "run_ok ({#EvValue nm 0#} + ev_acts acts + {#EvError nm k#}) (fuel_acts acts) st
        (logged (EvError nm k) st2)"
      using run_ok_snoc [OF r12, of "EvError nm k"] by simp
    show ?thesis
    proof (cases g)
      case True
      then show ?thesis using v t r3 Some by (auto simp: deliver_work_def work_done_def ev_final_def add_mset_commute)
    next
      case False
      have "run_ok (ev_task (w_task w)) (fuel_acts acts) st (logged (EvDone nm) (logged (EvError nm k) st2))"
        using run_ok_snoc [OF r3, of "EvDone nm"] t Some False by (simp add: ev_final_def add_mset_commute)
      then show ?thesis using v t False by (auto simp: deliver_work_def work_done_def)
    qed
  qed
qed

text \<open>Changes of the owner's fields outside the log.\<close>

lemma run_ok_upd_start:
  assumes "run_ok E z (upd_owner f st) st'" "owner st = Some p"
    and "depth (f p) = depth p" "queue (f p) = queue p"
  shows "run_ok E z st st'"
  using assms by (auto simp: run_ok_def upd_owner_def seen_def log_ok_def)

lemma loop_ok:
  assumes "body_ok n"
  shows "entry_ok (Suc n) NestLoop 2 0"
  unfolding entry_ok_def
proof (intro allI impI)
  fix w and st :: tramp and p :: pending
  assume st: "owner st = Some p" "pending_ok p" and w: "fresh w"
    and fuel: "2 + fuel_acts (t_body (w_task w)) + queue_fuel (queue p) \<le> Suc n"
  let ?f = "\<lambda>p. p\<lparr>repeat_flag := False\<rparr>"
  have o: "owner (upd_owner ?f st) = Some (?f p)" "pending_ok (?f p)"
    using st by (simp_all add: upd_owner_def pending_ok_def)
  obtain w' st' where d: "deliver_work (interp n) w (upd_owner ?f st) = Some (Ret (w', st'))"
      and r: "run_ok (ev_task (w_task w)) (fuel_acts (t_body (w_task w))) (upd_owner ?f st) st'"
    using deliver_ok [OF assms o w] fuel by auto
  have r': "run_ok (ev_task (w_task w)) (fuel_acts (t_body (w_task w))) st st'"
    by (rule run_ok_upd_start [OF r st(1)]) simp_all
  obtain p' where "owner st' = Some p'" "pending_ok p'" using run_okD [OF r] by auto
  then have "interp (Suc n) (NestLoop w) st = Some (Ret st')"
    using d by (simp add: nest_loop_def pending_ok_def)
  then show "\<exists>st'. interp (Suc n) (NestLoop w) st = Some (Ret st') \<and>
       run_ok (ev_task (w_task w)) (0 + fuel_acts (t_body (w_task w))) st st'"
    using r' by auto
qed

lemma drain_step_ok:
  assumes "body_ok n" "drain_ok n"
  shows "drain_ok (Suc n)"
  unfolding drain_ok_def
proof (intro allI impI)
  fix st :: tramp and p :: pending
  assume st: "owner st = Some p" "pending_ok p" and fuel: "1 + queue_fuel (queue p) \<le> Suc n"
  show "\<exists>st' p'. interp (Suc n) Drain st = Some (Ret st') \<and> run_ok {#} 0 st st' \<and>
      owner st' = Some p' \<and> queue p' = []"
  proof (cases "queue p")
    case Nil
    then show ?thesis using st by (auto simp: drain_def intro: run_ok_refl)
  next
    case (Cons w ws)
    let ?f = "\<lambda>p. p\<lparr>queue := ws\<rparr>"
    let ?st1 = "upd_owner ?f st"
    have o: "owner ?st1 = Some (?f p)" "pending_ok (?f p)" and w: "fresh w"
      using st Cons by (auto simp: upd_owner_def pending_ok_def)
    obtain w' st2 where d: "deliver_work (interp n) w ?st1 = Some (Ret (w', st2))"
        and r: "run_ok (ev_task (w_task w)) (fuel_acts (t_body (w_task w))) ?st1 st2"
      using deliver_ok [OF assms(1) o w] fuel Cons by (auto simp: queue_fuel_def)
    obtain p2 where p2: "owner st2 = Some p2" "pending_ok p2" using run_okD [OF r] by auto
    have "seen st2 + queue_ev (queue p2) = seen ?st1 + queue_ev ws + ev_task (w_task w)"
        "queue_fuel (queue p2) \<le> queue_fuel ws + fuel_acts (t_body (w_task w))"
        "depth p2 = depth p" "log_ok ?st1 \<longrightarrow> log_ok st2"
      using r o p2 by (auto simp: run_ok_def)
    moreover have "seen ?st1 = seen st" "log_ok ?st1 = log_ok st"
      by (simp_all add: seen_def log_ok_def upd_owner_def)
    ultimately have r1: "run_ok {#} 0 st st2"
      using st Cons p2
      by (simp add: run_ok_def queue_ev_def queue_fuel_def union_assoc
          union_commute [of "ev_task (w_task w)"])
    have "1 + queue_fuel (queue p2) \<le> n"
      using run_ok_fuel [OF r o(1) p2(1)] fuel Cons by (simp add: queue_fuel_def)
    then obtain st3 p3 where "interp n Drain st2 = Some (Ret st3)" "run_ok {#} 0 st2 st3"
        "owner st3 = Some p3" "queue p3 = []"
      using assms(2) p2 unfolding drain_ok_def by blast
    then show ?thesis using d Cons st run_ok_trans [OF r1, of "{#}" 0 st3]
      by (auto simp: drain_def)
  qed
qed

lemma run_ok_push:
  assumes "owner st = Some p" "pending_ok p" "fresh w"
  shows "run_ok (ev_task (w_task w)) (Suc (fuel_acts (t_body (w_task w)))) st (push_work w st)"
  using assms
  by (simp add: run_ok_def push_work_def upd_owner_def pending_ok_def queue_ev_def queue_fuel_def
      seen_def log_ok_def add.assoc)

lemma nest_ok:
  assumes "entry_ok n NestLoop 2 0" "drain_ok n"
  shows "entry_ok (Suc n) SubmitNest 4 0"
  unfolding entry_ok_def
proof (intro allI impI)
  fix w and st :: tramp and p :: pending
  assume st: "owner st = Some p" "pending_ok p" and w: "fresh w"
    and fuel: "4 + fuel_acts (t_body (w_task w)) + queue_fuel (queue p) \<le> Suc n"
  let ?m = "fuel_acts (t_body (w_task w))"
  obtain st1 where s1: "(if queue p = [] then interp n (NestLoop w) st else Some (Ret (push_work w st)))
        = Some (Ret st1)" and r1: "run_ok (ev_task (w_task w)) (Suc ?m) st st1"
  proof (cases "queue p = []")
    case True
    then obtain st' where "interp n (NestLoop w) st = Some (Ret st')"
        "run_ok (ev_task (w_task w)) (0 + ?m) st st'"
      using assms(1) st w fuel unfolding entry_ok_def by fastforce
    then show ?thesis using that True run_ok_mono by fastforce
  next
    case False
    then show ?thesis using that run_ok_push [OF st w] by auto
  qed
  obtain p1 where p1: "owner st1 = Some p1" "pending_ok p1" using run_okD [OF r1] by auto
  have "1 + queue_fuel (queue p1) \<le> n" using run_ok_fuel [OF r1 st(1) p1(1)] fuel by simp
  then obtain st2 p2 where d: "interp n Drain st1 = Some (Ret st2)" "run_ok {#} 0 st1 st2"
      "owner st2 = Some p2" "queue p2 = []"
    using assms(2) p1 unfolding drain_ok_def by blast
  have "interp (Suc n) (SubmitNest w) st = Some (Ret st2)"
    using s1 d st by (cases "queue p = []") (simp_all add: submit_nest_def)
  moreover have "run_ok (ev_task (w_task w)) (0 + ?m) st st2"
    using run_ok_trans [OF r1 d(2)] st(1) d(3,4) by (auto simp: run_ok_def queue_fuel_def)
  ultimately show "\<exists>st'. interp (Suc n) (SubmitNest w) st = Some (Ret st') \<and>
      run_ok (ev_task (w_task w)) (0 + ?m) st st'" by blast
qed

lemma delegate_ok:
  assumes "body_ok n"
  shows "entry_ok (Suc n) SubmitDelegate 2 1"
  unfolding entry_ok_def
proof (intro allI impI)
  fix w and st :: tramp and p :: pending
  assume st: "owner st = Some p" "pending_ok p" and w: "fresh w"
    and fuel: "2 + fuel_acts (t_body (w_task w)) + queue_fuel (queue p) \<le> Suc n"
  let ?m = "fuel_acts (t_body (w_task w))"
  let ?st1 = "add_depth 1 st" and ?p1 = "p\<lparr>depth := depth p + 1\<rparr>"
  have o1: "owner ?st1 = Some ?p1" and io: "is_owned st"
    using st by (simp_all add: add_depth_def upd_owner_def is_owned_def)
  have cd: "current_depth ?st1 = depth p + 1" using o1 by (simp add: current_depth_def)
  show "\<exists>st'. interp (Suc n) (SubmitDelegate w) st = Some (Ret st') \<and>
      run_ok (ev_task (w_task w)) (1 + ?m) st st'"
  proof (cases "depth p + 1 > 100")
    case True
    have "add_depth (-1) (push_work w ?st1) = push_work w st"
      using st by (simp add: add_depth_def push_work_def upd_owner_def)
    then have "interp (Suc n) (SubmitDelegate w) st = Some (Ret (push_work w st))"
      using True io cd by (simp add: submit_delegate_def)
    then show ?thesis using run_ok_push [OF st w] by auto
  next
    case False
    have ok1: "pending_ok ?p1" using st False by (simp add: pending_ok_def)
    obtain w' st2 where d: "deliver_work (interp n) w ?st1 = Some (Ret (w', st2))"
        and r: "run_ok (ev_task (w_task w)) ?m ?st1 st2"
      using deliver_ok [OF assms o1 ok1 w] fuel by auto
    have "interp (Suc n) (SubmitDelegate w) st = Some (Ret (add_depth (-1) st2))"
      using False io cd d by (simp add: submit_delegate_def)
    moreover have "run_ok (ev_task (w_task w)) (1 + ?m) st (add_depth (-1) st2)"
      using r st by (auto simp: run_ok_def add_depth_def upd_owner_def pending_ok_def seen_def log_ok_def)
    ultimately show ?thesis by blast
  qed
qed

lemma exec_acts_ok:
  assumes dlg: "entry_ok n SubmitDelegate 2 1" and nst: "entry_ok n SubmitNest 4 0"
  shows "owner st = Some p \<Longrightarrow> pending_ok p \<Longrightarrow> norec_acts acts \<Longrightarrow>
     fuel_acts acts + queue_fuel (queue p) \<le> n \<Longrightarrow>
     \<exists>st'. exec_acts (interp n) acts st = Some (case raised acts of None \<Rightarrow> Ret st' | Some k \<Rightarrow> Thr k st') \<and>
        run_ok (ev_acts acts) (fuel_acts acts) st st'"
proof (induction acts arbitrary: st p)
  case Nil
  then show ?case by (auto intro: run_ok_refl)
next
  case (Cons a acts)
  show ?case
  proof (cases a)
    case (Emit k)
    have r1: "run_ok {#EvUser k#} 0 st (logged (EvUser k) st)"
      using run_ok_logged [OF Cons.prems(1,2), of "EvUser k"] by simp
    obtain st' where "exec_acts (interp n) acts (logged (EvUser k) st) =
          Some (case raised acts of None \<Rightarrow> Ret st' | Some k \<Rightarrow> Thr k st')"
        and r2: "run_ok (ev_acts acts) (fuel_acts acts) (logged (EvUser k) st) st'"
      using Cons.IH [of "logged (EvUser k) st" p] Cons.prems Emit by auto
    then show ?thesis using Emit run_ok_trans [OF r1 r2] by auto
  next
    case (Submit tg t)
    let ?w = "work_new t"
    have w: "fresh ?w" using Cons.prems Submit by (simp add: fresh_def work_new_def)
    obtain nm g body where t: "t = Task nm g body" by (cases t)
    have wt: "w_task ?w = t" "t_body (w_task ?w) = body" using t by (simp_all add: work_new_def)
    have fu: "4 + fuel_acts body + fuel_acts acts + queue_fuel (queue p) \<le> n"
      using Cons.prems(4) Submit t by simp
    obtain st1 where c: "interp n (case tg of OwnOrDelegate \<Rightarrow> SubmitDelegate ?w | OwnOrNest \<Rightarrow> SubmitNest ?w) st
          = Some (Ret st1)" and r1: "run_ok (ev_task t) (1 + fuel_acts body) st st1"
    proof (cases tg)
      case OwnOrDelegate
      then show ?thesis using that dlg Cons.prems(1,2) w wt fu unfolding entry_ok_def by fastforce
    next
      case OwnOrNest
      obtain st1 where "interp n (SubmitNest ?w) st = Some (Ret st1)"
          "run_ok (ev_task t) (0 + fuel_acts body) st st1"
        using nst Cons.prems(1,2) w wt fu unfolding entry_ok_def by fastforce
      then show ?thesis using that OwnOrNest run_ok_mono by fastforce
    qed
    obtain p1 where p1: "owner st1 = Some p1" "pending_ok p1" using run_okD [OF r1] by auto
    have "fuel_acts acts + queue_fuel (queue p1) \<le> n"
      using run_ok_fuel [OF r1 Cons.prems(1) p1(1)] fu by simp
    then obtain st' where s: "exec_acts (interp n) acts st1 =
          Some (case raised acts of None \<Rightarrow> Ret st' | Some k \<Rightarrow> Thr k st')"
        and r2: "run_ok (ev_acts acts) (fuel_acts acts) st1 st'"
      using Cons.IH [OF p1] Cons.prems Submit by auto
    have "run_ok (ev_task t + ev_acts acts) (fuel_task t + fuel_acts acts) st st'"
      by (rule run_ok_mono [OF run_ok_trans [OF r1 r2]]) (simp add: t)
    then show ?thesis using Submit c s by auto
  next
    case Recurse
    then show ?thesis using Cons.prems by simp
  next
    case (Raise k)
    then show ?thesis using Cons.prems run_ok_mono [OF run_ok_refl [OF Cons.prems(1,2)]] by auto
  qed
qed

lemma body_step_ok:
  assumes "entry_ok n SubmitDelegate 2 1" "entry_ok n SubmitNest 4 0"
  shows "body_ok (Suc n)"
  unfolding body_ok_def using exec_acts_ok [OF assms] by simp

lemma interp_ok:
  "body_ok n \<and> drain_ok n \<and> entry_ok n NestLoop 2 0 \<and> entry_ok n SubmitNest 4 0 \<and>
   entry_ok n SubmitDelegate 2 1"
proof (induction n)
  case 0
  show ?case by (simp add: body_ok_def drain_ok_def entry_ok_def)
next
  case (Suc n)
  then show ?case
    by (blast intro: body_step_ok drain_step_ok loop_ok nest_ok delegate_ok)
qed

section \<open>A submission on an idle thread\<close>

lemma top_nest:
  assumes "norec_task t" "owner st = None" "fuel_task t \<le> n"
  shows "\<exists>st' p'. interp n (SubmitNest (work_new t)) (take_owner st) = Some (Ret st') \<and>
     owner st' = Some p' \<and> queue p' = [] \<and> seen st' = seen st + ev_task t \<and> (log_ok st \<longrightarrow> log_ok st')"
proof -
  let ?p = "\<lparr>depth = 0, queue = [], repeat_flag = False\<rparr>"
  obtain nm g body where t: "t = Task nm g body" by (cases t)
  have o: "owner (take_owner st) = Some ?p" "pending_ok ?p"
    by (simp_all add: take_owner_def pending_ok_def)
  have w: "fresh (work_new t)" using assms(1) by (simp add: fresh_def work_new_def)
  obtain m where m: "n = Suc m" using assms(3) t by (cases n) auto
  have en: "entry_ok m NestLoop 2 0" "drain_ok m" using interp_ok by blast+
  obtain st1 where l: "interp m (NestLoop (work_new t)) (take_owner st) = Some (Ret st1)"
      and r1: "run_ok (ev_task t) (0 + fuel_acts body) (take_owner st) st1"
    using en(1) o w assms(3) t m unfolding entry_ok_def
    by (fastforce simp: work_new_def queue_fuel_def)
  obtain p1 where p1: "owner st1 = Some p1" "pending_ok p1" using run_okD [OF r1] by auto
  have "1 + queue_fuel (queue p1) \<le> m"
    using run_ok_fuel [OF r1 o(1) p1(1)] assms(3) t m by (simp add: queue_fuel_def)
  then obtain st2 p2 where d: "interp m Drain st1 = Some (Ret st2)" "run_ok {#} 0 st1 st2"
      "owner st2 = Some p2" "queue p2 = []"
    using en(2) p1 unfolding drain_ok_def by blast
  have r: "run_ok (ev_task t) (fuel_acts body) (take_owner st) st2"
    using run_ok_trans [OF r1 d(2)] by simp
  have "seen st2 = seen st + ev_task t" "log_ok st \<longrightarrow> log_ok st2"
    using r d(3,4) by (auto simp: run_ok_def take_owner_def seen_def log_ok_def queue_ev_def)
  moreover have "interp n (SubmitNest (work_new t)) (take_owner st) = Some (Ret st2)"
    using m l d(1) o(1) by (simp add: submit_nest_def)
  ultimately show ?thesis using d by blast
qed

lemma submit_total:
  assumes "norec_task t" "owner st = None" "fuel_task t + 2 \<le> n"
  shows "\<exists>st'. trampoline_submit n tg t st = Some (Ret st') \<and> owner st' = None \<and>
     seen st' = seen st + ev_task t \<and> (log_ok st \<longrightarrow> log_ok st')"
proof -
  have dlg: "\<exists>st'. interp k (SubmitDelegate (work_new t)) st = Some (Ret st') \<and> owner st' = None \<and>
     seen st' = seen st + ev_task t \<and> (log_ok st \<longrightarrow> log_ok st')" if k: "fuel_task t + 1 \<le> k" for k
  proof -
    obtain m where m: "k = Suc m" "fuel_task t \<le> m" using k by (cases k) auto
    obtain st1 p1 where 1: "interp m (SubmitNest (work_new t)) (take_owner st) = Some (Ret st1)"
        "owner st1 = Some p1" "queue p1 = []" "seen st1 = seen st + ev_task t" "log_ok st \<longrightarrow> log_ok st1"
      using top_nest [OF assms(1,2) m(2)] by blast
    have "interp k (SubmitDelegate (work_new t)) st = Some (Ret (st1\<lparr>owner := None\<rparr>))"
      using m 1 assms(2) by (simp add: submit_delegate_def is_owned_def release_owner_def)
    then show ?thesis using 1 by (auto simp: seen_def log_ok_def)
  qed
  show ?thesis
  proof (cases tg)
    case OwnOrDelegate
    then show ?thesis using dlg [of n] assms(3) by (simp add: trampoline_submit_def)
  next
    case OwnOrNest
    obtain m where m: "n = Suc m" "fuel_task t + 1 \<le> m" using assms(3) by (cases n) auto
    show ?thesis using dlg [OF m(2)] OwnOrNest m(1) assms(2)
      by (simp add: trampoline_submit_def submit_nest_def)
  qed
qed

section \<open>Properties of the trampoline\<close>

text \<open>
  C1: on an idle thread, a submission through the delegator or the nester returns (with the stated
  fuel), gives the thread back with an empty queue, and every receiver submitted on the way,
  however deep and through whichever executor, has received exactly one value signal and
  exactly its terminal signal.
\<close>

theorem trampoline_delivers:
  assumes "norec_task t" and "fuel_task t + 2 \<le> n"
  shows "\<exists>st'. trampoline_submit n tg t idle_thread = Some (Ret st') \<and> owner st' = None \<and>
     mset (map erase (log st')) = ev_task t"
  using submit_total [OF assms(1) _ assms(2), of idle_thread tg] by (auto simp: idle_thread_def seen_def)

definition example_task :: task where
  "example_task = Task 1 True [Emit 5, Submit OwnOrDelegate (Task 2 True [Emit 6]),
     Submit OwnOrNest (Task 3 True [Raise 9])]"

theorem trampoline_delivers_witness:
  "\<exists>st'. trampoline_submit 14 OwnOrDelegate example_task idle_thread = Some (Ret st') \<and> owner st' = None \<and>
     mset (map erase (log st')) =
       {#EvValue 1 0, EvUser 5, EvValue 2 0, EvUser 6, EvDone 2, EvValue 3 0, EvError 3 9, EvDone 1#}"
  using trampoline_delivers [of example_task 14 OwnOrDelegate]
  by (simp add: example_task_def ev_final_def add_mset_commute)

section \<open>The nesting of the values\<close>

text \<open>
  How many values are running after some events, each until the terminal signal of its receiver: for receivers with a
  guard, which get one terminal signal. \<open>delegated_task\<close>: a receiver of that kind that submits only through the delegator.
\<close>

fun open_change :: "event \<Rightarrow> int" where
  "open_change (EvValue nm d) = 1"
| "open_change (EvUser k) = 0"
| "open_change (EvError nm k) = - 1"
| "open_change (EvDone nm) = - 1"

definition open_values :: "event list \<Rightarrow> int" where
  "open_values es = sum_list (map open_change es)"

fun delegated_acts :: "act list \<Rightarrow> bool"
and delegated_task :: "task \<Rightarrow> bool" where
  "delegated_acts [] = True"
| "delegated_acts (Submit tg t # acts) = (tg = OwnOrDelegate \<and> delegated_task t \<and> delegated_acts acts)"
| "delegated_acts (Recurse # acts) = False"
| "delegated_acts (a # acts) = delegated_acts acts"
| "delegated_task (Task nm g acts) = (g \<and> delegated_acts acts)"

definition plain :: "work \<Rightarrow> bool" where
  "plain w \<longleftrightarrow> \<not> w_done w \<and> delegated_task (w_task w)"

text \<open>At depth \<open>d\<close>, with \<open>k\<close> values running, and never more than 101.\<close>

definition opened :: "int \<Rightarrow> event list \<Rightarrow> bool" where
  "opened k es \<longleftrightarrow> open_values es = k \<and> (\<forall>i. open_values (take i es) \<le> 101)"

definition level :: "int \<Rightarrow> int \<Rightarrow> tramp \<Rightarrow> bool" where
  "level d k st \<longleftrightarrow> (\<exists>p. owner st = Some p \<and> depth p = d \<and> 0 \<le> d \<and> d \<le> 100 \<and> \<not> repeat_flag p \<and>
     (\<forall>w \<in> set (queue p). plain w)) \<and> opened k (log st)"

definition keeps_level :: "nat \<Rightarrow> code \<Rightarrow> int \<Rightarrow> int \<Rightarrow> bool" where
  "keeps_level n co d k \<longleftrightarrow> (\<forall>st r. level d k st \<longrightarrow> interp n co st = Some r \<longrightarrow>
     (\<exists>st'. (r = Ret st' \<or> (\<exists>m. r = Thr m st')) \<and> level d k st'))"

lemma opened_snoc: "opened k es \<Longrightarrow> k + open_change e \<le> 101 \<Longrightarrow> opened (k + open_change e) (es @ [e])"
  by (auto simp: opened_def open_values_def take_Cons split: nat.split)

lemma level_logged: "level d k st \<Longrightarrow> k + open_change e \<le> 101 \<Longrightarrow> level d (k + open_change e) (logged e st)"
  by (auto simp: level_def opened_snoc)

lemma level_depth: "level d k st \<Longrightarrow> current_depth st = d \<and> 0 \<le> d \<and> d \<le> 100"
  by (auto simp: level_def current_depth_def)

lemma deliver_level:
  assumes body: "\<And>acts. delegated_acts acts \<Longrightarrow> keeps_level n (Body acts) d (d + 1)"
    and w: "plain w" and st: "level d d st" and r: "deliver_work (interp n) w st = Some r"
  shows "\<exists>w' st'. r = Ret (w', st') \<and> level d d st'"
proof -
  obtain nm acts where t: "w_task w = Task nm True acts" "delegated_acts acts" "\<not> w_done w"
    using w by (cases "w_task w") (auto simp: plain_def)
  let ?st = "logged (EvValue nm (current_depth st)) st"
  have l: "level d (d + 1) ?st" using level_logged [OF st, of "EvValue nm (current_depth st)"] level_depth [OF st] by simp
  have last: "level d d (logged e st1)" if "level d (d + 1) st1" "open_change e = - 1" for e st1
    using level_logged [OF that(1), of e] that(2) level_depth [OF that(1)] by simp
  obtain r1 where r1: "interp n (Body acts) ?st = Some r1"
    using r t by (cases "interp n (Body acts) ?st") (simp_all add: deliver_work_def work_value_def)
  obtain st1 where st1: "r1 = Ret st1 \<or> (\<exists>m. r1 = Thr m st1)" "level d (d + 1) st1"
    using body [OF t(2)] l r1 unfolding keeps_level_def by blast
  from st1(1) show ?thesis
  proof
    assume "r1 = Ret st1"
    then show ?thesis using r r1 t last [OF st1(2), of "EvDone nm"] by (auto simp: deliver_work_def work_value_def work_done_def)
  next
    assume "\<exists>m. r1 = Thr m st1"
    then obtain m where "r1 = Thr m st1" ..
    then show ?thesis using r r1 t last [OF st1(2), of "EvError nm m"]
      by (auto simp: deliver_work_def work_value_def work_error_def work_done_def)
  qed
qed

lemma level_upd:
  assumes "level d k st" "\<And>p. owner st = Some p \<Longrightarrow> depth (f p) = d' \<and> \<not> repeat_flag (f p) \<and> set (queue (f p)) \<subseteq> insert w (set (queue p))"
    and "0 \<le> d'" "d' \<le> 100" "plain w"
  shows "level d' k (upd_owner f st)"
proof -
  obtain p where "owner st = Some p" "\<forall>w \<in> set (queue p). plain w" "opened k (log st)"
    using assms(1) by (auto simp: level_def)
  moreover note assms(2) [OF this(1)]
  ultimately show ?thesis using assms(3-5) by (fastforce simp: level_def upd_owner_def)
qed

lemma delegate_level:
  assumes body: "\<And>acts d. delegated_acts acts \<Longrightarrow> keeps_level n (Body acts) d (d + 1)" and w: "plain w"
  shows "keeps_level (Suc n) (SubmitDelegate w) d (d + 1)"
  unfolding keeps_level_def
proof (intro allI impI)
  fix st r assume st: "level d (d + 1) st" and r: "interp (Suc n) (SubmitDelegate w) st = Some r"
  obtain p where p: "owner st = Some p" "depth p = d" "\<not> repeat_flag p" using st by (auto simp: level_def)
  have io: "is_owned st" "current_depth (add_depth 1 st) = d + 1"
    using p by (simp_all add: is_owned_def current_depth_def add_depth_def upd_owner_def)
  show "\<exists>st'. (r = Ret st' \<or> (\<exists>m. r = Thr m st')) \<and> level d (d + 1) st'"
  proof (cases "d + 1 > 100")
    case True
    have "add_depth (-1) (push_work w (add_depth 1 st)) = push_work w st"
      using p by (simp add: add_depth_def push_work_def upd_owner_def)
    then have "r = Ret (push_work w st)" using r io True by (simp add: submit_delegate_def)
    moreover have "level d (d + 1) (push_work w st)"
      unfolding push_work_def by (rule level_upd [OF st]) (use p level_depth [OF st] w in auto)
    ultimately show ?thesis by blast
  next
    case False
    have l: "level (d + 1) (d + 1) (add_depth 1 st)"
      unfolding add_depth_def by (rule level_upd [OF st]) (use p level_depth [OF st] False w in auto)
    obtain r1 where r1: "deliver_work (interp n) w (add_depth 1 st) = Some r1"
      using r io False by (cases "deliver_work (interp n) w (add_depth 1 st)") (simp_all add: submit_delegate_def)
    obtain w' st1 where st1: "r1 = Ret (w', st1)" "level (d + 1) (d + 1) st1"
      using deliver_level [OF body w l r1] by blast
    then have "r = Ret (add_depth (-1) st1)" using r io False r1 by (simp add: submit_delegate_def)
    moreover have "level d (d + 1) (add_depth (-1) st1)"
      unfolding add_depth_def by (rule level_upd [OF st1(2)]) (use st1(2) level_depth [OF st] w in \<open>auto simp: level_def\<close>)
    ultimately show ?thesis by blast
  qed
qed

lemma acts_level:
  assumes "\<And>w. plain w \<Longrightarrow> keeps_level n (SubmitDelegate w) d (d + 1)"
  shows "delegated_acts acts \<Longrightarrow> level d (d + 1) st \<Longrightarrow> exec_acts (interp n) acts st = Some r \<Longrightarrow>
    \<exists>st'. (r = Ret st' \<or> (\<exists>m. r = Thr m st')) \<and> level d (d + 1) st'"
proof (induction acts arbitrary: st)
  case (Cons a acts)
  show ?case
  proof (cases a)
    case (Emit k)
    have "level d (d + 1) (logged (EvUser k) st)"
      using level_logged [OF Cons.prems(2), of "EvUser k"] level_depth [OF Cons.prems(2)] by simp
    with Cons.IH [OF _ this] show ?thesis using Cons.prems Emit by simp
  next
    case (Submit tg t)
    then have t: "tg = OwnOrDelegate" "plain (work_new t)" "delegated_acts acts"
      using Cons.prems(1) by (simp_all add: plain_def work_new_def)
    obtain r1 where r1: "interp n (SubmitDelegate (work_new t)) st = Some r1"
      using Cons.prems(3) Submit t(1) by (cases "interp n (SubmitDelegate (work_new t)) st") simp_all
    obtain st1 where st1: "r1 = Ret st1 \<or> (\<exists>m. r1 = Thr m st1)" "level d (d + 1) st1"
      using assms [OF t(2)] Cons.prems(2) r1 unfolding keeps_level_def by blast
    then show ?thesis using Cons.prems(3) Submit t r1 Cons.IH [OF t(3) st1(2)] by auto
  qed (use Cons.prems in auto)
qed auto

lemma loop_level:
  assumes body: "\<And>acts. delegated_acts acts \<Longrightarrow> keeps_level n (Body acts) 0 1" and w: "plain w"
  shows "keeps_level (Suc n) (NestLoop w) 0 0"
  unfolding keeps_level_def
proof (intro allI impI)
  fix st r assume st: "level 0 0 st" and r: "interp (Suc n) (NestLoop w) st = Some r"
  let ?st = "upd_owner (\<lambda>p. p\<lparr>repeat_flag := False\<rparr>) st"
  have l: "level 0 0 ?st" by (rule level_upd [OF st]) (use st w in \<open>auto simp: level_def\<close>)
  obtain r1 where r1: "deliver_work (interp n) w ?st = Some r1"
    using r by (cases "deliver_work (interp n) w ?st") (simp_all add: nest_loop_def)
  obtain w' st1 where st1: "r1 = Ret (w', st1)" "level 0 0 st1"
    using deliver_level [of n 0, OF _ w l r1] body by auto
  then have "r = Ret st1" using r r1 by (auto simp: nest_loop_def level_def)
  then show "\<exists>st'. (r = Ret st' \<or> (\<exists>m. r = Thr m st')) \<and> level 0 0 st'" using st1(2) by blast
qed

lemma drain_level:
  assumes body: "\<And>acts. delegated_acts acts \<Longrightarrow> keeps_level n (Body acts) 0 1" and rest: "keeps_level n Drain 0 0"
  shows "keeps_level (Suc n) Drain 0 0"
  unfolding keeps_level_def
proof (intro allI impI)
  fix st r assume st: "level 0 0 st" and r: "interp (Suc n) Drain st = Some r"
  obtain p where p: "owner st = Some p" using st by (auto simp: level_def)
  show "\<exists>st'. (r = Ret st' \<or> (\<exists>m. r = Thr m st')) \<and> level 0 0 st'"
  proof (cases "queue p")
    case Nil
    then show ?thesis using r p st by (auto simp: drain_def)
  next
    case (Cons w ws)
    let ?st = "upd_owner (\<lambda>p. p\<lparr>queue := ws\<rparr>) st"
    have w: "plain w" using st p Cons by (auto simp: level_def)
    have l: "level 0 0 ?st" by (rule level_upd [OF st]) (use st w p Cons in \<open>auto simp: level_def\<close>)
    obtain r1 where r1: "deliver_work (interp n) w ?st = Some r1"
      using r p Cons by (cases "deliver_work (interp n) w ?st") (simp_all add: drain_def)
    obtain w' st1 where st1: "r1 = Ret (w', st1)" "level 0 0 st1"
      using deliver_level [of n 0, OF _ w l r1] body by auto
    then show ?thesis using r p Cons r1 rest unfolding keeps_level_def by (simp add: drain_def)
  qed
qed

lemma interp_level:
  "(\<forall>acts d. delegated_acts acts \<longrightarrow> keeps_level n (Body acts) d (d + 1)) \<and>
   (\<forall>w d. plain w \<longrightarrow> keeps_level n (SubmitDelegate w) d (d + 1)) \<and>
   (\<forall>w. plain w \<longrightarrow> keeps_level n (NestLoop w) 0 0) \<and> keeps_level n Drain 0 0"
proof (induction n)
  case 0
  show ?case by (simp add: keeps_level_def)
next
  case (Suc n)
  then have body: "\<And>acts d. delegated_acts acts \<Longrightarrow> keeps_level n (Body acts) d (d + 1)"
    and body0: "\<And>acts. delegated_acts acts \<Longrightarrow> keeps_level n (Body acts) 0 1"
    and dlg: "\<And>w d. plain w \<Longrightarrow> keeps_level n (SubmitDelegate w) d (d + 1)" and drain: "keeps_level n Drain 0 0"
    by (blast, metis add_0, blast, blast)
  have "keeps_level (Suc n) (Body acts) d (d + 1)" if "delegated_acts acts" for acts d
    unfolding keeps_level_def using acts_level [OF dlg that] by simp
  then show ?case using delegate_level [OF body] loop_level [OF body0] drain_level [OF body0 drain] by blast
qed

lemma submit_level:
  assumes "delegated_task t" "trampoline_submit n OwnOrDelegate t idle_thread = Some (Ret st')"
  shows "opened 0 (log st')"
proof -
  let ?w = "work_new t" and ?st = "take_owner idle_thread"
  obtain m where n: "n = Suc m" using assms(2) by (cases n) (simp_all add: trampoline_submit_def)
  have w: "plain ?w" using assms(1) by (simp add: plain_def work_new_def)
  have l: "level 0 0 ?st" by (simp add: level_def take_owner_def idle_thread_def opened_def open_values_def)
  obtain st1 where st1: "interp m (SubmitNest ?w) ?st = Some (Ret st1)" "log st' = log st1"
    using assms(2) n
    by (auto simp: trampoline_submit_def submit_delegate_def is_owned_def idle_thread_def release_owner_def fail_owner_def Let_def
        split: option.splits outcome.splits if_splits)
  then obtain k where k: "m = Suc k" by (cases m) simp_all
  obtain r1 where r1: "interp k (NestLoop ?w) ?st = Some r1"
    using st1(1) k by (cases "interp k (NestLoop ?w) ?st") (simp_all add: submit_nest_def take_owner_def)
  obtain st2 where st2: "r1 = Ret st2 \<or> (\<exists>j. r1 = Thr j st2)" "level 0 0 st2"
    using interp_level [of k] w l r1 unfolding keeps_level_def by blast
  then have "r1 = Ret st2" "interp k Drain st2 = Some (Ret st1)"
    using st1(1) k r1 by (auto simp: submit_nest_def take_owner_def)
  then have "level 0 0 st1" using interp_level [of k] st2(2) unfolding keeps_level_def by blast
  then show ?thesis using st1(2) by (simp add: level_def)
qed

text \<open>
  C31: The delegator bounds the recursion: the depth that it counts is never above 100 when a receiver is given a value,
  however deeply the submissions nest, and what would go deeper waits in the queue; so this \<open>int\<close> of the code cannot
  overflow. For guarded receivers that submit through the delegator only, this is the true nesting: at no moment have more than
  101 of them their \<open>value\<close> running. The nester does not count its calls, and its nesting has no bound
  (\<open>nester_unbounded\<close> in \<open>Trampoline_Programs\<close>).
\<close>

theorem trampoline_depth_bounded:
  assumes "norec_task t" and "fuel_task t + 2 \<le> n" and "trampoline_submit n tg t idle_thread = Some (Ret st')"
  shows "(\<forall>nm d. EvValue nm d \<in> set (log st') \<longrightarrow> 0 \<le> d \<and> d \<le> 100) \<and>
    (tg = OwnOrDelegate \<and> delegated_task t \<longrightarrow> (\<forall>i. open_values (take i (log st')) \<le> 101))"
proof
  show "\<forall>nm d. EvValue nm d \<in> set (log st') \<longrightarrow> 0 \<le> d \<and> d \<le> 100"
    using submit_total [OF assms(1) _ assms(2), of idle_thread tg] assms(3) by (fastforce simp: idle_thread_def log_ok_def)
  show "tg = OwnOrDelegate \<and> delegated_task t \<longrightarrow> (\<forall>i. open_values (take i (log st')) \<le> 101)"
    using submit_level assms(3) by (auto simp: opened_def)
qed

theorem trampoline_depth_bounded_witness:
  "\<exists>st'. trampoline_submit 10 OwnOrDelegate (Task 1 True [Submit OwnOrDelegate (Task 2 True [])]) idle_thread = Some (Ret st') \<and>
     (\<exists>d. EvValue 2 d \<in> set (log st') \<and> 0 \<le> d \<and> d \<le> 100) \<and> open_values (take 2 (log st')) \<le> 101 \<and>
     open_values (take 2 (log st')) = 2"
proof -
  let ?t = "Task 1 True [Submit OwnOrDelegate (Task 2 True [])]"
  let ?st = "\<lparr>owner = None, log = [EvValue 1 0, EvValue 2 1, EvDone 2, EvDone 1]\<rparr>"
  have run: "trampoline_submit 10 OwnOrDelegate ?t idle_thread = Some (Ret ?st)" by code_simp
  have bounds: "(\<forall>nm d. EvValue nm d \<in> set (log ?st) \<longrightarrow> 0 \<le> d \<and> d \<le> 100) \<and>
    (OwnOrDelegate = OwnOrDelegate \<and> delegated_task ?t \<longrightarrow> (\<forall>i. open_values (take i (log ?st)) \<le> 101))"
    by (rule trampoline_depth_bounded [OF _ _ run]) simp_all
  have "\<forall>i. open_values (take i (log ?st)) \<le> 101" by (rule bounds [THEN conjunct2, THEN mp]) simp
  then have "open_values (take 2 (log ?st)) \<le> 101" by (rule spec)
  with run show ?thesis by (intro exI [of _ ?st]) (auto simp: open_values_def numeral_2_eq_2)
qed

section \<open>\<open>repeat\<close>\<close>

lemma unguarded_repeat_loops:
  "owner st \<noteq> None \<Longrightarrow> t_guarded (w_task w) = False \<Longrightarrow> t_body (w_task w) = [Recurse] \<Longrightarrow>
   interp n (NestLoop w) st = None"
proof (induction n arbitrary: w st)
  case (Suc n)
  obtain p where p: "owner st = Some p" using Suc.prems by auto
  show ?case
  proof (cases n)
    case 0
    then show ?thesis using Suc.prems p
      by (simp add: nest_loop_def deliver_work_def work_value_def)
  next
    case (Suc m)
    have body: "interp n (Body [Recurse]) s = Some (Ret (upd_owner (\<lambda>p. p\<lparr>repeat_flag := True\<rparr>) s))"
      if "owner s \<noteq> None" for s
      using that Suc by (simp add: submit_recurse_def is_owned_def)
    have ih: "interp n (NestLoop v) s = None"
      if "owner s \<noteq> None" "t_guarded (w_task v) = False" "t_body (w_task v) = [Recurse]" for v s
      using Suc.IH that by blast
    show ?thesis using Suc.prems p
      by (simp add: nest_loop_def deliver_work_def work_value_def work_done_def body ih upd_owner_def)
  qed
qed simp

lemma unguarded_repeat_never_returns:
  assumes "owner st = None" "t_guarded (w_task w) = False" "t_body (w_task w) = [Recurse]"
  shows "interp n (SubmitNest w) (take_owner st) = None" "interp n (SubmitDelegate w) st = None"
    "interp n (SubmitNest w) st = None"
proof -
  have nest: "interp k (SubmitNest w) (take_owner st) = None" for k
    using assms unguarded_repeat_loops [of "take_owner st" w]
    by (cases k) (simp_all add: submit_nest_def take_owner_def)
  have dlg: "interp k (SubmitDelegate w) st = None" for k
    using assms(1) nest by (cases k) (simp_all add: submit_delegate_def is_owned_def)
  show "interp n (SubmitNest w) (take_owner st) = None" by (rule nest)
  show "interp n (SubmitDelegate w) st = None" by (rule dlg)
  show "interp n (SubmitNest w) st = None"
    using assms(1) dlg by (cases n) (simp_all add: submit_nest_def)
qed

text \<open>
  \<open>repeat\<close> and the receivers of the library. The loop of the nester sends done after every
  pass, so a guarded receiver that asks for a repeat is not given a second value; a receiver
  without a guard that always asks for one never lets the submission return, whatever the fuel.
\<close>

theorem repeat_behaviour:
  "trampoline_submit n tg (Task nm False [Recurse]) idle_thread = None \<and>
   trampoline_submit 8 tg (Task nm True [Recurse]) idle_thread =
     Some (Ret \<lparr>owner = None, log = [EvValue nm 0, EvDone nm]\<rparr>)"
proof
  show "trampoline_submit n tg (Task nm False [Recurse]) idle_thread = None"
    using unguarded_repeat_never_returns [of idle_thread "work_new (Task nm False [Recurse])" n]
    by (cases tg) (simp_all add: trampoline_submit_def idle_thread_def work_new_def)
  have "trampoline_submit 8 OwnOrDelegate (Task nm True [Recurse]) idle_thread =
      Some (Ret \<lparr>owner = None, log = [EvValue nm 0, EvDone nm]\<rparr>)"
    and "trampoline_submit 8 OwnOrNest (Task nm True [Recurse]) idle_thread =
      Some (Ret \<lparr>owner = None, log = [EvValue nm 0, EvDone nm]\<rparr>)"
    by code_simp+
  then show "trampoline_submit 8 tg (Task nm True [Recurse]) idle_thread =
      Some (Ret \<lparr>owner = None, log = [EvValue nm 0, EvDone nm]\<rparr>)"
    by (cases tg) simp_all
qed

end
