(* ===== verification/Extension_Points.thy ===== *)
theory Extension_Points
  imports Prelude
begin

text \<open>
  \<open>extension_points.h\<close>: the customization point objects through which every signal of the
  library is sent (\<open>set_value\<close>, \<open>set_error\<close>, \<open>set_done\<close>, \<open>set_starting\<close>), and the receivers
  that the header itself provides: a nullary function and \<open>std::promise\<close>. The interface
  \<open>signal_receiver\<close> states what the library's own receivers promise about the order of
  signals; its consequences are proved here once.
\<close>

section \<open>Receivers and signals\<close>

text \<open>
  A receiver type with object state \<open>'s\<close>: its member functions \<open>value\<close>, \<open>error\<close>, \<open>done\<close>
  and, for flow receivers, \<open>starting\<close> with an argument of type \<open>'u\<close>.
\<close>

record ('s, 'v, 'e) rcv =
  r_value :: "'v \<Rightarrow> 's call"
  r_error :: "'e error \<Rightarrow> 's call"
  r_done :: "'s call"

record ('s, 'v, 'e, 'u) flow_rcv = "('s, 'v, 'e) rcv" +
  r_starting :: "'u \<Rightarrow> 's call"

datatype ('v, 'e) signal = Value 'v | Error "'e error" | Done

fun is_terminal :: "('v, 'e) signal \<Rightarrow> bool" where
  "is_terminal (Value v) = False"
| "is_terminal (Error e) = True"
| "is_terminal Done = True"

section \<open>The customization point objects\<close>

text \<open>
  \<open>set_done_fn\<close>, \<open>set_value_fn\<close> and \<open>set_starting_fn\<close> are \<open>noexcept\<close>; an exception that the
  member function throws is sent to the same receiver's error channel as
  \<open>std::current_exception()\<close>. \<open>set_error_fn\<close> forwards.
\<close>

definition set_done :: "('s, 'v, 'e, 'x) rcv_scheme \<Rightarrow> 's call" where
  "set_done R = no_except (try_catch (r_done R) (\<lambda>ep. r_error R (Eptr ep)))"

definition set_error :: "('s, 'v, 'e, 'x) rcv_scheme \<Rightarrow> 'e error \<Rightarrow> 's call" where
  "set_error R e = r_error R e"

definition set_value :: "('s, 'v, 'e, 'x) rcv_scheme \<Rightarrow> 'v \<Rightarrow> 's call" where
  "set_value R v = no_except (try_catch (r_value R v) (\<lambda>ep. r_error R (Eptr ep)))"

definition set_starting :: "('s, 'v, 'e, 'u) flow_rcv \<Rightarrow> 'u \<Rightarrow> 's call" where
  "set_starting R up = no_except (try_catch (r_starting R up) (\<lambda>ep. r_error R (Eptr ep)))"

fun deliver :: "('s, 'v, 'e, 'x) rcv_scheme \<Rightarrow> ('v, 'e) signal \<Rightarrow> 's call" where
  "deliver R (Value v) = set_value R v"
| "deliver R (Error e) = set_error R e"
| "deliver R Done = set_done R"

definition deliver_all :: "('s, 'v, 'e, 'x) rcv_scheme \<Rightarrow> ('v, 'e) signal list \<Rightarrow> 's call" where
  "deliver_all R sigs = run_all (map (deliver R) sigs)"

lemma deliver_all_simps [simp]:
  "deliver_all R [] s = Ret s"
  "deliver_all R (x # xs) s = and_then (deliver R x) (deliver_all R xs) s"
  by (simp_all add: deliver_all_def)

lemma deliver_all_append:
  "deliver_all R (xs @ ys) = and_then (deliver_all R xs) (deliver_all R ys)"
  by (simp add: deliver_all_def run_all_append)

section \<open>A nullary function as a receiver\<close>

definition fn_receiver_done :: "'s call \<Rightarrow> 's call" where
  "fn_receiver_done f = no_except skip"

definition fn_receiver_error :: "'s call \<Rightarrow> 'e error \<Rightarrow> 's call" where
  "fn_receiver_error f e = no_except terminate"

definition fn_receiver_value :: "'s call \<Rightarrow> unit \<Rightarrow> 's call" where
  "fn_receiver_value f u = f"

definition fn_receiver :: "'s call \<Rightarrow> ('s, unit, 'e) rcv" where
  "fn_receiver f = \<lparr>r_value = fn_receiver_value f, r_error = fn_receiver_error f,
     r_done = fn_receiver_done f\<rparr>"

section \<open>\<open>std::promise\<close> as a receiver\<close>

text \<open>
  The shared state of a \<open>std::promise\<close>. Its documented behaviour: the first \<open>set_value\<close> or
  \<open>set_exception\<close> satisfies it; a second one throws \<open>future_error\<close> with
  \<open>promise_already_satisfied\<close>; destroying an unsatisfied promise stores \<open>broken_promise\<close>.
\<close>

datatype ('v, 'e) promise = Unset | PValue 'v | PError "'e error"

definition promise_already_satisfied :: nat where
  "promise_already_satisfied = 0"

definition broken_promise :: nat where
  "broken_promise = 1"

fun promise_store :: "('v, 'e) promise \<Rightarrow> ('v, 'e) promise call" where
  "promise_store p Unset = Ret p"
| "promise_store p q = Thr promise_already_satisfied q"

definition promise_done :: "('v, 'e) promise call" where
  "promise_done = no_except skip"

definition promise_error :: "'e error \<Rightarrow> ('v, 'e) promise call" where
  "promise_error e = no_except (promise_store (PError e))"

definition promise_value :: "'v \<Rightarrow> ('v, 'e) promise call" where
  "promise_value v = promise_store (PValue v)"

definition promise_receiver :: "(('v, 'e) promise, 'v, 'e) rcv" where
  "promise_receiver = \<lparr>r_value = promise_value, r_error = promise_error, r_done = promise_done\<rparr>"

text \<open>What \<open>future::get\<close> finds once the promise has been destroyed.\<close>

fun promise_drop :: "('v, 'e) promise \<Rightarrow> ('v, 'e) promise" where
  "promise_drop Unset = PError (Eptr (Exn broken_promise))"
| "promise_drop p = p"

section \<open>The interface of a terminal-guarded receiver\<close>

text \<open>
  What \<open>receiver<>\<close>, \<open>any_receiver\<close> and the flow receivers have in common: \<open>closed\<close> reads their
  \<open>done_\<close> flag, and once it is set every signal is ignored; the error and done signals set it
  before they run any handler.
\<close>

locale signal_receiver =
  fixes R :: "('s, 'v, 'e, 'x) rcv_scheme"
    and closed :: "'s \<Rightarrow> bool"
  assumes closed_value: "closed s \<Longrightarrow> r_value R v s = Ret s"
    and closed_error: "closed s \<Longrightarrow> r_error R e s = Ret s"
    and closed_done: "closed s \<Longrightarrow> r_done R s = Ret s"
    and error_nothrow: "r_error R e s \<noteq> Thr n t"
    and error_closes: "r_error R e s = Ret t \<Longrightarrow> closed t"
    and done_closes: "r_done R s = Ret t \<Longrightarrow> closed t"
    and done_throw_closes: "r_done R s = Thr n t \<Longrightarrow> closed t"
begin

lemma closed_deliver: "closed s \<Longrightarrow> deliver R sig s = Ret s"
  by (cases sig)
     (auto simp: set_value_def set_done_def set_error_def closed_value closed_error closed_done
       outcome_simps)

lemma closed_deliver_all: "closed s \<Longrightarrow> deliver_all R sigs s = Ret s"
  unfolding deliver_all_def by (rule run_all_all_skip) (auto simp: closed_deliver)

lemma set_done_eq:
  "set_done R s = (case r_done R s of Thr n t \<Rightarrow> Ret t | r \<Rightarrow> r)"
  by (cases "r_done R s")
     (auto simp: set_done_def outcome_simps closed_error dest: done_throw_closes)

lemma set_done_closes: "set_done R s = Ret t \<Longrightarrow> closed t"
  by (auto simp: set_done_eq dest: done_closes done_throw_closes split: outcome.splits)

lemma terminal_closes: "is_terminal sig \<Longrightarrow> deliver R sig s = Ret t \<Longrightarrow> closed t"
  by (cases sig) (auto simp: set_error_def dest: error_closes set_done_closes)

lemma set_value_throw_closes:
  "r_value R v s = Thr n u \<Longrightarrow> set_value R v s = Ret t \<Longrightarrow> closed t"
  by (auto simp: set_value_def outcome_simps no_except_def error_nothrow
      dest: error_closes split: outcome.splits)

lemma deliver_nothrow: "deliver R sig s \<noteq> Thr n t"
  by (cases sig) (auto simp: set_value_def set_done_def set_error_def error_nothrow)

lemma after_terminal:
  assumes "is_terminal sig"
  shows "deliver_all R (sig # sigs) s = deliver R sig s"
proof (cases "deliver R sig s")
  case (Ret t)
  with assms have "closed t" by (rule terminal_closes)
  with Ret show ?thesis by (simp add: and_then_def closed_deliver_all)
qed (auto simp: and_then_def)

end

text \<open>The prefix of a signal list up to and including its first terminal signal.\<close>

fun upto_terminal :: "('v, 'e) signal list \<Rightarrow> ('v, 'e) signal list" where
  "upto_terminal [] = []"
| "upto_terminal (x # xs) = (if is_terminal x then [x] else x # upto_terminal xs)"

lemma upto_terminal_idem [simp]: "upto_terminal (upto_terminal xs) = upto_terminal xs"
  by (induction xs) auto

context signal_receiver begin

lemma deliver_all_upto_terminal:
  "deliver_all R sigs s = deliver_all R (upto_terminal sigs) s"
proof (induction sigs arbitrary: s)
  case (Cons x xs)
  show ?case
  proof (cases "is_terminal x")
    case True
    then show ?thesis by (simp add: after_terminal del: deliver_all_simps(2)) 
  next
    case False
    then show ?thesis by (auto simp: and_then_def Cons.IH split: outcome.split)
  qed
qed simp

end

section \<open>What a promise receives\<close>

text \<open>
  The signals that reach a \<open>std::promise\<close> (done does not): none, one, or too many.
\<close>

fun promise_outcome :: "('v, 'e) signal list \<Rightarrow> ('v, 'e) promise outcome" where
  "promise_outcome [] = Ret Unset"
| "promise_outcome [Value v] = Ret (PValue v)"
| "promise_outcome [Error e] = Ret (PError e)"
| "promise_outcome sigs = Term"

lemmas promise_defs = promise_receiver_def promise_value_def promise_error_def promise_done_def

lemma promise_satisfied:
  assumes "p \<noteq> Unset"
  shows "deliver_all promise_receiver sigs p = (if \<forall>x \<in> set sigs. x = Done then Ret p else Term)"
proof (induction sigs)
  case (Cons x xs)
  have "deliver promise_receiver x p = (if x = Done then Ret p else Term)"
    using assms
    by (cases x; cases p)
       (auto simp: set_value_def set_error_def set_done_def promise_defs try_catch_def no_except_def)
  then show ?case using Cons by (auto simp: and_then_def)
qed simp

lemma promise_deliver_first:
  "deliver promise_receiver (Value v) Unset = Ret (PValue v)"
  "deliver promise_receiver (Error e) Unset = Ret (PError e)"
  "deliver promise_receiver Done p = Ret p"
  by (auto simp: set_value_def set_error_def set_done_def promise_defs try_catch_def no_except_def)

lemma promise_outcome_Cons:
  "promise_outcome (Value v # xs) = (if xs = [] then Ret (PValue v) else Term)"
  "promise_outcome (Error e # xs) = (if xs = [] then Ret (PError e) else Term)"
  by (cases xs; simp)+

text \<open>
  \<open>std::promise\<close> as a receiver, for every list of signals: done is ignored, a single value or
  error is stored, and any second value or error ends the program, because the
  \<open>future_error\<close> of the second store meets a \<open>noexcept\<close> error channel that stores again.
\<close>

lemma promise_signals_eq:
  "deliver_all promise_receiver sigs Unset = promise_outcome (filter (\<lambda>x. x \<noteq> Done) sigs)"
proof (induction sigs)
  case (Cons x xs)
  have filt: "filter (\<lambda>x. x \<noteq> Done) xs = [] \<longleftrightarrow> (\<forall>x \<in> set xs. x = Done)"
    by (auto simp: filter_empty_conv)
  show ?case
    by (cases x)
       (use Cons in \<open>auto simp: and_then_def promise_deliver_first promise_satisfied
         promise_outcome_Cons filt simp del: deliver.simps\<close>)
qed simp

end
