(* ===== verification/Receivers.thy ===== *)
theory Receivers
  imports Extension_Points
begin

text \<open>
  \<open>receiver.h\<close> and the function objects of \<open>boosters.h\<close> it is built from: the receiver made of
  three functions, the receiver that wraps another one (\<open>receiver<Data, DVF, DEF, DDF>\<close>) and the
  default functions. The three functions of a receiver are given as one record of calls on the
  state they capture (or, for the wrapping receiver, on the wrapped receiver's state).
\<close>

section \<open>The default functions of \<open>boosters.h\<close>\<close>

definition ignoreVF :: "'v \<Rightarrow> 's call" where
  "ignoreVF v = skip"

definition abortEF :: "'e error \<Rightarrow> 's call" where
  "abortEF e = no_except terminate"

definition ignoreDF :: "'s call" where
  "ignoreDF = skip"

definition ignoreStrtF :: "'u \<Rightarrow> 's call" where
  "ignoreStrtF up = skip"

definition passDVF :: "('s, 'v, 'e, 'x) rcv_scheme \<Rightarrow> 'v \<Rightarrow> 's call" where
  "passDVF D v = set_value D v"

definition passDEF :: "('s, 'v, 'e, 'x) rcv_scheme \<Rightarrow> 'e error \<Rightarrow> 's call" where
  "passDEF D e = no_except (set_error D e)"

definition passDDF :: "('s, 'v, 'e, 'x) rcv_scheme \<Rightarrow> 's call" where
  "passDDF D = set_done D"

definition passDStrtF :: "('s, 'v, 'e, 'u) flow_rcv \<Rightarrow> 'u \<Rightarrow> 's call" where
  "passDStrtF D up = set_starting D up"

section \<open>\<open>receiver<VF, EF, DF>\<close>\<close>

record 's receiver_st =
  rs_done :: bool
  rs_data :: 's

abbreviation on_data :: "'s call \<Rightarrow> 's receiver_st call" where
  "on_data f \<equiv> on_member rs_data (\<lambda>s st. st\<lparr>rs_data := s\<rparr>) f"

definition receiver_new :: "'s \<Rightarrow> 's receiver_st" where
  "receiver_new s = \<lparr>rs_done = False, rs_data = s\<rparr>"

definition receiver_fn_value :: "('s, 'v, 'e) rcv \<Rightarrow> 'v \<Rightarrow> 's receiver_st call" where
  "receiver_fn_value F v st = (if rs_done st then Ret st else on_data (r_value F v) st)"

definition receiver_fn_error :: "('s, 'v, 'e) rcv \<Rightarrow> 'e error \<Rightarrow> 's receiver_st call" where
  "receiver_fn_error F e = no_except (\<lambda>st.
     if \<not> rs_done st then on_data (r_error F e) (st\<lparr>rs_done := True\<rparr>) else Ret st)"

definition receiver_fn_done :: "('s, 'v, 'e) rcv \<Rightarrow> 's receiver_st call" where
  "receiver_fn_done F st =
     (if \<not> rs_done st then on_data (r_done F) (st\<lparr>rs_done := True\<rparr>) else Ret st)"

definition receiver_fn :: "('s, 'v, 'e) rcv \<Rightarrow> ('s receiver_st, 'v, 'e) rcv" where
  "receiver_fn F = \<lparr>r_value = receiver_fn_value F, r_error = receiver_fn_error F,
     r_done = receiver_fn_done F\<rparr>"

text \<open>\<open>receiver<>\<close>: values and done are ignored, an error ends the program.\<close>

definition receiver_empty :: "('s receiver_st, 'v, 'e) rcv" where
  "receiver_empty = receiver_fn \<lparr>r_value = ignoreVF, r_error = abortEF, r_done = ignoreDF\<rparr>"

section \<open>\<open>receiver<Data, DVF, DEF, DDF>\<close>\<close>

text \<open>The record \<open>F\<close> holds \<open>DVF\<close>, \<open>DEF\<close> and \<open>DDF\<close>, as calls on the wrapped data.\<close>

definition receiver_data_value :: "('d, 'v, 'e) rcv \<Rightarrow> 'v \<Rightarrow> 'd receiver_st call" where
  "receiver_data_value F v st = (if \<not> rs_done st then on_data (r_value F v) st else Ret st)"

definition receiver_data_error :: "('d, 'v, 'e) rcv \<Rightarrow> 'e error \<Rightarrow> 'd receiver_st call" where
  "receiver_data_error F e = no_except (\<lambda>st.
     if \<not> rs_done st then on_data (r_error F e) (st\<lparr>rs_done := True\<rparr>) else Ret st)"

definition receiver_data_done :: "('d, 'v, 'e) rcv \<Rightarrow> 'd receiver_st call" where
  "receiver_data_done F st =
     (if \<not> rs_done st then on_data (r_done F) (st\<lparr>rs_done := True\<rparr>) else Ret st)"

definition receiver_data :: "('d, 'v, 'e) rcv \<Rightarrow> ('d receiver_st, 'v, 'e) rcv" where
  "receiver_data F = \<lparr>r_value = receiver_data_value F, r_error = receiver_data_error F,
     r_done = receiver_data_done F\<rparr>"

text \<open>All three functions defaulted: \<open>make_receiver(Data)\<close>.\<close>

definition receiver_pass :: "('d, 'v, 'e, 'x) rcv_scheme \<Rightarrow> ('d receiver_st, 'v, 'e) rcv" where
  "receiver_pass D = receiver_data \<lparr>r_value = passDVF D, r_error = passDEF D, r_done = passDDF D\<rparr>"

section \<open>Both are terminal-guarded receivers\<close>

lemmas receiver_fn_defs =
  receiver_fn_def receiver_fn_value_def receiver_fn_error_def receiver_fn_done_def
lemmas receiver_data_defs =
  receiver_data_def receiver_data_value_def receiver_data_error_def receiver_data_done_def

lemma receiver_data_eq_fn: "receiver_data F = receiver_fn F"
  by (auto simp: receiver_data_defs receiver_fn_defs fun_eq_iff)

interpretation rfn: signal_receiver "receiver_fn F" rs_done for F
  by unfold_locales (auto simp: receiver_fn_defs no_except_def on_member_def split: outcome.splits if_splits)

interpretation rdata: signal_receiver "receiver_data F" rs_done for F
  by (simp add: receiver_data_eq_fn rfn.signal_receiver_axioms)

text \<open>
  What reaches the wrapped functions: the calls made by a signal list, seen on the data alone.
  \<open>push_signals F sigs\<close> runs the functions of \<open>F\<close> directly; a value function that throws turns
  the rest of the list into one error, a done function that throws is a silent end.
\<close>

fun push_signals :: "('s, 'v, 'e) rcv \<Rightarrow> ('v, 'e) signal list \<Rightarrow> 's call" where
  "push_signals F [] s = Ret s"
| "push_signals F (Value v # sigs) s =
     (case r_value F v s of
        Ret t \<Rightarrow> push_signals F sigs t
      | Thr n t \<Rightarrow> no_except (r_error F (Eptr (Exn n))) t
      | Term \<Rightarrow> Term | UB \<Rightarrow> UB)"
| "push_signals F (Error e # sigs) s = no_except (r_error F e) s"
| "push_signals F (Done # sigs) s =
     (case r_done F s of Ret t \<Rightarrow> Ret t | Thr n t \<Rightarrow> Ret t | Term \<Rightarrow> Term | UB \<Rightarrow> UB)"

lemma receiver_fn_open:
  assumes "\<not> rs_done st"
  shows
  "r_value (receiver_fn F) v st = map_outcome (\<lambda>s. st\<lparr>rs_data := s\<rparr>) (r_value F v (rs_data st))"
  "r_error (receiver_fn F) e st =
     map_outcome (\<lambda>s. st\<lparr>rs_done := True, rs_data := s\<rparr>) (no_except (r_error F e) (rs_data st))"
  "r_done (receiver_fn F) st =
     map_outcome (\<lambda>s. st\<lparr>rs_done := True, rs_data := s\<rparr>) (r_done F (rs_data st))"
  using assms
  by (auto simp: receiver_fn_defs on_member_def no_except_def split: outcome.splits)

lemma receiver_fn_push:
  "\<not> rs_done st \<Longrightarrow>
   map_outcome rs_data (deliver_all (receiver_fn F) sigs st) = push_signals F sigs (rs_data st)"
proof (induction sigs arbitrary: st)
  case Nil
  then show ?case by simp
next
  case (Cons sig sigs)
  show ?case
  proof (cases sig)
    case (Value v)
    show ?thesis
    proof (cases "r_value F v (rs_data st)")
      case (Ret s)
      then have "set_value (receiver_fn F) v st = Ret (st\<lparr>rs_data := s\<rparr>)"
        using Cons.prems by (simp add: set_value_def receiver_fn_open outcome_simps)
      then show ?thesis using Value Ret Cons.prems Cons.IH [of "st\<lparr>rs_data := s\<rparr>"]
        by (simp add: and_then_def)
    next
      case (Thr n s)
      let ?e = "Eptr (Exn n)"
      have "set_value (receiver_fn F) v st = no_except (r_error (receiver_fn F) ?e) (st\<lparr>rs_data := s\<rparr>)"
        using Thr Cons.prems
        by (simp add: set_value_def receiver_fn_open try_catch_def no_except_def)
      then have *: "set_value (receiver_fn F) v st =
          map_outcome (\<lambda>t. st\<lparr>rs_data := t, rs_done := True\<rparr>) (no_except (r_error F ?e) s)"
        using Cons.prems by (simp add: receiver_fn_open no_except_def split: outcome.split)
      show ?thesis
        using Value Thr
        by (cases "r_error F ?e s") (auto simp: * outcome_simps and_then_def rfn.closed_deliver_all)
    qed (use Value Cons.prems in \<open>auto simp: set_value_def receiver_fn_open outcome_simps and_then_def\<close>)
  next
    case (Error e)
    then show ?thesis using Cons.prems
      by (cases "r_error F e (rs_data st)")
         (auto simp: set_error_def receiver_fn_open outcome_simps and_then_def rfn.closed_deliver_all)
  next
    case Done
    then show ?thesis using Cons.prems
      by (cases "r_done F (rs_data st)")
         (auto simp: rfn.set_done_eq receiver_fn_open and_then_def rfn.closed_deliver_all)
  qed
qed

lemma push_signals_upto_terminal: "push_signals F (upto_terminal sigs) s = push_signals F sigs s"
  by (induction F sigs s rule: push_signals.induct) (auto split: outcome.split)

lemma receiver_data_push:
  "\<not> rs_done st \<Longrightarrow>
   map_outcome rs_data (deliver_all (receiver_data F) sigs st) = push_signals F sigs (rs_data st)"
  by (simp add: receiver_data_eq_fn receiver_fn_push)

section \<open>Properties of \<open>receiver<>\<close>\<close>

text \<open>
  C10: whatever signals a sender sends, in whatever order, the three functions of a new
  \<open>receiver<VF, EF, DF>\<close> are called exactly as if it had been sent the prefix up to the first error
  or done: the values in order, then one terminal function; a value function that throws turns
  into one error and ends the sequence.
\<close>

theorem receiver_contract:
  "map_outcome rs_data (deliver_all (receiver_fn F) sigs (receiver_new s)) =
   push_signals F (upto_terminal sigs) s"
  by (simp add: receiver_fn_push push_signals_upto_terminal receiver_new_def)

text \<open>
  the wrapping \<open>receiver<Data, DVF, DEF, DDF>\<close> guards its data in the same way.
\<close>

theorem receiver_data_contract:
  "map_outcome rs_data (deliver_all (receiver_data F) sigs (receiver_new d)) =
   push_signals F (upto_terminal sigs) d"
  by (simp add: receiver_data_push push_signals_upto_terminal receiver_new_def)

text \<open>
  an exception thrown by the done function of a receiver is lost: \<open>set_done\<close> catches it and
  sends it to the error channel, but the receiver has set \<open>done_\<close> before it ran the function,
  so the error function is not called and the call returns.
\<close>

theorem done_exception_dropped:
  assumes "r_done F s = Thr n s'"
  shows "set_done (receiver_fn F) (receiver_new s) = Ret \<lparr>rs_done = True, rs_data = s'\<rparr>"
  using assms by (simp add: rfn.set_done_eq receiver_fn_open receiver_new_def)

definition throwing_done :: "(nat list, nat, nat) rcv" where
  "throwing_done = \<lparr>r_value = (\<lambda>v s. Ret (s @ [v])), r_error = (\<lambda>e s. Ret (s @ [99])), r_done = (\<lambda>s. Thr 7 (s @ [1]))\<rparr>"

theorem done_exception_dropped_witness:
  "set_done (receiver_fn throwing_done) (receiver_new [5]) = Ret \<lparr>rs_done = True, rs_data = [5, 1]\<rparr>"
  using done_exception_dropped [of throwing_done "[5]" 7 "[5, 1]"] by (simp add: throwing_done_def)

end
