(* ===== verification/Type_Erasure.thy ===== *)
theory Type_Erasure
  imports Extension_Points
begin

text \<open>
  The storage shared by the type-erased classes (\<open>any_receiver\<close>, \<open>any_flow_receiver\<close>, the
  \<open>any_..._sender\<close> and \<open>any_..._executor\<close> classes): a union of a heap pointer and an in-place
  buffer, and a pointer to a table of functions that says which of the two is live. The heap is
  explicit, so that leaks, double deletes and reads of a dead object are visible.
\<close>

section \<open>Heap and union\<close>

record 'w mem =
  cells :: "nat \<Rightarrow> 'w option"
  next_cell :: nat

definition mem_ok :: "'w mem \<Rightarrow> bool" where
  "mem_ok m \<longleftrightarrow> (\<forall>a. cells m a \<noteq> None \<longrightarrow> a < next_cell m)"

definition mem_new :: "'w \<Rightarrow> 'w mem \<Rightarrow> nat \<times> 'w mem" where
  "mem_new w m = (next_cell m, \<lparr>cells = (cells m)(next_cell m \<mapsto> w), next_cell = Suc (next_cell m)\<rparr>)"

text \<open>\<open>delete p\<close>: nothing for a null pointer, undefined for a pointer to no live object.\<close>

fun mem_delete :: "nat option \<Rightarrow> 'w mem call" where
  "mem_delete None m = Ret m"
| "mem_delete (Some a) m = (case cells m a of None \<Rightarrow> UB | Some w \<Rightarrow> Ret (m\<lparr>cells := (cells m)(a := None)\<rparr>))"

text \<open>The \<open>union data\<close>: \<open>Raw\<close> is a buffer whose object has been destroyed.\<close>

datatype 'w adata = Pobj "nat option" | Buf 'w | Raw

datatype vtable = NoopVT | HeapVT | InsituVT

record 'w box =
  bx_data :: "'w adata"
  bx_vptr :: vtable

definition box_empty :: "'w box" where
  "box_empty = \<lparr>bx_data = Pobj None, bx_vptr = NoopVT\<rparr>"

text \<open>
  The \<open>op_\<close> entries: \<open>op(src, dst)\<close> moves the object to \<open>dst\<close> when there is one, then destroys
  what is left in \<open>src\<close>. The result is the memory, the new \<open>src\<close> and the new \<open>dst\<close>.
\<close>

type_synonym 'w op_result = "('w mem \<times> 'w adata \<times> 'w adata option) outcome"

definition op_noop :: "'w mem \<Rightarrow> 'w adata \<Rightarrow> 'w adata option \<Rightarrow> 'w op_result" where
  "op_noop m src dst = Ret (m, src, dst)"

fun op_heap :: "'w mem \<Rightarrow> 'w adata \<Rightarrow> 'w adata option \<Rightarrow> 'w op_result" where
  "op_heap m (Pobj p) (Some d) =
     map_outcome (\<lambda>m'. (m', Pobj None, Some (Pobj p))) (mem_delete None m)"
| "op_heap m (Pobj p) None = map_outcome (\<lambda>m'. (m', Pobj p, None)) (mem_delete p m)"
| "op_heap m d dst = UB"

fun op_insitu :: "'w mem \<Rightarrow> 'w adata \<Rightarrow> 'w adata option \<Rightarrow> 'w op_result" where
  "op_insitu m (Buf w) (Some d) = Ret (m, Raw, Some (Buf w))"
| "op_insitu m (Buf w) None = Ret (m, Raw, None)"
| "op_insitu m d dst = UB"

fun vtable_op :: "vtable \<Rightarrow> 'w mem \<Rightarrow> 'w adata \<Rightarrow> 'w adata option \<Rightarrow> 'w op_result" where
  "vtable_op NoopVT = op_noop"
| "vtable_op HeapVT = op_heap"
| "vtable_op InsituVT = op_insitu"

section \<open>Construction, move, destruction, call\<close>

definition box_new :: "bool \<Rightarrow> 'w \<Rightarrow> 'w mem \<Rightarrow> 'w mem \<times> 'w box" where
  "box_new insitu w m =
     (if insitu then (m, \<lparr>bx_data = Buf w, bx_vptr = InsituVT\<rparr>)
      else let (a, m') = mem_new w m in (m', \<lparr>bx_data = Pobj (Some a), bx_vptr = HeapVT\<rparr>))"

text \<open>The move constructor: the new object starts empty, takes the data, then the tables swap.\<close>

definition box_move :: "'w mem \<Rightarrow> 'w box \<Rightarrow> ('w mem \<times> 'w box \<times> 'w box) outcome" where
  "box_move m that =
     map_outcome (\<lambda>(m', src, dst).
        (m', \<lparr>bx_data = (case dst of None \<Rightarrow> Pobj None | Some d \<Rightarrow> d), bx_vptr = bx_vptr that\<rparr>,
         \<lparr>bx_data = src, bx_vptr = NoopVT\<rparr>))
       (vtable_op (bx_vptr that) m (bx_data that) (Some (bx_data box_empty)))"

definition box_destroy :: "'w mem \<Rightarrow> 'w box \<Rightarrow> ('w mem \<times> 'w box) outcome" where
  "box_destroy m b =
     map_outcome (\<lambda>(m', src, dst). (m', b\<lparr>bx_data := src\<rparr>)) (vtable_op (bx_vptr b) m (bx_data b) None)"

text \<open>Move assignment destroys the target, then move-constructs into it.\<close>

definition box_assign :: "'w mem \<Rightarrow> 'w box \<Rightarrow> 'w box \<Rightarrow> ('w mem \<times> 'w box \<times> 'w box) outcome" where
  "box_assign m this that =
     (case box_destroy m this of
        Ret (m', d) \<Rightarrow> box_move m' that
      | Thr n x \<Rightarrow> UB | Term \<Rightarrow> Term | UB \<Rightarrow> UB)"

text \<open>A call through the table: on the no-op table the given default, else on the wrapped object.\<close>

fun box_call :: "('w mem \<times> 'w box) call \<Rightarrow> 'w call \<Rightarrow> ('w mem \<times> 'w box) call" where
  "box_call noop f (m, b) =
     (case (bx_vptr b, bx_data b) of
        (NoopVT, d) \<Rightarrow> noop (m, b)
      | (HeapVT, Pobj (Some a)) \<Rightarrow>
          (case cells m a of
             Some w \<Rightarrow> map_outcome (\<lambda>w'. (m\<lparr>cells := (cells m)(a \<mapsto> w')\<rparr>, b)) (f w)
           | None \<Rightarrow> UB)
      | (InsituVT, Buf w) \<Rightarrow> map_outcome (\<lambda>w'. (m, b\<lparr>bx_data := Buf w'\<rparr>)) (f w)
      | _ \<Rightarrow> UB)"

section \<open>What a box holds\<close>

fun box_obj :: "'w mem \<Rightarrow> 'w box \<Rightarrow> 'w option" where
  "box_obj m b = (case (bx_vptr b, bx_data b) of
      (HeapVT, Pobj (Some a)) \<Rightarrow> cells m a
    | (InsituVT, Buf w) \<Rightarrow> Some w
    | _ \<Rightarrow> None)"

text \<open>A box is live when its table and its data agree; the heap cell it owns, if any.\<close>

definition box_live :: "'w mem \<Rightarrow> 'w box \<Rightarrow> bool" where
  "box_live m b \<longleftrightarrow> bx_vptr b = NoopVT \<or> box_obj m b \<noteq> None"

fun box_cell :: "'w box \<Rightarrow> nat option" where
  "box_cell b = (case (bx_vptr b, bx_data b) of (HeapVT, Pobj p) \<Rightarrow> p | _ \<Rightarrow> None)"

text \<open>The live cells of the heap, the measure of what would leak.\<close>

definition live_cells :: "'w mem \<Rightarrow> nat set" where
  "live_cells m = {a. cells m a \<noteq> None}"

lemmas box_defs = box_new_def mem_new_def box_move_def box_destroy_def box_live_def op_noop_def
  box_empty_def live_cells_def

lemma box_empty_obj [simp]: "box_obj m box_empty = None" "box_live m box_empty"
  by (simp_all add: box_defs)

lemma box_cases:
  assumes "box_live m b"
  obtains (noop) "bx_vptr b = NoopVT"
    | (heap) a w where "b = \<lparr>bx_data = Pobj (Some a), bx_vptr = HeapVT\<rparr>" "cells m a = Some w"
    | (insitu) w where "b = \<lparr>bx_data = Buf w, bx_vptr = InsituVT\<rparr>"
  using assms
  by (cases b; cases "bx_vptr b"; cases "bx_data b")
     (auto simp: box_live_def split: option.splits)

lemma box_new_obj:
  assumes "box_new insitu w m = (m', b)"
  shows "box_obj m' b = Some w" "box_live m' b"
  using assms by (auto simp: box_defs split: if_splits)

lemma box_new_cells:
  assumes "mem_ok m" "box_new insitu w m = (m', b)"
  shows "live_cells m' = live_cells m \<union> set_option (box_cell b)"
    and "set_option (box_cell b) \<inter> live_cells m = {}" and "mem_ok m'"
  using assms by (auto simp: box_defs mem_ok_def less_Suc_eq split: if_splits)

lemma box_move_live:
  assumes "box_live m b" "bx_vptr b \<noteq> NoopVT"
  shows "\<exists>new old. box_move m b = Ret (m, new, old) \<and> box_obj m new = box_obj m b \<and>
           box_cell new = box_cell b \<and> bx_vptr new = bx_vptr b \<and>
           bx_vptr old = NoopVT \<and> box_cell old = None"
  using assms(1) by (cases rule: box_cases) (use assms in \<open>auto simp: box_defs\<close>)

lemma box_move_empty:
  "bx_vptr b = NoopVT \<Longrightarrow> box_move m b = Ret (m, box_empty, b)"
  by (simp add: box_defs)

lemma box_destroy_live:
  assumes "box_live m b"
  shows "\<exists>m' b'. box_destroy m b = Ret (m', b') \<and>
           live_cells m' = live_cells m - set_option (box_cell b)"
  using assms by (cases rule: box_cases) (auto simp: box_defs)

text \<open>
  The call on a live, non-empty box is the call on the object it holds, whichever
  representation was chosen.
\<close>

lemma box_call_obj:
  assumes "box_obj m b = Some w"
  shows "box_call noop f (m, b) =
      (case f w of
         Ret w' \<Rightarrow> Ret (if bx_vptr b = InsituVT then (m, b\<lparr>bx_data := Buf w'\<rparr>)
                        else (m\<lparr>cells := (cells m)(the (box_cell b) \<mapsto> w')\<rparr>, b))
       | Thr n w' \<Rightarrow> Thr n (if bx_vptr b = InsituVT then (m, b\<lparr>bx_data := Buf w'\<rparr>)
                        else (m\<lparr>cells := (cells m)(the (box_cell b) \<mapsto> w')\<rparr>, b))
       | Term \<Rightarrow> Term | UB \<Rightarrow> UB)"
  using assms
  by (cases b; cases "f w"; cases "bx_vptr b"; cases "bx_data b") (auto split: option.splits)

lemma box_call_abs:
  assumes "box_obj m b = Some w"
  shows "map_outcome (\<lambda>(m', b'). box_obj m' b') (box_call noop f (m, b)) = map_outcome Some (f w)"
  using assms
  by (cases b; cases "f w"; cases "bx_vptr b"; cases "bx_data b") (auto split: option.splits)

lemma box_call_noop: "bx_vptr b = NoopVT \<Longrightarrow> box_call noop f (m, b) = noop (m, b)"
  by simp

declare box_call.simps [simp del] box_obj.simps [simp del] box_cell.simps [simp del]

end
