(* ===== verification/Any_Receiver.thy ===== *)
theory Any_Receiver
  imports Receivers Type_Erasure
begin

text \<open>
  \<open>any_receiver\<close> of \<open>receiver.h\<close>: a type-erased receiver with its own \<open>done_\<close> flag, over the
  storage of \<open>Type_Erasure\<close>. \<open>R\<close> is the wrapped receiver's type, \<open>'w\<close> its objects.
\<close>

section \<open>State and operations\<close>

record 'w any_receiver_st =
  ar_done :: bool
  ar_box :: "'w box"

type_synonym 'w any_world = "'w mem \<times> 'w any_receiver_st"

definition any_receiver_empty :: "'w any_receiver_st" where
  "any_receiver_empty = \<lparr>ar_done = False, ar_box = box_empty\<rparr>"

definition any_receiver_new :: "bool \<Rightarrow> 'w \<Rightarrow> 'w mem \<Rightarrow> 'w any_world" where
  "any_receiver_new insitu w m =
     (let (m', b) = box_new insitu w m in (m', \<lparr>ar_done = False, ar_box = b\<rparr>))"

definition any_receiver_move ::
  "'w mem \<Rightarrow> 'w any_receiver_st \<Rightarrow> ('w mem \<times> 'w any_receiver_st \<times> 'w any_receiver_st) outcome" where
  "any_receiver_move m that =
     map_outcome (\<lambda>(m', new, old). (m', any_receiver_empty\<lparr>ar_box := new\<rparr>, that\<lparr>ar_box := old\<rparr>))
       (box_move m (ar_box that))"

definition any_receiver_destroy :: "'w mem \<Rightarrow> 'w any_receiver_st \<Rightarrow> 'w any_world outcome" where
  "any_receiver_destroy m st =
     map_outcome (\<lambda>(m', b). (m', st\<lparr>ar_box := b\<rparr>)) (box_destroy m (ar_box st))"

definition any_receiver_assign ::
  "'w mem \<Rightarrow> 'w any_receiver_st \<Rightarrow> 'w any_receiver_st \<Rightarrow>
   ('w mem \<times> 'w any_receiver_st \<times> 'w any_receiver_st) outcome" where
  "any_receiver_assign m this that =
     (case any_receiver_destroy m this of
        Ret (m', d) \<Rightarrow> any_receiver_move m' that
      | Thr n x \<Rightarrow> UB | Term \<Rightarrow> Term | UB \<Rightarrow> UB)"

text \<open>A call through the table of an \<open>any_receiver\<close>.\<close>

definition ar_call :: "('w mem \<times> 'w box) call \<Rightarrow> 'w call \<Rightarrow> 'w any_world call" where
  "ar_call noop f = (\<lambda>(m, st).
     map_outcome (\<lambda>(m', b). (m', st\<lparr>ar_box := b\<rparr>)) (box_call noop f (m, ar_box st)))"

text \<open>
  The signals, whose arguments are first converted to the value type (\<open>VN{(AN&&)vn}...\<close>) and to the error type
  (\<open>E{(A&&)e}\<close>) of the \<open>any_receiver\<close>: \<open>cv\<close> and \<open>ce\<close> are these conversions, which may throw.
\<close>

definition any_receiver_value :: "('a \<Rightarrow> nat + 'v) \<Rightarrow> ('w, 'v, 'e, 'x) rcv_scheme \<Rightarrow> 'a \<Rightarrow> 'w any_world call" where
  "any_receiver_value cv R a = (\<lambda>(m, st).
     if \<not> ar_done st
     then (case cv a of Inl n \<Rightarrow> Thr n (m, st) | Inr v \<Rightarrow> ar_call skip (set_value R v) (m, st))
     else Ret (m, st))"

definition any_receiver_error ::
  "('b error \<Rightarrow> nat + 'e error) \<Rightarrow> ('w, 'v, 'e, 'x) rcv_scheme \<Rightarrow> 'b error \<Rightarrow> 'w any_world call" where
  "any_receiver_error ce R a = no_except (\<lambda>(m, st).
     if \<not> ar_done st
     then (case ce a of
             Inl n \<Rightarrow> Thr n (m, st\<lparr>ar_done := True\<rparr>)
           | Inr e \<Rightarrow> ar_call terminate (no_except (set_error R e)) (m, st\<lparr>ar_done := True\<rparr>))
     else Ret (m, st))"

definition any_receiver_done :: "('w, 'v, 'e, 'x) rcv_scheme \<Rightarrow> 'w any_world call" where
  "any_receiver_done R = (\<lambda>(m, st).
     if \<not> ar_done st then ar_call skip (set_done R) (m, st\<lparr>ar_done := True\<rparr>) else Ret (m, st))"

definition any_receiver_from ::
  "('a \<Rightarrow> nat + 'v) \<Rightarrow> ('b error \<Rightarrow> nat + 'e error) \<Rightarrow> ('w, 'v, 'e, 'x) rcv_scheme \<Rightarrow> ('w any_world, 'a, 'b) rcv" where
  "any_receiver_from cv ce R = \<lparr>r_value = any_receiver_value cv R, r_error = any_receiver_error ce R,
     r_done = any_receiver_done R\<rparr>"

text \<open>With arguments that are of the value and error types already.\<close>

abbreviation any_receiver :: "('w, 'v, 'e, 'x) rcv_scheme \<Rightarrow> ('w any_world, 'v, 'e) rcv" where
  "any_receiver \<equiv> any_receiver_from Inr Inr"

lemmas any_receiver_defs = any_receiver_from_def any_receiver_value_def any_receiver_error_def
  any_receiver_done_def

section \<open>The receiver contract\<close>

definition ar_closed :: "'w any_world \<Rightarrow> bool" where
  "ar_closed s = ar_done (snd s)"

lemma ar_call_done:
  "ar_call noop f (m, st) = Ret (m', st') \<Longrightarrow> ar_done st' = ar_done st"
  "ar_call noop f (m, st) = Thr n (m', st') \<Longrightarrow> ar_done st' = ar_done st"
  by (auto simp: ar_call_def)

interpretation anyr: signal_receiver "any_receiver_from cv ce R" ar_closed for cv ce R
proof
  fix s t e n
  show "r_error (any_receiver_from cv ce R) e s \<noteq> Thr n t"
    by (cases s) (simp add: any_receiver_defs)
  show "ar_closed t" if "r_error (any_receiver_from cv ce R) e s = Ret t"
    using that
    by (cases s; cases t) (auto simp: any_receiver_defs ar_closed_def dest!: ar_call_done split: if_splits sum.splits)
  show "ar_closed t" if "r_done (any_receiver_from cv ce R) s = Ret t"
    using that
    by (cases s; cases t) (auto simp: any_receiver_defs ar_closed_def dest!: ar_call_done split: if_splits sum.splits)
  show "ar_closed t" if "r_done (any_receiver_from cv ce R) s = Thr n t"
    using that
    by (cases s; cases t) (auto simp: any_receiver_defs ar_closed_def dest!: ar_call_done split: if_splits sum.splits)
qed (auto simp: any_receiver_defs ar_closed_def no_except_def split: sum.splits)

section \<open>Erasure is transparent\<close>

definition ar_obj :: "'w any_world \<Rightarrow> 'w option" where
  "ar_obj s = box_obj (fst s) (ar_box (snd s))"

text \<open>The three forwarding calls on the wrapped receiver, as \<open>receiver_pass\<close> makes them.\<close>

definition pass_rcv :: "('w, 'v, 'e, 'x) rcv_scheme \<Rightarrow> ('w, 'v, 'e) rcv" where
  "pass_rcv R = \<lparr>r_value = passDVF R, r_error = passDEF R, r_done = passDDF R\<rparr>"

lemma receiver_pass_eq: "receiver_pass D = receiver_data (pass_rcv D)"
  by (simp add: receiver_pass_def pass_rcv_def)

lemma ar_call_obj:
  assumes "box_obj m (ar_box st) = Some w"
  shows "map_outcome (\<lambda>s. (ar_obj s, ar_done (snd s))) (ar_call noop f (m, st)) =
         map_outcome (\<lambda>w'. (Some w', ar_done st)) (f w)"
proof -
  have "map_outcome (\<lambda>s. (ar_obj s, ar_done (snd s))) (ar_call noop f (m, st)) =
     map_outcome (\<lambda>x. (x, ar_done st)) (map_outcome (\<lambda>(m', b). box_obj m' b) (box_call noop f (m, ar_box st)))"
    by (auto simp: ar_call_def ar_obj_def map_outcome_comp case_prod_beta)
  then show ?thesis
    by (simp only: box_call_abs [OF assms] map_outcome_comp)
qed

text \<open>The same calls on the converted arguments, and on arguments that need no conversion.\<close>

definition converted_rcv ::
  "('a \<Rightarrow> nat + 'v) \<Rightarrow> ('b error \<Rightarrow> nat + 'e error) \<Rightarrow> ('w, 'v, 'e, 'x) rcv_scheme \<Rightarrow> ('w, 'a, 'b) rcv" where
  "converted_rcv cv ce R = \<lparr>
     r_value = (\<lambda>a s. case cv a of Inl n \<Rightarrow> Thr n s | Inr v \<Rightarrow> passDVF R v s),
     r_error = (\<lambda>a s. case ce a of Inl n \<Rightarrow> Thr n s | Inr e \<Rightarrow> passDEF R e s),
     r_done = passDDF R\<rparr>"

lemma converted_rcv_same: "receiver_data (converted_rcv Inr Inr R) = receiver_pass R"
  by (simp add: converted_rcv_def receiver_pass_def)

text \<open>The observation under which \<open>any_receiver\<close> and \<open>receiver_pass\<close> are compared.\<close>

definition ar_view :: "'w any_world \<Rightarrow> 'w option \<times> bool" where
  "ar_view s = (ar_obj s, ar_done (snd s))"

definition rs_view :: "'w receiver_st \<Rightarrow> 'w option \<times> bool" where
  "rs_view st = (Some (rs_data st), rs_done st)"

lemma outcome_sim_and_then:
  assumes "map_outcome va (f s) = map_outcome vb (g t)"
    and "\<And>s' t'. va s' = vb t' \<Longrightarrow> map_outcome va (f' s') = map_outcome vb (g' t')"
  shows "map_outcome va (and_then f f' s) = map_outcome vb (and_then g g' t)"
  using assms by (cases "f s"; cases "g t") (auto simp: and_then_def)

lemma outcome_sim_no_except:
  "map_outcome va (f s) = map_outcome vb (g t) \<Longrightarrow>
   map_outcome va (no_except f s) = map_outcome vb (no_except g t)"
  by (cases "f s"; cases "g t") (auto simp: no_except_def)

lemma outcome_sim_try_catch:
  assumes "map_outcome va (f s) = map_outcome vb (g t)"
    and "\<And>ep s' t'. va s' = vb t' \<Longrightarrow> map_outcome va (h ep s') = map_outcome vb (h' ep t')"
  shows "map_outcome va (try_catch f h s) = map_outcome vb (try_catch g h' t)"
  using assms by (cases "f s"; cases "g t") (auto simp: try_catch_def)

lemma views_open:
  "ar_view (m, st) = rs_view t \<Longrightarrow> ar_done st = rs_done t \<and> box_obj m (ar_box st) = Some (rs_data t)"
  by (auto simp: ar_view_def rs_view_def ar_obj_def)

lemma any_receiver_sim_ops:
  assumes v: "ar_view s = rs_view t"
  shows "map_outcome ar_view (r_value (any_receiver_from cv ce R) v s) = map_outcome rs_view (r_value (receiver_data (converted_rcv cv ce R)) v t)"
    and "map_outcome ar_view (r_error (any_receiver_from cv ce R) e s) = map_outcome rs_view (r_error (receiver_data (converted_rcv cv ce R)) e t)"
    and "map_outcome ar_view (r_done (any_receiver_from cv ce R) s) = map_outcome rs_view (r_done (receiver_data (converted_rcv cv ce R)) t)"
proof -
  obtain m st where s: "s = (m, st)" by (cases s)
  have d: "ar_done st = rs_done t" and o: "box_obj m (ar_box st) = Some (rs_data t)"
    using views_open v s by auto
  have call: "map_outcome ar_view (ar_call noop f (m, st\<lparr>ar_done := b\<rparr>)) =
      map_outcome rs_view (on_data f (t\<lparr>rs_done := b\<rparr>))" for noop f b
    using ar_call_obj [of m "st\<lparr>ar_done := b\<rparr>" "rs_data t" noop f] o
    by (simp add: ar_view_def [abs_def] rs_view_def on_member_def map_outcome_comp)
  have call': "map_outcome ar_view (ar_call noop f (m, st)) = map_outcome rs_view (on_data f t)" for noop f
  proof -
    have "st\<lparr>ar_done := rs_done t\<rparr> = st" and "t\<lparr>rs_done := rs_done t\<rparr> = t" using d by simp_all
    then show ?thesis using call [of noop f "rs_done t"] by metis
  qed
  show "map_outcome ar_view (r_value (any_receiver_from cv ce R) v s) = map_outcome rs_view (r_value (receiver_data (converted_rcv cv ce R)) v t)"
    using d v s by (simp add: converted_rcv_def any_receiver_defs receiver_data_defs passDVF_def call' on_member_def split: sum.split)
  show "map_outcome ar_view (r_error (any_receiver_from cv ce R) e s) = map_outcome rs_view (r_error (receiver_data (converted_rcv cv ce R)) e t)"
    unfolding s any_receiver_defs converted_rcv_def receiver_data_defs rcv.select_convs
    by (rule outcome_sim_no_except) (use d v s o in \<open>cases "ce e"; simp add: passDEF_def call on_member_def ar_view_def rs_view_def ar_obj_def\<close>)
  show "map_outcome ar_view (r_done (any_receiver_from cv ce R) s) = map_outcome rs_view (r_done (receiver_data (converted_rcv cv ce R)) t)"
    using d v s by (simp add: converted_rcv_def any_receiver_defs receiver_data_defs passDDF_def call)
qed

lemma any_receiver_sim_deliver:
  assumes "ar_view s = rs_view t"
  shows "map_outcome ar_view (deliver (any_receiver_from cv ce R) sig s) = map_outcome rs_view (deliver (receiver_data (converted_rcv cv ce R)) sig t)"
  by (cases sig)
     (auto simp: set_value_def set_done_def set_error_def assms any_receiver_sim_ops
       intro!: outcome_sim_no_except outcome_sim_try_catch)

lemma any_receiver_sim:
  "ar_view s = rs_view t \<Longrightarrow>
   map_outcome ar_view (deliver_all (any_receiver_from cv ce R) sigs s) =
   map_outcome rs_view (deliver_all (receiver_data (converted_rcv cv ce R)) sigs t)"
  by (induction sigs arbitrary: s t)
     (auto simp: any_receiver_sim_deliver intro!: outcome_sim_and_then)

lemma any_receiver_new_view:
  "ar_view (any_receiver_new insitu w m) = rs_view (receiver_new w)"
  by (cases "box_new insitu w m")
     (simp add: any_receiver_new_def ar_view_def rs_view_def ar_obj_def receiver_new_def box_new_obj)

section \<open>Moving\<close>

lemma any_receiver_move_live:
  assumes "ar_obj (m, st) = Some w"
  shows "\<exists>new old. any_receiver_move m st = Ret (m, new, old) \<and>
     ar_obj (m, new) = Some w \<and> \<not> ar_done new \<and>
     bx_vptr (ar_box old) = NoopVT \<and> ar_done old = ar_done st \<and> box_cell (ar_box new) = box_cell (ar_box st)"
proof -
  have live: "box_live m (ar_box st)" and nn: "bx_vptr (ar_box st) \<noteq> NoopVT"
    using assms by (auto simp: ar_obj_def box_live_def box_obj.simps)
  obtain new old where mv: "box_move m (ar_box st) = Ret (m, new, old)" "box_obj m new = box_obj m (ar_box st)"
      "box_cell new = box_cell (ar_box st)" "bx_vptr old = NoopVT"
    using box_move_live [OF live nn] by blast
  then show ?thesis
    using assms by (simp add: any_receiver_move_def any_receiver_empty_def ar_obj_def)
qed

section \<open>Properties of \<open>any_receiver\<close>\<close>

lemma any_receiver_pass_sim:
  "ar_view s = rs_view t \<Longrightarrow>
   map_outcome ar_view (deliver_all (any_receiver R) sigs s) = map_outcome rs_view (deliver_all (receiver_pass R) sigs t)"
  using any_receiver_sim [of s t Inr Inr R sigs] by (simp add: converted_rcv_same)

text \<open>
  C23: An \<open>any_receiver\<close> that is made of a receiver, in its buffer or on the heap, and not moved after a signal, reacts
  to every list of signals as \<open>make_receiver\<close> of the wrapped receiver does with the converted arguments: same outcome, same
  \<open>done_\<close> flag, same state of the wrapped object, whether it gets them itself or was moved before the first one. With no
  conversions this is \<open>make_receiver\<close> itself.
\<close>

theorem any_receiver_transparent:
  "map_outcome ar_view (deliver_all (any_receiver_from cv ce R) sigs (any_receiver_new insitu w m)) =
     map_outcome rs_view (deliver_all (receiver_data (converted_rcv cv ce R)) sigs (receiver_new w)) \<and>
   (case any_receiver_new insitu w m of (m', a) \<Rightarrow> \<exists>new old. any_receiver_move m' a = Ret (m', new, old) \<and>
     map_outcome ar_view (deliver_all (any_receiver_from cv ce R) sigs (m', new)) =
       map_outcome rs_view (deliver_all (receiver_data (converted_rcv cv ce R)) sigs (receiver_new w))) \<and>
   receiver_data (converted_rcv Inr Inr Q) = receiver_pass Q"
proof -
  obtain m' a where n: "any_receiver_new insitu w m = (m', a)" by (cases "any_receiver_new insitu w m")
  have v: "ar_view (m', a) = rs_view (receiver_new w)" using any_receiver_new_view [of insitu w m] n by simp
  then have "ar_obj (m', a) = Some w" by (simp add: ar_view_def rs_view_def receiver_new_def)
  from any_receiver_move_live [OF this] obtain new old where
    mv: "any_receiver_move m' a = Ret (m', new, old)" "ar_obj (m', new) = Some w" "\<not> ar_done new" by blast
  then have "ar_view (m', new) = rs_view (receiver_new w)" by (simp add: ar_view_def rs_view_def receiver_new_def)
  from any_receiver_sim [OF this, of cv ce R sigs] any_receiver_sim [OF v, of cv ce R sigs] show ?thesis
    using n mv(1) by (simp add: converted_rcv_same)
qed

text \<open>
  the move constructor moves the object without copying or leaking, and empties its source,
  but it does not move the \<open>done_\<close> flag: the new \<open>any_receiver\<close> is open again.
\<close>

theorem any_receiver_move_reopens:
  assumes "ar_obj (m, st) = Some w"
  shows "\<exists>new old. any_receiver_move m st = Ret (m, new, old) \<and>
     ar_obj (m, new) = Some w \<and> ar_obj (m, old) = None \<and>
     box_cell (ar_box new) = box_cell (ar_box st) \<and> \<not> ar_done new \<and> ar_done old = ar_done st"
  using any_receiver_move_live [OF assms] by (auto simp: ar_obj_def box_obj.simps)

theorem any_receiver_move_reopens_witness:
  "\<exists>new old. any_receiver_move \<lparr>cells = Map.empty, next_cell = 0\<rparr>
       \<lparr>ar_done = True, ar_box = \<lparr>bx_data = Buf (3::nat), bx_vptr = InsituVT\<rparr>\<rparr> =
     Ret (\<lparr>cells = Map.empty, next_cell = 0\<rparr>, new, old) \<and> \<not> ar_done new \<and> ar_done old"
  using any_receiver_move_reopens [of "\<lparr>cells = Map.empty, next_cell = 0\<rparr>"
      "\<lparr>ar_done = True, ar_box = \<lparr>bx_data = Buf (3::nat), bx_vptr = InsituVT\<rparr>\<rparr>" 3]
  by (auto simp: ar_obj_def box_obj.simps)

text \<open>
  no leak and no double delete: constructing an \<open>any_receiver\<close>, moving it and destroying both
  objects never hits a dead object, and leaves the heap with the cells it had before.
\<close>

theorem any_receiver_no_leak:
  assumes "mem_ok m"
  shows "\<exists>m1 a new old m2 a2 m3 a3.
     any_receiver_new insitu w m = (m1, a) \<and> any_receiver_move m1 a = Ret (m1, new, old) \<and>
     any_receiver_destroy m1 old = Ret (m2, a2) \<and> any_receiver_destroy m2 new = Ret (m3, a3) \<and>
     live_cells m3 = live_cells m"
proof -
  obtain m1 a where n: "any_receiver_new insitu w m = (m1, a)" by (cases "any_receiver_new insitu w m")
  then have b: "box_new insitu w m = (m1, ar_box a)"
    by (auto simp: any_receiver_new_def split: prod.splits)
  have o: "ar_obj (m1, a) = Some w" using box_new_obj(1) [OF b] by (simp add: ar_obj_def)
  obtain new old where mv: "any_receiver_move m1 a = Ret (m1, new, old)" "ar_obj (m1, new) = Some w"
      "bx_vptr (ar_box old) = NoopVT" "box_cell (ar_box new) = box_cell (ar_box a)"
    using any_receiver_move_live [OF o] by blast
  have d1: "any_receiver_destroy m1 old = Ret (m1, old)"
    using mv(3) by (simp add: any_receiver_destroy_def box_destroy_def op_noop_def)
  have "box_live m1 (ar_box new)" using mv(2) by (simp add: box_live_def ar_obj_def)
  then obtain m3 b3 where d2: "box_destroy m1 (ar_box new) = Ret (m3, b3)"
      "live_cells m3 = live_cells m1 - set_option (box_cell (ar_box new))"
    using box_destroy_live by blast
  have "live_cells m3 = live_cells m"
    using d2(2) mv(4) box_new_cells(1,2) [OF assms b] by auto
  then show ?thesis using n mv(1) d1 d2(1) by (auto simp: any_receiver_destroy_def)
qed

theorem any_receiver_no_leak_witness:
  "\<exists>m1 a new old m2 a2 m3 a3.
     any_receiver_new False (4::nat) \<lparr>cells = Map.empty, next_cell = 0\<rparr> = (m1, a) \<and>
     any_receiver_move m1 a = Ret (m1, new, old) \<and>
     any_receiver_destroy m1 old = Ret (m2, a2) \<and> any_receiver_destroy m2 new = Ret (m3, a3) \<and>
     live_cells m3 = live_cells \<lparr>cells = (Map.empty :: nat \<Rightarrow> nat option), next_cell = 0\<rparr>"
  by (rule any_receiver_no_leak) (simp add: mem_ok_def)

end
