(* ===== verification/Flow_Receivers.thy ===== *)
theory Flow_Receivers
  imports Any_Receiver
begin

text \<open>
  \<open>flow_receiver.h\<close>: the receivers of flow senders, which are told with \<open>starting\<close> how to reach
  the sender before any other signal. \<open>flow_receiver<VF, EF, DF, StrtF>\<close>,
  \<open>flow_receiver<Data, ...>\<close> and \<open>any_flow_receiver\<close> check that order with a \<open>started_\<close> flag.
\<close>

section \<open>\<open>flow_receiver<VF, EF, DF, StrtF>\<close>\<close>

record 's flow_st =
  fs_done :: bool
  fs_started :: bool
  fs_data :: 's

abbreviation on_fdata :: "'s call \<Rightarrow> 's flow_st call" where
  "on_fdata f \<equiv> on_member fs_data (\<lambda>s st. st\<lparr>fs_data := s\<rparr>) f"

definition flow_new :: "'s \<Rightarrow> 's flow_st" where
  "flow_new s = \<lparr>fs_done = False, fs_started = False, fs_data = s\<rparr>"

definition flow_fn_value :: "('s, 'v, 'e, 'u) flow_rcv \<Rightarrow> 'v \<Rightarrow> 's flow_st call" where
  "flow_fn_value F v st =
     (if \<not> fs_started st then Term
      else if fs_done st then Ret st
      else on_fdata (r_value F v) st)"

definition flow_fn_error :: "('s, 'v, 'e, 'u) flow_rcv \<Rightarrow> 'e error \<Rightarrow> 's flow_st call" where
  "flow_fn_error F e = no_except (\<lambda>st.
     if \<not> fs_started st then Term
     else if fs_done st then Ret st
     else on_fdata (r_error F e) (st\<lparr>fs_done := True\<rparr>))"

definition flow_fn_done :: "('s, 'v, 'e, 'u) flow_rcv \<Rightarrow> 's flow_st call" where
  "flow_fn_done F st =
     (if \<not> fs_started st then Term
      else if fs_done st then Ret st
      else on_fdata (r_done F) (st\<lparr>fs_done := True\<rparr>))"

definition flow_fn_starting :: "('s, 'v, 'e, 'u) flow_rcv \<Rightarrow> 'u \<Rightarrow> 's flow_st call" where
  "flow_fn_starting F up st =
     (if fs_started st then Term else on_fdata (r_starting F up) (st\<lparr>fs_started := True\<rparr>))"

definition flow_fn :: "('s, 'v, 'e, 'u) flow_rcv \<Rightarrow> ('s flow_st, 'v, 'e, 'u) flow_rcv" where
  "flow_fn F = \<lparr>r_value = flow_fn_value F, r_error = flow_fn_error F, r_done = flow_fn_done F,
     r_starting = flow_fn_starting F\<rparr>"

text \<open>\<open>flow_receiver<>\<close>.\<close>

definition flow_empty :: "('s flow_st, 'v, 'e, 'u) flow_rcv" where
  "flow_empty = flow_fn \<lparr>r_value = ignoreVF, r_error = abortEF, r_done = ignoreDF,
     r_starting = ignoreStrtF\<rparr>"

section \<open>\<open>flow_receiver<Data, DVF, DEF, DDF, DStrtF>\<close>\<close>

definition flow_data_value :: "('d, 'v, 'e, 'u) flow_rcv \<Rightarrow> 'v \<Rightarrow> 'd flow_st call" where
  "flow_data_value F v st =
     (if \<not> fs_started st then Term
      else if fs_done st then Ret st
      else on_fdata (r_value F v) st)"

definition flow_data_error :: "('d, 'v, 'e, 'u) flow_rcv \<Rightarrow> 'e error \<Rightarrow> 'd flow_st call" where
  "flow_data_error F e = no_except (\<lambda>st.
     if \<not> fs_started st then Term
     else if fs_done st then Ret st
     else on_fdata (r_error F e) (st\<lparr>fs_done := True\<rparr>))"

definition flow_data_done :: "('d, 'v, 'e, 'u) flow_rcv \<Rightarrow> 'd flow_st call" where
  "flow_data_done F st =
     (if \<not> fs_started st then Term
      else if fs_done st then Ret st
      else on_fdata (r_done F) (st\<lparr>fs_done := True\<rparr>))"

definition flow_data_starting :: "('d, 'v, 'e, 'u) flow_rcv \<Rightarrow> 'u \<Rightarrow> 'd flow_st call" where
  "flow_data_starting F up st =
     (if fs_started st then Term else on_fdata (r_starting F up) (st\<lparr>fs_started := True\<rparr>))"

definition flow_data :: "('d, 'v, 'e, 'u) flow_rcv \<Rightarrow> ('d flow_st, 'v, 'e, 'u) flow_rcv" where
  "flow_data F = \<lparr>r_value = flow_data_value F, r_error = flow_data_error F, r_done = flow_data_done F,
     r_starting = flow_data_starting F\<rparr>"

definition flow_pass_fns :: "('d, 'v, 'e, 'u) flow_rcv \<Rightarrow> ('d, 'v, 'e, 'u) flow_rcv" where
  "flow_pass_fns D = \<lparr>r_value = passDVF D, r_error = passDEF D, r_done = passDDF D,
     r_starting = passDStrtF D\<rparr>"

definition flow_pass :: "('d, 'v, 'e, 'u) flow_rcv \<Rightarrow> ('d flow_st, 'v, 'e, 'u) flow_rcv" where
  "flow_pass D = flow_data (flow_pass_fns D)"

section \<open>\<open>any_flow_receiver\<close>\<close>

record 'w any_flow_st =
  af_done :: bool
  af_started :: bool
  af_box :: "'w box"

type_synonym 'w any_flow_world = "'w mem \<times> 'w any_flow_st"

definition any_flow_empty :: "'w any_flow_st" where
  "any_flow_empty = \<lparr>af_done = False, af_started = False, af_box = box_empty\<rparr>"

definition any_flow_new :: "bool \<Rightarrow> 'w \<Rightarrow> 'w mem \<Rightarrow> 'w any_flow_world" where
  "any_flow_new insitu w m =
     (let (m', b) = box_new insitu w m in (m', any_flow_empty\<lparr>af_box := b\<rparr>))"

definition any_flow_move ::
  "'w mem \<Rightarrow> 'w any_flow_st \<Rightarrow> ('w mem \<times> 'w any_flow_st \<times> 'w any_flow_st) outcome" where
  "any_flow_move m that =
     map_outcome (\<lambda>(m', new, old). (m', any_flow_empty\<lparr>af_box := new\<rparr>, that\<lparr>af_box := old\<rparr>))
       (box_move m (af_box that))"

definition any_flow_destroy :: "'w mem \<Rightarrow> 'w any_flow_st \<Rightarrow> 'w any_flow_world outcome" where
  "any_flow_destroy m st =
     map_outcome (\<lambda>(m', b). (m', st\<lparr>af_box := b\<rparr>)) (box_destroy m (af_box st))"

definition af_call :: "('w mem \<times> 'w box) call \<Rightarrow> 'w call \<Rightarrow> 'w any_flow_world call" where
  "af_call noop f = (\<lambda>(m, st).
     map_outcome (\<lambda>(m', b). (m', st\<lparr>af_box := b\<rparr>)) (box_call noop f (m, af_box st)))"

definition any_flow_value :: "('w, 'v, 'e, 'u) flow_rcv \<Rightarrow> 'v \<Rightarrow> 'w any_flow_world call" where
  "any_flow_value R v = (\<lambda>(m, st).
     if \<not> af_started st then Term
     else if af_done st then Ret (m, st)
     else af_call skip (set_value R v) (m, st))"

definition any_flow_error :: "('w, 'v, 'e, 'u) flow_rcv \<Rightarrow> 'e error \<Rightarrow> 'w any_flow_world call" where
  "any_flow_error R e = no_except (\<lambda>(m, st).
     if \<not> af_started st then Term
     else if af_done st then Ret (m, st)
     else af_call terminate (no_except (set_error R e)) (m, st\<lparr>af_done := True\<rparr>))"

definition any_flow_done :: "('w, 'v, 'e, 'u) flow_rcv \<Rightarrow> 'w any_flow_world call" where
  "any_flow_done R = (\<lambda>(m, st).
     if \<not> af_started st then Term
     else if af_done st then Ret (m, st)
     else af_call skip (set_done R) (m, st\<lparr>af_done := True\<rparr>))"

definition any_flow_starting :: "('w, 'v, 'e, 'u) flow_rcv \<Rightarrow> 'u \<Rightarrow> 'w any_flow_world call" where
  "any_flow_starting R up = (\<lambda>(m, st).
     if af_started st then Term
     else af_call skip (set_starting R up) (m, st\<lparr>af_started := True\<rparr>))"

definition any_flow :: "('w, 'v, 'e, 'u) flow_rcv \<Rightarrow> ('w any_flow_world, 'v, 'e, 'u) flow_rcv" where
  "any_flow R = \<lparr>r_value = any_flow_value R, r_error = any_flow_error R, r_done = any_flow_done R,
     r_starting = any_flow_starting R\<rparr>"

lemmas flow_fn_defs = flow_fn_def flow_fn_value_def flow_fn_error_def flow_fn_done_def
  flow_fn_starting_def
lemmas flow_data_defs = flow_data_def flow_data_value_def flow_data_error_def flow_data_done_def
  flow_data_starting_def
lemmas any_flow_defs = any_flow_def any_flow_value_def any_flow_error_def any_flow_done_def
  any_flow_starting_def

section \<open>The contract of a flow receiver\<close>

text \<open>
  A flow receiver is a terminal-guarded receiver once it is started; before that every signal but
  \<open>starting\<close> ends the program, and \<open>starting\<close> does so afterwards.
\<close>

locale flow_signal_receiver = signal_receiver R closed
  for R :: "('s, 'v, 'e, 'u) flow_rcv" and closed :: "'s \<Rightarrow> bool" +
  fixes started :: "'s \<Rightarrow> bool"
  assumes closed_started: "closed s \<Longrightarrow> started s"
    and early_value: "\<not> started s \<Longrightarrow> r_value R v s = Term"
    and early_error: "\<not> started s \<Longrightarrow> r_error R e s = Term"
    and early_done: "\<not> started s \<Longrightarrow> r_done R s = Term"
    and starting_twice: "started s \<Longrightarrow> r_starting R up s = Term"
    and starting_starts: "r_starting R up s = Ret t \<Longrightarrow> started t"
    and starting_throw_starts: "r_starting R up s = Thr n t \<Longrightarrow> started t"
    and value_started: "r_value R v s = Ret t \<Longrightarrow> started t"
    and value_throw_started: "r_value R v s = Thr n t \<Longrightarrow> started t"
begin

lemma early_deliver: "\<not> started s \<Longrightarrow> deliver R sig s = Term"
  by (cases sig)
     (auto simp: set_value_def set_error_def set_done_def early_value early_error early_done outcome_simps)

lemma set_starting_twice: "started s \<Longrightarrow> set_starting R up s = Term"
  by (auto simp: set_starting_def starting_twice outcome_simps)

lemma set_starting_started: "set_starting R up s = Ret t \<Longrightarrow> started t"
  by (cases "r_starting R up s")
     (auto simp: set_starting_def try_catch_def no_except_def closed_started
       dest: starting_starts error_closes split: outcome.splits)

lemma deliver_started: "deliver R sig s = Ret t \<Longrightarrow> started t"
proof (cases sig)
  case (Value v)
  assume "deliver R sig s = Ret t"
  with Value show ?thesis
    by (cases "r_value R v s")
       (auto simp: set_value_def try_catch_def closed_started dest: value_started error_closes)
qed (auto dest!: error_closes set_done_closes simp: set_error_def closed_started)

lemma deliver_all_started: "started s \<Longrightarrow> deliver_all R sigs s = Ret t \<Longrightarrow> started t"
  by (induction sigs arbitrary: s) (auto simp: and_then_eq_Ret dest: deliver_started)

text \<open>
  The protocol: starting, then signals; nothing may come before, and no second starting after.
\<close>

lemma starting_once:
  "and_then (set_starting R up) (and_then (deliver_all R sigs) (set_starting R up')) s =
     (case and_then (set_starting R up) (deliver_all R sigs) s of Ret t \<Rightarrow> Term | r \<Rightarrow> r)"
proof (cases "set_starting R up s")
  case (Ret t)
  then have "started t" by (rule set_starting_started)
  then show ?thesis using Ret
    by (cases "deliver_all R sigs t")
       (simp_all add: and_then_def set_starting_twice deliver_all_started)
qed (simp_all add: and_then_def)

end

definition fs_closed :: "'s flow_st \<Rightarrow> bool" where
  "fs_closed st \<longleftrightarrow> fs_started st \<and> fs_done st"

lemma flow_data_eq_fn: "flow_data F = flow_fn F"
  by (auto simp: flow_data_defs flow_fn_defs fun_eq_iff)

interpretation ffn: flow_signal_receiver "flow_fn F" fs_closed fs_started for F
  by unfold_locales
     (auto simp: flow_fn_defs fs_closed_def no_except_def on_member_def split: outcome.splits if_splits)

interpretation fdata: flow_signal_receiver "flow_data F" fs_closed fs_started for F
  by (simp add: flow_data_eq_fn ffn.flow_signal_receiver_axioms)

definition af_closed :: "'w any_flow_world \<Rightarrow> bool" where
  "af_closed s \<longleftrightarrow> af_started (snd s) \<and> af_done (snd s)"

definition af_started' :: "'w any_flow_world \<Rightarrow> bool" where
  "af_started' s = af_started (snd s)"

lemma af_call_flags:
  "af_call noop f (m, st) = Ret (m', st') \<Longrightarrow> af_done st' = af_done st \<and> af_started st' = af_started st"
  "af_call noop f (m, st) = Thr n (m', st') \<Longrightarrow> af_done st' = af_done st \<and> af_started st' = af_started st"
  by (auto simp: af_call_def)

lemma any_flow_ops_flags:
  "r_value (any_flow R) v s = Ret t \<Longrightarrow> af_started' t"
  "r_value (any_flow R) v s = Thr n t \<Longrightarrow> af_started' t"
  "r_error (any_flow R) e s = Ret t \<Longrightarrow> af_closed t"
  "r_done (any_flow R) s = Ret t \<Longrightarrow> af_closed t"
  "r_done (any_flow R) s = Thr n t \<Longrightarrow> af_closed t"
  "r_starting (any_flow R) up s = Ret t \<Longrightarrow> af_started' t"
  "r_starting (any_flow R) up s = Thr n t \<Longrightarrow> af_started' t"
  by (cases s; cases t; force simp: any_flow_defs af_closed_def af_started'_def
      dest!: af_call_flags split: if_splits)+

lemma any_flow_error_nothrow: "r_error (any_flow R) e s \<noteq> Thr n t"
  by (cases s) (simp add: any_flow_defs)

interpretation anyf: flow_signal_receiver "any_flow R" af_closed af_started' for R
  by unfold_locales
     (auto simp: any_flow_ops_flags any_flow_error_nothrow, auto simp: any_flow_defs af_closed_def af_started'_def no_except_def)

section \<open>Properties of flow receivers\<close>

text \<open>
  C24: the protocol of a flow receiver. Before \<open>starting\<close> every signal ends the program; after it,
  and after any signals that were delivered, a second \<open>starting\<close> does.
\<close>

theorem flow_receiver_protocol:
  "deliver_all (flow_fn F) (sig # sigs) (flow_new s) = Term \<and>
   and_then (set_starting (flow_fn F) up) (and_then (deliver_all (flow_fn F) sigs) (set_starting (flow_fn F) up'))
     (flow_new s) =
   (case and_then (set_starting (flow_fn F) up) (deliver_all (flow_fn F) sigs) (flow_new s) of
      Ret t \<Rightarrow> Term | r \<Rightarrow> r)"
  by (simp add: ffn.early_deliver flow_new_def and_then_def del: deliver.simps)
     (use ffn.starting_once [of F up sigs up' "flow_new s"] in \<open>simp add: flow_new_def and_then_def\<close>)

text \<open>
  moving a started \<open>any_flow_receiver\<close> loses its \<open>started_\<close> flag: the moved object ends the
  program on the next signal, although the receiver it wraps has been started.
\<close>

theorem any_flow_move_unstarts:
  assumes "box_obj m (af_box st) = Some w"
  shows "\<exists>new old. any_flow_move m st = Ret (m, new, old) \<and> box_obj m (af_box new) = Some w \<and>
     (\<forall>sig. deliver (any_flow R) sig (m, new) = Term)"
proof -
  have "box_live m (af_box st)" "bx_vptr (af_box st) \<noteq> NoopVT"
    using assms by (auto simp: box_live_def box_obj.simps)
  then obtain nb ob where mv: "box_move m (af_box st) = Ret (m, nb, ob)" "box_obj m nb = box_obj m (af_box st)"
    using box_move_live by blast
  have "deliver (any_flow R) sig (m, any_flow_empty\<lparr>af_box := nb\<rparr>) = Term" for sig
    by (rule anyf.early_deliver) (simp add: af_started'_def any_flow_empty_def)
  then show ?thesis using mv assms by (auto simp: any_flow_move_def)
qed

theorem any_flow_move_unstarts_witness:
  "\<exists>new old. any_flow_move \<lparr>cells = Map.empty, next_cell = 0\<rparr>
       \<lparr>af_done = False, af_started = True, af_box = \<lparr>bx_data = Buf (flow_new (3::nat)), bx_vptr = InsituVT\<rparr>\<rparr> =
       Ret (\<lparr>cells = Map.empty, next_cell = 0\<rparr>, new, old) \<and>
     box_obj \<lparr>cells = Map.empty, next_cell = 0\<rparr> (af_box new) = Some (flow_new 3) \<and>
     (\<forall>sig. deliver (any_flow (flow_empty :: (nat flow_st, nat, nat, nat) flow_rcv)) sig
        (\<lparr>cells = Map.empty, next_cell = 0\<rparr>, new) = Term)"
  by (rule any_flow_move_unstarts) (simp add: box_obj.simps)

end
