(* ===== verification/Strand.thy ===== *)
theory Strand
  imports Prelude
begin

text \<open>
  \<open>strand.h\<close>: a strand over a concurrent executor. The state is the \<open>strand_queue\<close> and the
  workers (\<open>strand_queue_receiver\<close>s) that have been submitted to the executor, each at a point of
  its \<open>value\<close>, \<open>error\<close> or \<open>done\<close>. The executor is not part of this file: it runs the workers on
  any threads, so a step is one critical section of one worker or of one \<open>submit\<close>, in any order.
\<close>

section \<open>State\<close>

text \<open>
  The points of a worker: submitted to the executor; in \<open>value\<close> with the lock released, running
  an item; in \<open>error\<close> with the lock released, failing an item; returned from \<open>value\<close>; finished.
\<close>

datatype worker = Sched | Running nat | Failing nat | AfterValue | Finished

text \<open>How an item left the queue.\<close>

datatype leave = Started nat | Failed nat

fun item_of :: "leave \<Rightarrow> nat" where
  "item_of (Started i) = i"
| "item_of (Failed i) = i"

text \<open>
  \<open>remaining_\<close> is a \<open>size_t\<close>, kept at 64 bits. \<open>submitted\<close> and \<open>left\<close> are history: the items in
  the order of \<open>submit\<close>, and in the order in which they left the queue.
\<close>

record strand =
  remaining :: "64 word"
  items :: "nat list"
  workers :: "worker list"
  submitted :: "nat list"
  left :: "leave list"

definition strand_new :: strand where
  "strand_new = \<lparr>remaining = 0, items = [], workers = [], submitted = [], left = []\<rparr>"

abbreviation goto :: "nat \<Rightarrow> worker \<Rightarrow> strand \<Rightarrow> strand" where
  "goto k w s \<equiv> s\<lparr>workers := (workers s)[k := w]\<rparr>"

section \<open>Operations\<close>

text \<open>\<open>submit(schedule(ex_), strand_queue_receiver{...})\<close>: one more worker for the executor.\<close>

definition send_worker :: "strand \<Rightarrow> strand" where
  "send_worker s = s\<lparr>workers := workers s @ [Sched]\<rparr>"

text \<open>\<open>strand_task::submit\<close>.\<close>

definition task_submit :: "nat \<Rightarrow> strand \<Rightarrow> strand" where
  "task_submit i s =
     (let s' = s\<lparr>items := items s @ [i], submitted := submitted s @ [i]\<rparr>
      in if remaining s' = 0 then send_worker s' else s')"

text \<open>The head of the loop in \<open>value\<close>: \<open>while (!items_.empty() && --remaining_ >= 0)\<close>.\<close>

definition value_loop :: "nat \<Rightarrow> strand \<Rightarrow> strand" where
  "value_loop k s =
     (case items s of
        [] \<Rightarrow> goto k AfterValue s
      | i # is \<Rightarrow>
          (let s' = s\<lparr>remaining := remaining s - 1\<rparr>
           in if remaining s' \<ge> 0
              then goto k (Running i) (s'\<lparr>items := is, left := left s' @ [Started i]\<rparr>)
              else goto k AfterValue s'))"

text \<open>\<open>strand_queue::value\<close>, from the lock to the first release of it.\<close>

definition queue_value :: "nat \<Rightarrow> strand \<Rightarrow> strand" where
  "queue_value k s =
     (if remaining s > 0 then goto k AfterValue s
      else if items s = [] then goto k AfterValue s
      else value_loop k (s\<lparr>remaining := of_nat (length (items s))\<rparr>))"

text \<open>\<open>strand_queue::error\<close>: the loop head, and the entry that resets the counter first.\<close>

definition fail_loop :: "nat \<Rightarrow> strand \<Rightarrow> strand" where
  "fail_loop k s =
     (case items s of
        [] \<Rightarrow> goto k Finished s
      | i # is \<Rightarrow> goto k (Failing i) (s\<lparr>items := is, left := left s @ [Failed i]\<rparr>))"

definition queue_error :: "nat \<Rightarrow> strand \<Rightarrow> strand" where
  "queue_error k s = fail_loop k (s\<lparr>remaining := 0\<rparr>)"

text \<open>\<open>strand_queue::done\<close>.\<close>

definition queue_done :: "nat \<Rightarrow> strand \<Rightarrow> strand" where
  "queue_done k s =
     (if remaining s > 0 then goto k Finished s
      else if items s = [] then goto k Finished s
      else send_worker (goto k Finished s))"

section \<open>Steps\<close>

inductive strand_step :: "strand \<Rightarrow> strand \<Rightarrow> bool" where
  submit: "strand_step s (task_submit i s)"
| enter_value: "k < length (workers s) \<Longrightarrow> workers s ! k = Sched \<Longrightarrow> strand_step s (queue_value k s)"
| item_returns: "k < length (workers s) \<Longrightarrow> workers s ! k = Running i \<Longrightarrow> strand_step s (value_loop k s)"
| enter_done: "k < length (workers s) \<Longrightarrow> workers s ! k = AfterValue \<Longrightarrow> strand_step s (queue_done k s)"
| enter_error: "k < length (workers s) \<Longrightarrow> workers s ! k = Sched \<Longrightarrow> strand_step s (queue_error k s)"
| fail_returns: "k < length (workers s) \<Longrightarrow> workers s ! k = Failing i \<Longrightarrow> strand_step s (fail_loop k s)"

inductive_cases strand_stepE: "strand_step s t"

abbreviation strand_reach :: "strand \<Rightarrow> bool" where
  "strand_reach \<equiv> reachable (\<lambda>s. s = strand_new) strand_step"

lemmas strand_op_defs = send_worker_def task_submit_def value_loop_def queue_value_def fail_loop_def
  queue_error_def queue_done_def

section \<open>Order: items leave the queue in the order of submission\<close>

definition fifo_inv :: "strand \<Rightarrow> bool" where
  "fifo_inv s \<longleftrightarrow> submitted s = map item_of (left s) @ items s"

lemma fifo_ops:
  assumes "fifo_inv s"
  shows "fifo_inv (task_submit i s)" "fifo_inv (value_loop k s)" "fifo_inv (queue_value k s)"
    "fifo_inv (fail_loop k s)" "fifo_inv (queue_error k s)" "fifo_inv (queue_done k s)"
  using assms by (auto simp: fifo_inv_def strand_op_defs Let_def split: list.split)

lemma fifo_step: "fifo_inv s \<Longrightarrow> strand_step s t \<Longrightarrow> fifo_inv t"
  by (erule strand_stepE) (auto simp: fifo_ops)

interpretation fifo: invariant_of "\<lambda>s. s = strand_new" strand_step fifo_inv
proof unfold_locales
  fix s :: strand
  show "s = strand_new \<Longrightarrow> fifo_inv s" by (simp add: fifo_inv_def strand_new_def)
  fix t :: strand
  show "fifo_inv s \<Longrightarrow> strand_step s t \<Longrightarrow> fifo_inv t" by (rule fifo_step)
qed

section \<open>A worker that is not disturbed\<close>

text \<open>One worker running a batch: one return per item.\<close>

fun run_batch :: "nat \<Rightarrow> nat \<Rightarrow> strand \<Rightarrow> strand" where
  "run_batch k 0 s = s"
| "run_batch k (Suc n) s = run_batch k n (value_loop k s)"

lemma strand_eqI:
  "remaining s = remaining t \<Longrightarrow> items s = items t \<Longrightarrow> workers s = workers t \<Longrightarrow>
   submitted s = submitted t \<Longrightarrow> left s = left t \<Longrightarrow> s = (t :: strand)"
  by simp

lemma value_loop_Nil: "items s = [] \<Longrightarrow> value_loop k s = goto k AfterValue s"
  by (simp add: value_loop_def)

lemma value_loop_Cons:
  "items s = i # is \<Longrightarrow> value_loop k s =
     goto k (Running i) (s\<lparr>remaining := remaining s - 1, items := is, left := left s @ [Started i]\<rparr>)"
  by (simp add: value_loop_def Let_def)

lemma run_batch_items:
  assumes "remaining s = of_nat (length (items s))"
  shows "run_batch k (Suc (length (items s))) s =
      s\<lparr>remaining := 0, items := [], workers := (workers s)[k := AfterValue],
        left := left s @ map Started (items s)\<rparr>"
  using assms
proof (induction "items s" arbitrary: s)
  case Nil
  then show ?case using Nil.hyps [symmetric] by (intro strand_eqI) (simp_all add: value_loop_Nil)
next
  case (Cons i rest)
  let ?s1 = "value_loop k s"
  have s1: "?s1 = goto k (Running i) (s\<lparr>remaining := of_nat (length rest), items := rest, left := left s @ [Started i]\<rparr>)"
    using Cons.prems Cons.hyps(2) [symmetric] by (simp add: value_loop_Cons)
  have "run_batch k (Suc (length (items ?s1))) ?s1 =
      ?s1\<lparr>remaining := 0, items := [], workers := (workers ?s1)[k := AfterValue],
        left := left ?s1 @ map Started (items ?s1)\<rparr>"
    by (rule Cons.hyps(1)) (simp_all add: s1)
  then show ?case using s1 Cons.hyps(2) [symmetric] by simp
qed

section \<open>No item is forgotten while the counter is right\<close>

text \<open>
  A strand is stuck when the counter is not zero and no worker is left: nothing but \<open>submit\<close> can
  happen any more, and \<open>submit\<close> sends no worker.
\<close>

definition stuck :: "strand \<Rightarrow> bool" where
  "stuck s \<longleftrightarrow> remaining s \<noteq> 0 \<and> list_all (\<lambda>w. w = Finished) (workers s)"

definition minded :: "strand \<Rightarrow> bool" where
  "minded s \<longleftrightarrow> items s = [] \<or> remaining s \<noteq> 0 \<or> list_ex (\<lambda>w. w \<noteq> Finished) (workers s)"

lemma list_ex_updateI: "P w \<Longrightarrow> k < length ws \<Longrightarrow> list_ex P (ws[k := w])"
  by (auto simp: list_ex_length)

lemma minded_step: "minded s \<Longrightarrow> strand_step s t \<Longrightarrow> minded t"
  by (erule strand_stepE)
     (auto simp: minded_def strand_op_defs Let_def list_ex_updateI split: list.split if_splits)

interpretation minding: invariant_of "\<lambda>s. s = strand_new" strand_step minded
proof unfold_locales
  fix s :: strand
  show "s = strand_new \<Longrightarrow> minded s" by (simp add: minded_def strand_new_def)
  fix t :: strand
  show "minded s \<Longrightarrow> strand_step s t \<Longrightarrow> minded t" by (rule minded_step)
qed

section \<open>The counter below zero\<close>

lemma stuck_worker: "stuck s \<Longrightarrow> k < length (workers s) \<Longrightarrow> workers s ! k = Finished"
  by (simp add: stuck_def list_all_length)

lemma stuck_step: "strand_step s t \<Longrightarrow> stuck s \<Longrightarrow> stuck t \<and> left t = left s"
  by (erule strand_stepE) (auto dest: stuck_worker simp: task_submit_def Let_def stuck_def list_all_length)

lemma stuck_steps: "strand_step\<^sup>*\<^sup>* s t \<Longrightarrow> stuck s \<Longrightarrow> stuck t \<and> left t = left s"
  by (induction rule: rtranclp_induct) (auto dest: stuck_step)

text \<open>Concrete runs of the strand, as a list of events.\<close>

datatype strand_event = Submit nat | Enter nat | Return nat | Leave nat | Abort nat

fun strand_do :: "strand_event \<Rightarrow> strand \<Rightarrow> strand option" where
  "strand_do (Submit i) s = Some (task_submit i s)"
| "strand_do (Enter k) s = (if k < length (workers s) \<and> workers s ! k = Sched then Some (queue_value k s) else None)"
| "strand_do (Leave k) s = (if k < length (workers s) \<and> workers s ! k = AfterValue then Some (queue_done k s) else None)"
| "strand_do (Abort k) s = (if k < length (workers s) \<and> workers s ! k = Sched then Some (queue_error k s) else None)"
| "strand_do (Return k) s =
     (if k < length (workers s) then
        (case workers s ! k of Running i \<Rightarrow> Some (value_loop k s) | Failing i \<Rightarrow> Some (fail_loop k s) | _ \<Rightarrow> None)
      else None)"

fun strand_run :: "strand_event list \<Rightarrow> strand \<Rightarrow> strand option" where
  "strand_run [] s = Some s"
| "strand_run (e # es) s = (case strand_do e s of None \<Rightarrow> None | Some t \<Rightarrow> strand_run es t)"

lemma strand_do_step: "strand_do e s = Some t \<Longrightarrow> strand_step s t"
  by (cases e) (auto split: if_splits worker.splits intro: strand_step.intros)

lemma strand_run_reach: "strand_run es s = Some t \<Longrightarrow> strand_reach s \<Longrightarrow> strand_reach t"
  by (induction es arbitrary: s) (auto split: option.splits dest: strand_do_step intro: reach_step)

lemma strand_reach_new: "strand_reach strand_new"
  by (simp add: reach_init)

lemmas run_strand = strand_op_defs strand_new_def Let_def

section \<open>Properties\<close>

text \<open>
  In every interleaving of submitters and workers, the items leave the queue in the order of
  their submission: what was submitted is what has left, in order, followed by what is queued.
\<close>
theorem strand_fifo: "strand_reach s \<Longrightarrow> submitted s = map item_of (left s) @ items s"
  using fifo.reachable_inv [of s] by (simp add: fifo_inv_def)

theorem strand_fifo_witness:
  "\<exists>s. strand_reach s \<and> map item_of (left s) = [7, 8] \<and> items s = [9] \<and> submitted s = [7, 8, 9]"
proof -
  let ?s = "the (strand_run [Submit 7, Submit 8, Enter 0, Return 0, Submit 9] strand_new)"
  have r: "strand_reach ?s"
    by (rule strand_run_reach [of "[Submit 7, Submit 8, Enter 0, Return 0, Submit 9]", OF _ strand_reach_new])
       (simp add: run_strand)
  show ?thesis using r strand_fifo [OF r] by (intro exI [of _ ?s]) (simp add: run_strand)
qed

text \<open>
  A worker that is not disturbed by other workers or submissions takes the whole batch: \<open>value\<close>
  hands over every queued item, in order, and leaves an empty queue and a zero counter.
\<close>
theorem strand_batch:
  assumes "remaining s = 0" "items s \<noteq> []" "length (items s) < 2 ^ 64"
  shows "run_batch k (length (items s)) (queue_value k s) =
      s\<lparr>remaining := 0, items := [], workers := (workers s)[k := AfterValue],
        left := left s @ map Started (items s)\<rparr>"
proof -
  have "run_batch k (length (items s)) (queue_value k s) =
      run_batch k (Suc (length (items s))) (s\<lparr>remaining := of_nat (length (items s))\<rparr>)"
    using assms by (simp add: queue_value_def)
  then show ?thesis using run_batch_items [of "s\<lparr>remaining := of_nat (length (items s))\<rparr>" k] by simp
qed

theorem strand_batch_witness:
  "left (run_batch 0 2 (queue_value 0 (task_submit 8 (task_submit 7 strand_new)))) = [Started 7, Started 8]"
  using strand_batch [of "task_submit 8 (task_submit 7 strand_new)" 0] by (simp add: run_strand numeral_2_eq_2)

text \<open>
  No item is forgotten as long as the counter is right: in every reachable state with a queued
  item, a worker is under way, or the strand is stuck with a counter that is not zero.
\<close>
theorem strand_no_lost_item:
  assumes "strand_reach s" "items s \<noteq> []"
  shows "list_ex (\<lambda>w. w \<noteq> Finished) (workers s) \<or> stuck s"
  using minding.reachable_inv [OF assms(1)] assms(2)
  by (auto simp: minded_def stuck_def list_all_iff list_ex_iff)

theorem strand_no_lost_item_witness:
  "list_ex (\<lambda>w. w \<noteq> Finished) (workers (task_submit 7 strand_new)) \<or> stuck (task_submit 7 strand_new)"
proof (rule strand_no_lost_item)
  show "strand_reach (task_submit 7 strand_new)"
    by (rule reach_step [OF strand_reach_new]) (rule strand_step.submit)
  show "items (task_submit 7 strand_new) \<noteq> []" by (simp add: run_strand)
qed

text \<open>
  The strand does not keep its items from overlapping: the last item of a batch runs with a
  counter of zero, so a submission sends a second worker, and two items run at the same time.
\<close>
theorem strand_overlaps:
  "\<exists>s. strand_reach s \<and> workers s = [Running 1, Running 2]"
proof (intro exI conjI)
  let ?es = "[Submit 1, Enter 0, Submit 2, Enter 1]"
  show "strand_reach (the (strand_run ?es strand_new))"
    by (rule strand_run_reach [of ?es, OF _ strand_reach_new]) (simp add: run_strand)
  show "workers (the (strand_run ?es strand_new)) = [Running 1, Running 2]" by (simp add: run_strand)
qed

text \<open>
  C40: The strand can stop for ever: when an item is submitted while the last item of a batch runs and
  the first worker takes it, the unsigned counter wraps below zero; after the workers have
  finished, a submitted item stays queued in every continuation.
\<close>
theorem strand_wedged:
  "\<exists>s. strand_reach s \<and> remaining s = - 1 \<and> items s = [3] \<and>
       (\<forall>t. strand_step\<^sup>*\<^sup>* s t \<longrightarrow> left t = [Started 1, Started 2])"
proof (intro exI conjI allI impI)
  let ?es = "[Submit 1, Enter 0, Submit 2, Return 0, Return 0, Leave 0, Enter 1, Leave 1, Submit 3]"
  let ?s = "the (strand_run ?es strand_new)"
  show "strand_reach ?s"
    by (rule strand_run_reach [of ?es, OF _ strand_reach_new]) (simp add: run_strand)
  show "remaining ?s = - 1" by (simp add: run_strand)
  show "items ?s = [3]" by (simp add: run_strand)
  have "stuck ?s" by (simp add: run_strand stuck_def)
  moreover have "left ?s = [Started 1, Started 2]" by (simp add: run_strand)
  moreover fix t assume "strand_step\<^sup>*\<^sup>* ?s t"
  ultimately show "left t = [Started 1, Started 2]" using stuck_steps [of ?s t] by simp
qed

theorem strand_wedged_witness:
  "\<exists>s t. strand_reach s \<and> strand_step\<^sup>*\<^sup>* s t \<and> items s = [3] \<and> left t = [Started 1, Started 2]"
  using strand_wedged by blast

end
