(* ===== verification/Senders.thy ===== *)
theory Senders
  imports Flow_Receivers
begin

text \<open>
  The sender classes of \<open>single_sender.h\<close>, \<open>many_sender.h\<close>, \<open>flow_single_sender.h\<close> and
  \<open>flow_many_sender.h\<close>: a sender made of a submit function, a sender that wraps another one
  together with a submit function, and the four type-erased senders. The interface
  \<open>sender_contract\<close> says which signals a sender sends to whatever receiver it is submitted.
\<close>

section \<open>Senders\<close>

text \<open>
  A sender with object state \<open>'c\<close>: \<open>submit\<close> is given the value category of the sender
  expression and the receiver \<open>R\<close> with its state.
\<close>

datatype cat = LValue | RValue

type_synonym ('c, 's, 'v, 'e, 'x) sender = "cat \<Rightarrow> ('s, 'v, 'e, 'x) rcv_scheme \<Rightarrow> ('c \<times> 's) call"

type_synonym ('c, 's, 'v, 'e, 'u) flow_sender = "cat \<Rightarrow> ('s, 'v, 'e, 'u) flow_rcv \<Rightarrow> ('c \<times> 's) call"

text \<open>\<open>ignoreSF\<close> and \<open>passDSF\<close> of \<open>boosters.h\<close>; \<open>passDSF\<close> submits to its data as an lvalue.\<close>

definition ignoreSF :: "('c, 's, 'v, 'e, 'x) sender" where
  "ignoreSF k R = skip"

definition passDSF :: "('c, 's, 'v, 'e, 'x) sender \<Rightarrow> ('c, 's, 'v, 'e, 'x) sender" where
  "passDSF S k R = S LValue R"

section \<open>The sender classes\<close>

text \<open>
  \<open>C<SF>\<close> calls its function; \<open>C<Data, DSF>\<close> calls its function with the data, which the single and
  many classes pass on with the category of the sender, and the flow classes always as an lvalue.
  In a state \<open>'c\<close> the function's own members are included.
\<close>

definition single_sender_fn :: "('c, 's, 'v, 'e, 'x) sender \<Rightarrow> ('c, 's, 'v, 'e, 'x) sender" where
  "single_sender_fn SF k R = SF LValue R"

definition single_sender_data :: "('c, 's, 'v, 'e, 'x) sender \<Rightarrow> ('c, 's, 'v, 'e, 'x) sender" where
  "single_sender_data DSF k R = (case k of LValue \<Rightarrow> DSF LValue R | RValue \<Rightarrow> DSF RValue R)"

definition single_sender_empty :: "('c, 's, 'v, 'e, 'x) sender" where
  "single_sender_empty = single_sender_fn ignoreSF"

definition many_sender_fn :: "('c, 's, 'v, 'e, 'x) sender \<Rightarrow> ('c, 's, 'v, 'e, 'x) sender" where
  "many_sender_fn SF k R = SF LValue R"

definition many_sender_data :: "('c, 's, 'v, 'e, 'x) sender \<Rightarrow> ('c, 's, 'v, 'e, 'x) sender" where
  "many_sender_data DSF k R = (case k of LValue \<Rightarrow> DSF LValue R | RValue \<Rightarrow> DSF RValue R)"

definition many_sender_empty :: "('c, 's, 'v, 'e, 'x) sender" where
  "many_sender_empty = many_sender_fn ignoreSF"

definition flow_single_sender_fn :: "('c, 's, 'v, 'e, 'x) sender \<Rightarrow> ('c, 's, 'v, 'e, 'x) sender" where
  "flow_single_sender_fn SF k R = SF LValue R"

definition flow_single_sender_data :: "('c, 's, 'v, 'e, 'x) sender \<Rightarrow> ('c, 's, 'v, 'e, 'x) sender" where
  "flow_single_sender_data DSF k R = DSF LValue R"

definition flow_single_sender_empty :: "('c, 's, 'v, 'e, 'x) sender" where
  "flow_single_sender_empty = flow_single_sender_fn ignoreSF"

definition flow_many_sender_fn :: "('c, 's, 'v, 'e, 'x) sender \<Rightarrow> ('c, 's, 'v, 'e, 'x) sender" where
  "flow_many_sender_fn SF k R = SF LValue R"

definition flow_many_sender_data :: "('c, 's, 'v, 'e, 'x) sender \<Rightarrow> ('c, 's, 'v, 'e, 'x) sender" where
  "flow_many_sender_data DSF k R = DSF LValue R"

definition flow_many_sender_empty :: "('c, 's, 'v, 'e, 'x) sender" where
  "flow_many_sender_empty = flow_many_sender_fn ignoreSF"

lemmas sender_class_defs = single_sender_fn_def single_sender_data_def single_sender_empty_def
  many_sender_fn_def many_sender_data_def many_sender_empty_def
  flow_single_sender_fn_def flow_single_sender_data_def flow_single_sender_empty_def
  flow_many_sender_fn_def flow_many_sender_data_def flow_many_sender_empty_def
  ignoreSF_def passDSF_def

text \<open>
  \<open>sender_from(in, fn)\<close> of \<open>extension_operators.h\<close>: the class is chosen from the cardinality of
  \<open>in\<close> and from whether it is a flow sender.
\<close>

datatype cardinality = Single | Many

fun sender_from :: "cardinality \<Rightarrow> bool \<Rightarrow> ('c, 's, 'v, 'e, 'x) sender \<Rightarrow> ('c, 's, 'v, 'e, 'x) sender" where
  "sender_from Single False = single_sender_data"
| "sender_from Many False = many_sender_data"
| "sender_from Single True = flow_single_sender_data"
| "sender_from Many True = flow_many_sender_data"

definition from_cat :: "bool \<Rightarrow> cat \<Rightarrow> cat" where
  "from_cat flow k = (if flow then LValue else k)"

lemma sender_from_eq: "sender_from n flow DSF k R = DSF (from_cat flow k) R"
  by (cases n; cases flow; cases k) (simp_all add: sender_class_defs from_cat_def)

section \<open>The interface of a sender\<close>

text \<open>
  The \<open>Receiver\<close> concepts ask for an error channel that does not throw.
\<close>

definition nothrow_error :: "('s, 'v, 'e, 'x) rcv_scheme \<Rightarrow> bool" where
  "nothrow_error R \<longleftrightarrow> (\<forall>e s n t. r_error R e s \<noteq> Thr n t)"

lemma nothrow_errorD: "nothrow_error R \<Longrightarrow> r_error R e s \<noteq> Thr n t"
  by (simp add: nothrow_error_def)

lemma nothrow_error_no_except: "nothrow_error R \<Longrightarrow> no_except (r_error R e) = r_error R e"
  by (rule ext) (auto simp: nothrow_error_def no_except_def split: outcome.split)

context signal_receiver begin

lemma receiver_nothrow: "nothrow_error R"
  by (simp add: nothrow_error_def error_nothrow)

end

lemma nothrow_deliver: "nothrow_error R \<Longrightarrow> deliver R sig s \<noteq> Thr n t"
  by (cases sig) (auto simp: set_value_def set_done_def set_error_def nothrow_error_def)

lemma nothrow_deliver_all: "nothrow_error R \<Longrightarrow> deliver_all R sigs s \<noteq> Thr n t"
  by (induction sigs arbitrary: s) (auto simp: and_then_def nothrow_deliver split: outcome.split)

text \<open>
  A sender in state \<open>c\<close>, submitted with category \<open>k\<close>, sends \<open>sigs\<close> and is then in state \<open>c'\<close>,
  whatever the receiver.
\<close>

locale sender_contract =
  fixes S :: "('c, 's, 'v, 'e, 'x) sender" and k :: cat and c :: 'c
    and sigs :: "('v, 'e) signal list" and c' :: 'c
  assumes sends: "nothrow_error R \<Longrightarrow> S k R (c, s) = map_outcome (Pair c') (deliver_all R sigs s)"
begin

lemma sends_nothrow: "nothrow_error R \<Longrightarrow> S k R (c, s) \<noteq> Thr n t"
  by (auto simp: sends nothrow_deliver_all)

end

text \<open>A flow sender first sends \<open>starting\<close> with its \<open>up\<close> end.\<close>

locale flow_sender_contract =
  fixes S :: "('c, 's, 'v, 'e, 'u) flow_sender" and k :: cat and c :: 'c
    and up :: 'u and sigs :: "('v, 'e) signal list" and c' :: 'c
  assumes flow_sends: "nothrow_error R \<Longrightarrow>
     S k R (c, s) = map_outcome (Pair c') (and_then (set_starting R up) (deliver_all R sigs) s)"

section \<open>The type-erased senders\<close>

text \<open>
  \<open>any_single_sender\<close>: the storage of \<open>Type_Erasure\<close> and the category with which the wrapped
  sender is submitted, which the constructor takes from its argument. The receiver is erased
  first; its world is the second component of the state.
\<close>

record 'w any_sender_st =
  as_box :: "'w box"
  as_cat :: cat

definition any_single_empty :: "'w any_sender_st" where
  "any_single_empty = \<lparr>as_box = box_empty, as_cat = LValue\<rparr>"

definition any_single_new :: "cat \<Rightarrow> bool \<Rightarrow> 'w \<Rightarrow> 'w mem \<Rightarrow> 'w mem \<times> 'w any_sender_st" where
  "any_single_new k insitu w m =
     (let (m', b) = box_new insitu w m in (m', \<lparr>as_box = b, as_cat = k\<rparr>))"

definition any_single_move ::
  "'w mem \<Rightarrow> 'w any_sender_st \<Rightarrow> ('w mem \<times> 'w any_sender_st \<times> 'w any_sender_st) outcome" where
  "any_single_move m that =
     map_outcome (\<lambda>(m', new, old). (m', that\<lparr>as_box := new\<rparr>, any_single_empty\<lparr>as_box := old\<rparr>))
       (box_move m (as_box that))"

definition any_single_destroy :: "'w mem \<Rightarrow> 'w any_sender_st \<Rightarrow> ('w mem \<times> 'w any_sender_st) outcome" where
  "any_single_destroy m st = map_outcome (\<lambda>(m', b). (m', st\<lparr>as_box := b\<rparr>)) (box_destroy m (as_box st))"

definition any_single_assign ::
  "'w mem \<Rightarrow> 'w any_sender_st \<Rightarrow> 'w any_sender_st \<Rightarrow> ('w mem \<times> 'w any_sender_st \<times> 'w any_sender_st) outcome" where
  "any_single_assign m this that =
     (case any_single_destroy m this of
        Ret (m', d) \<Rightarrow> any_single_move m' that
      | Thr n x \<Rightarrow> UB | Term \<Rightarrow> Term | UB \<Rightarrow> UB)"

text \<open>
  The call through the table on the object \<open>w\<close>, with the receiver's world \<open>r\<close> beside it. The
  no-op table drops the receiver.
\<close>

definition erased_submit :: "('w \<times> 'r) call \<Rightarrow> (('w mem \<times> 'w box) \<times> 'r) call" where
  "erased_submit f = (\<lambda>((m, b), r).
     case (bx_vptr b, bx_data b) of
       (NoopVT, d) \<Rightarrow> Ret ((m, b), r)
     | (HeapVT, Pobj (Some a)) \<Rightarrow>
         (case cells m a of
            Some w \<Rightarrow> map_outcome (\<lambda>(w', r'). ((m\<lparr>cells := (cells m)(a \<mapsto> w')\<rparr>, b), r')) (f (w, r))
          | None \<Rightarrow> UB)
     | (InsituVT, Buf w) \<Rightarrow> map_outcome (\<lambda>(w', r'). ((m, b\<lparr>bx_data := Buf w'\<rparr>), r')) (f (w, r))
     | _ \<Rightarrow> UB)"

definition any_single_submit ::
  "('w, 's any_world, 'v, 'e, unit) sender \<Rightarrow> ('s, 'v, 'e, 'x) rcv_scheme \<Rightarrow>
   (('w mem \<times> 'w any_sender_st) \<times> 's any_world) call" where
  "any_single_submit S R = (\<lambda>((m, st), r).
     map_outcome (\<lambda>((m', b), r'). ((m', st\<lparr>as_box := b\<rparr>), r'))
       (erased_submit (S (as_cat st) (any_receiver R)) ((m, as_box st), r)))"

text \<open>\<open>any_many_sender\<close> and the flow senders submit the wrapped sender as an lvalue.\<close>

definition any_many_new :: "bool \<Rightarrow> 'w \<Rightarrow> 'w mem \<Rightarrow> 'w mem \<times> 'w box" where
  "any_many_new insitu w m = box_new insitu w m"

definition any_many_move :: "'w mem \<Rightarrow> 'w box \<Rightarrow> ('w mem \<times> 'w box \<times> 'w box) outcome" where
  "any_many_move = box_move"

definition any_many_destroy :: "'w mem \<Rightarrow> 'w box \<Rightarrow> ('w mem \<times> 'w box) outcome" where
  "any_many_destroy = box_destroy"

definition any_many_assign :: "'w mem \<Rightarrow> 'w box \<Rightarrow> 'w box \<Rightarrow> ('w mem \<times> 'w box \<times> 'w box) outcome" where
  "any_many_assign = box_assign"

definition any_many_submit ::
  "('w, 's any_world, 'v, 'e, unit) sender \<Rightarrow> ('s, 'v, 'e, 'x) rcv_scheme \<Rightarrow>
   (('w mem \<times> 'w box) \<times> 's any_world) call" where
  "any_many_submit S R = erased_submit (S LValue (any_receiver R))"

definition any_flow_single_new :: "bool \<Rightarrow> 'w \<Rightarrow> 'w mem \<Rightarrow> 'w mem \<times> 'w box" where
  "any_flow_single_new insitu w m = box_new insitu w m"

definition any_flow_single_move :: "'w mem \<Rightarrow> 'w box \<Rightarrow> ('w mem \<times> 'w box \<times> 'w box) outcome" where
  "any_flow_single_move = box_move"

definition any_flow_single_destroy :: "'w mem \<Rightarrow> 'w box \<Rightarrow> ('w mem \<times> 'w box) outcome" where
  "any_flow_single_destroy = box_destroy"

definition any_flow_single_assign :: "'w mem \<Rightarrow> 'w box \<Rightarrow> 'w box \<Rightarrow> ('w mem \<times> 'w box \<times> 'w box) outcome" where
  "any_flow_single_assign = box_assign"

definition any_flow_single_submit ::
  "('w, 's any_flow_world, 'v, 'e, 'u) flow_sender \<Rightarrow> ('s, 'v, 'e, 'u) flow_rcv \<Rightarrow>
   (('w mem \<times> 'w box) \<times> 's any_flow_world) call" where
  "any_flow_single_submit S R = erased_submit (S LValue (any_flow R))"

definition any_flow_many_new :: "bool \<Rightarrow> 'w \<Rightarrow> 'w mem \<Rightarrow> 'w mem \<times> 'w box" where
  "any_flow_many_new insitu w m = box_new insitu w m"

definition any_flow_many_move :: "'w mem \<Rightarrow> 'w box \<Rightarrow> ('w mem \<times> 'w box \<times> 'w box) outcome" where
  "any_flow_many_move = box_move"

definition any_flow_many_destroy :: "'w mem \<Rightarrow> 'w box \<Rightarrow> ('w mem \<times> 'w box) outcome" where
  "any_flow_many_destroy = box_destroy"

definition any_flow_many_assign :: "'w mem \<Rightarrow> 'w box \<Rightarrow> 'w box \<Rightarrow> ('w mem \<times> 'w box \<times> 'w box) outcome" where
  "any_flow_many_assign = box_assign"

definition any_flow_many_submit ::
  "('w, 's any_flow_world, 'v, 'e, 'u) flow_sender \<Rightarrow> ('s, 'v, 'e, 'u) flow_rcv \<Rightarrow>
   (('w mem \<times> 'w box) \<times> 's any_flow_world) call" where
  "any_flow_many_submit S R = erased_submit (S LValue (any_flow R))"

section \<open>Erasing a sender\<close>

text \<open>What a box world with a receiver beside it holds.\<close>

definition sender_view :: "('w mem \<times> 'w box) \<times> 'r \<Rightarrow> 'w option \<times> 'r" where
  "sender_view s = (box_obj (fst (fst s)) (snd (fst s)), snd s)"

lemma erased_submit_view:
  assumes "box_obj m b = Some w"
  shows "map_outcome sender_view (erased_submit f ((m, b), r)) =
         map_outcome (\<lambda>(w', r'). (Some w', r')) (f (w, r))"
  using assms
  by (cases b; cases "f (w, r)"; cases "bx_vptr b"; cases "bx_data b")
     (auto simp: erased_submit_def box_obj.simps sender_view_def split: option.splits)

context sender_contract begin

lemma erased_sends:
  assumes "nothrow_error R" "box_obj m b = Some c"
  shows "map_outcome sender_view (erased_submit (S k R) ((m, b), r)) =
         map_outcome (Pair (Some c')) (deliver_all R sigs r)"
  by (simp add: erased_submit_view [OF assms(2)] sends [OF assms(1)] map_outcome_comp)

end

lemma any_single_submit_view:
  assumes "sender_contract S k c sigs c'" "box_obj m b = Some c"
  shows "map_outcome (\<lambda>((m', st), r'). (box_obj m' (as_box st), r'))
           (any_single_submit S R ((m, \<lparr>as_box = b, as_cat = k\<rparr>), r)) =
         map_outcome (Pair (Some c')) (deliver_all (any_receiver R) sigs r)"
proof -
  have "map_outcome (\<lambda>((m', st), r'). (box_obj m' (as_box st), r'))
           (any_single_submit S R ((m, \<lparr>as_box = b, as_cat = k\<rparr>), r)) =
        map_outcome sender_view (erased_submit (S k (any_receiver R)) ((m, b), r))"
    by (simp add: any_single_submit_def map_outcome_comp sender_view_def [abs_def] case_prod_beta)
  then show ?thesis
    using sender_contract.erased_sends [OF assms(1) anyr.receiver_nothrow assms(2)] by simp
qed

end
