(* ===== verification/Operators.thy ===== *)
theory Operators
  imports Senders
begin

text \<open>
  The senders and the operators that finish inside \<open>submit\<close>: \<open>just\<close>, \<open>error\<close>, \<open>empty\<close>, \<open>from\<close>,
  \<open>defer\<close>, \<open>transform\<close>, \<open>filter\<close>, \<open>tap\<close> and \<open>switch_on_error\<close> of \<open>include/pushmi/o\<close>. For each
  of them a lemma gives the signals it sends as a list function of the signals of its input, so
  the signals of any pipeline are computed by composing these functions.
\<close>

section \<open>\<open>just\<close>, \<open>error\<close>, \<open>empty\<close>, \<open>from\<close>\<close>

text \<open>
  \<open>just\<close> moves its stored value out on \<open>submit\<close>: \<open>mv\<close> gives the value that the move leaves.
  \<open>error\<close> copies its stored error, because its function is called as an lvalue.
\<close>

definition just_impl :: "('v \<Rightarrow> 'v) \<Rightarrow> ('v, 's, 'v, 'e, 'x) sender" where
  "just_impl mv k R = (\<lambda>(v, s).
     map_outcome (Pair (mv v)) (and_then (set_value R v) (set_done R) s))"

definition just :: "('v \<Rightarrow> 'v) \<Rightarrow> ('v, 's, 'v, 'e, 'x) sender" where
  "just mv = single_sender_data (just_impl mv)"

definition single_error_impl :: "('e error, 's, 'v, 'e, 'x) sender" where
  "single_error_impl k R = (\<lambda>(e, s). map_outcome (Pair e) (set_error R e s))"

definition error_sender :: "('e error, 's, 'v, 'e, 'x) sender" where
  "error_sender = single_sender_data single_error_impl"

definition empty_sender :: "(unit, 's, 'v, 'e, 'x) sender" where
  "empty_sender k R = (\<lambda>(c, s). map_outcome (Pair c) (set_done R s))"

fun from_loop :: "('s, 'v, 'e, 'x) rcv_scheme \<Rightarrow> 'v list \<Rightarrow> 's call" where
  "from_loop R [] = set_done R"
| "from_loop R (x # xs) = and_then (set_value R x) (from_loop R xs)"

definition from_impl :: "('v list, 's, 'v, 'e, 'x) sender" where
  "from_impl k R = (\<lambda>(xs, s). map_outcome (Pair xs) (from_loop R xs s))"

definition from_sender :: "('v list, 's, 'v, 'e, 'x) sender" where
  "from_sender = many_sender_data from_impl"

lemma single_sender_data_eq: "single_sender_data DSF k R = DSF k R"
  by (simp add: single_sender_data_def split: cat.split)

lemma many_sender_data_eq: "many_sender_data DSF k R = DSF k R"
  by (simp add: many_sender_data_def split: cat.split)

lemma from_loop_deliver: "from_loop R xs s = deliver_all R (map Value xs @ [Done]) s"
  by (induction xs arbitrary: s) (simp_all add: and_then_def split: outcome.split)

interpretation just_s: sender_contract "just mv" k v "[Value v, Done]" "mv v" for mv k v
  by unfold_locales (simp add: just_def just_impl_def single_sender_data_eq and_then_def split: outcome.split)

interpretation error_s: sender_contract error_sender k e "[Error e]" e for k e
  by unfold_locales
     (simp add: error_sender_def single_error_impl_def single_sender_data_eq and_then_def split: outcome.split)

interpretation empty_s: sender_contract empty_sender k c "[Done]" c for k c
  by unfold_locales (simp add: empty_sender_def and_then_def split: outcome.split)

interpretation from_s: sender_contract from_sender k xs "map Value xs @ [Done]" xs for k xs
  by unfold_locales (simp add: from_sender_def from_impl_def many_sender_data_eq from_loop_deliver)

section \<open>\<open>defer\<close>\<close>

text \<open>
  \<open>defer\<close> calls its function for a sender and submits to it as an lvalue. The function has state
  \<open>'f\<close> and may throw, and \<open>submit\<close> then throws.
\<close>

datatype ('a, 'f) may_throw = Returns 'a 'f | Throws nat 'f

definition defer_impl ::
  "('f \<Rightarrow> ('c, 'f) may_throw) \<Rightarrow> ('c, 's, 'v, 'e, 'x) sender \<Rightarrow> ('f, 's, 'v, 'e, 'x) sender" where
  "defer_impl f S k R = (\<lambda>(fs, s).
     case f fs of
       Throws n fs' \<Rightarrow> Thr n (fs', s)
     | Returns c fs' \<Rightarrow> map_outcome (\<lambda>(c', s'). (fs', s')) (S LValue R (c, s)))"

definition defer_sender ::
  "('f \<Rightarrow> ('c, 'f) may_throw) \<Rightarrow> ('c, 's, 'v, 'e, 'x) sender \<Rightarrow> ('f, 's, 'v, 'e, 'x) sender" where
  "defer_sender f S = single_sender_data (defer_impl f S)"

lemma defer_contract:
  assumes "f fs = Returns c fs'" "sender_contract S LValue c sigs c'"
  shows "sender_contract (defer_sender f S) k fs sigs fs'"
  by unfold_locales
     (simp add: assms(1) defer_sender_def defer_impl_def single_sender_data_eq map_outcome_comp
       sender_contract.sends [OF assms(2)])

section \<open>Operators that wrap the receiver\<close>

text \<open>
  An operator submits to its input a receiver that wraps \<open>out\<close> with the functions \<open>F\<close>, and
  leaves the final state of \<open>out\<close>. The category with which the input is submitted is that of the
  sender expression the operator was applied to.
\<close>

definition submit_wrapped ::
  "('d, 'v, 'e) rcv \<Rightarrow> (('d receiver_st, 'v, 'e) rcv \<Rightarrow> ('c \<times> 'd receiver_st) call) \<Rightarrow> ('c \<times> 'd) call" where
  "submit_wrapped F sub = (\<lambda>(c, d).
     map_outcome (\<lambda>(c', st). (c', rs_data st)) (sub (receiver_data F) (c, receiver_new d)))"

lemma map_outcome_via: "map_outcome f r = r' \<Longrightarrow> map_outcome (\<lambda>s. g (f s)) r = map_outcome g r'"
  by (auto simp: map_outcome_comp)

lemma submit_wrapped_contract:
  assumes "sender_contract S k c sigs c'"
  shows "submit_wrapped F (S k) (c, d) = map_outcome (Pair c') (push_signals F sigs d)"
proof -
  have "S k (receiver_data F) (c, receiver_new d) =
      map_outcome (Pair c') (deliver_all (receiver_data F) sigs (receiver_new d))"
    by (rule sender_contract.sends [OF assms rdata.receiver_nothrow])
  moreover have "map_outcome rs_data (deliver_all (receiver_data F) sigs (receiver_new d)) = push_signals F sigs d"
    using receiver_data_push [of "receiver_new d" F sigs] by (simp add: receiver_new_def)
  ultimately show ?thesis
    by (simp add: submit_wrapped_def map_outcome_comp map_outcome_via [of rs_data _ _ "Pair c'"])
qed

section \<open>\<open>transform\<close>\<close>

text \<open>
  A user function: its result, or the exception it throws. \<open>value_fn\<close> of \<open>transform_on\<close> calls it
  and sends the result on; \<open>transform_on\<close> wraps \<open>out\<close> with it.
\<close>

type_synonym ('v, 'w) user_fn = "'v \<Rightarrow> nat + 'w"

definition transform_value_fn :: "('v, 'w) user_fn \<Rightarrow> ('s, 'w, 'e, 'x) rcv_scheme \<Rightarrow> 'v \<Rightarrow> 's call" where
  "transform_value_fn f R v s = (case f v of Inl n \<Rightarrow> Thr n s | Inr w \<Rightarrow> set_value R w s)"

definition transform_on_single :: "('v, 'w) user_fn \<Rightarrow> ('s, 'w, 'e, 'x) rcv_scheme \<Rightarrow> ('s, 'v, 'e) rcv" where
  "transform_on_single f R =
     \<lparr>r_value = transform_value_fn f R, r_error = passDEF R, r_done = passDDF R\<rparr>"

definition transform_on_many :: "('v, 'w) user_fn \<Rightarrow> ('s, 'w, 'e, 'x) rcv_scheme \<Rightarrow> ('s, 'v, 'e) rcv" where
  "transform_on_many f R =
     \<lparr>r_value = (\<lambda>v s. case f v of Inl n \<Rightarrow> Thr n s | Inr w \<Rightarrow> set_value R w s),
      r_error = passDEF R, r_done = passDDF R\<rparr>"

fun transform_on :: "cardinality \<Rightarrow> ('v, 'w) user_fn \<Rightarrow> ('s, 'w, 'e, 'x) rcv_scheme \<Rightarrow> ('s, 'v, 'e) rcv" where
  "transform_on Single f R = transform_on_single f R"
| "transform_on Many f R = transform_on_many f R"

definition transform_submit ::
  "cardinality \<Rightarrow> cat \<Rightarrow> ('v, 'w) user_fn \<Rightarrow> ('c, 's receiver_st, 'v, 'e, unit) sender \<Rightarrow> ('c, 's, 'w, 'e, 'x) sender" where
  "transform_submit n cap f S k R = submit_wrapped (transform_on n f R) (S cap)"

definition transform ::
  "cardinality \<Rightarrow> cat \<Rightarrow> ('v, 'w) user_fn \<Rightarrow> ('c, 's receiver_st, 'v, 'e, unit) sender \<Rightarrow> ('c, 's, 'w, 'e, 'x) sender" where
  "transform n cap f S = sender_from n False (transform_submit n cap f S)"

text \<open>What \<open>transform\<close> makes of a list of signals.\<close>

fun transform_signals :: "('v, 'w) user_fn \<Rightarrow> ('v, 'e) signal list \<Rightarrow> ('w, 'e) signal list" where
  "transform_signals f [] = []"
| "transform_signals f (Value v # sigs) =
     (case f v of Inl n \<Rightarrow> [Error (Eptr (Exn n))] | Inr w \<Rightarrow> Value w # transform_signals f sigs)"
| "transform_signals f (Error e # sigs) = [Error e]"
| "transform_signals f (Done # sigs) = [Done]"

text \<open>The forwarding functions, under the tests that \<open>push_signals\<close> makes.\<close>

lemma passDEF_nothrow: "nothrow_error R \<Longrightarrow> no_except (passDEF R e) s = deliver R (Error e) s"
  by (simp add: passDEF_def set_error_def nothrow_error_no_except)

lemma set_value_nothrow [simp]: "set_value R v s \<noteq> Thr n t"
  by (simp add: set_value_def)

lemma set_done_nothrow [simp]: "set_done R s \<noteq> Thr n t"
  by (simp add: set_done_def)

lemma push_terminal:
  "r_done F = passDDF R \<Longrightarrow> push_signals F (Done # sigs) s = deliver_all R [Done] s"
  "r_error F = passDEF R \<Longrightarrow> nothrow_error R \<Longrightarrow> push_signals F (Error e # sigs) s = deliver_all R [Error e] s"
  by (auto simp: passDDF_def passDEF_nothrow and_then_def split: outcome.split)

lemma push_value:
  assumes "r_value F v = set_value R w"
  shows "push_signals F (Value v # sigs) s =
     (case set_value R w s of Ret t \<Rightarrow> push_signals F sigs t | Thr n t \<Rightarrow> Thr n t | Term \<Rightarrow> Term | UB \<Rightarrow> UB)"
  using assms by (auto split: outcome.split)

lemma transform_on_eq: "transform_on n f R = transform_on_single f R"
  by (cases n) (simp_all add: transform_on_single_def transform_on_many_def transform_value_fn_def [abs_def])

lemma transform_push:
  "nothrow_error R \<Longrightarrow>
   push_signals (transform_on n f R) sigs s = deliver_all R (transform_signals f sigs) s"
  unfolding transform_on_eq
proof (induction sigs arbitrary: s)
  case (Cons sig sigs)
  show ?case
  proof (cases sig)
    case (Value v)
    with Cons show ?thesis
      by (cases "f v")
         (auto simp: transform_on_single_def transform_value_fn_def passDEF_nothrow and_then_def
           split: outcome.split)
  qed (use Cons.prems in \<open>simp_all add: push_terminal [of _ R] transform_on_single_def del: push_signals.simps deliver_all_simps\<close>)
qed simp

lemma transform_contract:
  assumes "sender_contract S cap c sigs c'"
  shows "sender_contract (transform n cap f S) k c (transform_signals f sigs) c'"
  by unfold_locales
     (simp add: transform_def sender_from_eq transform_submit_def submit_wrapped_contract [OF assms] transform_push)

section \<open>\<open>filter\<close>\<close>

text \<open>\<open>filter\<close> always submits its input as an rvalue.\<close>

definition filter_value :: "('v \<Rightarrow> nat + bool) \<Rightarrow> ('s, 'v, 'e, 'x) rcv_scheme \<Rightarrow> 'v \<Rightarrow> 's call" where
  "filter_value p R v s =
     (case p v of Inl n \<Rightarrow> Thr n s | Inr b \<Rightarrow> if b then set_value R v s else Ret s)"

definition filter_submit ::
  "('v \<Rightarrow> nat + bool) \<Rightarrow> ('c, 's receiver_st, 'v, 'e, unit) sender \<Rightarrow> ('c, 's, 'v, 'e, 'x) sender" where
  "filter_submit p S k R =
     submit_wrapped \<lparr>r_value = filter_value p R, r_error = passDEF R, r_done = passDDF R\<rparr> (S RValue)"

definition filter_sender ::
  "cardinality \<Rightarrow> ('v \<Rightarrow> nat + bool) \<Rightarrow> ('c, 's receiver_st, 'v, 'e, unit) sender \<Rightarrow> ('c, 's, 'v, 'e, 'x) sender" where
  "filter_sender n p S = sender_from n False (filter_submit p S)"

fun filter_signals :: "('v \<Rightarrow> nat + bool) \<Rightarrow> ('v, 'e) signal list \<Rightarrow> ('v, 'e) signal list" where
  "filter_signals p [] = []"
| "filter_signals p (Value v # sigs) =
     (case p v of Inl n \<Rightarrow> [Error (Eptr (Exn n))]
      | Inr b \<Rightarrow> if b then Value v # filter_signals p sigs else filter_signals p sigs)"
| "filter_signals p (Error e # sigs) = [Error e]"
| "filter_signals p (Done # sigs) = [Done]"

lemma filter_push:
  assumes "nothrow_error R"
  shows "push_signals \<lparr>r_value = filter_value p R, r_error = passDEF R, r_done = passDDF R\<rparr> sigs s =
    deliver_all R (filter_signals p sigs) s"
proof (induction sigs arbitrary: s)
  case (Cons sig sigs)
  show ?case
  proof (cases sig)
    case (Value v)
    with Cons assms show ?thesis
      by (cases "p v") (auto simp: filter_value_def passDEF_nothrow and_then_def split: outcome.split)
  qed (use assms in \<open>simp_all add: push_terminal [of _ R] del: push_signals.simps deliver_all_simps\<close>)
qed simp

lemma filter_contract:
  assumes "sender_contract S RValue c sigs c'"
  shows "sender_contract (filter_sender n p S) k c (filter_signals p sigs) c'"
  by unfold_locales
     (simp add: filter_sender_def sender_from_eq filter_submit_def submit_wrapped_contract [OF assms] filter_push)

section \<open>\<open>tap\<close>\<close>

text \<open>
  \<open>tap_\<close> sends every signal first to the side effects (state \<open>'t\<close>), then to \<open>out\<close>.
\<close>

abbreviation on_fst :: "'t call \<Rightarrow> ('t \<times> 's) call" where
  "on_fst f \<equiv> on_member fst (\<lambda>t (t', s). (t, s)) f"

abbreviation on_snd :: "'s call \<Rightarrow> ('t \<times> 's) call" where
  "on_snd f \<equiv> on_member snd (\<lambda>s (t, s'). (t, s)) f"

definition tap_value ::
  "('t, 'v, 'e, 'y) rcv_scheme \<Rightarrow> ('s, 'v, 'e, 'x) rcv_scheme \<Rightarrow> 'v \<Rightarrow> ('t \<times> 's) call" where
  "tap_value E R v = and_then (on_fst (set_value E v)) (on_snd (set_value R v))"

definition tap_error ::
  "('t, 'v, 'e, 'y) rcv_scheme \<Rightarrow> ('s, 'v, 'e, 'x) rcv_scheme \<Rightarrow> 'e error \<Rightarrow> ('t \<times> 's) call" where
  "tap_error E R e = no_except (and_then (on_fst (set_error E e)) (on_snd (set_error R e)))"

definition tap_done ::
  "('t, 'v, 'e, 'y) rcv_scheme \<Rightarrow> ('s, 'v, 'e, 'x) rcv_scheme \<Rightarrow> ('t \<times> 's) call" where
  "tap_done E R = and_then (on_fst (set_done E)) (on_snd (set_done R))"

definition tap_starting ::
  "('t, 'v, 'e, 'u) flow_rcv \<Rightarrow> ('s, 'v, 'e, 'u) flow_rcv \<Rightarrow> 'u \<Rightarrow> ('t \<times> 's) call" where
  "tap_starting E R up = and_then (on_fst (set_starting E up)) (on_snd (set_starting R up))"

definition make_tap ::
  "('t, 'v, 'e, 'y) rcv_scheme \<Rightarrow> ('s, 'v, 'e, 'x) rcv_scheme \<Rightarrow> ('t \<times> 's, 'v, 'e) rcv" where
  "make_tap E R = \<lparr>r_value = tap_value E R, r_error = tap_error E R, r_done = tap_done E R\<rparr>"

text \<open>
  \<open>submit_impl\<close>: a copy of the side effects for each submission. The state of the copy is left
  beside that of \<open>out\<close>.
\<close>

definition tap_submit ::
  "cat \<Rightarrow> ('t, 'v, 'e, 'y) rcv_scheme \<Rightarrow> 't \<Rightarrow> ('c, ('t \<times> 's) receiver_st, 'v, 'e, unit) sender \<Rightarrow>
   cat \<Rightarrow> ('s, 'v, 'e, 'x) rcv_scheme \<Rightarrow> 'c \<times> 's \<Rightarrow> ('c \<times> 't \<times> 's) outcome" where
  "tap_submit cap E t0 S k R = (\<lambda>(c, s).
     map_outcome (\<lambda>(c', st). (c', rs_data st))
       (S cap (receiver_pass (make_tap E R)) (c, receiver_new (t0, s))))"

lemma make_tap_sel:
  "r_value (make_tap E R) = tap_value E R" "r_error (make_tap E R) = tap_error E R"
  "r_done (make_tap E R) = tap_done E R"
  by (simp_all add: make_tap_def)

lemma tap_deliver:
  assumes "nothrow_error E" "nothrow_error R"
  shows "deliver (make_tap E R) sig (t, s) =
    (case deliver E sig t of
       Ret t' \<Rightarrow> map_outcome (Pair t') (deliver R sig s)
     | Thr n t' \<Rightarrow> UB | Term \<Rightarrow> Term | UB \<Rightarrow> UB)"
proof -
  have e: "\<And>n u. deliver E sig t \<noteq> Thr n u" "\<And>n u. deliver R sig s \<noteq> Thr n u"
    using assms by (simp_all add: nothrow_deliver)
  show ?thesis
    by (cases sig; cases "deliver E sig t"; cases "deliver R sig s")
       (use e in \<open>auto simp: make_tap_sel tap_value_def tap_error_def tap_done_def set_value_def [of "make_tap E R"]
          set_error_def set_done_def [of "make_tap E R"] on_member_def and_then_def try_catch_def no_except_def\<close>)
qed

lemma tap_nothrow: "nothrow_error (make_tap E R)"
  by (simp add: nothrow_error_def make_tap_sel tap_error_def)

lemma tap_deliver_all:
  assumes "nothrow_error E" "nothrow_error R" "deliver_all E sigs t = Ret t'"
  shows "deliver_all (make_tap E R) sigs (t, s) = map_outcome (Pair t') (deliver_all R sigs s)"
  using assms(3)
proof (induction sigs arbitrary: t s)
  case (Cons sig sigs)
  then obtain t1 where t1: "deliver E sig t = Ret t1" "deliver_all E sigs t1 = Ret t'"
    by (auto simp: and_then_eq_Ret)
  with Cons.IH [OF t1(2)] assms(1,2) show ?case
    by (cases "deliver R sig s") (simp_all add: and_then_def tap_deliver nothrow_deliver)
qed simp

lemma pass_push:
  "nothrow_error D \<Longrightarrow> push_signals (pass_rcv D) sigs d = deliver_all D (upto_terminal sigs) d"
proof (induction sigs arbitrary: d)
  case (Cons sig sigs)
  show ?case
  proof (cases sig)
    case (Value v)
    with Cons show ?thesis
      by (auto simp: pass_rcv_def passDVF_def and_then_def split: outcome.split)
  qed (use Cons.prems in \<open>simp_all add: push_terminal [of _ D] pass_rcv_def del: push_signals.simps deliver_all_simps\<close>)
qed simp

lemma receiver_pass_deliver:
  assumes "nothrow_error D"
  shows "map_outcome rs_data (deliver_all (receiver_pass D) sigs (receiver_new d)) =
    deliver_all D (upto_terminal sigs) d"
  using receiver_data_push [of "receiver_new d" "pass_rcv D" sigs]
  by (simp add: receiver_pass_eq receiver_new_def pass_push [OF assms])

lemma receiver_pass_nothrow: "nothrow_error (receiver_pass D)"
  by (simp add: receiver_pass_def rdata.receiver_nothrow)

lemma tap_contract:
  assumes S: "sender_contract S cap c sigs c'"
    and n: "nothrow_error E" "nothrow_error R" and t: "deliver_all E (upto_terminal sigs) t = Ret t'"
  shows "tap_submit cap E t S k R (c, s) =
    map_outcome (\<lambda>s'. (c', t', s')) (deliver_all R (upto_terminal sigs) s)"
proof -
  have "S cap (receiver_pass (make_tap E R)) (c, receiver_new (t, s)) =
      map_outcome (Pair c') (deliver_all (receiver_pass (make_tap E R)) sigs (receiver_new (t, s)))"
    by (rule sender_contract.sends [OF S receiver_pass_nothrow])
  moreover have "map_outcome rs_data (deliver_all (receiver_pass (make_tap E R)) sigs (receiver_new (t, s))) =
      map_outcome (Pair t') (deliver_all R (upto_terminal sigs) s)"
    by (simp add: receiver_pass_deliver [OF tap_nothrow] tap_deliver_all [OF n t])
  ultimately show ?thesis
    by (simp add: tap_submit_def map_outcome_comp map_outcome_via [of rs_data _ _ "Pair c'"])
qed

section \<open>\<open>switch_on_error\<close>\<close>

text \<open>
  The selector \<open>es\<close> gives for an error the state of the sender to switch to, whose type is \<open>S2\<close>;
  that sender is a temporary, submitted as an rvalue to \<open>out\<close> itself.
\<close>

definition switch_error ::
  "('e error \<Rightarrow> 'd) \<Rightarrow> ('d, 's, 'v, 'e, 'x) sender \<Rightarrow> ('s, 'v, 'e, 'x) rcv_scheme \<Rightarrow> 'e error \<Rightarrow> 's call" where
  "switch_error es S2 R e = no_except (\<lambda>s. map_outcome snd (S2 RValue R (es e, s)))"

definition switch_submit ::
  "cat \<Rightarrow> ('e error \<Rightarrow> 'd) \<Rightarrow> ('d, 's, 'v, 'e, 'x) sender \<Rightarrow> ('c, 's receiver_st, 'v, 'e, unit) sender \<Rightarrow>
   ('c, 's, 'v, 'e, 'x) sender" where
  "switch_submit cap es S2 S k R =
     submit_wrapped \<lparr>r_value = passDVF R, r_error = switch_error es S2 R, r_done = passDDF R\<rparr> (S cap)"

definition switch_on_error ::
  "cardinality \<Rightarrow> cat \<Rightarrow> ('e error \<Rightarrow> 'd) \<Rightarrow> ('d, 's, 'v, 'e, 'x) sender \<Rightarrow>
   ('c, 's receiver_st, 'v, 'e, unit) sender \<Rightarrow> ('c, 's, 'v, 'e, 'x) sender" where
  "switch_on_error n cap es S2 S = sender_from n False (switch_submit cap es S2 S)"

fun switch_signals :: "('e error \<Rightarrow> ('v, 'e) signal list) \<Rightarrow> ('v, 'e) signal list \<Rightarrow> ('v, 'e) signal list" where
  "switch_signals h [] = []"
| "switch_signals h (Value v # sigs) = Value v # switch_signals h sigs"
| "switch_signals h (Error e # sigs) = h e"
| "switch_signals h (Done # sigs) = [Done]"

lemma switch_push:
  assumes R: "nothrow_error R" and S2: "\<And>e. sender_contract S2 RValue (es e) (h e) (d' e)"
  shows "push_signals \<lparr>r_value = passDVF R, r_error = switch_error es S2 R, r_done = passDDF R\<rparr> sigs s =
    deliver_all R (switch_signals h sigs) s"
proof (induction sigs arbitrary: s)
  case (Cons sig sigs)
  show ?case
  proof (cases sig)
    case (Value v)
    with Cons show ?thesis
      by (auto simp: passDVF_def and_then_def split: outcome.split)
  next
    case (Error e)
    have "no_except (switch_error es S2 R e) s = deliver_all R (h e) s"
      by (cases "deliver_all R (h e) s")
         (simp_all add: switch_error_def no_except_def sender_contract.sends [OF S2 R] nothrow_deliver_all [OF R])
    then show ?thesis using Error by simp
  qed (use R in \<open>simp_all add: push_terminal [of _ R] del: push_signals.simps deliver_all_simps\<close>)
qed simp

lemma switch_contract:
  assumes "sender_contract S cap c sigs c'" "\<And>e. sender_contract S2 RValue (es e) (h e) (d' e)"
  shows "sender_contract (switch_on_error n cap es S2 S) k c (switch_signals h sigs) c'"
  by unfold_locales
     (simp add: switch_on_error_def sender_from_eq switch_submit_def submit_wrapped_contract [OF assms(1)]
       switch_push [OF _ assms(2)])

section \<open>Properties\<close>

text \<open>Pure user functions, that do not throw.\<close>

abbreviation pure_fn :: "('v \<Rightarrow> 'w) \<Rightarrow> ('v, 'w) user_fn" where
  "pure_fn f \<equiv> (\<lambda>v. Inr (f v))"

lemma transform_pure: "transform_signals (pure_fn f) (map Value xs @ [Done]) = map Value (map f xs) @ [Done]"
  by (induction xs) simp_all

lemma filter_pure: "filter_signals (pure_fn p) (map Value xs @ [Done]) = map Value (filter p xs) @ [Done]"
  by (induction xs) simp_all

text \<open>
  C19: A pipeline computes what it says: \<open>from(xs) | filter(p) | transform(f)\<close>, submitted to any
  receiver, sends the values \<open>f x\<close> for the \<open>x\<close> of \<open>xs\<close> with \<open>p x\<close>, in order, and then done, and
  leaves the range untouched, so it can be submitted again.
\<close>
theorem pipeline_values:
  assumes "nothrow_error R"
  shows "transform Many cap (pure_fn f) (filter_sender Many (pure_fn p) from_sender) k R (xs, s) =
    map_outcome (Pair xs) (deliver_all R (map Value (map f (filter p xs)) @ [Done]) s)"
proof -
  have "sender_contract (transform Many cap (pure_fn f) (filter_sender Many (pure_fn p) from_sender)) k xs
      (transform_signals (pure_fn f) (filter_signals (pure_fn p) (map Value xs @ [Done]))) xs"
    by (intro transform_contract filter_contract) unfold_locales
  from sender_contract.sends [OF this assms] show ?thesis
    by (simp only: filter_pure transform_pure)
qed

definition collector :: "(nat list \<times> nat, nat, nat) rcv" where
  "collector = \<lparr>r_value = (\<lambda>v (vs, d). Ret (vs @ [v], d)), r_error = (\<lambda>e (vs, d). Ret (vs, d + 10)),
     r_done = (\<lambda>(vs, d). Ret (vs, d + 1))\<rparr>"

lemma collector_nothrow: "nothrow_error collector"
  by (simp add: nothrow_error_def collector_def)

lemmas run_signals = set_value_def set_done_def set_error_def try_catch_def no_except_def and_then_def

theorem pipeline_values_witness:
  "transform Many LValue (pure_fn (\<lambda>x. x * x)) (filter_sender Many (pure_fn even) from_sender) LValue
     collector ([1, 2, 3, 4], ([], 0)) = Ret ([1, 2, 3, 4], ([4, 16], 1))"
  using pipeline_values [OF collector_nothrow, of LValue "\<lambda>x. x * x" even LValue "[1, 2, 3, 4]" "([], 0)"]
  by (simp add: run_signals collector_def)

text \<open>
  \<open>transform\<close> over any sender: the receiver gets the results of the function for the values
  before the first terminal signal; a function that throws ends the sequence with one error that
  carries the exception, and nothing follows a terminal signal.
\<close>
theorem transform_sends:
  assumes "\<And>R r. nothrow_error R \<Longrightarrow> S cap R (c, r) = map_outcome (Pair c') (deliver_all R sigs r)"
    and "nothrow_error R"
  shows "transform n cap f S k R (c, s) = map_outcome (Pair c') (deliver_all R (transform_signals f sigs) s)"
proof -
  have "sender_contract S cap c sigs c'" by unfold_locales (rule assms(1))
  from sender_contract.sends [OF transform_contract [OF this] assms(2)] show ?thesis .
qed

theorem transform_sends_witness:
  "transform Many LValue (\<lambda>v. if v = 0 then Inl 7 else Inr (10 div v)) from_sender LValue collector
     ([5, 0, 2], ([], 0)) = Ret ([5, 0, 2], ([2], 10))"
  using transform_sends [of from_sender LValue "[5, 0, 2]" "[5, 0, 2]" "map Value [5, 0, 2] @ [Done]" collector Many
      "\<lambda>v. if v = 0 then Inl 7 else Inr (10 div v)" LValue "([], 0)", OF from_s.sends collector_nothrow]
  by (simp add: run_signals collector_def)

text \<open>
  C25: \<open>tap\<close> is transparent: \<open>out\<close> gets the signals of the input up to the first terminal one, and the
  side effects get the same signals; the order in which the two are called does not matter to
  either as long as the side effects return.
\<close>
theorem tap_transparent:
  assumes "\<And>R r. nothrow_error R \<Longrightarrow> S cap R (c, r) = map_outcome (Pair c') (deliver_all R sigs r)"
    and "nothrow_error E" "nothrow_error R" "deliver_all E (upto_terminal sigs) t = Ret t'"
  shows "tap_submit cap E t S k R (c, s) =
    map_outcome (\<lambda>s'. (c', t', s')) (deliver_all R (upto_terminal sigs) s)"
proof -
  have "sender_contract S cap c sigs c'" by unfold_locales (rule assms(1))
  from tap_contract [OF this assms(2-4)] show ?thesis .
qed

theorem tap_transparent_witness:
  "tap_submit LValue collector ([], 0) from_sender LValue collector ([5, 6], ([1], 0)) =
     Ret ([5, 6], ([5, 6], 1), ([1, 5, 6], 1))"
proof -
  have "deliver_all collector (upto_terminal (map Value [5, 6] @ [Done])) ([], 0) = Ret ([5, 6], 1)"
    by (simp add: run_signals collector_def)
  from tap_transparent [of from_sender LValue "[5, 6]" "[5, 6]" "map Value [5, 6] @ [Done]", OF from_s.sends
      collector_nothrow collector_nothrow this, of LValue "([1], 0)"]
  show ?thesis by (simp add: run_signals collector_def)
qed

text \<open>
  \<open>switch_on_error\<close>: values and done pass; an error is replaced by all the signals of the
  sender that the selector returns, and never reaches \<open>out\<close>.
\<close>
theorem switch_on_error_sends:
  assumes "\<And>R r. nothrow_error R \<Longrightarrow> S cap R (c, r) = map_outcome (Pair c') (deliver_all R sigs r)"
    and "\<And>e R r. nothrow_error R \<Longrightarrow> S2 RValue R (es e, r) = map_outcome (Pair (d' e)) (deliver_all R (h e) r)"
    and "nothrow_error R"
  shows "switch_on_error n cap es S2 S k R (c, s) =
    map_outcome (Pair c') (deliver_all R (switch_signals h sigs) s)"
proof -
  have "sender_contract S cap c sigs c'" by unfold_locales (rule assms(1))
  moreover have "\<And>e. sender_contract S2 RValue (es e) (h e) (d' e)" by unfold_locales (rule assms(2))
  ultimately show ?thesis by (rule sender_contract.sends [OF switch_contract assms(3)])
qed

theorem switch_on_error_sends_witness:
  "switch_on_error Single LValue (\<lambda>e. 42) (just (\<lambda>v. v)) error_sender LValue collector (Eval 3, ([], 0)) =
     Ret (Eval 3, ([42], 1))"
  using switch_on_error_sends [of error_sender LValue "Eval 3" "Eval 3" "[Error (Eval 3)]" "just (\<lambda>v. v)" "\<lambda>e. 42"
      "\<lambda>e. 42" "\<lambda>e. [Value 42, Done]" collector Single LValue "([], 0)", OF error_s.sends just_s.sends collector_nothrow]
  by (simp add: run_signals collector_def)

text \<open>
  \<open>just\<close> gives its value away: submitted again, as an lvalue, it sends what the move out of its
  tuple has left, while \<open>error\<close> sends the same error each time.
\<close>
theorem just_twice:
  assumes "nothrow_error R" "deliver_all R [Value v, Done] s = Ret t"
  shows "\<exists>c. just mv LValue R (v, s) = Ret (c, t) \<and>
     just mv LValue R (c, s') = map_outcome (Pair (mv (mv v))) (deliver_all R [Value (mv v), Done] s') \<and>
     error_sender LValue R (e, s') = map_outcome (Pair e) (deliver_all R [Error e] s')"
  by (rule exI [of _ "mv v"])
     (simp only: just_s.sends [OF assms(1)] error_s.sends [OF assms(1)] assms(2) map_outcome_simps simp_thms)

theorem just_twice_witness:
  "\<exists>c. just (\<lambda>v. 0) LValue collector (7, ([], 0)) = Ret (c, ([7], 1)) \<and>
     just (\<lambda>v. 0) LValue collector (c, ([], 0)) = map_outcome (Pair 0) (deliver_all collector [Value 0, Done] ([], 0)) \<and>
     error_sender LValue collector (Eval 1, ([], 0)) = map_outcome (Pair (Eval 1)) (deliver_all collector [Error (Eval 1)] ([], 0))"
  by (rule just_twice [OF collector_nothrow, of 7 "([], 0)" "([7], 1)" "\<lambda>v. 0" "([], 0)" "Eval 1"])
     (simp add: run_signals collector_def)

text \<open>
  Erasing a sender changes nothing that the receiver sees: whatever an \<open>any_single_sender\<close>
  was constructed from, an lvalue or an rvalue, in its buffer or on the heap, submitting it sends
  the wrapped sender's signals to the erased receiver, which reacts as the receiver itself.
\<close>
theorem any_single_sender_transparent:
  assumes "\<And>R r. nothrow_error R \<Longrightarrow> S k R (c, r) = map_outcome (Pair c') (deliver_all R sigs r)"
  shows "map_outcome (\<lambda>((m', st), r'). (box_obj m' (as_box st), ar_view r'))
           (any_single_submit S R (any_single_new k insitu c m, any_receiver_new insitu' s rm)) =
         map_outcome (\<lambda>t. (Some c', rs_view t)) (deliver_all (receiver_pass R) sigs (receiver_new s))"
proof -
  obtain m1 b where b: "box_new insitu c m = (m1, b)" by (cases "box_new insitu c m")
  have con: "sender_contract S k c sigs c'" by unfold_locales (rule assms)
  let ?r = "any_receiver_new insitu' s rm"
  have "map_outcome (\<lambda>((m', st), r'). (box_obj m' (as_box st), ar_view r'))
          (any_single_submit S R (any_single_new k insitu c m, ?r)) =
        map_outcome (\<lambda>(x, r'). (x, ar_view r')) (map_outcome (\<lambda>((m', st), r'). (box_obj m' (as_box st), r'))
          (any_single_submit S R ((m1, \<lparr>as_box = b, as_cat = k\<rparr>), ?r)))"
    by (simp add: any_single_new_def b map_outcome_comp case_prod_unfold)
  also have "\<dots> = map_outcome (Pair (Some c')) (map_outcome ar_view (deliver_all (any_receiver R) sigs ?r))"
    by (simp add: any_single_submit_view [OF con box_new_obj(1) [OF b]] map_outcome_comp)
  also have "\<dots> = map_outcome (Pair (Some c')) (map_outcome rs_view (deliver_all (receiver_pass R) sigs (receiver_new s)))"
    by (simp add: any_receiver_pass_sim [OF any_receiver_new_view])
  finally show ?thesis by (simp add: map_outcome_comp)
qed

theorem any_single_sender_transparent_witness:
  "map_outcome (\<lambda>((m', st), r'). (box_obj m' (as_box st), ar_view r'))
     (any_single_submit (just (\<lambda>v. v)) collector
        (any_single_new RValue False 5 \<lparr>cells = Map.empty, next_cell = 0\<rparr>,
         any_receiver_new True ([], 0) \<lparr>cells = Map.empty, next_cell = 0\<rparr>)) =
   map_outcome (\<lambda>t. (Some 5, rs_view t)) (deliver_all (receiver_pass collector) [Value 5, Done] (receiver_new ([], 0)))"
  by (rule any_single_sender_transparent) (rule just_s.sends)

end
