(* ===== verification/Delivery_Queue.thy ===== *)
theory Delivery_Queue
  imports Prelude
begin

text \<open>
  What the two forms of \<open>via\<close> share: inputs that arrive are turned into tasks for an executor, and each
  task, when the executor runs it, works on a common state. The interface \<open>delivery_queue\<close> says what
  an arrival leaves to be done; for an executor that runs its tasks in the order of submission, the
  effect of any interleaving follows once here.
\<close>

text \<open>An input arrives, or the executor runs the task at position \<open>i\<close> of those submitted.\<close>

datatype 'i event = Signal 'i | Run nat

fun event_signals :: "'i event list \<Rightarrow> 'i list" where
  "event_signals [] = []"
| "event_signals (Signal sig # evs) = sig # event_signals evs"
| "event_signals (Run i # evs) = event_signals evs"

text \<open>A fifo executor runs the first.\<close>

fun fifo_event :: "'i event \<Rightarrow> bool" where
  "fifo_event (Signal sig) = True"
| "fifo_event (Run i) = (i = 0)"

text \<open>
  \<open>accept\<close> is the receiver of the inputs; \<open>tasks\<close> and \<open>out\<close> read the state, \<open>put\<close> updates both, and
  \<open>run\<close> is what a task does to \<open>out\<close>.
\<close>

fun queue_step ::
  "('i \<Rightarrow> 'st call) \<Rightarrow> ('st \<Rightarrow> 't list) \<Rightarrow> ('st \<Rightarrow> 's) \<Rightarrow> ('t list \<Rightarrow> 's \<Rightarrow> 'st \<Rightarrow> 'st) \<Rightarrow> ('t \<Rightarrow> 's call) \<Rightarrow>
   'i event \<Rightarrow> 'st call" where
  "queue_step accept tasks out put run (Signal i) st = accept i st"
| "queue_step accept tasks out put run (Run n) st =
     (let ts = tasks st in
      if n < length ts
      then map_outcome (\<lambda>s. put (take n ts @ drop (Suc n) ts) s st) (run (ts ! n) (out st))
      else Ret st)"

definition queue_run ::
  "('i \<Rightarrow> 'st call) \<Rightarrow> ('st \<Rightarrow> 't list) \<Rightarrow> ('st \<Rightarrow> 's) \<Rightarrow> ('t list \<Rightarrow> 's \<Rightarrow> 'st \<Rightarrow> 'st) \<Rightarrow> ('t \<Rightarrow> 's call) \<Rightarrow>
   'i event list \<Rightarrow> 'st call" where
  "queue_run accept tasks out put run evs = run_all (map (queue_step accept tasks out put run) evs)"

text \<open>The executor runs what is left, in order.\<close>

definition queue_flush ::
  "('i \<Rightarrow> 'st call) \<Rightarrow> ('st \<Rightarrow> 't list) \<Rightarrow> ('st \<Rightarrow> 's) \<Rightarrow> ('t list \<Rightarrow> 's \<Rightarrow> 'st \<Rightarrow> 'st) \<Rightarrow> ('t \<Rightarrow> 's call) \<Rightarrow>
   'st call" where
  "queue_flush accept tasks out put run st =
     queue_run accept tasks out put run (replicate (length (tasks st)) (Run 0)) st"

text \<open>
  \<open>owed st is\<close> is what is to be done in \<open>st\<close> if \<open>is\<close> are still to arrive, all of which are \<open>allowed\<close>.
\<close>

locale delivery_queue =
  fixes accept :: "'i \<Rightarrow> 'st call" and tasks :: "'st \<Rightarrow> 't list" and out :: "'st \<Rightarrow> 's"
    and put :: "'t list \<Rightarrow> 's \<Rightarrow> 'st \<Rightarrow> 'st" and run :: "'t \<Rightarrow> 's call"
    and allowed :: "'i \<Rightarrow> bool" and ok :: "'st \<Rightarrow> bool" and owed :: "'st \<Rightarrow> 'i list \<Rightarrow> 't list"
  assumes arrives: "ok st \<Longrightarrow> allowed i \<Longrightarrow>
      \<exists>st'. accept i st = Ret st' \<and> ok st' \<and> out st' = out st \<and> (\<forall>is. owed st' is = owed st (i # is))"
    and owed_now: "ok st \<Longrightarrow> owed st [] = tasks st"
    and put_tasks: "tasks (put ts s st) = ts"
    and put_out: "out (put ts s st) = s"
    and put_ok: "ok st \<Longrightarrow> tasks st = t # ts \<Longrightarrow> ok (put ts s st)"
    and put_owed: "ok st \<Longrightarrow> tasks st = t # ts \<Longrightarrow> owed st is = t # owed (put ts s st) is"
begin

abbreviation step :: "'i event \<Rightarrow> 'st call" where
  "step \<equiv> queue_step accept tasks out put run"

abbreviation flush :: "'st call" where
  "flush \<equiv> queue_flush accept tasks out put run"

lemma run_simps:
  "queue_run accept tasks out put run [] st = Ret st"
  "queue_run accept tasks out put run (ev # evs) st = and_then (step ev) (queue_run accept tasks out put run evs) st"
  by (simp_all add: queue_run_def)

lemma run_first:
  "tasks st = t # ts \<Longrightarrow> step (Run 0) st = map_outcome (\<lambda>s. put ts s st) (run t (out st))"
  by (simp add: Let_def)

lemma run_none: "tasks st = [] \<Longrightarrow> step (Run i) st = Ret st"
  by (simp add: Let_def)

lemma flush_owed: "map_outcome out (flush st) = run_all (map run (tasks st)) (out st)"
proof (induction "tasks st" arbitrary: st)
  case Nil
  then show ?case using Nil.hyps [symmetric] by (simp add: queue_flush_def run_simps)
next
  case (Cons t ts)
  note ts = Cons.hyps(2) [symmetric]
  show ?case
  proof (cases "run t (out st)")
    case (Ret s')
    have "map_outcome out (flush (put ts s' st)) = run_all (map run ts) s'"
      using Cons.hyps(1) [of "put ts s' st"] by (simp add: put_tasks put_out)
    then show ?thesis using Ret ts
      by (simp add: queue_flush_def run_simps and_then_def run_first [OF ts] put_tasks del: queue_step.simps)
  qed (simp_all add: queue_flush_def run_simps ts and_then_def run_first [OF ts] put_out del: queue_step.simps)
qed

lemma fifo:
  "ok st \<Longrightarrow> list_all fifo_event evs \<Longrightarrow> list_all allowed (event_signals evs) \<Longrightarrow>
   map_outcome out (and_then (queue_run accept tasks out put run evs) flush st) =
     run_all (map run (owed st (event_signals evs))) (out st)"
proof (induction evs arbitrary: st)
  case Nil
  then show ?case using flush_owed [of st] by (simp add: owed_now run_simps and_then_def)
next
  case (Cons ev evs)
  show ?case
  proof (cases ev)
    case (Signal i)
    obtain st' where st': "accept i st = Ret st'" "ok st'" "out st' = out st"
        "owed st' (event_signals evs) = owed st (i # event_signals evs)"
      using arrives [OF Cons.prems(1), of i] Signal Cons.prems(3) by auto
    then show ?thesis using Signal Cons.IH [OF st'(2)] Cons.prems
      by (simp add: and_then_def run_simps)
  next
    case (Run i)
    with Cons.prems(2) have i: "i = 0" by simp
    show ?thesis
    proof (cases "tasks st")
      case Nil
      then show ?thesis using Run Cons.IH [OF Cons.prems(1)] Cons.prems
        by (simp add: and_then_def run_simps run_none del: queue_step.simps)
    next
      case ts: (Cons t ts)
      note put = put_ok [OF Cons.prems(1) ts] put_owed [OF Cons.prems(1) ts, of "event_signals evs"]
      show ?thesis
      proof (cases "run t (out st)")
        case (Ret s')
        then show ?thesis using Run i Cons.IH [OF put(1) [of s']] Cons.prems
          by (simp add: and_then_def run_simps run_first [OF ts] put(2) [of s'] put_out del: queue_step.simps)
      qed (use Run i Cons.prems in
            \<open>simp_all add: and_then_def run_simps run_first [OF ts] put(2) [of "out st"] put_out del: queue_step.simps\<close>)
    qed
  qed
qed

end

end
