(* ===== verification/On_Via.thy ===== *)
theory On_Via
  imports Operators Delivery_Queue
begin

text \<open>
  The operators that move work to an executor: \<open>on\<close> (\<open>o/on.h\<close>) starts its input there, \<open>via\<close>
  (\<open>o/via.h\<close>) delivers the signals of its input there. The executor, made by the strand factory that
  the user gives, is a parameter: for \<open>on\<close> the sender \<open>schedule(exec)\<close>, for \<open>via\<close> the order in
  which it runs the tasks that were submitted.
\<close>

section \<open>\<open>on\<close>\<close>

text \<open>
  The receiver that waits on the executor holds the input and \<open>out\<close>; \<open>value\<close> moves \<open>out\<close> into
  \<open>submit\<close>.
\<close>

record ('c, 's) on_st =
  on_in :: 'c
  on_out :: 's
  on_moved :: bool

definition on_start :: "'c \<Rightarrow> 's \<Rightarrow> ('c, 's) on_st" where
  "on_start c s = \<lparr>on_in = c, on_out = s, on_moved = False\<rparr>"

definition on_value ::
  "('c, 's, 'v, 'e, 'x) sender \<Rightarrow> ('s, 'v, 'e, 'x) rcv_scheme \<Rightarrow> 'ex \<Rightarrow> ('c, 's) on_st call" where
  "on_value S R ex st =
     (if on_moved st then UB
      else map_outcome (\<lambda>(c', s'). \<lparr>on_in = c', on_out = s', on_moved = True\<rparr>)
             (S LValue R (on_in st, on_out st)))"

definition on_task ::
  "('c, 's, 'v, 'e, 'x) sender \<Rightarrow> ('s, 'v, 'e, 'x) rcv_scheme \<Rightarrow> (('c, 's) on_st receiver_st, 'ex, 'f) rcv" where
  "on_task S R = receiver_fn \<lparr>r_value = on_value S R, r_error = abortEF, r_done = ignoreDF\<rparr>"

text \<open>
  \<open>submit_impl\<close>: \<open>X\<close> is \<open>schedule(exec)\<close>, in the state \<open>ef\<close> of a strand the factory has just made.
  The input is copied into the receiver when the sender is an lvalue and moved otherwise, which
  leaves \<open>mv c\<close> behind.
\<close>

definition on_submit ::
  "('c \<Rightarrow> 'c) \<Rightarrow> 'f \<Rightarrow> ('f, ('c, 's) on_st receiver_st, 'ex, 'g, unit) sender \<Rightarrow> ('c, 's, 'v, 'e, 'x) sender \<Rightarrow>
   ('c, 's, 'v, 'e, 'x) sender" where
  "on_submit mv ef X S k R = (\<lambda>(c, s).
     map_outcome (\<lambda>(x, st). (if k = RValue then mv c else c, on_out (rs_data st)))
       (X RValue (on_task S R) (ef, receiver_new (on_start c s))))"

definition on_sender ::
  "cardinality \<Rightarrow> bool \<Rightarrow> ('c \<Rightarrow> 'c) \<Rightarrow> 'f \<Rightarrow> ('f, ('c, 's) on_st receiver_st, 'ex, 'g, unit) sender \<Rightarrow>
   ('c, 's, 'v, 'e, 'x) sender \<Rightarrow> ('c, 's, 'v, 'e, 'x) sender" where
  "on_sender n flow mv ef X S = sender_from n flow (on_submit mv ef X S)"

lemma on_task_nothrow: "nothrow_error (on_task S R)"
  by (simp add: on_task_def rfn.receiver_nothrow)

lemma on_task_runs:
  assumes "sender_contract S LValue c sigs c'" "nothrow_error R"
  shows "map_outcome (\<lambda>st. on_out (rs_data st))
      (deliver_all (on_task S R) [Value ex, Done] (receiver_new (on_start c s))) = deliver_all R sigs s"
proof -
  have "map_outcome rs_data (deliver_all (on_task S R) [Value ex, Done] (receiver_new (on_start c s))) =
      map_outcome (\<lambda>t. \<lparr>on_in = c', on_out = t, on_moved = True\<rparr>) (deliver_all R sigs s)"
    using receiver_fn_push [of "receiver_new (on_start c s)"
        "\<lparr>r_value = on_value S R, r_error = abortEF, r_done = ignoreDF\<rparr>" "[Value ex, Done]"]
    by (cases "deliver_all R sigs s")
       (simp_all add: on_task_def receiver_new_def on_value_def on_start_def ignoreDF_def
         sender_contract.sends [OF assms] nothrow_deliver_all [OF assms(2)])
  from map_outcome_via [OF this, of on_out] show ?thesis
    by (simp add: map_outcome_comp)
qed

lemma on_task_pair:
  assumes "sender_contract S LValue c sigs c'" "nothrow_error R"
  shows "map_outcome (\<lambda>st. (y, on_out (rs_data st)))
      (deliver_all (on_task S R) [Value ex, Done] (receiver_new (on_start c s))) = map_outcome (Pair y) (deliver_all R sigs s)"
  by (rule map_outcome_via [OF on_task_runs [OF assms]])

lemma on_contract:
  assumes "sender_contract X RValue ef [Value ex, Done] ef'" "sender_contract S LValue c sigs c'"
  shows "sender_contract (on_sender n flow mv ef X S) k c sigs (if from_cat flow k = RValue then mv c else c)"
  by unfold_locales
     (simp add: on_sender_def sender_from_eq on_submit_def sender_contract.sends [OF assms(1) on_task_nothrow]
       map_outcome_comp on_task_pair [OF assms(2)] del: deliver_all_simps)

section \<open>\<open>via\<close>\<close>

text \<open>
  The data of the receiver that \<open>via\<close> submits to its input: \<open>via_fn_base::done_\<close>, whether the
  shared pointer \<open>out_\<close> is still held, the tasks submitted to the executor (each with the signal it
  delivers, of type \<open>'i\<close>, and whether the pointer it copied was null), and the shared \<open>out\<close>.
\<close>

record ('s, 'i) via_st =
  via_done :: bool
  via_held :: bool
  via_tasks :: "('i \<times> bool) list"
  via_out :: 's

definition via_start :: "'s \<Rightarrow> ('s, 'i) via_st" where
  "via_start s = \<lparr>via_done = False, via_held = True, via_tasks = [], via_out = s\<rparr>"

definition via_push :: "'i \<Rightarrow> ('s, 'i) via_st \<Rightarrow> ('s, 'i) via_st" where
  "via_push sig st = st\<lparr>via_tasks := via_tasks st @ [(sig, via_held st)]\<rparr>"

text \<open>\<open>sg\<close> makes a task's signal of a value, error or done.\<close>

definition via_value :: "(('v, 'e) signal \<Rightarrow> 'i) \<Rightarrow> 'v \<Rightarrow> ('s, 'i) via_st call" where
  "via_value sg v st = (if via_done st then Ret st else Ret (via_push (sg (Value v)) st))"

definition via_error :: "(('v, 'e) signal \<Rightarrow> 'i) \<Rightarrow> 'e error \<Rightarrow> ('s, 'i) via_st call" where
  "via_error sg e st =
     (if via_done st then Ret st
      else Ret ((via_push (sg (Error e)) (st\<lparr>via_done := True\<rparr>))\<lparr>via_held := False\<rparr>))"

definition via_on_done :: "(('v, 'e) signal \<Rightarrow> 'i) \<Rightarrow> ('s, 'i) via_st call" where
  "via_on_done sg st =
     (if via_done st then Ret st
      else Ret ((via_push (sg Done) (st\<lparr>via_done := True\<rparr>))\<lparr>via_held := False\<rparr>))"

definition via_fns :: "(('v, 'e) signal \<Rightarrow> 'i) \<Rightarrow> (('s, 'i) via_st, 'v, 'e) rcv" where
  "via_fns sg = \<lparr>r_value = via_value sg, r_error = via_error sg, r_done = via_on_done sg\<rparr>"

definition via_receiver :: "(('s, ('v, 'e) signal) via_st receiver_st, 'v, 'e) rcv" where
  "via_receiver = receiver_data (via_fns id)"

text \<open>
  A task: a receiver that sends its signal through its pointer when the executor sends it a value.
\<close>

definition via_task :: "('i \<Rightarrow> 's call) \<Rightarrow> 'i \<times> bool \<Rightarrow> 's call" where
  "via_task send t = (if snd t then send (fst t) else (\<lambda>s. UB))"

text \<open>The run of \<open>via\<close>: the signals of its input, and the executor's tasks.\<close>

abbreviation via_put :: "('i \<times> bool) list \<Rightarrow> 's \<Rightarrow> ('s, 'i) via_st receiver_st \<Rightarrow> ('s, 'i) via_st receiver_st" where
  "via_put ts s st \<equiv> st\<lparr>rs_data := (rs_data st)\<lparr>via_tasks := ts, via_out := s\<rparr>\<rparr>"

definition via_run ::
  "('s, 'v, 'e, 'x) rcv_scheme \<Rightarrow> ('v, 'e) signal event list \<Rightarrow> ('s, ('v, 'e) signal) via_st receiver_st call" where
  "via_run R = queue_run (deliver via_receiver) (\<lambda>st. via_tasks (rs_data st)) (\<lambda>st. via_out (rs_data st)) via_put
     (via_task (deliver R))"

definition via_flush :: "('s, 'v, 'e, 'x) rcv_scheme \<Rightarrow> ('s, ('v, 'e) signal) via_st receiver_st call" where
  "via_flush R = queue_flush (deliver via_receiver) (\<lambda>st. via_tasks (rs_data st)) (\<lambda>st. via_out (rs_data st)) via_put
     (via_task (deliver R))"

text \<open>\<open>submit_impl\<close>: the input, with the category it was captured with, sends to \<open>via_receiver\<close>.\<close>

definition via_submit ::
  "cat \<Rightarrow> ('c, ('s, ('v, 'e) signal) via_st receiver_st, 'v, 'e, unit) sender \<Rightarrow> 'c \<times> 's \<Rightarrow>
   ('c \<times> ('s, ('v, 'e) signal) via_st receiver_st) outcome" where
  "via_submit cap S = (\<lambda>(c, s). S cap via_receiver (c, receiver_new (via_start s)))"

text \<open>
  The invariant: the two flags agree, the pointer is held until they are set, and no task has a
  null pointer.
\<close>

definition via_ok :: "('s, 'i) via_st receiver_st \<Rightarrow> bool" where
  "via_ok st \<longleftrightarrow> via_done (rs_data st) = rs_done st \<and> via_held (rs_data st) = (\<not> rs_done st) \<and>
     list_all snd (via_tasks (rs_data st))"

definition via_owed :: "('s, ('v, 'e) signal) via_st receiver_st \<Rightarrow> ('v, 'e) signal list \<Rightarrow> (('v, 'e) signal \<times> bool) list" where
  "via_owed st sigs =
     via_tasks (rs_data st) @ (if rs_done st then [] else map (\<lambda>sig. (sig, True)) (upto_terminal sigs))"

lemmas via_fn_defs = via_fns_def via_value_def via_error_def via_on_done_def via_push_def
lemmas via_defs = via_receiver_def via_fn_defs receiver_data_defs

lemma via_signal:
  assumes "via_ok st"
  shows "\<exists>st'. deliver via_receiver sig st = Ret st' \<and> via_ok st' \<and> via_out (rs_data st') = via_out (rs_data st) \<and>
     (\<forall>sigs. via_owed st' sigs = via_owed st (sig # sigs))"
proof (cases "rs_done st")
  case True
  then have "deliver via_receiver sig st = Ret st"
    unfolding via_receiver_def by (rule rdata.closed_deliver)
  then show ?thesis using assms True by (simp add: via_owed_def)
next
  case False
  with assms show ?thesis
    by (cases sig) (auto simp: run_signals via_defs on_member_def via_ok_def via_owed_def)
qed

interpretation viaq: delivery_queue "deliver via_receiver" "\<lambda>st. via_tasks (rs_data st)" "\<lambda>st. via_out (rs_data st)"
    via_put "via_task (deliver R)" "\<lambda>_. True" via_ok via_owed for R
  by unfold_locales (simp_all add: via_signal, auto simp: via_owed_def via_ok_def)

lemma via_task_all: "run_all (map (via_task send) (map (\<lambda>i. (i, True)) is)) = run_all (map send is)"
  by (simp add: via_task_def comp_def)

lemma via_fifo:
  assumes "via_ok st" "list_all fifo_event evs"
  shows "map_outcome (\<lambda>st. via_out (rs_data st)) (and_then (via_run R evs) (via_flush R) st) =
     run_all (map (via_task (deliver R)) (via_owed st (event_signals evs))) (via_out (rs_data st))"
  unfolding via_run_def via_flush_def by (rule viaq.fifo) (use assms in \<open>simp_all add: list_all_iff\<close>)

lemma via_start_ok: "via_ok (receiver_new (via_start s))"
  by (simp add: via_ok_def receiver_new_def via_start_def)

section \<open>Properties\<close>

text \<open>
  \<open>on\<close> runs its input on the executor and nowhere else: for any executor that sends one value
  and done, \<open>out\<close> gets exactly the signals of the input, after \<open>schedule\<close> has run the waiting
  receiver; an executor that sends an error ends the program, with \<open>out\<close> not signalled.
\<close>
theorem on_sends:
  assumes "\<And>R r. nothrow_error R \<Longrightarrow> S LValue R (c, r) = map_outcome (Pair c') (deliver_all R sigs r)"
    and "nothrow_error R"
  shows "map_outcome (\<lambda>st. on_out (rs_data st))
      (deliver_all (on_task S R) [Value ex, Done] (receiver_new (on_start c s))) = deliver_all R sigs s
    \<and> deliver (on_task S R) (Error e) (receiver_new (on_start c s)) = Term"
proof (rule conjI)
  have con: "sender_contract S LValue c sigs c'" by unfold_locales (rule assms(1))
  show "map_outcome (\<lambda>st. on_out (rs_data st))
      (deliver_all (on_task S R) [Value ex, Done] (receiver_new (on_start c s))) = deliver_all R sigs s"
    by (rule on_task_runs [OF con assms(2)])
  show "deliver (on_task S R) (Error e) (receiver_new (on_start c s)) = Term"
    by (simp add: on_task_def receiver_fn_defs receiver_new_def abortEF_def run_signals on_member_def)
qed

theorem on_sends_witness:
  "map_outcome (\<lambda>st. on_out (rs_data st))
     (deliver_all (on_task from_sender collector) [Value (), Done] (receiver_new (on_start [4, 5] ([], 0)))) =
   Ret ([4, 5], 1)"
  by (rule trans [OF conjunct1 [OF on_sends [of from_sender "[4, 5]" "[4, 5]" "map Value [4, 5] @ [Done]", OF from_s.sends
        collector_nothrow]]]) (simp_all add: run_signals collector_def)

text \<open>
  C18: \<open>via\<close> keeps the sequence: however the signals of the input and the runs of a fifo executor are
  interleaved, once the executor has run what is left, \<open>out\<close> has got the signals of the input up to
  the first terminal one, in order, and the pointer to \<open>out\<close> that \<open>error\<close> and \<open>done\<close> give away is
  never used afterwards.
\<close>
theorem via_keeps_order:
  assumes "list_all fifo_event evs"
  shows "map_outcome (\<lambda>st. via_out (rs_data st)) (and_then (via_run R evs) (via_flush R) (receiver_new (via_start s))) =
     deliver_all R (upto_terminal (event_signals evs)) s"
  using via_fifo [OF via_start_ok assms, of R s]
  by (simp add: via_owed_def receiver_new_def via_start_def deliver_all_def via_task_all del: map_map)

theorem via_keeps_order_witness:
  "map_outcome (\<lambda>st. via_out (rs_data st))
     (and_then (via_run collector [Signal (Value 1), Signal (Value 2), Run 0, Signal Done, Run 0, Signal (Value 9)])
        (via_flush collector) (receiver_new (via_start ([], 0)))) = Ret ([1, 2], 1)"
  using via_keeps_order [of "[Signal (Value 1), Signal (Value 2), Run 0, Signal Done, Run 0, Signal (Value 9)]"
      collector "([], 0)"]
  by (simp add: run_signals collector_def)

text \<open>
  \<open>via\<close> depends on the order of the executor: with one that runs its tasks in another order, a
  receiver is told done before the value that was sent before it.
\<close>
theorem via_needs_fifo:
  "\<exists>evs. event_signals evs = [Value 1, Done] \<and>
     map_outcome (\<lambda>st. via_out (rs_data st)) (and_then (via_run collector evs) (via_flush collector)
       (receiver_new (via_start ([], 0)))) = deliver_all collector [Done, Value 1] ([], 0)"
  by (rule exI [of _ "[Signal (Value 1), Signal Done, Run 1, Run 0]"])
     (simp add: via_run_def queue_run_def queue_flush_def via_flush_def Let_def via_task_def run_signals via_defs on_member_def receiver_new_def via_start_def collector_def)

end
