(* ===== verification/Subject.thy ===== *)
theory Subject
  imports Operators
begin

text \<open>
  \<open>subject.h\<close> and \<open>share\<close> (\<open>o/share.h\<close>): a sender that sends one value to every receiver submitted
  before it, and remembers how it ended for those submitted later. Every member function of
  \<open>subject_shared\<close> holds \<open>lock_\<close> from entry to exit, so a concurrent use is a list of whole calls.
  The receivers are \<open>any_receiver\<close>s; receiver number \<open>i\<close> is the \<open>i\<close>-th to be submitted, and the
  state of all of them is one list.
\<close>

section \<open>State\<close>

record ('s, 'v) subject =
  sj_done :: bool
  sj_t :: "'v option"
  sj_ep :: eptr
  sj_receivers :: "nat list"
  sj_outs :: "'s list"

definition subject_new :: "('s, 'v) subject" where
  "subject_new = \<lparr>sj_done = False, sj_t = None, sj_ep = Null, sj_receivers = [], sj_outs = []\<rparr>"

text \<open>A signal to receiver \<open>i\<close>; the signals are \<open>noexcept\<close>.\<close>

definition signal_out :: "('s, 'v, 'e) rcv \<Rightarrow> ('v, 'e) signal \<Rightarrow> nat \<Rightarrow> ('s, 'v) subject call" where
  "signal_out R sig i sj =
     (if i < length (sj_outs sj)
      then map_outcome (\<lambda>s. sj\<lparr>sj_outs := (sj_outs sj)[i := s]\<rparr>) (deliver R sig (sj_outs sj ! i))
      else UB)"

section \<open>Operations\<close>

definition subject_submit :: "('s, 'v, 'e) rcv \<Rightarrow> 's \<Rightarrow> ('s, 'v) subject call" where
  "subject_submit R out sj =
     (let i = length (sj_outs sj); sj = sj\<lparr>sj_outs := sj_outs sj @ [out]\<rparr> in
      if sj_ep sj \<noteq> Null then signal_out R (Error (Eptr (sj_ep sj))) i sj
      else case (sj_t sj, sj_done sj) of
          (Some v, True) \<Rightarrow> signal_out R (Value v) i sj
        | (_, True) \<Rightarrow> signal_out R Done i sj
        | _ \<Rightarrow> Ret (sj\<lparr>sj_receivers := sj_receivers sj @ [i]\<rparr>))"

definition subject_value :: "('s, 'v, 'e) rcv \<Rightarrow> 'v \<Rightarrow> ('s, 'v) subject call" where
  "subject_value R v sj =
     map_outcome (\<lambda>sj. sj\<lparr>sj_t := Some v\<rparr>) (run_all (map (signal_out R (Value v)) (sj_receivers sj)) sj)"

text \<open>
  The loop of \<open>error\<close>: each receiver gets what is left of \<open>e\<close>, which the first one moves from, so
  that an \<open>exception_ptr\<close> is null for the others.
\<close>

fun subject_error_loop :: "('s, 'v, 'e) rcv \<Rightarrow> eptr \<Rightarrow> nat list \<Rightarrow> ('s, 'v) subject call" where
  "subject_error_loop R ep [] sj = Ret sj"
| "subject_error_loop R ep (i # is) sj = and_then (signal_out R (Error (Eptr ep)) i) (subject_error_loop R Null is) sj"

definition subject_error :: "('s, 'v, 'e) rcv \<Rightarrow> eptr \<Rightarrow> ('s, 'v) subject call" where
  "subject_error R ep = no_except (\<lambda>sj.
     map_outcome (\<lambda>sj. sj\<lparr>sj_receivers := []\<rparr>) (subject_error_loop R ep (sj_receivers sj) (sj\<lparr>sj_ep := ep\<rparr>)))"

definition subject_done :: "('s, 'v, 'e) rcv \<Rightarrow> ('s, 'v) subject call" where
  "subject_done R sj =
     map_outcome (\<lambda>sj. sj\<lparr>sj_receivers := []\<rparr>)
       (run_all (map (signal_out R Done) (sj_receivers sj)) (sj\<lparr>sj_done := True\<rparr>))"

text \<open>
  \<open>receiver()\<close>: a \<open>subject_receiver\<close> (it forwards to the shared state) wrapped by \<open>make_receiver\<close>;
  \<open>share\<close> submits it to its input.
\<close>

definition subject_receiver :: "('s, 'v, 'e) rcv \<Rightarrow> (('s, 'v) subject, 'v, eptr) rcv" where
  "subject_receiver R = \<lparr>r_value = subject_value R,
     r_error = (\<lambda>e. case e of Eptr ep \<Rightarrow> subject_error R ep | Eval ep \<Rightarrow> subject_error R ep),
     r_done = subject_done R\<rparr>"

definition subject_get_receiver :: "('s, 'v, 'e) rcv \<Rightarrow> (('s, 'v) subject receiver_st, 'v, eptr) rcv" where
  "subject_get_receiver R = receiver_pass (subject_receiver R)"

definition share ::
  "('s, 'v, 'e) rcv \<Rightarrow> ('c, ('s, 'v) subject receiver_st, 'v, eptr, unit) sender \<Rightarrow> 'c \<Rightarrow> ('c \<times> ('s, 'v) subject receiver_st) outcome" where
  "share R S c = S LValue (subject_get_receiver R) (c, receiver_new subject_new)"

section \<open>Signals to all receivers\<close>

text \<open>Receivers that return from every signal, with the state that \<open>f\<close> gives.\<close>

definition returns_as :: "('s, 'v, 'e) rcv \<Rightarrow> (('v, 'e) signal \<Rightarrow> 's \<Rightarrow> 's) \<Rightarrow> bool" where
  "returns_as R f \<longleftrightarrow> (\<forall>sig s. deliver R sig s = Ret (f sig s))"

lemma returns_asD: "returns_as R f \<Longrightarrow> deliver R sig s = Ret (f sig s)"
  by (simp add: returns_as_def)

definition upd_all :: "('s \<Rightarrow> 's) \<Rightarrow> nat list \<Rightarrow> 's list \<Rightarrow> 's list" where
  "upd_all g is ss = map (\<lambda>(i, s). if i \<in> set is then g s else s) (enumerate 0 ss)"

lemma upd_all_length [simp]: "length (upd_all g is ss) = length ss"
  by (simp add: upd_all_def)

lemma upd_all_nth: "i < length ss \<Longrightarrow> upd_all g is ss ! i = (if i \<in> set is then g (ss ! i) else ss ! i)"
  by (simp add: upd_all_def nth_enumerate_eq)

lemma upd_all_Nil [simp]: "upd_all g [] ss = ss"
  by (rule nth_equalityI) (simp_all add: upd_all_nth)

lemma upd_all_Cons:
  "i \<notin> set is \<Longrightarrow> i < length ss \<Longrightarrow> upd_all g is (ss[i := g (ss ! i)]) = upd_all g (i # is) ss"
  by (rule nth_equalityI) (auto simp: upd_all_nth nth_list_update)

lemma signal_all:
  assumes "returns_as R f"
  shows "distinct is \<Longrightarrow> \<forall>i \<in> set is. i < length (sj_outs sj) \<Longrightarrow>
    run_all (map (signal_out R sig) is) sj = Ret (sj\<lparr>sj_outs := upd_all (f sig) is (sj_outs sj)\<rparr>)"
proof (induction "is" arbitrary: sj)
  case (Cons i js)
  let ?sj = "sj\<lparr>sj_outs := (sj_outs sj)[i := f sig (sj_outs sj ! i)]\<rparr>"
  have "signal_out R sig i sj = Ret ?sj"
    using Cons.prems by (simp add: signal_out_def returns_asD [OF assms])
  moreover have "run_all (map (signal_out R sig) js) ?sj = Ret (?sj\<lparr>sj_outs := upd_all (f sig) js (sj_outs ?sj)\<rparr>)"
    by (rule Cons.IH) (use Cons.prems in auto)
  ultimately show ?case using Cons.prems by (simp add: and_then_def upd_all_Cons)
qed simp

lemma signal_error_loop:
  assumes "returns_as R f" "distinct (i # js)" "\<forall>k \<in> set (i # js). k < length (sj_outs sj)"
  shows "subject_error_loop R ep (i # js) sj = Ret (sj\<lparr>sj_outs :=
     upd_all (f (Error (Eptr Null))) js ((sj_outs sj)[i := f (Error (Eptr ep)) (sj_outs sj ! i)])\<rparr>)"
proof -
  have null: "subject_error_loop R Null ks = run_all (map (signal_out R (Error (Eptr Null))) ks)" for ks
  proof (rule ext)
    fix sj show "subject_error_loop R Null ks sj = run_all (map (signal_out R (Error (Eptr Null))) ks) sj"
      by (induction ks arbitrary: sj) (simp_all add: and_then_def split: outcome.split)
  qed
  show ?thesis using assms(2,3)
    by (simp add: and_then_def signal_out_def returns_asD [OF assms(1)] null signal_all [OF assms(1)]
        del: deliver.simps)
qed

section \<open>Submissions\<close>

definition submit_outs :: "('s, 'v, 'e) rcv \<Rightarrow> 's list \<Rightarrow> ('s, 'v) subject call" where
  "submit_outs R outs = run_all (map (subject_submit R) outs)"

lemma submit_outs_simps [simp]:
  "submit_outs R [] sj = Ret sj"
  "submit_outs R (s # ss) sj = and_then (subject_submit R s) (submit_outs R ss) sj"
  by (simp_all add: submit_outs_def)

lemma submit_outs_open:
  "sj_ep sj = Null \<Longrightarrow> \<not> sj_done sj \<Longrightarrow> submit_outs R outs sj =
   Ret (sj\<lparr>sj_outs := sj_outs sj @ outs,
     sj_receivers := sj_receivers sj @ [length (sj_outs sj)..<length (sj_outs sj) + length outs]\<rparr>)"
proof (induction outs arbitrary: sj)
  case (Cons s ss)
  have s: "subject_submit R s sj = Ret (sj\<lparr>sj_outs := sj_outs sj @ [s],
      sj_receivers := sj_receivers sj @ [length (sj_outs sj)]\<rparr>)"
    using Cons.prems by (simp add: subject_submit_def Let_def split: option.split)
  show ?case
    by (simp add: and_then_def s Cons.IH Cons.prems upt_conv_Cons del: upt_Suc)
qed simp

lemma submit_outs_late:
  assumes R: "returns_as R f"
    and late: "\<And>s sj. sj_ep sj = ep \<Longrightarrow> sj_t sj = t \<Longrightarrow> sj_done sj = d \<Longrightarrow>
      subject_submit R s sj = signal_out R sig (length (sj_outs sj)) (sj\<lparr>sj_outs := sj_outs sj @ [s]\<rparr>)"
  shows "sj_ep sj = ep \<Longrightarrow> sj_t sj = t \<Longrightarrow> sj_done sj = d \<Longrightarrow>
    submit_outs R outs sj = Ret (sj\<lparr>sj_outs := sj_outs sj @ map (f sig) outs\<rparr>)"
proof (induction outs arbitrary: sj)
  case (Cons s ss)
  have s: "subject_submit R s sj = Ret (sj\<lparr>sj_outs := sj_outs sj @ [f sig s]\<rparr>)"
    by (simp add: late Cons.prems signal_out_def returns_asD [OF R])
  show ?case by (simp add: and_then_def s Cons.IH Cons.prems)
qed simp

lemma upd_all_prefix:
  "upd_all g [0..<length as] (as @ bs) = map g as @ bs"
  by (rule nth_equalityI) (auto simp: upd_all_nth nth_append)

lemma upd_all_everything: "length as = n \<Longrightarrow> upd_all g [0..<n] as = map g as"
  using upd_all_prefix [of g as "[]"] by simp

section \<open>Properties\<close>

text \<open>
  C26: What the receivers of a subject get, for any receivers that return: those submitted before the
  value get value and done; those submitted between the value and done get done alone, the value
  is lost for them; those submitted after done get the value alone, and no done.
\<close>
theorem subject_signals:
  assumes "returns_as R f"
  shows "map_outcome sj_outs
     (run_all [submit_outs R as, subject_value R v, submit_outs R bs, subject_done R, submit_outs R cs] subject_new) =
   Ret (map (\<lambda>s. f Done (f (Value v) s)) as @ map (f Done) bs @ map (f (Value v)) cs)"
proof -
  let ?n = "length as" and ?m = "length as + length bs"
  have 1: "submit_outs R as subject_new = Ret (subject_new\<lparr>sj_outs := as, sj_receivers := [0..<?n]\<rparr>)"
    by (simp add: submit_outs_open subject_new_def)
  have 2: "subject_value R v (subject_new\<lparr>sj_outs := as, sj_receivers := [0..<?n]\<rparr>) =
      Ret (subject_new\<lparr>sj_outs := map (f (Value v)) as, sj_receivers := [0..<?n], sj_t := Some v\<rparr>)"
    by (simp add: subject_value_def signal_all [OF assms] upd_all_everything)
  have 3: "submit_outs R bs (subject_new\<lparr>sj_outs := map (f (Value v)) as, sj_receivers := [0..<?n], sj_t := Some v\<rparr>) =
      Ret (subject_new\<lparr>sj_outs := map (f (Value v)) as @ bs, sj_receivers := [0..<?m], sj_t := Some v\<rparr>)"
    using upt_add_eq_append [of 0 ?n "length bs"]
    by (simp add: submit_outs_open subject_new_def)
  have 4: "subject_done R (subject_new\<lparr>sj_outs := map (f (Value v)) as @ bs, sj_receivers := [0..<?m], sj_t := Some v\<rparr>) =
      Ret (subject_new\<lparr>sj_outs := map (f Done) (map (f (Value v)) as @ bs), sj_receivers := [], sj_t := Some v, sj_done := True\<rparr>)"
    by (simp add: subject_done_def signal_all [OF assms] upd_all_everything)
  have 5: "submit_outs R cs (subject_new\<lparr>sj_outs := xs, sj_receivers := [], sj_t := Some v, sj_done := True\<rparr>) =
      Ret (subject_new\<lparr>sj_outs := xs @ map (f (Value v)) cs, sj_receivers := [], sj_t := Some v, sj_done := True\<rparr>)" for xs
    by (subst submit_outs_late [OF assms, of Null "Some v" True "Value v"])
       (simp_all add: subject_submit_def subject_new_def Let_def)
  show ?thesis by (simp add: and_then_def 1 2 3 4 5 comp_def)
qed

definition note_signal :: "(nat, eptr) signal \<Rightarrow> (nat, eptr) signal list \<Rightarrow> (nat, eptr) signal list" where
  "note_signal sig s = s @ [sig]"

definition noter :: "((nat, eptr) signal list, nat, eptr) rcv" where
  "noter = \<lparr>r_value = (\<lambda>v s. Ret (note_signal (Value v) s)), r_error = (\<lambda>e s. Ret (note_signal (Error e) s)),
     r_done = (\<lambda>s. Ret (note_signal Done s))\<rparr>"

lemma noter_returns: "returns_as noter note_signal"
  unfolding returns_as_def
proof (intro allI)
  fix sig s show "deliver noter sig s = Ret (note_signal sig s)"
    by (cases sig) (simp_all add: noter_def run_signals)
qed

theorem subject_signals_witness:
  "map_outcome sj_outs
     (run_all [submit_outs noter [[]], subject_value noter 5, submit_outs noter [[]], subject_done noter,
        submit_outs noter [[]]] subject_new) = Ret [[Value 5, Done], [Done], [Value 5]]"
  using subject_signals [OF noter_returns, of "[[]]" 5 "[[]]" "[[]]"] by (simp add: note_signal_def)

text \<open>
  The error of a subject reaches only its first receiver: the loop moves the \<open>exception_ptr\<close> into
  the first signal, and every other waiting receiver gets a null one. Receivers submitted later
  get the stored, correct one.
\<close>
theorem subject_error_moved:
  assumes "returns_as R f" "ep \<noteq> Null"
  shows "map_outcome sj_outs (run_all [submit_outs R (a # as), subject_error R ep, submit_outs R cs] subject_new) =
   Ret (f (Error (Eptr ep)) a # map (f (Error (Eptr Null))) as @ map (f (Error (Eptr ep))) cs)"
proof -
  let ?n = "length as"
  have upt: "[0..<Suc ?n] = 0 # [Suc 0..<Suc ?n]" using upt_conv_Cons [of 0 "Suc ?n"] by (simp del: upt_Suc)
  have 1: "submit_outs R (a # as) subject_new = Ret (subject_new\<lparr>sj_outs := a # as, sj_receivers := 0 # [Suc 0..<Suc ?n]\<rparr>)"
    using submit_outs_open [of subject_new R "a # as"] upt by (simp add: subject_new_def)
  have all: "upd_all g [Suc 0..<Suc ?n] (x # as) = x # map g as" for g x
    by (rule nth_equalityI) (auto simp: upd_all_nth nth_Cons')
  have 2: "subject_error R ep (subject_new\<lparr>sj_outs := a # as, sj_receivers := 0 # [Suc 0..<Suc ?n]\<rparr>) =
      Ret (subject_new\<lparr>sj_outs := f (Error (Eptr ep)) a # map (f (Error (Eptr Null))) as, sj_receivers := [], sj_ep := ep\<rparr>)"
    by (simp add: subject_error_def signal_error_loop [OF assms(1)] all no_except_def del: subject_error_loop.simps upt_Suc)
  have 3: "submit_outs R cs (subject_new\<lparr>sj_outs := xs, sj_receivers := [], sj_ep := ep\<rparr>) =
      Ret (subject_new\<lparr>sj_outs := xs @ map (f (Error (Eptr ep))) cs, sj_receivers := [], sj_ep := ep\<rparr>)" for xs
    by (subst submit_outs_late [OF assms(1), of ep None False "Error (Eptr ep)"])
       (simp_all add: subject_submit_def subject_new_def Let_def assms(2))
  show ?thesis by (simp add: and_then_def 1 2 3 del: submit_outs_simps upt_Suc)
qed

theorem subject_error_moved_witness:
  "map_outcome sj_outs (run_all [submit_outs noter [[], []], subject_error noter (Exn 3), submit_outs noter [[]]] subject_new) =
   Ret [[Error (Eptr (Exn 3))], [Error (Eptr Null)], [Error (Eptr (Exn 3))]]"
  using subject_error_moved [OF noter_returns, of "Exn 3" "[]" "[[]]" "[[]]"] by (simp add: note_signal_def)

end
