(* ===== verification/Entangle.thy ===== *)
theory Entangle
  imports Prelude
begin

text \<open>
  \<open>entangle.h\<close>: pairs of objects that point to each other and may both move. Three models: the lock
  protocol \<open>tryLockBoth\<close> / \<open>unlockBoth\<close>, at the grain of its atomic operations, for two threads that
  each work on one object of a pair; the pointers between the objects, where construction, move
  and destruction are atomic because both locks are held; and the pair with shared storage.
\<close>

section \<open>The lock protocol\<close>

text \<open>\<open>kUnlocked\<close>, \<open>kLocked\<close>, \<open>kLockedAndLossAcknowledged\<close>.\<close>

datatype lock_word = Unlocked | Locked | LossAcked

text \<open>
  Where a thread is: outside; before the exchange on its own word; before the exchange on the dual's
  word; after that exchange has failed; spinning as the winner; about to store after the spin;
  about to acknowledge its loss; holding both locks; about to release the dual's word.
\<close>

datatype pc = Outside | TryOwn | TryDual | Race | Spin | Claim | Ack | Holding | Release

text \<open>
  The two objects are the low and the high address. The words are sequentially consistent here.
\<close>

record lock_state =
  word_lo :: lock_word
  word_hi :: lock_word
  pc_lo :: pc
  pc_hi :: pc

definition lock_init :: lock_state where
  "lock_init = \<lparr>word_lo = Unlocked, word_hi = Unlocked, pc_lo = Outside, pc_hi = Outside\<rparr>"

text \<open>
  One atomic operation of \<open>tryLockBoth\<close>, \<open>lockBoth\<close> or \<open>unlockBoth\<close>, of the thread whose object has
  the lower address (\<open>low\<close>) or not: its place, its own word, the dual's word, before and after. An
  exchange of the weak kind may fail for no reason.
\<close>

inductive lock_op :: "bool \<Rightarrow> pc \<times> lock_word \<times> lock_word \<Rightarrow> pc \<times> lock_word \<times> lock_word \<Rightarrow> bool" where
  begin_lock: "lock_op low (Outside, own, dual) (TryOwn, own, dual)"
| own_ok: "lock_op low (TryOwn, Unlocked, dual) (TryDual, Locked, dual)"
| own_fail: "lock_op low (TryOwn, own, dual) (TryOwn, own, dual)"
| dual_ok: "lock_op low (TryDual, own, Unlocked) (Holding, own, Locked)"
| dual_fail: "dual \<noteq> Unlocked \<Longrightarrow> lock_op low (TryDual, own, dual) (Race, own, dual)"
| race_win: "lock_op True (Race, own, dual) (Spin, own, dual)"
| race_lose: "lock_op False (Race, own, dual) (Ack, own, dual)"
| spin_more: "own \<noteq> LossAcked \<Longrightarrow> lock_op low (Spin, own, dual) (Spin, own, dual)"
| spin_end: "lock_op low (Spin, LossAcked, dual) (Claim, LossAcked, dual)"
| claim: "lock_op low (Claim, own, dual) (Holding, Locked, dual)"
| acknowledge: "lock_op low (Ack, own, dual) (TryOwn, own, LossAcked)"
| unlock_own: "lock_op low (Holding, own, dual) (Release, Unlocked, dual)"
| unlock_dual: "lock_op low (Release, own, dual) (Outside, own, Unlocked)"

inductive lock_step :: "lock_state \<Rightarrow> lock_state \<Rightarrow> bool" where
  step_lo: "lock_op True (pc_lo s, word_lo s, word_hi s) (p, a, b) \<Longrightarrow>
     lock_step s (s\<lparr>pc_lo := p, word_lo := a, word_hi := b\<rparr>)"
| step_hi: "lock_op False (pc_hi s, word_hi s, word_lo s) (p, b, a) \<Longrightarrow>
     lock_step s (s\<lparr>pc_hi := p, word_lo := a, word_hi := b\<rparr>)"

inductive_cases lock_stepE: "lock_step s t"
inductive_cases lock_opE: "lock_op low (p, a, b) (p', a', b')"

abbreviation lock_reach :: "lock_state \<Rightarrow> bool" where
  "lock_reach \<equiv> reachable (\<lambda>s. s = lock_init) lock_step"

text \<open>
  The invariant, by the place of each thread. A thread that has passed its own exchange has its own
  word; a thread that holds both has both, and the other one is then waiting at its own exchange.
\<close>

fun out_pc :: "pc \<Rightarrow> bool" where
  "out_pc Outside = True"
| "out_pc TryOwn = True"
| "out_pc _ = False"

fun lock_ok :: "pc \<Rightarrow> pc \<Rightarrow> lock_word \<Rightarrow> lock_word \<Rightarrow> bool" where
  "lock_ok Holding q a b = (out_pc q \<and> a = Locked \<and> b = Locked)"
| "lock_ok Release q a b = (out_pc q \<and> a = Unlocked \<and> b = Locked)"
| "lock_ok Claim q a b = (out_pc q \<and> a = LossAcked \<and> b = Locked)"
| "lock_ok Spin q a b =
     (b = Locked \<and> (out_pc q \<and> a = LossAcked \<or> q \<in> {TryDual, Race, Ack} \<and> a = Locked))"
| "lock_ok Race q a b =
     (b = Locked \<and> (out_pc q \<and> a = LossAcked \<or> q \<in> {TryDual, Race, Ack} \<and> a = Locked))"
| "lock_ok TryDual q a b =
     (if out_pc q then (a = Locked \<and> b = Unlocked) \<or> (a = LossAcked \<and> b = Locked)
      else q \<in> {TryDual, Race, Ack} \<and> a = Locked \<and> b = Locked)"
| "lock_ok Ack q a b = False"
| "lock_ok p q a b =
     (case q of
        Holding \<Rightarrow> a = Locked \<and> b = Locked
      | Release \<Rightarrow> a = Locked \<and> b = Unlocked
      | TryDual \<Rightarrow> a = Unlocked \<and> b = Locked
      | Outside \<Rightarrow> a = Unlocked \<and> b = Unlocked
      | TryOwn \<Rightarrow> a = Unlocked \<and> b = Unlocked
      | _ \<Rightarrow> False)"

definition lock_inv :: "lock_state \<Rightarrow> bool" where
  "lock_inv s \<longleftrightarrow> lock_ok (pc_lo s) (pc_hi s) (word_lo s) (word_hi s)"

lemma lock_ok_lo:
  "lock_op True (p, a, b) (p', a', b') \<Longrightarrow> lock_ok p q a b \<Longrightarrow> lock_ok p' q a' b'"
  by (erule lock_opE; cases q; auto)

lemma lock_ok_hi:
  "lock_op False (q, b, a) (q', b', a') \<Longrightarrow> lock_ok p q a b \<Longrightarrow> lock_ok p q' a' b'"
  by (erule lock_opE; cases p; auto)

interpretation locks: invariant_of "\<lambda>s. s = lock_init" lock_step lock_inv
proof unfold_locales
  fix s :: lock_state
  show "s = lock_init \<Longrightarrow> lock_inv s" by (simp add: lock_init_def lock_inv_def)
  fix t :: lock_state
  show "lock_inv s \<Longrightarrow> lock_step s t \<Longrightarrow> lock_inv t"
    by (erule lock_stepE) (auto simp: lock_inv_def dest: lock_ok_lo lock_ok_hi)
qed

text \<open>Progress: as long as a thread is past its own exchange, some step brings the threads nearer to rest.\<close>

fun pc_rank :: "pc \<Rightarrow> nat" where
  "pc_rank TryDual = 6"
| "pc_rank Race = 5"
| "pc_rank Spin = 4"
| "pc_rank Ack = 4"
| "pc_rank Claim = 3"
| "pc_rank Holding = 2"
| "pc_rank Release = 1"
| "pc_rank _ = 0"

definition at_rest :: "lock_state \<Rightarrow> bool" where
  "at_rest s \<longleftrightarrow> out_pc (pc_lo s) \<and> out_pc (pc_hi s)"

lemma out_pc_iff: "out_pc p \<longleftrightarrow> p = Outside \<or> p = TryOwn"
  by (cases p) auto

lemma hi_progress:
  "\<not> out_pc q \<Longrightarrow> lock_ok p q a b \<Longrightarrow>
   \<exists>q' b' a'. lock_op False (q, b, a) (q', b', a') \<and> pc_rank q' < pc_rank q"
  by (cases q; cases p; cases a; auto intro: lock_op.intros split: if_splits)
     (force intro: lock_op.intros)+

lemma lo_progress:
  "\<not> out_pc p \<Longrightarrow> out_pc q \<Longrightarrow> lock_ok p q a b \<Longrightarrow>
   \<exists>p' a' b'. lock_op True (p, a, b) (p', a', b') \<and> pc_rank p' < pc_rank p"
  by (cases p; cases q; cases b; auto intro: lock_op.intros split: if_splits)
     (force intro: lock_op.intros)+

lemma rest_reachable:
  "lock_inv s \<Longrightarrow> \<exists>t. lock_step\<^sup>*\<^sup>* s t \<and> lock_inv t \<and> at_rest t \<and>
     (pc_lo s \<noteq> Outside \<and> out_pc (pc_lo s) \<longrightarrow> pc_lo t = pc_lo s) \<and> (pc_hi s \<noteq> Outside \<and> out_pc (pc_hi s) \<longrightarrow> pc_hi t = pc_hi s)"
proof (induction "pc_rank (pc_lo s) + pc_rank (pc_hi s)" arbitrary: s rule: less_induct)
  case less
  show ?case
  proof (cases "at_rest s")
    case True
    then show ?thesis using less.prems by blast
  next
    case False
    have "\<exists>t. lock_step s t \<and> pc_rank (pc_lo t) + pc_rank (pc_hi t) < pc_rank (pc_lo s) + pc_rank (pc_hi s) \<and>
        (out_pc (pc_lo s) \<longrightarrow> pc_lo t = pc_lo s) \<and> (out_pc (pc_hi s) \<longrightarrow> pc_hi t = pc_hi s)"
    proof (cases "out_pc (pc_hi s)")
      case True
      then have "\<not> out_pc (pc_lo s)" using False by (simp add: at_rest_def)
      from lo_progress [OF this True less.prems [unfolded lock_inv_def]] obtain p a b where
        "lock_op True (pc_lo s, word_lo s, word_hi s) (p, a, b)" "pc_rank p < pc_rank (pc_lo s)"
        by blast
      then show ?thesis using \<open>\<not> out_pc (pc_lo s)\<close>
        by (intro exI [of _ "s\<lparr>pc_lo := p, word_lo := a, word_hi := b\<rparr>"]) (auto intro: step_lo)
    next
      case hi: False
      from hi_progress [OF hi less.prems [unfolded lock_inv_def]] obtain q a b where
        "lock_op False (pc_hi s, word_hi s, word_lo s) (q, b, a)" "pc_rank q < pc_rank (pc_hi s)"
        by blast
      then show ?thesis using hi
        by (intro exI [of _ "s\<lparr>pc_hi := q, word_lo := a, word_hi := b\<rparr>"]) (auto intro: step_hi)
    qed
    then obtain t where t: "lock_step s t" "pc_rank (pc_lo t) + pc_rank (pc_hi t) < pc_rank (pc_lo s) + pc_rank (pc_hi s)"
      "out_pc (pc_lo s) \<Longrightarrow> pc_lo t = pc_lo s" "out_pc (pc_hi s) \<Longrightarrow> pc_hi t = pc_hi s" by blast
    have "lock_inv t" using locks.inv_step less.prems t(1) .
    from less.hyps [OF t(2) this] t(1,3,4) show ?thesis
      by (metis converse_rtranclp_into_rtranclp)
  qed
qed

lemma hold_from_rest:
  assumes "lock_inv s" "at_rest s"
  shows "\<exists>t. lock_step\<^sup>*\<^sup>* s t \<and> pc_lo t = Holding" and "\<exists>t. lock_step\<^sup>*\<^sup>* s t \<and> pc_hi t = Holding"
proof -
  have w: "word_lo s = Unlocked" "word_hi s = Unlocked"
    using assms by (cases "pc_lo s"; cases "pc_hi s"; simp add: lock_inv_def at_rest_def)+
  let ?l = "s\<lparr>pc_lo := TryOwn\<rparr>" and ?h = "s\<lparr>pc_hi := TryOwn\<rparr>"
  have l0: "lock_step\<^sup>*\<^sup>* s ?l"
  proof (cases "pc_lo s")
    case Outside
    then have "lock_step s ?l" using step_lo [OF begin_lock [of True "word_lo s" "word_hi s", folded Outside]] by simp
    then show ?thesis ..
  next
    case TryOwn
    then have "?l = s" by (cases s) simp
    then show ?thesis by simp
  qed (use assms in \<open>auto simp: at_rest_def\<close>)
  have h0: "lock_step\<^sup>*\<^sup>* s ?h"
  proof (cases "pc_hi s")
    case Outside
    then have "lock_step s ?h" using step_hi [OF begin_lock [of False "word_hi s" "word_lo s", folded Outside]] by simp
    then show ?thesis ..
  next
    case TryOwn
    then have "?h = s" by (cases s) simp
    then show ?thesis by simp
  qed (use assms in \<open>auto simp: at_rest_def\<close>)
  let ?l1 = "s\<lparr>pc_lo := TryDual, word_lo := Locked, word_hi := Unlocked\<rparr>"
  let ?h1 = "s\<lparr>pc_hi := TryDual, word_lo := Unlocked, word_hi := Locked\<rparr>"
  have l1: "lock_step ?l ?l1"
    using step_lo [of ?l TryDual Locked Unlocked] w by (simp add: lock_op.own_ok)
  have l2: "lock_step ?l1 (s\<lparr>pc_lo := Holding, word_lo := Locked, word_hi := Locked\<rparr>)"
    using step_lo [of ?l1 Holding Locked Locked] w by (simp add: lock_op.dual_ok)
  have h1: "lock_step ?h ?h1"
    using step_hi [of ?h TryDual Locked Unlocked] w by (simp add: lock_op.own_ok)
  have h2: "lock_step ?h1 (s\<lparr>pc_hi := Holding, word_lo := Locked, word_hi := Locked\<rparr>)"
    using step_hi [of ?h1 Holding Locked Locked] w by (simp add: lock_op.dual_ok)
  show "\<exists>t. lock_step\<^sup>*\<^sup>* s t \<and> pc_lo t = Holding"
    by (rule exI [of _ "s\<lparr>pc_lo := Holding, word_lo := Locked, word_hi := Locked\<rparr>"])
       (use rtranclp.rtrancl_into_rtrancl [OF rtranclp.rtrancl_into_rtrancl [OF l0 l1] l2] in simp)
  show "\<exists>t. lock_step\<^sup>*\<^sup>* s t \<and> pc_hi t = Holding"
    by (rule exI [of _ "s\<lparr>pc_hi := Holding, word_lo := Locked, word_hi := Locked\<rparr>"])
       (use rtranclp.rtrancl_into_rtrancl [OF rtranclp.rtrancl_into_rtrancl [OF h0 h1] h2] in simp)
qed

section \<open>The pointers\<close>

text \<open>
  The objects live at addresses; a dereference of an address without a live object is undefined.
  \<open>mv\<close> gives the value that a move leaves.
\<close>

record 't entangled =
  ent_t :: 't
  ent_dual :: "nat option"

type_synonym 't ents = "nat \<Rightarrow> 't entangled option"

definition ent_new :: "nat \<Rightarrow> 't \<Rightarrow> 't ents \<Rightarrow> 't ents" where
  "ent_new a t h = h(a \<mapsto> \<lparr>ent_t = t, ent_dual = None\<rparr>)"

definition set_dual :: "nat option \<Rightarrow> nat option \<Rightarrow> 't ents call" where
  "set_dual p d h =
     (case p of
        None \<Rightarrow> Ret h
      | Some y \<Rightarrow> (case h y of None \<Rightarrow> UB | Some e \<Rightarrow> Ret (h(y \<mapsto> e\<lparr>ent_dual := d\<rparr>))))"

text \<open>The move constructor, at address \<open>a\<close>, from the object at \<open>other\<close>.\<close>

definition ent_move :: "('t \<Rightarrow> 't) \<Rightarrow> nat \<Rightarrow> nat \<Rightarrow> 't ents call" where
  "ent_move mv a other h =
     (case h other of
        None \<Rightarrow> UB
      | Some e \<Rightarrow> set_dual (ent_dual e) (Some a)
          (h(a \<mapsto> e, other \<mapsto> \<lparr>ent_t = mv (ent_t e), ent_dual = None\<rparr>)))"

definition ent_destroy :: "nat \<Rightarrow> 't ents call" where
  "ent_destroy a h =
     (case h a of
        None \<Rightarrow> UB
      | Some e \<Rightarrow> map_outcome (\<lambda>h. h(a := None)) (set_dual (ent_dual e) None h))"

text \<open>
  \<open>entangle(f, s)\<close>: two locals \<open>ef\<close>, \<open>es\<close>, made duals, moved into the pair at \<open>a\<close> and \<open>b\<close>, destroyed.
\<close>

definition entangle :: "('t \<Rightarrow> 't) \<Rightarrow> nat \<Rightarrow> nat \<Rightarrow> nat \<Rightarrow> nat \<Rightarrow> 't \<Rightarrow> 't \<Rightarrow> 't ents call" where
  "entangle mv ef es a b f s h =
     run_all [set_dual (Some ef) (Some es), set_dual (Some es) (Some ef), ent_move mv a ef, ent_move mv b es,
       ent_destroy es, ent_destroy ef] (ent_new es s (ent_new ef f h))"

text \<open>\<open>locked_entangled_pair\<close>: the addresses of the two values while both are locked.\<close>

definition lock_both :: "nat \<Rightarrow> 't ents \<Rightarrow> ('t \<times> 't option) option" where
  "lock_both a h =
     (case h a of
        None \<Rightarrow> None
      | Some e \<Rightarrow>
          (case ent_dual e of
             None \<Rightarrow> Some (ent_t e, None)
           | Some y \<Rightarrow> (case h y of None \<Rightarrow> None | Some e' \<Rightarrow> Some (ent_t e, Some (ent_t e')))))"

definition duals_ok :: "'t ents \<Rightarrow> bool" where
  "duals_ok h \<longleftrightarrow> (\<forall>x e y. h x = Some e \<longrightarrow> ent_dual e = Some y \<longrightarrow>
     y \<noteq> x \<and> (\<exists>e'. h y = Some e' \<and> ent_dual e' = Some x))"

lemma duals_okD:
  "duals_ok h \<Longrightarrow> h x = Some e \<Longrightarrow> ent_dual e = Some y \<Longrightarrow> y \<noteq> x \<and> (\<exists>e'. h y = Some e' \<and> ent_dual e' = Some x)"
  by (auto simp: duals_ok_def)

lemma duals_ok_new: "duals_ok h \<Longrightarrow> h a = None \<Longrightarrow> duals_ok (ent_new a t h)"
  by (fastforce simp: duals_ok_def ent_new_def)

lemma move_ok:
  assumes "duals_ok h" "h other = Some e" "h a = None"
  shows "\<exists>h'. ent_move mv a other h = Ret h' \<and> duals_ok h' \<and> h' a = Some e \<and> lock_both a h' = lock_both other h \<and>
     (\<forall>x. x \<noteq> a \<longrightarrow> x \<noteq> other \<longrightarrow> map_option ent_t (h' x) = map_option ent_t (h x)) \<and> map_option ent_dual (h' other) = Some None"
proof (cases "ent_dual e")
  case None
  let ?h = "h(a \<mapsto> e, other \<mapsto> \<lparr>ent_t = mv (ent_t e), ent_dual = None\<rparr>)"
  have "duals_ok ?h"
    using assms None unfolding duals_ok_def by (auto split: if_splits) (metis option.distinct(1) option.inject)+
  then show ?thesis using assms None
    by (auto simp: ent_move_def set_dual_def lock_both_def)
next
  case (Some y)
  with duals_okD [OF assms(1,2)] obtain e' where y: "y \<noteq> other" "h y = Some e'" "ent_dual e' = Some other" by blast
  let ?h = "h(a \<mapsto> e, other \<mapsto> \<lparr>ent_t = mv (ent_t e), ent_dual = None\<rparr>, y \<mapsto> e'\<lparr>ent_dual := Some a\<rparr>)"
  have a: "a \<noteq> other" "a \<noteq> y" using assms y by auto
  have "ent_move mv a other h = Ret ?h"
    using assms y a Some by (simp add: ent_move_def set_dual_def)
  moreover have "duals_ok ?h"
    unfolding duals_ok_def
  proof (intro allI impI)
    fix x ex z assume hx: "?h x = Some ex" and ez: "ent_dual ex = Some z"
    consider "x = y" | "x = other" | "x = a" | "x \<noteq> y" "x \<noteq> other" "x \<noteq> a" by blast
    then show "z \<noteq> x \<and> (\<exists>e'. ?h z = Some e' \<and> ent_dual e' = Some x)"
    proof cases
      case 4
      then have "h x = Some ex" using hx by simp
      from duals_okD [OF assms(1) this ez] obtain e2 where e2: "z \<noteq> x" "h z = Some e2" "ent_dual e2 = Some x" by blast
      have "z \<noteq> a" using e2 assms(3) by auto
      moreover have "z \<noteq> other" using e2 assms(2) Some 4 by auto
      moreover have "z \<noteq> y" using e2 y 4 by auto
      ultimately show ?thesis using e2 by simp
    qed (use hx ez y a Some assms in \<open>auto split: if_splits\<close>)
  qed
  ultimately show ?thesis using y a Some assms
    by (auto simp: lock_both_def)
qed

lemma destroy_ok:
  assumes "duals_ok h" "h a = Some e"
  shows "\<exists>h'. ent_destroy a h = Ret h' \<and> duals_ok h' \<and> h' a = None \<and>
     (\<forall>x. x \<noteq> a \<longrightarrow> map_option ent_t (h' x) = map_option ent_t (h x)) \<and>
     (\<forall>y. ent_dual e = Some y \<longrightarrow> map_option ent_dual (h' y) = Some None)"
proof (cases "ent_dual e")
  case None
  have "duals_ok (h(a := None))"
    unfolding duals_ok_def
  proof (intro allI impI)
    fix x ex z assume hx: "(h(a := None)) x = Some ex" and ez: "ent_dual ex = Some z"
    then have "x \<noteq> a" "h x = Some ex" by (auto split: if_splits)
    from duals_okD [OF assms(1) this(2) ez] \<open>x \<noteq> a\<close> None assms(2)
    show "z \<noteq> x \<and> (\<exists>e'. (h(a := None)) z = Some e' \<and> ent_dual e' = Some x)" by auto
  qed
  then show ?thesis using assms None by (simp add: ent_destroy_def set_dual_def)
next
  case (Some y)
  with duals_okD [OF assms] obtain e' where y: "y \<noteq> a" "h y = Some e'" "ent_dual e' = Some a" by blast
  let ?h = "h(y \<mapsto> e'\<lparr>ent_dual := None\<rparr>, a := None)"
  have "duals_ok ?h"
    unfolding duals_ok_def
  proof (intro allI impI)
    fix x ex z assume hx: "?h x = Some ex" and ez: "ent_dual ex = Some z"
    then have x: "x \<noteq> a" "x \<noteq> y" "h x = Some ex" by (auto split: if_splits)
    from duals_okD [OF assms(1) this(3) ez] obtain e2 where e2: "z \<noteq> x" "h z = Some e2" "ent_dual e2 = Some x" by blast
    then have "z \<noteq> a" "z \<noteq> y" using x y assms(2) Some by auto
    then show "z \<noteq> x \<and> (\<exists>e'. ?h z = Some e' \<and> ent_dual e' = Some x)" using e2 by simp
  qed
  then show ?thesis using assms Some y by (simp add: ent_destroy_def set_dual_def fun_upd_twist)
qed

section \<open>The pair with shared storage\<close>

text \<open>
  \<open>shared_entangle\<close>: the storage holds both values and a mutex, and lives while one of its
  \<open>shared_ptr\<close> owners does: the two handles and the pairs made by \<open>lock_both\<close>.
\<close>

record ('f, 's) shared_state =
  sh_first :: 'f
  sh_second :: 's
  sh_locked :: bool
  sh_owner1 :: bool
  sh_owner2 :: bool
  sh_pairs :: nat

definition shared_entangle :: "'f \<Rightarrow> 's \<Rightarrow> ('f, 's) shared_state" where
  "shared_entangle f s = \<lparr>sh_first = f, sh_second = s, sh_locked = False, sh_owner1 = True,
     sh_owner2 = True, sh_pairs = 0\<rparr>"

definition sh_alive :: "('f, 's) shared_state \<Rightarrow> bool" where
  "sh_alive st \<longleftrightarrow> sh_owner1 st \<or> sh_owner2 st \<or> 0 < sh_pairs st"

text \<open>
  The constructor of \<open>locked_shared_entangled_pair\<close> on the handle \<open>first\<close> or the other one: it moves
  the \<open>shared_ptr\<close> out of the handle it is given, then locks. The result says whether the new pair
  is an owner; None is a thread that blocks on the mutex.
\<close>

definition take_handle :: "bool \<Rightarrow> ('f, 's) shared_state \<Rightarrow> bool \<times> ('f, 's) shared_state" where
  "take_handle first st =
     (let own = (if first then sh_owner1 st else sh_owner2 st);
          st = (if first then st\<lparr>sh_owner1 := False\<rparr> else st\<lparr>sh_owner2 := False\<rparr>)
      in (own, if own then st\<lparr>sh_pairs := Suc (sh_pairs st)\<rparr> else st))"

definition lock_shared :: "bool \<Rightarrow> ('f, 's) shared_state \<Rightarrow> (bool \<times> ('f, 's) shared_state) outcome option" where
  "lock_shared first st =
     (let (own, st) = take_handle first st in
      if \<not> sh_alive st then Some UB
      else if sh_locked st then None
      else Some (Ret (own, st\<lparr>sh_locked := True\<rparr>)))"

text \<open>The destructor: \<open>if (!!e && !!e.lock)\<close>; then the pair's own \<open>shared_ptr\<close> goes.\<close>

definition unlock_shared :: "bool \<Rightarrow> ('f, 's) shared_state \<Rightarrow> ('f, 's) shared_state" where
  "unlock_shared own st =
     (if own then st\<lparr>sh_locked := False, sh_pairs := sh_pairs st - 1\<rparr> else st)"

text \<open>\<open>{ auto both = lock_both(e); }\<close>: a scope that locks and unlocks.\<close>

definition locked_scope :: "bool \<Rightarrow> ('f, 's) shared_state \<Rightarrow> ('f, 's) shared_state outcome option" where
  "locked_scope first st =
     (case lock_shared first st of
        None \<Rightarrow> None
      | Some r \<Rightarrow> Some (map_outcome (\<lambda>(own, st). unlock_shared own st) r))"

lemmas shared_defs = shared_entangle_def sh_alive_def take_handle_def lock_shared_def unlock_shared_def
  locked_scope_def

section \<open>Properties\<close>

text \<open>
  C9: Mutual exclusion: in no interleaving of the atomic operations of \<open>lockBoth\<close> and \<open>unlockBoth\<close> on
  the two objects of a pair do both threads hold the locks, and a thread that holds them finds both
  words locked.
\<close>
theorem entangle_exclusion:
  assumes "lock_reach s"
  shows "\<not> (pc_lo s = Holding \<and> pc_hi s = Holding) \<and>
     (pc_lo s = Holding \<or> pc_hi s = Holding \<longrightarrow> word_lo s = Locked \<and> word_hi s = Locked)"
  using locks.reachable_inv [OF assms]
  by (cases "pc_lo s"; cases "pc_hi s") (auto simp: lock_inv_def split: if_splits)

lemma lock_reach_init: "lock_reach lock_init"
  by (simp add: reach_init)

theorem entangle_exclusion_witness:
  "\<exists>s. lock_reach s \<and> pc_lo s = Holding \<and> pc_hi s \<noteq> Holding \<and> word_hi s = Locked"
proof -
  have "lock_inv lock_init" "at_rest lock_init" by (simp_all add: lock_inv_def lock_init_def at_rest_def)
  from hold_from_rest(1) [OF this] obtain t where t: "lock_step\<^sup>*\<^sup>* lock_init t" "pc_lo t = Holding" by blast
  have "lock_reach t" by (rule reachable_steps [OF t(1) lock_reach_init])
  from this entangle_exclusion [OF this] t(2) show ?thesis by blast
qed

text \<open>
  C27: No deadlock: from every reachable state, the race of two lockers included, the threads can go
  on so that the one that works on the lower object gets both locks, and also so that the other one
  does.
\<close>
theorem entangle_progress:
  assumes "lock_reach s"
  shows "(\<exists>t. lock_step\<^sup>*\<^sup>* s t \<and> pc_lo t = Holding) \<and> (\<exists>t. lock_step\<^sup>*\<^sup>* s t \<and> pc_hi t = Holding)"
proof -
  obtain r where r: "lock_step\<^sup>*\<^sup>* s r" "lock_inv r" "at_rest r"
    using rest_reachable [OF locks.reachable_inv [OF assms]] by blast
  from hold_from_rest [OF r(2,3)] r(1) show ?thesis
    by (meson rtranclp_trans)
qed

theorem entangle_progress_witness:
  "(\<exists>t. lock_step\<^sup>*\<^sup>* lock_init t \<and> pc_lo t = Holding) \<and> (\<exists>t. lock_step\<^sup>*\<^sup>* lock_init t \<and> pc_hi t = Holding)"
  by (rule entangle_progress [OF lock_reach_init])

text \<open>
  C28: The pointers stay right: moving an object of a well-formed heap to a free address never reads a
  dead object, keeps every pair symmetric, and makes the dual find the moved object at its new
  address with its value; the object that was moved from can be destroyed then, and the pair stays. Destroying an
  object, paired or not, never reads a dead object either, keeps the other pairs symmetric and all other values,
  and leaves its dual alive with no partner.
\<close>
theorem entangle_pointers:
  assumes "duals_ok h" "h other = Some e" "h a = None"
  shows "(\<exists>h1. ent_move mv a other h = Ret h1 \<and> duals_ok h1 \<and> h1 a = Some e \<and> lock_both a h1 = lock_both other h \<and>
       (\<forall>y. ent_dual e = Some y \<longrightarrow> map_option ent_dual (h1 y) = Some (Some a)) \<and>
       ent_destroy other h1 = Ret (h1(other := None)) \<and> duals_ok (h1(other := None))) \<and>
     (\<exists>h2. ent_destroy other h = Ret h2 \<and> duals_ok h2 \<and> h2 other = None \<and>
       (\<forall>x. x \<noteq> other \<longrightarrow> map_option ent_t (h2 x) = map_option ent_t (h x)) \<and>
       (\<forall>y. ent_dual e = Some y \<longrightarrow> map_option ent_dual (h2 y) = Some None \<and>
         lock_both y h2 = Some (ent_t (the (h y)), None)))"
proof (rule conjI)
  obtain h1 where h1: "ent_move mv a other h = Ret h1" "duals_ok h1" "h1 a = Some e" "lock_both a h1 = lock_both other h"
      "map_option ent_dual (h1 other) = Some None"
    using move_ok [OF assms] by blast
  then obtain e1 where e1: "h1 other = Some e1" "ent_dual e1 = None" by auto
  then have d: "ent_destroy other h1 = Ret (h1(other := None))" by (simp add: ent_destroy_def set_dual_def)
  moreover have "duals_ok (h1(other := None))" using destroy_ok [OF h1(2) e1(1)] d by auto
  moreover have "\<forall>y. ent_dual e = Some y \<longrightarrow> map_option ent_dual (h1 y) = Some (Some a)"
    using duals_okD [OF h1(2,3)] by fastforce
  ultimately show "\<exists>h1. ent_move mv a other h = Ret h1 \<and> duals_ok h1 \<and> h1 a = Some e \<and> lock_both a h1 = lock_both other h \<and>
       (\<forall>y. ent_dual e = Some y \<longrightarrow> map_option ent_dual (h1 y) = Some (Some a)) \<and>
       ent_destroy other h1 = Ret (h1(other := None)) \<and> duals_ok (h1(other := None))" using h1 by blast
next
  obtain h2 where h2: "ent_destroy other h = Ret h2" "duals_ok h2" "h2 other = None"
      "\<forall>x. x \<noteq> other \<longrightarrow> map_option ent_t (h2 x) = map_option ent_t (h x)"
      "\<forall>y. ent_dual e = Some y \<longrightarrow> map_option ent_dual (h2 y) = Some None"
    using destroy_ok [OF assms(1,2)] by blast
  have "lock_both y h2 = Some (ent_t (the (h y)), None)" if y: "ent_dual e = Some y" for y
  proof -
    obtain e2 where e2: "h2 y = Some e2" "ent_dual e2 = None" using h2(5) y by auto
    have "y \<noteq> other" using duals_okD [OF assms(1,2) y] by simp
    then have "map_option ent_t (h y) = Some (ent_t e2)" using h2(4) e2(1) by (metis option.simps(9))
    then show ?thesis using e2 by (auto simp: lock_both_def)
  qed
  then show "\<exists>h2. ent_destroy other h = Ret h2 \<and> duals_ok h2 \<and> h2 other = None \<and>
       (\<forall>x. x \<noteq> other \<longrightarrow> map_option ent_t (h2 x) = map_option ent_t (h x)) \<and>
       (\<forall>y. ent_dual e = Some y \<longrightarrow> map_option ent_dual (h2 y) = Some None \<and>
         lock_both y h2 = Some (ent_t (the (h y)), None))" using h2 by blast
qed

definition two_ents :: "nat ents" where
  "two_ents = [1 \<mapsto> \<lparr>ent_t = 10, ent_dual = Some 2\<rparr>, 2 \<mapsto> \<lparr>ent_t = 20, ent_dual = Some 1\<rparr>]"

theorem entangle_pointers_witness:
  "(\<exists>h1. ent_move (\<lambda>v. 0) 3 1 two_ents = Ret h1 \<and> lock_both 3 h1 = Some (10, Some 20) \<and>
     ent_destroy 1 h1 = Ret (h1(1 := None)) \<and> map_option ent_dual (h1 2) = Some (Some 3)) \<and>
   (\<exists>h2. ent_destroy 1 two_ents = Ret h2 \<and> lock_both 2 h2 = Some (20, None))"
proof -
  have "duals_ok two_ents" by (auto simp: duals_ok_def two_ents_def split: if_splits)
  from entangle_pointers [OF this, of 1 "\<lparr>ent_t = 10, ent_dual = Some 2\<rparr>" 3 "\<lambda>v. 0"]
  show ?thesis by (fastforce simp: two_ents_def lock_both_def)
qed

text \<open>
  \<open>entangle\<close> makes the pair it promises: the objects at the two addresses of the result are each
  other's duals with the values given, the temporaries are gone, and nothing else has changed.
\<close>
theorem entangle_makes_pair:
  assumes "distinct [ef, es, a, b]" "h ef = None" "h es = None" "h a = None" "h b = None"
  shows "entangle mv ef es a b f s h =
     Ret (h(a \<mapsto> \<lparr>ent_t = f, ent_dual = Some b\<rparr>, b \<mapsto> \<lparr>ent_t = s, ent_dual = Some a\<rparr>))"
proof -
  have "h(ef := None, es := None) = h" using assms by auto
  then show ?thesis using assms
    by (auto simp: entangle_def ent_new_def set_dual_def ent_move_def ent_destroy_def and_then_def fun_eq_iff)
qed

theorem entangle_makes_pair_witness:
  "entangle (\<lambda>v. 0) 5 6 1 2 10 20 Map.empty = Ret two_ents"
  using entangle_makes_pair [of 5 6 1 2 Map.empty "\<lambda>v. 0" 10 20] by (simp add: two_ents_def)

text \<open>
  Locking the same shared handle twice blocks every later locker: the first \<open>lock_both\<close> moves the
  \<open>shared_ptr\<close> out of the handle, so the second one locks the mutex and its destructor, which tests
  the pointer, does not unlock it; and once each handle has been locked once, the storage is gone
  and a further lock touches a dead mutex.
\<close>
theorem shared_lock_twice:
  "\<exists>s1 s2 s3. locked_scope True (shared_entangle f s) = Some (Ret s1) \<and> locked_scope True s1 = Some (Ret s2) \<and>
     locked_scope True s2 = None \<and> locked_scope False s2 = None \<and>
     locked_scope False s1 = Some (Ret s3) \<and> locked_scope False s3 = Some UB"
  by (simp add: shared_defs Let_def)

end
