(* ===== verification/Time_Source.thy ===== *)
theory Time_Source
  imports Prelude "HOL-Library.Multiset"
begin

text \<open>
  \<open>time_source.h\<close>: one thread (\<open>worker\<close>) waits for the next point in time and sends queues with
  ready items to their executors; each queue is a heap of items ordered by time. The state is
  \<open>time_source_shared\<close> with its queues, the worker's place in its loop and the queue receivers that
  executors hold. A step is one critical section of \<open>lock_\<close>, in any order; the executors, the
  clock of the worker and the clocks that the queues are made with are free. The counters \<open>dirty_\<close> and
  \<open>items_\<close> are \<open>int\<close> in the source and unbounded here.
\<close>

section \<open>State\<close>

text \<open>An item: when it is due, and its receiver.\<close>

type_synonym item = "int \<times> nat"

text \<open>
  Where a \<open>time_source_queue_receiver\<close> is: submitted; in \<open>value\<close>, with the lock released, running
  an item (with the time up to which it drains); in \<open>value\<close>, sending the source's error to an item;
  in \<open>error\<close>, sending the executor's error to an item; returned from \<open>value\<close>.
\<close>

datatype phase = Waiting | Running int item | ErrorDrain item | Failing item | Valued

record tqueue =
  tq_dispatching :: bool
  tq_pending :: bool
  tq_heap :: "item list"
  tq_receivers :: "phase list"

text \<open>
  The worker: at the head of its loop, in \<open>wake_.wait_until\<close> with the lock released, sending the queues
  of \<open>ready_\<close> to their executors, returned from the loop; in the handler of an exception, with the lock released, sending the error to an
  item of queue \<open>q\<close>, before the queues \<open>qs\<close>, of the \<open>n\<close> that were pending when the handler began;
  returned from the handler.
\<close>

datatype worker_at =
  Loop | Wait | Dispatch | Exited | is_Handling: Handling (h_size: nat) (h_queue: nat) (h_rest: "nat list") (h_item: item) | Caught

text \<open>\<open>ts_count\<close> is the number of queues made so far; \<open>ts_log\<close> is history: the items whose value was sent.\<close>

record source =
  ts_count :: nat
  ts_queue :: "nat \<Rightarrow> tqueue"
  ts_pending :: "nat list"
  ts_ready :: "nat list"
  ts_earliest :: int
  ts_done :: bool
  ts_joined :: bool
  ts_error :: bool
  ts_dirty :: nat
  ts_items :: int
  ts_worker :: worker_at
  ts_now :: int
  ts_log :: "(item \<times> int) list"

definition tqueue_new :: tqueue where
  "tqueue_new = \<lparr>tq_dispatching = False, tq_pending = False, tq_heap = [], tq_receivers = []\<rparr>"

text \<open>Times are in milliseconds; the worker first sleeps for at most 24 hours.\<close>

definition day :: int where
  "day = 24 * 3600 * 1000"

definition source_new :: "nat \<Rightarrow> int \<Rightarrow> source" where
  "source_new n t = \<lparr>ts_count = n, ts_queue = (\<lambda>q. tqueue_new), ts_pending = [], ts_ready = [],
     ts_earliest = t + day, ts_done = False, ts_joined = False, ts_error = False, ts_dirty = 0,
     ts_items = 0, ts_worker = Loop, ts_now = t, ts_log = []\<rparr>"

definition on_queue :: "nat \<Rightarrow> (tqueue \<Rightarrow> tqueue) \<Rightarrow> source \<Rightarrow> source" where
  "on_queue q f s = s\<lparr>ts_queue := (ts_queue s)(q := f (ts_queue s q))\<rparr>"

definition wake :: "source \<Rightarrow> source" where
  "wake s = s\<lparr>ts_dirty := Suc (ts_dirty s)\<rparr>"

text \<open>The heap: the time of its top, and whether position \<open>i\<close> can be its top (ties are open).\<close>

definition top_when :: "item list \<Rightarrow> int" where
  "top_when h = Min (set (map fst h))"

definition is_top :: "nat \<Rightarrow> item list \<Rightarrow> bool" where
  "is_top i h \<longleftrightarrow> i < length h \<and> fst (h ! i) = top_when h"

definition heap_pop :: "nat \<Rightarrow> item list \<Rightarrow> item list" where
  "heap_pop i h = take i h @ drop (Suc i) h"

text \<open>\<open>std::make_shared<time_source_queue>(source, ...)\<close>: one more queue.\<close>

definition make_queue :: "source \<Rightarrow> source" where
  "make_queue s = s\<lparr>ts_count := Suc (ts_count s), ts_queue := (ts_queue s)(ts_count s := tqueue_new)\<rparr>"

section \<open>\<open>time_source_shared::insert\<close>\<close>

text \<open>Inserting an item; \<open>time_source_task::submit\<close> calls it with the task's time.\<close>

definition insert_item :: "nat \<Rightarrow> item \<Rightarrow> source call" where
  "insert_item q it s =
     (if ts_error s then Ret s
      else if ts_joined s then Term
      else
        (let s1 = (on_queue q (\<lambda>k. k\<lparr>tq_heap := tq_heap k @ [it]\<rparr>) s)\<lparr>ts_items := ts_items s + 1\<rparr>;
             s2 = (if \<not> tq_dispatching (ts_queue s1 q) \<and> \<not> tq_pending (ts_queue s1 q)
                   then on_queue q (\<lambda>k. k\<lparr>tq_pending := True\<rparr>) (s1\<lparr>ts_pending := ts_pending s1 @ [q]\<rparr>)
                   else s1)
         in Ret (if top_when (tq_heap (ts_queue s2 q)) < ts_earliest s2 then wake s2 else s2)))"

section \<open>\<open>time_source_queue\<close>\<close>

abbreviation set_phase :: "nat \<Rightarrow> nat \<Rightarrow> phase \<Rightarrow> source \<Rightarrow> source" where
  "set_phase q r p \<equiv> on_queue q (\<lambda>k. k\<lparr>tq_receivers := (tq_receivers k)[r := p]\<rparr>)"

abbreviation pop_item :: "nat \<Rightarrow> nat \<Rightarrow> source \<Rightarrow> source" where
  "pop_item q i \<equiv> on_queue q (\<lambda>k. k\<lparr>tq_heap := heap_pop i (tq_heap k)\<rparr>)"

text \<open>The checks at the entry of \<open>value\<close>, \<open>error\<close> and \<open>done\<close>.\<close>

definition queue_checked :: "nat \<Rightarrow> source call \<Rightarrow> source call" where
  "queue_checked q f s =
     (if \<not> tq_dispatching (ts_queue s q) \<or> tq_pending (ts_queue s q) then Term else f s)"

text \<open>
  \<open>value\<close>: the loop over the items due by \<open>start\<close>, and what follows it. \<open>i\<close> is the position of the
  heap's top, where one is popped.
\<close>

definition error_drain :: "nat \<Rightarrow> nat \<Rightarrow> nat \<Rightarrow> source \<Rightarrow> source" where
  "error_drain q r i s =
     (let h = tq_heap (ts_queue s q) in
      if h = [] then set_phase q r Valued s
      else set_phase q r (ErrorDrain (h ! i)) ((pop_item q i s)\<lparr>ts_items := ts_items s - 1\<rparr>))"

definition tqueue_value_loop :: "nat \<Rightarrow> nat \<Rightarrow> nat \<Rightarrow> int \<Rightarrow> source \<Rightarrow> source" where
  "tqueue_value_loop q r i start s =
     (let h = tq_heap (ts_queue s q) in
      if h \<noteq> [] \<and> top_when h \<le> start then set_phase q r (Running start (h ! i)) (pop_item q i s)
      else if h = [] then wake (set_phase q r Valued s)
      else if ts_error s then error_drain q r i s
      else set_phase q r Valued s)"

text \<open>
  \<open>own\<close> tells that the executor runs the receiver on the worker's thread, which is not allowed; \<open>now\<close> is
  what \<open>nf_()\<close> returns.
\<close>

definition tqueue_value :: "bool \<Rightarrow> nat \<Rightarrow> nat \<Rightarrow> nat \<Rightarrow> int \<Rightarrow> source call" where
  "tqueue_value own q r i now s0 =
     (if own then Term
      else queue_checked q (\<lambda>s.
        if tq_heap (ts_queue s q) = [] then Ret (set_phase q r Valued s)
        else Ret (tqueue_value_loop q r i (now + 50) s)) s0)"

text \<open>The item has run: \<open>set_value\<close>, \<open>set_done\<close>, and the lock taken again.\<close>

definition item_finished :: "nat \<Rightarrow> nat \<Rightarrow> nat \<Rightarrow> int \<Rightarrow> item \<Rightarrow> source \<Rightarrow> source" where
  "item_finished q r i start it s =
     tqueue_value_loop q r i start (s\<lparr>ts_items := ts_items s - 1, ts_log := ts_log s @ [(it, ts_now s)]\<rparr>)"

definition drop_receiver :: "nat \<Rightarrow> nat \<Rightarrow> source \<Rightarrow> source" where
  "drop_receiver q r = on_queue q (\<lambda>k. k\<lparr>tq_receivers := take r (tq_receivers k) @ drop (Suc r) (tq_receivers k)\<rparr>)"

definition tqueue_error_loop :: "nat \<Rightarrow> nat \<Rightarrow> nat \<Rightarrow> source \<Rightarrow> source" where
  "tqueue_error_loop q r i s =
     (let h = tq_heap (ts_queue s q) in
      if h = [] then on_queue q (\<lambda>k. k\<lparr>tq_dispatching := False\<rparr>) (drop_receiver q r s)
      else set_phase q r (Failing (h ! i)) ((pop_item q i s)\<lparr>ts_items := ts_items s - 1\<rparr>))"

definition tqueue_error :: "nat \<Rightarrow> nat \<Rightarrow> nat \<Rightarrow> source call" where
  "tqueue_error q r i = queue_checked q (\<lambda>s. Ret (tqueue_error_loop q r i s))"

text \<open>
  \<open>done\<close> compares \<open>heap_.top().when\<close> without a test for an empty heap, which is undefined then.
  \<open>stale\<close> is the outcome that the comparison happens to have in that case, if it has one.
\<close>

definition tqueue_done :: "bool option \<Rightarrow> nat \<Rightarrow> nat \<Rightarrow> source call" where
  "tqueue_done stale q r =
     queue_checked q (\<lambda>s.
       let s1 = on_queue q (\<lambda>k. k\<lparr>tq_dispatching := False, tq_pending := True\<rparr>)
                  ((drop_receiver q r s)\<lparr>ts_pending := ts_pending s @ [q]\<rparr>);
           h = tq_heap (ts_queue s q)
       in case (if h = [] then stale else Some (top_when h \<le> ts_earliest s)) of
            None \<Rightarrow> UB
          | Some b \<Rightarrow> Ret (if b then wake s1 else s1))"

section \<open>\<open>time_source_shared::worker\<close>\<close>

text \<open>\<open>time_item_process_pred_fn\<close>: the new flags of a queue, and what becomes of \<open>earliest\<close>.\<close>

definition process_queue :: "int \<Rightarrow> tqueue \<Rightarrow> tqueue" where
  "process_queue start k =
     (let ready = (\<not> tq_dispatching k \<and> tq_heap k \<noteq> [] \<and> top_when (tq_heap k) \<le> start)
      in k\<lparr>tq_dispatching := ready, tq_pending := \<not> ready \<and> tq_heap k \<noteq> []\<rparr>)"

definition next_earliest :: "int \<Rightarrow> tqueue \<Rightarrow> int \<Rightarrow> int" where
  "next_earliest start k e = (if tq_pending (process_queue start k) then min e (top_when (tq_heap k)) else e)"

fun process_all :: "int \<Rightarrow> nat list \<Rightarrow> source \<times> int \<Rightarrow> source \<times> int" where
  "process_all start [] (s, e) = (s, e)"
| "process_all start (q # qs) (s, e) =
     process_all start qs (on_queue q (process_queue start) s, next_earliest start (ts_queue s q) e)"

text \<open>
  One round up to the release of the lock: \<open>partition\<close> keeps the pending queues, \<open>copy_if\<close> takes the
  ones with ready items. \<open>std::partition\<close> promises no order: \<open>ps\<close> is the order in which it leaves the queues
  of \<open>pending_\<close>, on either side.
\<close>

definition worker_select :: "nat list \<Rightarrow> source \<Rightarrow> source" where
  "worker_select ps s =
     (let start = ts_now s;
          (s1, e) = process_all start ps (s\<lparr>ts_dirty := 0\<rparr>, start + day);
          keep = (\<lambda>q. tq_pending (ts_queue s1 q))
      in s1\<lparr>ts_earliest := e, ts_pending := filter keep ps,
            ts_ready := ts_ready s @ filter (\<lambda>q. \<not> keep q \<and> tq_heap (ts_queue s1 q) \<noteq> []) ps,
            ts_worker := Dispatch\<rparr>)"

text \<open>The test of the loop, and the predicate that the wait is for.\<close>

definition worker_goes_on :: "source \<Rightarrow> bool" where
  "worker_goes_on s \<longleftrightarrow> \<not> ts_done s \<or> 0 < ts_items s"

definition worker_awake :: "source \<Rightarrow> bool" where
  "worker_awake s \<longleftrightarrow> ts_dirty s \<noteq> 0 \<or> ts_earliest s \<le> ts_now s"

text \<open>\<open>q->dispatch()\<close> for the next ready queue; the end of that loop; the end of the outer loop.\<close>

definition dispatch_queue :: "nat \<Rightarrow> source \<Rightarrow> source" where
  "dispatch_queue q s =
     (on_queue q (\<lambda>k. k\<lparr>tq_receivers := tq_receivers k @ [Waiting]\<rparr>) s)\<lparr>ts_ready := tl (ts_ready s)\<rparr>"

definition worker_exit :: "source \<Rightarrow> source" where
  "worker_exit s = s\<lparr>ts_joined := True, ts_worker := Exited\<rparr>"

text \<open>
  The handler, for an exception that \<open>dispatch\<close> throws: the error is stored and the items of the
  pending queues are failed, each with the lock released. The loop over \<open>pending_\<close> holds iterators
  of a \<open>std::deque\<close>, which a \<open>push_back\<close> invalidates: going on to the next queue is undefined when
  \<open>done\<close> has added one meanwhile. \<open>f\<close> gives the position of each heap's top.
\<close>

fun handler_loop :: "nat \<Rightarrow> (nat \<Rightarrow> nat) \<Rightarrow> nat list \<Rightarrow> source \<Rightarrow> source" where
  "handler_loop n f [] s = s\<lparr>ts_worker := Caught\<rparr>"
| "handler_loop n f (q # qs) s =
     (let h = tq_heap (ts_queue s q) in
      if h = [] then handler_loop n f qs s
      else (pop_item q (f q) s)\<lparr>ts_items := ts_items s - 1, ts_worker := Handling n q qs (h ! f q)\<rparr>)"

definition worker_catch :: "(nat \<Rightarrow> nat) \<Rightarrow> source \<Rightarrow> source" where
  "worker_catch f s = handler_loop (length (ts_pending s)) f (ts_pending s) (s\<lparr>ts_error := True\<rparr>)"

definition handler_resume :: "nat \<Rightarrow> nat \<Rightarrow> nat list \<Rightarrow> (nat \<Rightarrow> nat) \<Rightarrow> source call" where
  "handler_resume n q qs f s =
     (if tq_heap (ts_queue s q) \<noteq> [] then Ret (handler_loop n f (q # qs) s)
      else if length (ts_pending s) \<noteq> n then UB
      else Ret (handler_loop n f qs s))"

definition source_join :: "source \<Rightarrow> source" where
  "source_join s = wake (s\<lparr>ts_done := True\<rparr>)"

section \<open>Steps\<close>

abbreviation receiver_at :: "nat \<Rightarrow> nat \<Rightarrow> phase \<Rightarrow> source \<Rightarrow> bool" where
  "receiver_at q r p s \<equiv> q < ts_count s \<and> r < length (tq_receivers (ts_queue s q)) \<and> tq_receivers (ts_queue s q) ! r = p"

abbreviation on_worker :: "source \<Rightarrow> bool" where
  "on_worker s \<equiv> ts_worker s = Dispatch \<or> is_Handling (ts_worker s)"

abbreviation top_choice :: "nat \<Rightarrow> nat \<Rightarrow> source \<Rightarrow> bool" where
  "top_choice q i s \<equiv> tq_heap (ts_queue s q) = [] \<or> is_top i (tq_heap (ts_queue s q))"

text \<open>
  The calls that threads can make in a state, and their outcome. An executor sends its receiver a
  value and then done, or an error. The worker holds the lock from the test of its loop to the first
  test of the predicate of its wait; a round that begins in the wait does not test the loop again.
\<close>

inductive source_call :: "bool option \<Rightarrow> source \<Rightarrow> source outcome \<Rightarrow> bool" for stale :: "bool option" where
  make: "source_call stale s (Ret (make_queue s))"
| insert: "q < ts_count s \<Longrightarrow> source_call stale s (insert_item q it s)"
| value_signal: "receiver_at q r Waiting s \<Longrightarrow> top_choice q i s \<Longrightarrow> own \<longrightarrow> on_worker s \<Longrightarrow>
    source_call stale s (tqueue_value own q r i now s)"
| finished: "receiver_at q r (Running start it) s \<Longrightarrow> top_choice q i s \<Longrightarrow> fst it \<le> ts_now s \<Longrightarrow>
    source_call stale s (Ret (item_finished q r i start it s))"
| drained: "receiver_at q r (ErrorDrain it) s \<Longrightarrow> top_choice q i s \<Longrightarrow> source_call stale s (Ret (error_drain q r i s))"
| error: "receiver_at q r Waiting s \<Longrightarrow> top_choice q i s \<Longrightarrow> source_call stale s (tqueue_error q r i s)"
| failed: "receiver_at q r (Failing it) s \<Longrightarrow> top_choice q i s \<Longrightarrow> source_call stale s (Ret (tqueue_error_loop q r i s))"
| done_signal: "receiver_at q r Valued s \<Longrightarrow> source_call stale s (tqueue_done stale q r s)"
| exit: "ts_worker s = Loop \<Longrightarrow> \<not> worker_goes_on s \<Longrightarrow> source_call stale s (Ret (worker_exit s))"
| wait: "ts_worker s = Loop \<Longrightarrow> worker_goes_on s \<Longrightarrow> \<not> worker_awake s \<Longrightarrow> source_call stale s (Ret (s\<lparr>ts_worker := Wait\<rparr>))"
| select: "ts_worker s = Loop \<and> worker_goes_on s \<or> ts_worker s = Wait \<Longrightarrow> worker_awake s \<Longrightarrow> mset ps = mset (ts_pending s) \<Longrightarrow>
    source_call stale s (Ret (worker_select ps s))"
| dispatch: "ts_worker s = Dispatch \<Longrightarrow> ts_ready s = q # qs \<Longrightarrow> source_call stale s (Ret (dispatch_queue q s))"
| dispatch_throws: "ts_worker s = Dispatch \<Longrightarrow> ts_ready s \<noteq> [] \<Longrightarrow> \<forall>p. top_choice p (f p) s \<Longrightarrow>
    source_call stale s (Ret (worker_catch f s))"
| handled: "ts_worker s = Handling n q qs it \<Longrightarrow> \<forall>p. top_choice p (f p) s \<Longrightarrow>
    source_call stale s (handler_resume n q qs f s)"
| dispatched: "ts_worker s = Dispatch \<Longrightarrow> ts_ready s = [] \<Longrightarrow> source_call stale s (Ret (s\<lparr>ts_worker := Loop\<rparr>))"
| join: "source_call stale s (Ret (source_join s))"
| tick: "0 \<le> d \<Longrightarrow> source_call stale s (Ret (s\<lparr>ts_now := ts_now s + d\<rparr>))"

definition source_step :: "bool option \<Rightarrow> source \<Rightarrow> source \<Rightarrow> bool" where
  "source_step stale s t \<longleftrightarrow> source_call stale s (Ret t)"

abbreviation source_reach :: "bool option \<Rightarrow> source \<Rightarrow> bool" where
  "source_reach stale \<equiv> reachable (\<lambda>s. \<exists>n t. s = source_new n t) (source_step stale)"

inductive_cases source_callE: "source_call stale s r"

end
