(* ===== verification/Time_Source_Correct.thy ===== *)
theory Time_Source_Correct
  imports Time_Source
begin

text \<open>
  Properties of the time source: the invariant of its flags (a queue is pending, or has exactly one
  receiver on its way, or is idle), the count of its items, the rule by which the worker never
  sleeps past a pending item, and what goes wrong at the end of a queue and in the handler.
\<close>

section \<open>Lists and sums\<close>

lemma sum_upd:
  fixes g :: "'k \<Rightarrow> int" and q n :: nat
  shows "q < n \<Longrightarrow> (\<Sum>p<n. g ((f(q := k)) p)) = (\<Sum>p<n. g (f p)) - g (f q) + g k"
proof -
  assume q: "q < n"
  have "(\<Sum>p\<in>{..<n} - {q}. g ((f(q := k)) p)) = (\<Sum>p\<in>{..<n} - {q}. g (f p))"
    by (rule sum.cong) auto
  then show ?thesis
    using sum.remove [of "{..<n}" q "\<lambda>p. g ((f(q := k)) p)"] sum.remove [of "{..<n}" q "\<lambda>p. g (f p)"] q
    by simp
qed

lemma count_list_filter_distinct:
  "distinct xs \<Longrightarrow> count_list (filter P xs) x = (if x \<in> set xs \<and> P x then 1 else 0)"
  by (induction xs) auto

section \<open>The invariant\<close>

fun running :: "phase \<Rightarrow> bool" where
  "running (Running start it) = True"
| "running _ = False"

definition load :: "tqueue \<Rightarrow> int" where
  "load k = int (length (tq_heap k)) + int (length (filter running (tq_receivers k)))"

text \<open>The flags of one queue against the receivers on their way and the lists it is in.\<close>

definition queue_ok :: "nat list \<Rightarrow> nat list \<Rightarrow> nat \<Rightarrow> tqueue \<Rightarrow> bool" where
  "queue_ok ps rs q k \<longleftrightarrow>
     length (tq_receivers k) + count_list rs q = (if tq_dispatching k then 1 else 0) \<and>
     (tq_pending k \<longleftrightarrow> q \<in> set ps) \<and> \<not> (tq_dispatching k \<and> tq_pending k)"

definition flags_ok :: "source \<Rightarrow> bool" where
  "flags_ok s \<longleftrightarrow> distinct (ts_pending s) \<and> (\<forall>q \<in> set (ts_pending s) \<union> set (ts_ready s). q < ts_count s) \<and>
     (\<forall>q. queue_ok (ts_pending s) (ts_ready s) q (ts_queue s q))"

definition items_ok :: "source \<Rightarrow> bool" where
  "items_ok s \<longleftrightarrow> ts_items s = (\<Sum>q<ts_count s. load (ts_queue s q))"

definition wake_ok :: "source \<Rightarrow> bool" where
  "wake_ok s \<longleftrightarrow> (\<forall>q \<in> set (ts_pending s). tq_heap (ts_queue s q) \<noteq> [] \<longrightarrow>
     ts_dirty s \<noteq> 0 \<or> ts_earliest s \<le> top_when (tq_heap (ts_queue s q)))"

definition exit_ok :: "source \<Rightarrow> bool" where
  "exit_ok s \<longleftrightarrow> (ts_worker s = Exited \<longrightarrow> ts_joined s \<and> \<not> ts_error s \<and> ts_items s \<le> 0)
     \<and> (ts_error s \<longrightarrow> ts_worker s = Caught \<or> is_Handling (ts_worker s))
     \<and> (is_Handling (ts_worker s) \<longrightarrow> ts_error s \<and> set (h_queue (ts_worker s) # h_rest (ts_worker s)) \<subseteq> set (ts_pending s))"

definition source_ok :: "source \<Rightarrow> bool" where
  "source_ok s \<longleftrightarrow> flags_ok s \<and> items_ok s \<and> wake_ok s \<and> exit_ok s"

lemma load_nonneg [simp]: "0 \<le> load k"
  by (simp add: load_def)

lemma load_zero: "load k = 0 \<Longrightarrow> tq_heap k = [] \<and> filter running (tq_receivers k) = []"
  by (simp only: load_def of_nat_add [symmetric] of_nat_eq_0_iff add_is_0 length_0_conv)

lemma items_nonneg: "items_ok s \<Longrightarrow> 0 \<le> ts_items s"
  by (simp add: items_ok_def sum_nonneg)

lemma load_le_items: "items_ok s \<Longrightarrow> q < ts_count s \<Longrightarrow> load (ts_queue s q) \<le> ts_items s"
  by (simp add: items_ok_def) (meson finite_lessThan lessThan_iff load_nonneg member_le_sum)

lemma queue_ok_frame:
  "queue_ok ps rs q k \<Longrightarrow> tq_receivers k' = tq_receivers k \<Longrightarrow> tq_dispatching k' = tq_dispatching k \<Longrightarrow>
   tq_pending k' = tq_pending k \<Longrightarrow> queue_ok ps rs q k'"
  by (auto simp: queue_ok_def)

lemma flags_okD: "flags_ok s \<Longrightarrow> queue_ok (ts_pending s) (ts_ready s) q (ts_queue s q)"
  by (simp add: flags_ok_def)

text \<open>A receiver on its way is the only one of its queue, which is dispatching and not pending.\<close>

lemma receiver_alone:
  assumes "flags_ok s" "receiver_at q r p s"
  shows "r = 0" "tq_receivers (ts_queue s q) = [p]" "tq_dispatching (ts_queue s q)" "\<not> tq_pending (ts_queue s q)"
    "count_list (ts_ready s) q = 0" "q \<notin> set (ts_pending s)" "q < ts_count s"
proof -
  have k: "queue_ok (ts_pending s) (ts_ready s) q (ts_queue s q)" using assms(1) by (rule flags_okD)
  have "length (tq_receivers (ts_queue s q)) = 1"
    using k assms(2) by (auto simp: queue_ok_def split: if_splits)
  then obtain p' where p': "tq_receivers (ts_queue s q) = [p']" by (auto simp: length_Suc_conv)
  with assms(2) show "r = 0" "tq_receivers (ts_queue s q) = [p]" "q < ts_count s" by auto
  show "tq_dispatching (ts_queue s q)" "\<not> tq_pending (ts_queue s q)" "count_list (ts_ready s) q = 0"
      "q \<notin> set (ts_pending s)"
    using k p' by (auto simp: queue_ok_def split: if_splits)
qed

lemma heap_pop_length: "is_top i h \<Longrightarrow> length (heap_pop i h) = length h - 1"
  by (simp add: is_top_def heap_pop_def)

text \<open>What changes one queue and the bookkeeping beside it.\<close>

lemma flags_ok_upd:
  assumes "flags_ok s" "queue_ok (ts_pending s) (ts_ready s) q k"
    and "ts_queue t = (ts_queue s)(q := k)" "ts_pending t = ts_pending s" "ts_ready t = ts_ready s" "ts_count t = ts_count s"
  shows "flags_ok t"
  using assms by (simp add: flags_ok_def)

lemma items_ok_upd:
  assumes "items_ok s" "q < ts_count s"
    and "ts_queue t = (ts_queue s)(q := k)" "ts_count t = ts_count s"
    and "ts_items t = ts_items s - load (ts_queue s q) + load k"
  shows "items_ok t"
  using assms by (simp only: items_ok_def sum_upd)

lemma wake_ok_upd:
  assumes "wake_ok s" "q \<notin> set (ts_pending s)"
    and "ts_queue t = (ts_queue s)(q := k)" "ts_pending t = ts_pending s" "ts_earliest t = ts_earliest s"
    and "ts_dirty s \<noteq> 0 \<longrightarrow> ts_dirty t \<noteq> 0"
  shows "wake_ok t"
  using assms by (auto simp: wake_ok_def)

text \<open>One lemma for every step of a receiver that is not running an item: what it does to its queue.\<close>

lemma queue_upd_ok:
  assumes "source_ok s" "q < ts_count s" "q \<notin> set (ts_pending s)"
    and "queue_ok (ts_pending s) (ts_ready s) q k"
    and "ts_queue t = (ts_queue s)(q := k)" "ts_pending t = ts_pending s" "ts_ready t = ts_ready s" "ts_count t = ts_count s"
    and "ts_items t = ts_items s - load (ts_queue s q) + load k" "load k \<le> load (ts_queue s q)"
    and "ts_earliest t = ts_earliest s" "ts_dirty s \<noteq> 0 \<longrightarrow> ts_dirty t \<noteq> 0"
    and "ts_worker t = ts_worker s" "ts_joined t = ts_joined s" "ts_error t = ts_error s"
  shows "source_ok t"
proof -
  have s: "flags_ok s" "items_ok s" "wake_ok s" "exit_ok s" using assms(1) by (simp_all add: source_ok_def)
  have "exit_ok t" using s(4) assms by (auto simp: exit_ok_def)
  then show ?thesis
    using flags_ok_upd [OF s(1) assms(4-8)] items_ok_upd [OF s(2) assms(2,5,8,9)]
      wake_ok_upd [OF s(3) assms(3,5,6,11,12)]
    by (simp add: source_ok_def)
qed

lemma is_top_nonempty: "is_top i h \<Longrightarrow> h \<noteq> []"
  by (auto simp: is_top_def)

lemma pop_load:
  assumes "is_top i h"
  shows "int (length (heap_pop i h)) = int (length h) - 1"
  using assms by (cases h) (auto simp: heap_pop_length is_top_def)

lemma error_drain_ok:
  assumes "source_ok s" "receiver_at q r p s" "\<not> running p" "top_choice q i s"
  shows "source_ok (error_drain q r i s)"
proof -
  let ?k = "ts_queue s q" and ?t = "error_drain q r i s"
  note a = receiver_alone [OF _ assms(2)] and fl = assms(1) [unfolded source_ok_def, THEN conjunct1]
  note a = a [OF fl]
  have k: "queue_ok (ts_pending s) (ts_ready s) q ?k" using fl by (rule flags_okD)
  show ?thesis
  proof (cases "tq_heap ?k = []")
    case True
    show ?thesis
      by (rule queue_upd_ok [OF assms(1) a(7,6), of "?k\<lparr>tq_receivers := [Valued]\<rparr>"])
         (use True a k assms(3) in \<open>simp_all add: error_drain_def on_queue_def load_def queue_ok_def\<close>)
  next
    case False
    then have top: "is_top i (tq_heap ?k)" using assms(4) by simp
    show ?thesis
      by (rule queue_upd_ok [OF assms(1) a(7,6), of "?k\<lparr>tq_heap := heap_pop i (tq_heap ?k), tq_receivers := [ErrorDrain (tq_heap ?k ! i)]\<rparr>"])
         (use False a k assms(3) pop_load [OF top] in \<open>simp_all add: error_drain_def on_queue_def load_def queue_ok_def Let_def\<close>)
  qed
qed

lemma tqueue_value_loop_ok:
  assumes "source_ok s" "receiver_at q r p s" "\<not> running p" "top_choice q i s"
  shows "source_ok (tqueue_value_loop q r i start s)"
proof -
  let ?k = "ts_queue s q" and ?t = "tqueue_value_loop q r i start s"
  note fl = assms(1) [unfolded source_ok_def, THEN conjunct1]
  note a = receiver_alone [OF fl assms(2)]
  have k: "queue_ok (ts_pending s) (ts_ready s) q ?k" using fl by (rule flags_okD)
  consider (empty) "tq_heap ?k = []" | (run) "tq_heap ?k \<noteq> []" "top_when (tq_heap ?k) \<le> start"
    | (err) "tq_heap ?k \<noteq> []" "\<not> top_when (tq_heap ?k) \<le> start" "ts_error s"
    | (stop) "tq_heap ?k \<noteq> []" "\<not> top_when (tq_heap ?k) \<le> start" "\<not> ts_error s" by blast
  then show ?thesis
  proof cases
    case empty
    show ?thesis
      by (rule queue_upd_ok [OF assms(1) a(7,6), of "?k\<lparr>tq_receivers := [Valued]\<rparr>"])
         (use empty a k assms(3) in \<open>simp_all add: tqueue_value_loop_def wake_def on_queue_def load_def queue_ok_def\<close>)
  next
    case run
    then have top: "is_top i (tq_heap ?k)" using assms(4) by simp
    show ?thesis
      by (rule queue_upd_ok [OF assms(1) a(7,6), of "?k\<lparr>tq_heap := heap_pop i (tq_heap ?k), tq_receivers := [Running start (tq_heap ?k ! i)]\<rparr>"])
         (use run a k assms(3) pop_load [OF top] in \<open>simp_all add: tqueue_value_loop_def on_queue_def load_def queue_ok_def Let_def\<close>)
  next
    case err
    then have "tqueue_value_loop q r i start s = error_drain q r i s" by (simp add: tqueue_value_loop_def Let_def)
    then show ?thesis using error_drain_ok [OF assms] by simp
  next
    case stop
    show ?thesis
      by (rule queue_upd_ok [OF assms(1) a(7,6), of "?k\<lparr>tq_receivers := [Valued]\<rparr>"])
         (use stop a k assms(3) in \<open>simp_all add: tqueue_value_loop_def on_queue_def load_def queue_ok_def\<close>)
  qed
qed

lemma tqueue_error_loop_ok:
  assumes "source_ok s" "receiver_at q r p s" "\<not> running p" "top_choice q i s"
  shows "source_ok (tqueue_error_loop q r i s)"
proof -
  let ?k = "ts_queue s q"
  note fl = assms(1) [unfolded source_ok_def, THEN conjunct1]
  note a = receiver_alone [OF fl assms(2)]
  have k: "queue_ok (ts_pending s) (ts_ready s) q ?k" using fl by (rule flags_okD)
  show ?thesis
  proof (cases "tq_heap ?k = []")
    case True
    show ?thesis
      by (rule queue_upd_ok [OF assms(1) a(7,6), of "?k\<lparr>tq_receivers := [], tq_dispatching := False\<rparr>"])
         (use True a k assms(3) in \<open>simp_all add: tqueue_error_loop_def drop_receiver_def on_queue_def load_def queue_ok_def\<close>)
  next
    case False
    then have top: "is_top i (tq_heap ?k)" using assms(4) by simp
    show ?thesis
      by (rule queue_upd_ok [OF assms(1) a(7,6), of "?k\<lparr>tq_heap := heap_pop i (tq_heap ?k), tq_receivers := [Failing (tq_heap ?k ! i)]\<rparr>"])
         (use False a k assms(3) pop_load [OF top] in \<open>simp_all add: tqueue_error_loop_def on_queue_def load_def queue_ok_def Let_def\<close>)
  qed
qed

lemma item_finished_ok:
  assumes "source_ok s" "receiver_at q r (Running start it) s" "top_choice q i s"
  shows "source_ok (item_finished q r i start it s)"
proof -
  let ?k = "ts_queue s q"
  let ?s = "(set_phase q r Valued s)\<lparr>ts_items := ts_items s - 1, ts_log := ts_log s @ [(it, ts_now s)]\<rparr>"
  note fl = assms(1) [unfolded source_ok_def, THEN conjunct1]
  note a = receiver_alone [OF fl assms(2)]
  have k: "queue_ok (ts_pending s) (ts_ready s) q ?k" using fl by (rule flags_okD)
  have ok: "source_ok ?s"
    by (rule queue_upd_ok [OF assms(1) a(7,6), of "?k\<lparr>tq_receivers := [Valued]\<rparr>"])
       (use a k in \<open>simp_all add: on_queue_def load_def queue_ok_def\<close>)
  have "receiver_at q r Valued ?s" "top_choice q i ?s" using a assms(3) by (simp_all add: on_queue_def)
  from tqueue_value_loop_ok [OF ok this(1) _ this(2), of start]
  have "source_ok (tqueue_value_loop q r i start ?s)" by simp
  moreover have "tqueue_value_loop q r i start ?s = item_finished q r i start it s"
    using a by (simp add: item_finished_def tqueue_value_loop_def error_drain_def on_queue_def wake_def Let_def)
  ultimately show ?thesis by simp
qed

section \<open>Insert, done, and the worker\<close>

lemma insert_item_eq:
  assumes "\<not> ts_error s" "\<not> ts_joined s"
  shows "insert_item q it s =
    (let k = ts_queue s q; h = tq_heap k @ [it]; idle = (\<not> tq_dispatching k \<and> \<not> tq_pending k);
         t = s\<lparr>ts_queue := (ts_queue s)(q := if idle then k\<lparr>tq_heap := h, tq_pending := True\<rparr> else k\<lparr>tq_heap := h\<rparr>),
               ts_pending := (if idle then ts_pending s @ [q] else ts_pending s), ts_items := ts_items s + 1\<rparr>
     in Ret (if top_when h < ts_earliest s then wake t else t))"
  using assms
  by (cases "tq_dispatching (ts_queue s q)"; cases "tq_pending (ts_queue s q)")
     (simp_all add: insert_item_def Let_def on_queue_def wake_def)

lemma insert_item_ok:
  assumes "source_ok s" "q < ts_count s" "insert_item q it s = Ret t"
  shows "source_ok t"
proof (cases "ts_error s")
  case True
  then show ?thesis using assms by (simp add: insert_item_def)
next
  case err: False
  have s: "flags_ok s" "items_ok s" "wake_ok s" "exit_ok s" using assms(1) by (simp_all add: source_ok_def)
  let ?k = "ts_queue s q" and ?h = "tq_heap (ts_queue s q) @ [it]"
  let ?idle = "\<not> tq_dispatching ?k \<and> \<not> tq_pending ?k"
  let ?k' = "if ?idle then ?k\<lparr>tq_heap := ?h, tq_pending := True\<rparr> else ?k\<lparr>tq_heap := ?h\<rparr>"
  have j: "\<not> ts_joined s" using assms(3) err by (auto simp: insert_item_def)
  have qu: "queue_ok (ts_pending s) (ts_ready s) p (ts_queue s p)" for p using s(1) by (rule flags_okD)
  have t: "ts_queue t = (ts_queue s)(q := ?k')" "ts_pending t = (if ?idle then ts_pending s @ [q] else ts_pending s)"
      "ts_ready t = ts_ready s" "ts_count t = ts_count s" "ts_items t = ts_items s + 1" "ts_earliest t = ts_earliest s"
      "ts_worker t = ts_worker s" "ts_joined t = ts_joined s" "ts_error t = ts_error s"
      "ts_dirty t = (if top_when ?h < ts_earliest s then Suc (ts_dirty s) else ts_dirty s)"
  proof -
    let ?s = "s\<lparr>ts_queue := (ts_queue s)(q := ?k'), ts_pending := (if ?idle then ts_pending s @ [q] else ts_pending s),
        ts_items := ts_items s + 1\<rparr>"
    have "t = (if top_when ?h < ts_earliest s then wake ?s else ?s)"
      using assms(3) by (simp add: insert_item_eq [OF err j] Let_def)
    then show "ts_queue t = (ts_queue s)(q := ?k')" "ts_pending t = (if ?idle then ts_pending s @ [q] else ts_pending s)"
      "ts_ready t = ts_ready s" "ts_count t = ts_count s" "ts_items t = ts_items s + 1" "ts_earliest t = ts_earliest s"
      "ts_worker t = ts_worker s" "ts_joined t = ts_joined s" "ts_error t = ts_error s"
      "ts_dirty t = (if top_when ?h < ts_earliest s then Suc (ts_dirty s) else ts_dirty s)"
      by (simp_all add: wake_def)
  qed
  have "queue_ok (ts_pending t) (ts_ready t) p (ts_queue t p)" for p
    using qu [of p] by (cases "p = q") (auto simp: t(1-3) queue_ok_def)
  then have "flags_ok t"
    using s(1) t(2,3,4) qu [of q] assms(2) by (simp add: flags_ok_def queue_ok_def [of "ts_pending s"])
  moreover have "items_ok t"
    by (rule items_ok_upd [OF s(2) assms(2) t(1,4)]) (simp add: t load_def)
  moreover have "wake_ok t"
    using s(3) t by (auto simp: wake_ok_def)
  moreover have "exit_ok t"
    using s(4) t j err by (auto simp: exit_ok_def)
  ultimately show ?thesis by (simp add: source_ok_def)
qed

lemma tqueue_done_ok:
  assumes "source_ok s" "receiver_at q r Valued s" "tqueue_done stale q r s = Ret t"
  shows "source_ok t"
proof -
  have s: "flags_ok s" "items_ok s" "wake_ok s" "exit_ok s" using assms(1) by (simp_all add: source_ok_def)
  note a = receiver_alone [OF s(1) assms(2)]
  let ?k = "ts_queue s q"
  let ?k' = "?k\<lparr>tq_receivers := [], tq_dispatching := False, tq_pending := True\<rparr>"
  have qu: "queue_ok (ts_pending s) (ts_ready s) p (ts_queue s p)" for p using s(1) by (rule flags_okD)
  have t: "ts_queue t = (ts_queue s)(q := ?k')" "ts_pending t = ts_pending s @ [q]"
      "ts_ready t = ts_ready s" "ts_count t = ts_count s" "ts_items t = ts_items s" "ts_earliest t = ts_earliest s"
      "ts_worker t = ts_worker s" "ts_joined t = ts_joined s" "ts_error t = ts_error s"
    and d: "ts_dirty t = ts_dirty s \<or> ts_dirty t = Suc (ts_dirty s)"
      "tq_heap ?k \<noteq> [] \<Longrightarrow> top_when (tq_heap ?k) \<le> ts_earliest s \<Longrightarrow> ts_dirty t \<noteq> 0"
  proof -
    let ?s = "on_queue q (\<lambda>k. k\<lparr>tq_dispatching := False, tq_pending := True\<rparr>)
        ((drop_receiver q r s)\<lparr>ts_pending := ts_pending s @ [q]\<rparr>)"
    have s1: "?s = s\<lparr>ts_queue := (ts_queue s)(q := ?k'), ts_pending := ts_pending s @ [q]\<rparr>"
      using a by (simp add: on_queue_def drop_receiver_def)
    obtain b where b: "t = (if b then wake ?s else ?s)"
        "(if tq_heap ?k = [] then stale else Some (top_when (tq_heap ?k) \<le> ts_earliest s)) = Some b"
      using assms(3) a by (auto simp: tqueue_done_def queue_checked_def Let_def split: option.splits)
    show "ts_queue t = (ts_queue s)(q := ?k')" "ts_pending t = ts_pending s @ [q]"
      "ts_ready t = ts_ready s" "ts_count t = ts_count s" "ts_items t = ts_items s" "ts_earliest t = ts_earliest s"
      "ts_worker t = ts_worker s" "ts_joined t = ts_joined s" "ts_error t = ts_error s"
      "ts_dirty t = ts_dirty s \<or> ts_dirty t = Suc (ts_dirty s)"
      by (cases b; simp add: b(1) s1 wake_def)+
    show "ts_dirty t \<noteq> 0" if "tq_heap ?k \<noteq> []" "top_when (tq_heap ?k) \<le> ts_earliest s"
      using b that by (simp add: wake_def)
  qed
  have "queue_ok (ts_pending t) (ts_ready t) p (ts_queue t p)" for p
    using qu [of p] a by (cases "p = q") (auto simp: t(1-3) queue_ok_def)
  then have "flags_ok t"
    using s(1) t(2,3,4) a by (simp add: flags_ok_def)
  moreover have "items_ok t"
    by (rule items_ok_upd [OF s(2) a(7) t(1,4)]) (simp add: t load_def a)
  moreover have "wake_ok t"
    unfolding wake_ok_def
  proof (intro ballI impI)
    fix p assume p: "p \<in> set (ts_pending t)" "tq_heap (ts_queue t p) \<noteq> []"
    show "ts_dirty t \<noteq> 0 \<or> ts_earliest t \<le> top_when (tq_heap (ts_queue t p))"
    proof (cases "p = q")
      case True
      then show ?thesis using p(2) d(2) by (simp add: t(1,6)) (meson linear)
    next
      case False
      then have "ts_dirty s \<noteq> 0 \<or> ts_earliest s \<le> top_when (tq_heap (ts_queue s p))"
        using s(3) p by (simp add: wake_ok_def t(1,2))
      then show ?thesis using d(1) False by (auto simp: t(1,6))
    qed
  qed
  moreover have "exit_ok t"
    using s(4) t by (auto simp: exit_ok_def)
  ultimately show ?thesis by (simp add: source_ok_def)
qed

lemma process_all_result:
  "distinct qs \<Longrightarrow> process_all start qs (s, e) = (s', e') \<Longrightarrow>
   s' = s\<lparr>ts_queue := (\<lambda>q. if q \<in> set qs then process_queue start (ts_queue s q) else ts_queue s q)\<rparr> \<and> e' \<le> e \<and>
   (\<forall>q \<in> set qs. tq_pending (process_queue start (ts_queue s q)) \<longrightarrow> e' \<le> top_when (tq_heap (ts_queue s q)))"
proof (induction qs arbitrary: s e)
  case Nil
  then show ?case by simp
next
  case (Cons q qs)
  let ?s = "on_queue q (process_queue start) s" and ?e = "next_earliest start (ts_queue s q) e"
  have q: "q \<notin> set qs" "distinct qs" using Cons.prems by auto
  have r: "s' = ?s\<lparr>ts_queue := (\<lambda>p. if p \<in> set qs then process_queue start (ts_queue ?s p) else ts_queue ?s p)\<rparr> \<and> e' \<le> ?e \<and>
      (\<forall>p \<in> set qs. tq_pending (process_queue start (ts_queue ?s p)) \<longrightarrow> e' \<le> top_when (tq_heap (ts_queue ?s p)))"
    using Cons.IH [OF q(2)] Cons.prems(2) by simp
  have "s' = s\<lparr>ts_queue := (\<lambda>p. if p \<in> set (q # qs) then process_queue start (ts_queue s p) else ts_queue s p)\<rparr>"
    using r q by (auto simp: on_queue_def fun_eq_iff)
  moreover have "e' \<le> e" "tq_pending (process_queue start (ts_queue s q)) \<longrightarrow> e' \<le> top_when (tq_heap (ts_queue s q))"
    using r by (auto simp: next_earliest_def split: if_splits)
  moreover have "\<forall>p \<in> set qs. tq_pending (process_queue start (ts_queue s p)) \<longrightarrow> e' \<le> top_when (tq_heap (ts_queue s p))"
  proof
    fix p assume p: "p \<in> set qs"
    then have "ts_queue ?s p = ts_queue s p" using q by (auto simp: on_queue_def)
    then show "tq_pending (process_queue start (ts_queue s p)) \<longrightarrow> e' \<le> top_when (tq_heap (ts_queue s p))"
      using r p by metis
  qed
  ultimately show ?case by simp
qed

lemma process_queue_sel:
  "tq_heap (process_queue start k) = tq_heap k" "tq_receivers (process_queue start k) = tq_receivers k"
  "load (process_queue start k) = load k"
  "tq_dispatching (process_queue start k) \<longleftrightarrow> \<not> tq_dispatching k \<and> tq_heap k \<noteq> [] \<and> top_when (tq_heap k) \<le> start"
  "tq_pending (process_queue start k) \<longleftrightarrow> \<not> tq_dispatching (process_queue start k) \<and> tq_heap k \<noteq> []"
  by (simp_all add: process_queue_def Let_def load_def)

lemma worker_select_ok:
  assumes "source_ok s" "ts_worker s = Loop \<or> ts_worker s = Wait" "mset ps = mset (ts_pending s)"
  shows "source_ok (worker_select ps s)"
proof -
  have s: "flags_ok s" "items_ok s" "wake_ok s" "exit_ok s" using assms(1) by (simp_all add: source_ok_def)
  have dist: "distinct ps" and ps: "set ps = set (ts_pending s)"
    using s(1) mset_eq_imp_distinct_iff [OF assms(3)] mset_eq_setD [OF assms(3)] by (simp_all add: flags_ok_def)
  have qu: "queue_ok (ts_pending s) (ts_ready s) p (ts_queue s p)" for p using s(1) by (rule flags_okD)
  let ?pr = "process_queue (ts_now s)"
  let ?f = "\<lambda>q. if q \<in> set (ts_pending s) then ?pr (ts_queue s q) else ts_queue s q"
  obtain s1 e where pa: "process_all (ts_now s) ps (s\<lparr>ts_dirty := 0\<rparr>, ts_now s + day) = (s1, e)"
    by fastforce
  have s1: "s1 = s\<lparr>ts_dirty := 0, ts_queue := ?f\<rparr>"
    and e: "\<forall>q \<in> set (ts_pending s). tq_pending (?pr (ts_queue s q)) \<longrightarrow> e \<le> top_when (tq_heap (ts_queue s q))"
    using process_all_result [OF dist pa] by (simp_all add: ps cong: if_cong)
  let ?t = "worker_select ps s"
  have t: "ts_queue ?t = ?f" "ts_count ?t = ts_count s" "ts_items ?t = ts_items s" "ts_earliest ?t = e" "ts_dirty ?t = 0"
      "ts_pending ?t = filter (\<lambda>q. tq_pending (?f q)) ps"
      "ts_ready ?t = ts_ready s @ filter (\<lambda>q. \<not> tq_pending (?f q) \<and> tq_heap (?f q) \<noteq> []) ps"
      "ts_worker ?t = Dispatch" "ts_error ?t = ts_error s"
    by (simp_all add: worker_select_def Let_def pa s1)
  have "queue_ok (ts_pending ?t) (ts_ready ?t) q (?f q)" for q
    using qu [of q] unfolding t
    by (auto simp: queue_ok_def process_queue_sel count_list_append count_list_filter_distinct [OF dist] ps split: if_splits)
  then have "flags_ok ?t"
    using s(1) dist by (auto simp: flags_ok_def t ps split: if_splits)
  moreover have "load (?f q) = load (ts_queue s q)" for q
    by (simp add: process_queue_sel)
  then have "items_ok ?t"
    using s(2) unfolding items_ok_def t by simp
  moreover have "wake_ok ?t"
    using e by (auto simp: wake_ok_def t ps process_queue_sel)
  moreover have "exit_ok ?t"
    using s(4) assms(2) by (auto simp: exit_ok_def t)
  ultimately show ?thesis by (simp add: source_ok_def)
qed

lemma dispatch_queue_ok:
  assumes "source_ok s" "ts_ready s = q # qs"
  shows "source_ok (dispatch_queue q s)"
proof -
  have s: "flags_ok s" "items_ok s" "wake_ok s" "exit_ok s" using assms(1) by (simp_all add: source_ok_def)
  have qu: "queue_ok (ts_pending s) (ts_ready s) p (ts_queue s p)" for p using s(1) by (rule flags_okD)
  let ?t = "dispatch_queue q s"
  let ?k = "(ts_queue s q)\<lparr>tq_receivers := tq_receivers (ts_queue s q) @ [Waiting]\<rparr>"
  have t: "ts_queue ?t = (ts_queue s)(q := ?k)" "ts_pending ?t = ts_pending s" "ts_ready ?t = qs" "ts_count ?t = ts_count s"
      "ts_items ?t = ts_items s" "ts_earliest ?t = ts_earliest s" "ts_dirty ?t = ts_dirty s" "ts_worker ?t = ts_worker s"
      "ts_joined ?t = ts_joined s" "ts_error ?t = ts_error s"
    by (simp_all add: dispatch_queue_def on_queue_def assms(2))
  have "queue_ok (ts_pending ?t) (ts_ready ?t) p (ts_queue ?t p)" for p
    using qu [of p] by (cases "p = q") (auto simp: t(1-3) queue_ok_def assms(2))
  then have "flags_ok ?t"
    using s(1) t(2,3,4) assms(2) by (auto simp: flags_ok_def)
  moreover have "load (ts_queue ?t p) = load (ts_queue s p)" for p
    by (simp add: t load_def)
  then have "items_ok ?t"
    using s(2) by (simp only: items_ok_def t(4,5))
  moreover have "wake_ok ?t"
    using s(3) by (auto simp: wake_ok_def t)
  moreover have "exit_ok ?t"
    using s(4) by (simp add: exit_ok_def t)
  ultimately show ?thesis by (simp add: source_ok_def)
qed

lemma make_queue_ok:
  assumes "source_ok s"
  shows "source_ok (make_queue s)"
proof -
  have s: "flags_ok s" "items_ok s" "wake_ok s" "exit_ok s" using assms by (simp_all add: source_ok_def)
  have new: "ts_count s \<notin> set (ts_pending s)" "ts_count s \<notin> set (ts_ready s)" using s(1) by (auto simp: flags_ok_def)
  have "queue_ok (ts_pending s) (ts_ready s) p (if p = ts_count s then tqueue_new else ts_queue s p)" for p
    using flags_okD [OF s(1), of p] new by (auto simp: queue_ok_def tqueue_new_def count_list_0_iff)
  then have "flags_ok (make_queue s)"
    using s(1) by (auto simp: flags_ok_def make_queue_def less_Suc_eq)
  moreover have "items_ok (make_queue s)"
    using s(2) by (simp add: items_ok_def make_queue_def load_def tqueue_new_def)
  moreover have "wake_ok (make_queue s)"
    using s(3) new by (auto simp: wake_ok_def make_queue_def)
  moreover have "exit_ok (make_queue s)"
    using s(4) by (simp add: exit_ok_def make_queue_def)
  ultimately show ?thesis by (simp add: source_ok_def)
qed

text \<open>The handler takes one item of one pending queue and goes on, or is through.\<close>

lemma top_when_pop:
  assumes "heap_pop i h \<noteq> []"
  shows "top_when h \<le> top_when (heap_pop i h)"
proof -
  have "set (heap_pop i h) \<subseteq> set h"
    using set_take_subset [of i h] set_drop_subset [of "Suc i" h] by (simp add: heap_pop_def)
  then show ?thesis using assms unfolding top_when_def by (intro Min_antimono) auto
qed

lemma handler_loop_ok:
  assumes "flags_ok s" "items_ok s" "wake_ok s" "ts_error s" "\<forall>p. top_choice p (f p) s" "set qs \<subseteq> set (ts_pending s)"
  shows "source_ok (handler_loop n f qs s)"
  using assms(6)
proof (induction qs)
  case Nil
  then show ?case using assms(1-4) by (simp add: source_ok_def flags_ok_def items_ok_def wake_ok_def exit_ok_def)
next
  case (Cons q qs)
  let ?k = "ts_queue s q"
  show ?case
  proof (cases "tq_heap ?k = []")
    case True
    then show ?thesis using Cons by simp
  next
    case False
    let ?t = "handler_loop n f (q # qs) s" and ?k' = "?k\<lparr>tq_heap := heap_pop (f q) (tq_heap ?k)\<rparr>"
    have top: "is_top (f q) (tq_heap ?k)" using assms(5) False by blast
    have q: "q < ts_count s" "q \<in> set (ts_pending s)" using assms(1) Cons.prems by (auto simp: flags_ok_def)
    have t: "ts_queue ?t = (ts_queue s)(q := ?k')" "ts_pending ?t = ts_pending s" "ts_ready ?t = ts_ready s"
        "ts_count ?t = ts_count s" "ts_items ?t = ts_items s - 1" "ts_earliest ?t = ts_earliest s" "ts_dirty ?t = ts_dirty s"
        "ts_worker ?t = Handling n q qs (tq_heap ?k ! f q)"
        "ts_error ?t = ts_error s"
      using False by (simp_all add: Let_def on_queue_def)
    have "flags_ok ?t"
      by (rule flags_ok_upd [OF assms(1) queue_ok_frame [OF flags_okD [OF assms(1)]] t(1-4)]) simp_all
    moreover have "items_ok ?t"
      by (rule items_ok_upd [OF assms(2) q(1) t(1,4)]) (use pop_load [OF top] in \<open>simp add: t load_def del: handler_loop.simps\<close>)
    moreover have "wake_ok ?t"
      unfolding wake_ok_def t(2,6,7)
    proof (intro ballI impI)
      fix p assume p: "p \<in> set (ts_pending s)" "tq_heap (ts_queue ?t p) \<noteq> []"
      then have h: "tq_heap (ts_queue s p) \<noteq> []" "top_when (tq_heap (ts_queue s p)) \<le> top_when (tq_heap (ts_queue ?t p))"
        unfolding t(1) using False top_when_pop by (auto split: if_splits)
      have "ts_dirty s \<noteq> 0 \<or> ts_earliest s \<le> top_when (tq_heap (ts_queue s p))"
        using assms(3) p(1) h(1) by (simp add: wake_ok_def)
      then show "ts_dirty s \<noteq> 0 \<or> ts_earliest s \<le> top_when (tq_heap (ts_queue ?t p))"
        using h(2) by linarith
    qed
    moreover have "exit_ok ?t"
      using Cons.prems assms(4) by (simp add: exit_ok_def t(2,8,9) del: handler_loop.simps)
    ultimately show ?thesis by (simp add: source_ok_def)
  qed
qed

lemma worker_catch_ok:
  assumes "source_ok s" "\<forall>p. top_choice p (f p) s"
  shows "source_ok (worker_catch f s)"
  unfolding worker_catch_def
  by (rule handler_loop_ok) (use assms in \<open>simp_all add: source_ok_def flags_ok_def items_ok_def wake_ok_def\<close>)

lemma handler_resume_ok:
  assumes "source_ok s" "ts_worker s = Handling n q qs it" "\<forall>p. top_choice p (f p) s"
    and "handler_resume n q qs f s = Ret t"
  shows "source_ok t"
proof -
  have s: "flags_ok s" "items_ok s" "wake_ok s" and sub: "set (q # qs) \<subseteq> set (ts_pending s)" and err: "ts_error s"
    using assms(1,2) by (auto simp: source_ok_def exit_ok_def)
  have "t = handler_loop n f (q # qs) s \<or> t = handler_loop n f qs s"
    using assms(4) by (auto simp: handler_resume_def split: if_splits)
  moreover have "source_ok (handler_loop n f (q # qs) s)" by (rule handler_loop_ok [OF s err assms(3) sub])
  moreover have "source_ok (handler_loop n f qs s)" using sub by (intro handler_loop_ok [OF s err assms(3)]) auto
  ultimately show ?thesis by auto
qed

lemma frame_ok:
  assumes "source_ok s" "ts_queue t = ts_queue s" "ts_pending t = ts_pending s" "ts_ready t = ts_ready s"
    "ts_count t = ts_count s" "ts_items t = ts_items s" "ts_earliest t = ts_earliest s" "ts_error t = ts_error s"
    "ts_dirty s \<noteq> 0 \<longrightarrow> ts_dirty t \<noteq> 0" "exit_ok t"
  shows "source_ok t"
  using assms by (auto simp: source_ok_def flags_ok_def items_ok_def wake_ok_def)

lemma queue_checked_Ret: "queue_checked q f s = Ret t \<Longrightarrow> f s = Ret t"
  by (simp add: queue_checked_def split: if_splits)

lemma tqueue_value_ok:
  assumes "source_ok s" "receiver_at q r Waiting s" "top_choice q i s" "tqueue_value own q r i now s = Ret t"
  shows "source_ok t"
proof -
  have t: "(if tq_heap (ts_queue s q) = [] then Ret (set_phase q r Valued s)
       else Ret (tqueue_value_loop q r i (now + 50) s)) = Ret t"
    using assms(4) by (simp add: tqueue_value_def queue_checked_def split: if_splits)
  show ?thesis
  proof (cases "tq_heap (ts_queue s q) = []")
    case True
    then have "t = error_drain q r i s" using t by (simp add: error_drain_def Let_def)
    then show ?thesis using error_drain_ok [OF assms(1,2) _ assms(3)] by simp
  next
    case False
    then have "t = tqueue_value_loop q r i (now + 50) s" using t by simp
    then show ?thesis using tqueue_value_loop_ok [OF assms(1,2) _ assms(3)] by (simp only: running.simps simp_thms)
  qed
qed

lemma source_call_ok:
  assumes "source_call stale s (Ret t)" "source_ok s"
  shows "source_ok t"
  using assms(1)
proof (cases rule: source_call.cases)
  case make
  with make_queue_ok [OF assms(2)] show ?thesis by simp
next
  case (insert q it)
  with insert_item_ok [OF assms(2)] show ?thesis by metis
next
  case (value_signal q r i own now)
  with tqueue_value_ok [OF assms(2)] show ?thesis by metis
next
  case (finished q r start it i)
  with item_finished_ok [OF assms(2)] show ?thesis by simp
next
  case (drained q r it i)
  with error_drain_ok [OF assms(2), of q r "ErrorDrain it" i] show ?thesis by simp
next
  case (error q r i)
  from error have "queue_checked q (\<lambda>s. Ret (tqueue_error_loop q r i s)) s = Ret t" by (simp add: tqueue_error_def)
  from queue_checked_Ret [OF this] have "t = tqueue_error_loop q r i s" by simp
  with error tqueue_error_loop_ok [OF assms(2), of q r Waiting i] show ?thesis by (simp only: running.simps simp_thms)
next
  case (failed q r it i)
  with tqueue_error_loop_ok [OF assms(2), of q r "Failing it" i] show ?thesis by simp
next
  case (done_signal q r)
  with tqueue_done_ok [OF assms(2)] show ?thesis by metis
next
  case exit
  then show ?thesis using assms(2)
    by (intro frame_ok [OF assms(2)]) (auto simp: worker_exit_def worker_goes_on_def exit_ok_def source_ok_def)
next
  case wait
  then show ?thesis using assms(2)
    by (intro frame_ok [OF assms(2)]) (auto simp: exit_ok_def source_ok_def)
next
  case (select ps)
  with worker_select_ok [OF assms(2)] show ?thesis by blast
next
  case (dispatch q qs)
  with dispatch_queue_ok [OF assms(2)] show ?thesis by simp
next
  case (dispatch_throws f)
  with worker_catch_ok [OF assms(2)] show ?thesis by simp
next
  case (handled n q qs it f)
  with handler_resume_ok [OF assms(2)] show ?thesis by metis
next
  case dispatched
  then show ?thesis using assms(2)
    by (intro frame_ok [OF assms(2)]) (auto simp: exit_ok_def source_ok_def)
next
  case join
  then show ?thesis using assms(2)
    by (intro frame_ok [OF assms(2)]) (auto simp: source_join_def wake_def exit_ok_def source_ok_def)
next
  case (tick d)
  then show ?thesis using assms(2)
    by (intro frame_ok [OF assms(2)]) (auto simp: exit_ok_def source_ok_def)
qed

lemma source_step_ok: "source_ok s \<Longrightarrow> source_step stale s t \<Longrightarrow> source_ok t"
  by (simp add: source_step_def source_call_ok)

lemma source_new_ok: "source_ok (source_new n t)"
  by (simp add: source_ok_def flags_ok_def items_ok_def wake_ok_def exit_ok_def source_new_def tqueue_new_def queue_ok_def load_def)

interpretation sources: invariant_of "\<lambda>s. \<exists>n t. s = source_new n t" "source_step stale" source_ok for stale
  by unfold_locales (auto simp: source_new_ok intro: source_step_ok)

section \<open>Concrete runs\<close>

fun ret_of :: "'s outcome \<Rightarrow> 's" where
  "ret_of (Ret s) = s"
| "ret_of _ = undefined"

text \<open>One queue with one item that is due: inserted, selected, dispatched, and about to run.\<close>

definition one_item :: source where
  "one_item = ret_of (insert_item 0 (0, 7) (source_new 1 0))"

definition one_selected :: source where
  "one_selected = worker_select [0] one_item"

definition one_waiting :: source where
  "one_waiting = dispatch_queue 0 one_selected"

definition one_running :: source where
  "one_running = ret_of (tqueue_value False 0 0 0 0 one_waiting)"

definition one_valued :: source where
  "one_valued = item_finished 0 0 0 50 (0, 7) one_running"

lemmas one_defs = insert_item_def worker_select_def dispatch_queue_def tqueue_value_def queue_checked_def tqueue_value_loop_def
  item_finished_def process_queue_def next_earliest_def top_when_def heap_pop_def is_top_def source_new_def
  tqueue_new_def on_queue_def wake_def Let_def day_def

lemma one_item_eq: "one_item = (source_new 1 0)\<lparr>ts_queue := (\<lambda>q. tqueue_new)(0 := \<lparr>tq_dispatching = False,
    tq_pending = True, tq_heap = [(0, 7)], tq_receivers = []\<rparr>), ts_pending := [0], ts_dirty := 1, ts_items := 1\<rparr>"
  by (simp add: one_item_def one_defs)

lemma one_selected_eq: "one_selected = (source_new 1 0)\<lparr>ts_queue := (\<lambda>q. tqueue_new)(0 := \<lparr>tq_dispatching = True,
    tq_pending = False, tq_heap = [(0, 7)], tq_receivers = []\<rparr>), ts_ready := [0], ts_items := 1, ts_worker := Dispatch\<rparr>"
  by (simp add: one_selected_def one_item_eq one_defs)

lemma one_waiting_eq: "one_waiting = (source_new 1 0)\<lparr>ts_queue := (\<lambda>q. tqueue_new)(0 := \<lparr>tq_dispatching = True,
    tq_pending = False, tq_heap = [(0, 7)], tq_receivers = [Waiting]\<rparr>), ts_items := 1, ts_worker := Dispatch\<rparr>"
  by (simp add: one_waiting_def one_selected_eq one_defs)

lemma one_running_eq: "one_running = (source_new 1 0)\<lparr>ts_queue := (\<lambda>q. tqueue_new)(0 := \<lparr>tq_dispatching = True,
    tq_pending = False, tq_heap = [], tq_receivers = [Running 50 (0, 7)]\<rparr>), ts_items := 1, ts_worker := Dispatch\<rparr>"
  by (simp add: one_running_def one_waiting_eq one_defs)

lemma one_valued_eq: "one_valued = (source_new 1 0)\<lparr>ts_queue := (\<lambda>q. tqueue_new)(0 := \<lparr>tq_dispatching = True,
    tq_pending = False, tq_heap = [], tq_receivers = [Valued]\<rparr>), ts_dirty := 1, ts_items := 0, ts_worker := Dispatch,
    ts_log := [((0, 7), 0)]\<rparr>"
  by (simp add: one_valued_def one_running_eq one_defs)

lemma reach_call: "source_reach stale s \<Longrightarrow> source_call stale s (Ret t) \<Longrightarrow> source_reach stale t"
  by (rule reach_step) (simp_all add: source_step_def)

lemma one_reach:
  "source_reach stale one_item" "source_reach stale one_selected" "source_reach stale one_waiting"
  "source_reach stale one_running" "source_reach stale one_valued"
proof -
  have n: "source_reach stale (source_new 1 0)" by (rule reach_init) blast
  have "insert_item 0 (0, 7) (source_new 1 0) = Ret one_item" by (simp add: one_item_eq one_defs)
  then show 1: "source_reach stale one_item"
    by (intro reach_call [OF n]) (metis insert source_new_def source.select_convs(1) zero_less_one)
  have "source_call stale one_item (Ret (worker_select [0] one_item))"
    by (rule select) (simp_all add: one_item_eq source_new_def worker_goes_on_def worker_awake_def)
  with 1 show 2: "source_reach stale one_selected" unfolding one_selected_def by (rule reach_call)
  have "source_call stale one_selected (Ret (dispatch_queue 0 one_selected))"
    by (rule dispatch) (simp_all add: one_selected_eq source_new_def)
  with 2 show 3: "source_reach stale one_waiting" unfolding one_waiting_def by (rule reach_call)
  have "source_call stale one_waiting (tqueue_value False 0 0 0 0 one_waiting)"
    by (rule source_call.value_signal) (simp_all add: one_waiting_eq source_new_def is_top_def top_when_def)
  moreover have "tqueue_value False 0 0 0 0 one_waiting = Ret one_running" by (simp add: one_running_eq one_waiting_eq one_defs)
  ultimately show 4: "source_reach stale one_running" using reach_call [OF 3] by metis
  have "source_call stale one_running (Ret (item_finished 0 0 0 50 (0, 7) one_running))"
    by (rule finished) (simp_all add: one_running_eq source_new_def)
  with 4 show "source_reach stale one_valued" unfolding one_valued_def by (rule reach_call)
qed

section \<open>Queues lost to the handler\<close>

definition lost :: "nat \<Rightarrow> item list \<Rightarrow> source \<Rightarrow> bool" where
  "lost q h s \<longleftrightarrow> q < ts_count s \<and> ts_worker s = Caught \<and> ts_error s \<and> tq_receivers (ts_queue s q) = [] \<and> tq_heap (ts_queue s q) = h"

lemma other_queue [simp]: "p \<noteq> q \<Longrightarrow> ts_queue (on_queue q f s) p = ts_queue s p"
  by (simp add: on_queue_def)

lemma on_queue_sel [simp]:
  "ts_count (on_queue q f s) = ts_count s" "ts_count (wake s) = ts_count s"
  "ts_worker (on_queue q f s) = ts_worker s" "ts_error (on_queue q f s) = ts_error s"
  "ts_worker (wake s) = ts_worker s" "ts_error (wake s) = ts_error s" "ts_queue (wake s) = ts_queue s"
  by (simp_all add: on_queue_def wake_def)

lemma lost_other:
  assumes "lost p h s" "q \<noteq> p"
  shows "lost p h (error_drain q r i s)" "lost p h (tqueue_value_loop q r i start s)" "lost p h (tqueue_error_loop q r i s)"
    "lost p h (item_finished q r i start it s)" "lost p h (on_queue q f s)" "lost p h (drop_receiver q r s)"
  using assms
  by (auto simp: lost_def error_drain_def tqueue_value_loop_def tqueue_error_loop_def item_finished_def drop_receiver_def Let_def)

lemma tqueue_done_lost: "lost p h s \<Longrightarrow> q \<noteq> p \<Longrightarrow> tqueue_done stale q r s = Ret t \<Longrightarrow> lost p h t"
  by (auto simp: tqueue_done_def queue_checked_def Let_def drop_receiver_def lost_def split: if_splits option.splits)

lemma lost_step:
  assumes "source_step stale s t" "lost p h s"
  shows "lost p h t"
  using assms(1) unfolding source_step_def
proof (cases rule: source_call.cases)
  case make
  then show ?thesis using assms(2) by (auto simp: make_queue_def lost_def)
next
  case (insert q it)
  then show ?thesis using assms(2) by (simp add: insert_item_def lost_def)
next
  case (value_signal q r i own now)
  then have "q \<noteq> p" using assms(2) by (auto simp: lost_def)
  from value_signal have "tqueue_value own q r i now s = Ret t" by simp
  then show ?thesis
    using lost_other [OF assms(2) \<open>q \<noteq> p\<close>] by (auto simp: tqueue_value_def queue_checked_def split: if_splits)
next
  case (finished q r start it i)
  then have "q \<noteq> p" using assms(2) by (auto simp: lost_def)
  then show ?thesis using finished lost_other [OF assms(2)] by simp
next
  case (drained q r it i)
  then have "q \<noteq> p" using assms(2) by (auto simp: lost_def)
  then show ?thesis using drained lost_other [OF assms(2)] by simp
next
  case (error q r i)
  then have "q \<noteq> p" using assms(2) by (auto simp: lost_def)
  from error have "tqueue_error q r i s = Ret t" by simp
  from queue_checked_Ret [OF this [unfolded tqueue_error_def]] show ?thesis
    using lost_other [OF assms(2) \<open>q \<noteq> p\<close>] by auto
next
  case (failed q r it i)
  then have "q \<noteq> p" using assms(2) by (auto simp: lost_def)
  then show ?thesis using failed lost_other [OF assms(2)] by simp
next
  case (done_signal q r)
  then have "q \<noteq> p" using assms(2) by (auto simp: lost_def)
  from done_signal have "tqueue_done stale q r s = Ret t" by simp
  with \<open>q \<noteq> p\<close> show ?thesis by (rule tqueue_done_lost [OF assms(2)])
next
  case join
  then show ?thesis using assms(2) by (simp add: lost_def source_join_def)
qed (use assms(2) in \<open>simp_all add: lost_def\<close>)

lemma lost_steps: "(source_step stale)\<^sup>*\<^sup>* s t \<Longrightarrow> lost p h s \<Longrightarrow> lost p h t"
  by (induction rule: rtranclp_induct) (auto intro: lost_step)

section \<open>What the steps leave alone\<close>

abbreviation worker_ended :: "source \<Rightarrow> bool" where
  "worker_ended s \<equiv> ts_worker s = Exited \<or> ts_worker s = Caught"

lemma pop_sel [simp]:
  "ts_worker (error_drain q r i s) = ts_worker s" "ts_worker (tqueue_value_loop q r i start s) = ts_worker s"
  "ts_worker (tqueue_error_loop q r i s) = ts_worker s" "ts_worker (item_finished q r i start it s) = ts_worker s"
  "ts_worker (drop_receiver q r s) = ts_worker s"
  by (simp_all add: error_drain_def tqueue_value_loop_def tqueue_error_loop_def item_finished_def drop_receiver_def Let_def)

lemma ready_sel [simp]:
  "ts_ready (on_queue q f s) = ts_ready s" "ts_ready (wake s) = ts_ready s"
  "ts_ready (error_drain q r i s) = ts_ready s" "ts_ready (tqueue_value_loop q r i start s) = ts_ready s"
  "ts_ready (tqueue_error_loop q r i s) = ts_ready s" "ts_ready (item_finished q r i start it s) = ts_ready s"
  "ts_ready (drop_receiver q r s) = ts_ready s"
  by (simp_all add: on_queue_def wake_def error_drain_def tqueue_value_loop_def tqueue_error_loop_def item_finished_def
      drop_receiver_def Let_def)

lemma error_sel [simp]:
  "ts_error (error_drain q r i s) = ts_error s" "ts_error (tqueue_value_loop q r i start s) = ts_error s"
  "ts_error (tqueue_error_loop q r i s) = ts_error s" "ts_error (item_finished q r i start it s) = ts_error s"
  "ts_error (drop_receiver q r s) = ts_error s"
  by (simp_all add: error_drain_def tqueue_value_loop_def tqueue_error_loop_def item_finished_def drop_receiver_def Let_def)

lemma process_all_error: "process_all start qs (s, e) = (s', e') \<Longrightarrow> ts_error s' = ts_error s"
  by (induction qs arbitrary: s e) auto

lemma handler_loop_error [simp]: "ts_error (handler_loop n f qs s) = ts_error s"
  by (induction qs) (simp_all add: Let_def)

text \<open>A worker that has returned stays so, and one that returns from its loop does so after \<open>join\<close>.\<close>

lemma worker_ends:
  assumes "source_step stale s t"
  shows "(worker_ended s \<longrightarrow> ts_worker t = ts_worker s) \<and> (ts_worker t = Exited \<longrightarrow> ts_worker s = Exited \<or> ts_done s)"
  using assms unfolding source_step_def
proof (cases rule: source_call.cases)
  case (insert q it)
  then show ?thesis by (auto simp: insert_item_def Let_def split: if_splits)
next
  case (value_signal q r i own now)
  then have "tqueue_value own q r i now s = Ret t" by simp
  then show ?thesis by (auto simp: tqueue_value_def queue_checked_def split: if_splits)
next
  case (error q r i)
  then have "tqueue_error q r i s = Ret t" by simp
  then show ?thesis by (auto simp: tqueue_error_def queue_checked_def split: if_splits)
next
  case (done_signal q r)
  then have "tqueue_done stale q r s = Ret t" by simp
  then show ?thesis by (auto simp: tqueue_done_def queue_checked_def Let_def split: if_splits option.splits)
next
  case (handled n q qs it f)
  have "ts_worker (handler_loop n f ps u) \<noteq> Exited" for ps u
    by (induction ps) (simp_all add: Let_def)
  with handled show ?thesis by (auto simp: handler_resume_def split: if_splits)
next
  case (dispatch_throws f)
  have "ts_worker (handler_loop n f ps u) \<noteq> Exited" for n ps u
    by (induction ps) (simp_all add: Let_def)
  with dispatch_throws show ?thesis by (simp add: worker_catch_def)
qed (auto simp: make_queue_def worker_goes_on_def worker_select_def dispatch_queue_def source_join_def Let_def split: prod.splits)

lemma worker_ended_steps:
  assumes "(source_step stale)\<^sup>*\<^sup>* s t" "worker_ended s"
  shows "ts_worker t = ts_worker s"
  using assms(1)
proof (induction rule: rtranclp_induct)
  case (step t u)
  then show ?case using worker_ends [OF step(2)] assms(2) by simp
qed simp

text \<open>
  A step that gives the executor of \<open>q\<close> no receiver leaves \<open>q\<close> to the worker's loop over \<open>ready_\<close>, unless
  the worker goes to its handler.
\<close>

definition gets_receiver :: "nat \<Rightarrow> source \<Rightarrow> source \<Rightarrow> bool" where
  "gets_receiver q s t \<longleftrightarrow> tq_receivers (ts_queue t q) = tq_receivers (ts_queue s q) @ [Waiting]"

definition other_step :: "bool option \<Rightarrow> nat \<Rightarrow> source \<Rightarrow> source \<Rightarrow> bool" where
  "other_step stale q s t \<longleftrightarrow> source_step stale s t \<and> \<not> gets_receiver q s t"

definition to_dispatch :: "nat \<Rightarrow> source \<Rightarrow> bool" where
  "to_dispatch q s \<longleftrightarrow> ts_worker s = Dispatch \<and> q \<in> set (ts_ready s)"

lemma dispatch_queue_sel:
  "ts_worker (dispatch_queue p s) = ts_worker s" "ts_ready (dispatch_queue p s) = tl (ts_ready s)"
  "tq_receivers (ts_queue (dispatch_queue p s) q) = (if q = p then tq_receivers (ts_queue s q) @ [Waiting] else tq_receivers (ts_queue s q))"
  by (simp_all add: dispatch_queue_def on_queue_def)

lemma other_step_waits:
  assumes "other_step stale q s t" "ts_error s \<or> to_dispatch q s"
  shows "ts_error t \<or> to_dispatch q t"
proof -
  have step: "source_call stale s (Ret t)" and no: "\<not> gets_receiver q s t"
    using assms(1) by (simp_all add: other_step_def source_step_def)
  from step show ?thesis
  proof (cases rule: source_call.cases)
    case (insert q it)
    then show ?thesis using assms(2) by (auto simp: insert_item_def Let_def to_dispatch_def split: if_splits)
  next
    case (value_signal q r i own now)
    then have "tqueue_value own q r i now s = Ret t" by simp
    then show ?thesis using assms(2) by (auto simp: tqueue_value_def queue_checked_def to_dispatch_def split: if_splits)
  next
    case (error q r i)
    then have "tqueue_error q r i s = Ret t" by simp
    then show ?thesis using assms(2) by (auto simp: tqueue_error_def queue_checked_def to_dispatch_def split: if_splits)
  next
    case (done_signal q r)
    then have "tqueue_done stale q r s = Ret t" by simp
    then show ?thesis using assms(2)
      by (auto simp: tqueue_done_def queue_checked_def Let_def to_dispatch_def split: if_splits option.splits)
  next
    case (dispatch p ps)
    then have "p \<noteq> q" using no by (auto simp: gets_receiver_def dispatch_queue_sel)
    then show ?thesis using dispatch assms(2) by (auto simp: to_dispatch_def dispatch_queue_sel dispatch_queue_def)
  next
    case (handled n q qs it f)
    then show ?thesis using assms(2) by (auto simp: handler_resume_def to_dispatch_def simp del: handler_loop.simps split: if_splits)
  next
    case (dispatch_throws f)
    then show ?thesis by (simp add: worker_catch_def)
  qed (use assms(2) in \<open>auto simp: to_dispatch_def make_queue_def worker_exit_def worker_select_def source_join_def Let_def
      process_all_error split: prod.splits\<close>)
qed

lemma other_steps_wait:
  assumes "(other_step stale q)\<^sup>*\<^sup>* s t" "to_dispatch q s"
  shows "ts_error t \<or> to_dispatch q t"
  using assms(1)
proof (induction rule: rtranclp_induct)
  case (step t u)
  then show ?case using other_step_waits by blast
qed (use assms(2) in simp)

text \<open>The loop over \<open>ready_\<close> comes to every queue.\<close>

lemma dispatch_reaches:
  assumes "source_reach stale s" "to_dispatch q s"
  shows "\<exists>u v. (source_step stale)\<^sup>*\<^sup>* s u \<and> source_step stale u v \<and> v = dispatch_queue q u \<and> gets_receiver q u v"
proof -
  obtain xs ys where "ts_worker s = Dispatch" "ts_ready s = xs @ q # ys"
    using assms(2) by (auto simp: to_dispatch_def dest: split_list)
  then have "\<exists>u. (source_step stale)\<^sup>*\<^sup>* s u \<and> ts_worker u = Dispatch \<and> ts_ready u = q # ys"
  proof (induction xs arbitrary: s)
    case (Cons x xs)
    have "source_step stale s (dispatch_queue x s)"
      unfolding source_step_def using Cons.prems by (intro source_call.dispatch) auto
    moreover obtain u where "(source_step stale)\<^sup>*\<^sup>* (dispatch_queue x s) u \<and> ts_worker u = Dispatch \<and> ts_ready u = q # ys"
      using Cons.IH [of "dispatch_queue x s"] Cons.prems by (auto simp: dispatch_queue_sel)
    ultimately show ?case by (meson converse_rtranclp_into_rtranclp)
  qed auto
  then obtain u where u: "(source_step stale)\<^sup>*\<^sup>* s u" "ts_worker u = Dispatch" "ts_ready u = q # ys" by blast
  have "source_step stale u (dispatch_queue q u)"
    unfolding source_step_def using u(2,3) by (intro source_call.dispatch) auto
  with u(1) show ?thesis by (auto simp: gets_receiver_def dispatch_queue_sel)
qed

section \<open>Properties\<close>

text \<open>
  C2: The checks of \<open>dispatching_\<close> and \<open>pending_\<close> never fire: whatever the threads do, a queue with a
  receiver on its way has just that one, is dispatching and not pending. So \<open>error\<close> and \<open>done\<close> never
  reach their \<open>std::terminate\<close>, and \<open>value\<close> does only when the executor runs it on the thread of the worker.
\<close>
theorem time_source_consistent:
  assumes "source_reach stale s" "q < ts_count s" "r < length (tq_receivers (ts_queue s q))"
  shows "length (tq_receivers (ts_queue s q)) = 1 \<and> tq_dispatching (ts_queue s q) \<and> \<not> tq_pending (ts_queue s q) \<and>
    (\<forall>own. tqueue_value own q r i now s = Term \<longleftrightarrow> own) \<and>
    tqueue_error q r i s \<noteq> Term \<and> tqueue_done stale q r s \<noteq> Term"
proof -
  have "flags_ok s" using sources.reachable_inv [OF assms(1)] by (simp add: source_ok_def)
  note alone = receiver_alone [OF this, of q r "tq_receivers (ts_queue s q) ! r"]
  then have "length (tq_receivers (ts_queue s q)) = 1"
    using assms(2,3) by (metis One_nat_def length_Cons list.size(3))
  then show ?thesis using alone assms(2,3)
    by (auto simp: tqueue_value_def tqueue_error_def tqueue_done_def queue_checked_def Let_def split: option.split)
qed

theorem time_source_consistent_witness:
  "tqueue_value False 0 0 0 0 one_waiting \<noteq> Term \<and> tqueue_value True 0 0 0 0 one_waiting = Term \<and>
   tqueue_error 0 0 0 one_waiting \<noteq> Term"
  using time_source_consistent [OF one_reach(3), where q = 0 and r = 0 and i = 0 and now = 0]
  by (simp add: one_waiting_eq source_new_def)

lemma select_ready:
  assumes "flags_ok s" "q \<in> set (ts_pending s)" "mset ps = mset (ts_pending s)"
    and "tq_heap (ts_queue s q) \<noteq> []" "top_when (tq_heap (ts_queue s q)) \<le> ts_now s"
  shows "to_dispatch q (worker_select ps s)"
proof -
  have nd: "\<not> tq_dispatching (ts_queue s q)" using assms(1,2) by (auto simp: flags_ok_def queue_ok_def)
  have dist: "distinct ps" and ps: "q \<in> set ps"
    using assms(1,2) mset_eq_imp_distinct_iff [OF assms(3)] mset_eq_setD [OF assms(3)] by (simp_all add: flags_ok_def)
  obtain s1 e where pa: "process_all (ts_now s) ps (s\<lparr>ts_dirty := 0\<rparr>, ts_now s + day) = (s1, e)"
    by fastforce
  have "ts_queue s1 q = process_queue (ts_now s) (ts_queue s q)"
    using process_all_result [OF dist pa] ps by simp
  then show ?thesis
    using ps nd assms(4,5) by (simp add: to_dispatch_def worker_select_def Let_def pa process_queue_sel)
qed

text \<open>
  C3: The worker never sleeps past an item: when a pending queue holds an item that is due, and the
  worker is at the head of its loop or waits, then a round can begin and the loop does not end. The round puts the queue
  into \<open>ready_\<close>, whatever the order that \<open>partition\<close> leaves, and there it stays, whatever else happens, until
  \<open>dispatch\<close> has given its executor a receiver, which the worker can always go on to do, or \<open>dispatch\<close> has
  thrown an exception.
\<close>
theorem time_source_wakes:
  assumes "source_reach stale s" "ts_worker s = Loop \<or> ts_worker s = Wait" "q \<in> set (ts_pending s)"
    and "it \<in> set (tq_heap (ts_queue s q))" "fst it \<le> ts_now s" "mset ps = mset (ts_pending s)"
  shows "worker_goes_on s \<and> source_step stale s (worker_select ps s) \<and>
    (\<forall>t. (other_step stale q)\<^sup>*\<^sup>* (worker_select ps s) t \<longrightarrow> ts_error t \<or>
      ts_worker t = Dispatch \<and> q \<in> set (ts_ready t) \<and>
      (\<exists>u v. (source_step stale)\<^sup>*\<^sup>* t u \<and> source_step stale u v \<and> gets_receiver q u v))"
proof -
  have ok: "flags_ok s" "items_ok s" "wake_ok s"
    using sources.reachable_inv [OF assms(1)] by (simp_all add: source_ok_def)
  let ?k = "ts_queue s q"
  have h: "tq_heap ?k \<noteq> []" using assms(4) by auto
  have top: "top_when (tq_heap ?k) \<le> ts_now s"
    unfolding top_when_def
    by (rule order_trans [OF Min_le [of _ "fst it"]]) (use assms(4,5) in auto)
  have n: "q < ts_count s" using ok(1) assms(3) by (auto simp: flags_ok_def)
  have "load ?k \<le> ts_items s" by (rule load_le_items [OF ok(2) n])
  moreover have "0 < load ?k" using h by (simp add: load_def add_pos_nonneg)
  ultimately have items: "worker_goes_on s" by (simp add: worker_goes_on_def)
  have "worker_awake s"
    using ok(3) assms(3) h top by (auto simp: wake_ok_def worker_awake_def)
  then have step: "source_step stale s (worker_select ps s)"
    unfolding source_step_def using assms(2,6) items by (intro select) auto
  have ready: "to_dispatch q (worker_select ps s)" by (rule select_ready [OF ok(1) assms(3,6) h top])
  have "ts_error t \<or> ts_worker t = Dispatch \<and> q \<in> set (ts_ready t) \<and>
      (\<exists>u v. (source_step stale)\<^sup>*\<^sup>* t u \<and> source_step stale u v \<and> gets_receiver q u v)"
    if t: "(other_step stale q)\<^sup>*\<^sup>* (worker_select ps s) t" for t
  proof -
    have "(source_step stale)\<^sup>*\<^sup>* (worker_select ps s) t"
      using t by (rule rtranclp_mono [THEN predicate2D, rotated]) (auto simp: other_step_def)
    then have r: "source_reach stale t" by (rule reachable_steps [OF _ reach_step [OF assms(1) step]])
    show ?thesis
    proof (cases "ts_error t")
      case False
      then have "to_dispatch q t" using other_steps_wait [OF t ready] by simp
      then show ?thesis using dispatch_reaches [OF r] unfolding to_dispatch_def by blast
    qed simp
  qed
  then show ?thesis using items step by blast
qed

theorem time_source_wakes_witness:
  "\<exists>u v. (source_step None)\<^sup>*\<^sup>* one_selected u \<and> source_step None u v \<and> gets_receiver 0 u v"
proof -
  have "worker_goes_on one_item \<and> source_step None one_item (worker_select [0] one_item) \<and>
    (\<forall>t. (other_step None 0)\<^sup>*\<^sup>* (worker_select [0] one_item) t \<longrightarrow> ts_error t \<or>
      ts_worker t = Dispatch \<and> 0 \<in> set (ts_ready t) \<and>
      (\<exists>u v. (source_step None)\<^sup>*\<^sup>* t u \<and> source_step None u v \<and> gets_receiver 0 u v))"
    by (rule time_source_wakes [OF one_reach(1), of 0 "(0, 7)"]) (simp_all add: one_item_eq source_new_def)
  moreover have "\<not> ts_error one_selected" by (simp add: one_selected_eq source_new_def)
  ultimately show ?thesis unfolding one_selected_def by blast
qed

text \<open>
  C4: \<open>join\<close> waits for the items: once the worker has returned from its loop (not through the handler of an
  exception, where items can be left), and for ever after, the count of items is exactly zero, no queue holds an
  item, and no \<open>value\<close> is running one, so that the destructor's check of the count passes. A queue receiver can
  still be on its way then, with nothing to run.
\<close>
theorem time_source_join:
  assumes "source_reach stale s" "ts_worker s = Exited" "(source_step stale)\<^sup>*\<^sup>* s t"
  shows "ts_worker t = Exited \<and> ts_items t = 0 \<and>
    (\<forall>q < ts_count t. tq_heap (ts_queue t q) = [] \<and> filter running (tq_receivers (ts_queue t q)) = [])"
proof -
  have e: "ts_worker t = Exited" using worker_ended_steps [OF assms(3)] assms(2) by simp
  have ok: "items_ok t" "exit_ok t"
    using sources.reachable_inv [OF reachable_steps [OF assms(3,1)]] by (simp_all add: source_ok_def)
  then have z: "ts_items t = 0" using items_nonneg [OF ok(1)] e by (simp add: exit_ok_def)
  then have "(\<Sum>q<ts_count t. load (ts_queue t q)) = 0" using ok(1) by (simp add: items_ok_def)
  then have "\<forall>q < ts_count t. load (ts_queue t q) = 0" by (simp add: sum_nonneg_eq_0_iff)
  then show ?thesis using e z load_zero by blast
qed

theorem time_source_join_witness:
  "ts_items (worker_exit (source_join (source_new 1 0))) = 0"
proof -
  have n: "source_reach None (source_new 1 0)" by (rule reach_init) blast
  have j: "source_reach None (source_join (source_new 1 0))" by (rule reach_call [OF n]) (rule join)
  have "source_call None (source_join (source_new 1 0)) (Ret (worker_exit (source_join (source_new 1 0))))"
    by (rule exit) (simp_all add: source_join_def wake_def source_new_def worker_goes_on_def)
  from reach_call [OF j this] show ?thesis
    by (rule time_source_join [THEN conjunct2, THEN conjunct1]) (simp_all add: worker_exit_def)
qed

text \<open>
  \<open>done\<close> reads the top of an empty heap: the ordinary run of a single item, inserted, dispatched
  and run, ends in a \<open>done\<close> whose comparison is undefined behaviour.
\<close>
theorem time_source_done_ub:
  "\<exists>s. source_reach None s \<and> receiver_at 0 0 Valued s \<and> map (snd \<circ> fst) (ts_log s) = [7] \<and> source_call None s UB"
proof (intro exI conjI)
  show "source_reach None one_valued" by (rule one_reach(5))
  have "receiver_at 0 0 Valued one_valued" by (simp add: one_valued_eq source_new_def)
  from done_signal [OF this, of None] show "source_call None one_valued UB"
    by (simp add: tqueue_done_def queue_checked_def Let_def one_valued_eq)
qed (simp_all add: one_valued_eq source_new_def)

text \<open>
  An exception from the executor loses items: when \<open>dispatch\<close> throws, the handler fails the items
  of the pending queues only; a queue that had been selected keeps its item in every continuation,
  so the count never returns to zero.
\<close>
theorem time_source_dispatch_loses:
  "\<exists>s. source_reach stale s \<and> ts_worker s = Caught \<and>
     (\<forall>t. (source_step stale)\<^sup>*\<^sup>* s t \<longrightarrow> tq_heap (ts_queue t 0) = [(0, 7)] \<and> ts_items t \<noteq> 0)"
proof (intro exI conjI allI impI)
  let ?s = "worker_catch (\<lambda>q. 0) one_selected"
  have "source_call stale one_selected (Ret ?s)"
    by (rule dispatch_throws) (simp_all add: one_selected_eq source_new_def tqueue_new_def is_top_def top_when_def)
  with one_reach(2) show r: "source_reach stale ?s" by (rule reach_call)
  show "ts_worker ?s = Caught" by (simp add: worker_catch_def one_selected_eq source_new_def)
  fix t assume t: "(source_step stale)\<^sup>*\<^sup>* ?s t"
  have "lost 0 [(0, 7)] ?s" by (simp add: lost_def worker_catch_def one_selected_eq source_new_def)
  then have "lost 0 [(0, 7)] t" by (rule lost_steps [OF t])
  then show h: "tq_heap (ts_queue t 0) = [(0, 7)]" by (simp add: lost_def)
  have cnt: "0 < ts_count t" using \<open>lost 0 [(0, 7)] t\<close> by (simp add: lost_def)
  have "items_ok t" using sources.reachable_inv [OF reachable_steps [OF t r]] by (simp add: source_ok_def)
  from load_le_items [OF this cnt] show "ts_items t \<noteq> 0" using h by (simp add: load_def)
qed

theorem time_source_dispatch_loses_witness:
  "\<exists>s. source_reach None s \<and> ts_worker s = Caught \<and> ts_items s \<noteq> 0"
proof -
  obtain s where s: "source_reach None s" "ts_worker s = Caught"
      "\<forall>t. (source_step None)\<^sup>*\<^sup>* s t \<longrightarrow> tq_heap (ts_queue t 0) = [(0, 7)] \<and> ts_items t \<noteq> 0"
    using time_source_dispatch_loses [of None] by blast
  from s(3) have "ts_items s \<noteq> 0" by blast
  with s(1,2) show ?thesis by blast
qed

section \<open>The handler's loop over the pending queues\<close>

text \<open>
  Three queues: 0 holds an item that is due and one that is not, 1 an item that is not due, 2 one that
  is due. The first round selects 0 and 2; 0 is sent to its executor and runs its item; then the
  executor of 2 throws, and while the handler fails the item of 1, the receiver of 0 is done.
\<close>

definition three_items :: source where
  "three_items = ret_of (insert_item 2 (0, 5) (ret_of (insert_item 1 (2000, 9)
     (ret_of (insert_item 0 (1000, 8) (ret_of (insert_item 0 (0, 7) (source_new 3 0))))))))"

definition three_waiting :: source where
  "three_waiting = dispatch_queue 0 (worker_select [0, 1, 2] three_items)"

definition three_running :: source where
  "three_running = ret_of (tqueue_value False 0 0 0 0 three_waiting)"

definition three_valued :: source where
  "three_valued = item_finished 0 0 0 50 (0, 7) three_running"

definition three_throws :: source where
  "three_throws = worker_catch (\<lambda>q. 0) three_valued"

definition three_caught :: source where
  "three_caught = ret_of (tqueue_done None 0 0 three_throws)"

lemma three_items_eq: "three_items = (source_new 3 0)\<lparr>ts_queue := (\<lambda>q. tqueue_new)
    (0 := \<lparr>tq_dispatching = False, tq_pending = True, tq_heap = [(0, 7), (1000, 8)], tq_receivers = []\<rparr>,
     1 := \<lparr>tq_dispatching = False, tq_pending = True, tq_heap = [(2000, 9)], tq_receivers = []\<rparr>,
     2 := \<lparr>tq_dispatching = False, tq_pending = True, tq_heap = [(0, 5)], tq_receivers = []\<rparr>),
    ts_pending := [0, 1, 2], ts_dirty := 4, ts_items := 4\<rparr>"
  by (simp add: three_items_def one_defs fun_eq_iff)

lemma three_waiting_eq: "three_waiting = (source_new 3 0)\<lparr>ts_queue := (\<lambda>q. tqueue_new)
    (0 := \<lparr>tq_dispatching = True, tq_pending = False, tq_heap = [(0, 7), (1000, 8)], tq_receivers = [Waiting]\<rparr>,
     1 := \<lparr>tq_dispatching = False, tq_pending = True, tq_heap = [(2000, 9)], tq_receivers = []\<rparr>,
     2 := \<lparr>tq_dispatching = True, tq_pending = False, tq_heap = [(0, 5)], tq_receivers = []\<rparr>),
    ts_pending := [1], ts_ready := [2], ts_earliest := 2000, ts_items := 4, ts_worker := Dispatch\<rparr>"
  by (simp add: three_waiting_def three_items_eq one_defs fun_eq_iff)

lemma three_running_eq: "three_running = (source_new 3 0)\<lparr>ts_queue := (\<lambda>q. tqueue_new)
    (0 := \<lparr>tq_dispatching = True, tq_pending = False, tq_heap = [(1000, 8)], tq_receivers = [Running 50 (0, 7)]\<rparr>,
     1 := \<lparr>tq_dispatching = False, tq_pending = True, tq_heap = [(2000, 9)], tq_receivers = []\<rparr>,
     2 := \<lparr>tq_dispatching = True, tq_pending = False, tq_heap = [(0, 5)], tq_receivers = []\<rparr>),
    ts_pending := [1], ts_ready := [2], ts_earliest := 2000, ts_items := 4, ts_worker := Dispatch\<rparr>"
  by (simp add: three_running_def three_waiting_eq one_defs fun_eq_iff)

lemma three_valued_eq: "three_valued = (source_new 3 0)\<lparr>ts_queue := (\<lambda>q. tqueue_new)
    (0 := \<lparr>tq_dispatching = True, tq_pending = False, tq_heap = [(1000, 8)], tq_receivers = [Valued]\<rparr>,
     1 := \<lparr>tq_dispatching = False, tq_pending = True, tq_heap = [(2000, 9)], tq_receivers = []\<rparr>,
     2 := \<lparr>tq_dispatching = True, tq_pending = False, tq_heap = [(0, 5)], tq_receivers = []\<rparr>),
    ts_pending := [1], ts_ready := [2], ts_earliest := 2000, ts_items := 3, ts_worker := Dispatch, ts_log := [((0, 7), 0)]\<rparr>"
  by (simp add: three_valued_def three_running_eq one_defs fun_eq_iff)

lemma three_throws_eq: "three_throws = (source_new 3 0)\<lparr>ts_queue := (\<lambda>q. tqueue_new)
    (0 := \<lparr>tq_dispatching = True, tq_pending = False, tq_heap = [(1000, 8)], tq_receivers = [Valued]\<rparr>,
     1 := \<lparr>tq_dispatching = False, tq_pending = True, tq_heap = [], tq_receivers = []\<rparr>,
     2 := \<lparr>tq_dispatching = True, tq_pending = False, tq_heap = [(0, 5)], tq_receivers = []\<rparr>),
    ts_pending := [1], ts_ready := [2], ts_earliest := 2000, ts_items := 2, ts_error := True,
    ts_worker := Handling 1 1 [] (2000, 9), ts_log := [((0, 7), 0)]\<rparr>"
  by (simp add: three_throws_def three_valued_eq worker_catch_def one_defs fun_eq_iff)

lemma three_caught_eq: "three_caught = (source_new 3 0)\<lparr>ts_queue := (\<lambda>q. tqueue_new)
    (0 := \<lparr>tq_dispatching = False, tq_pending = True, tq_heap = [(1000, 8)], tq_receivers = []\<rparr>,
     1 := \<lparr>tq_dispatching = False, tq_pending = True, tq_heap = [], tq_receivers = []\<rparr>,
     2 := \<lparr>tq_dispatching = True, tq_pending = False, tq_heap = [(0, 5)], tq_receivers = []\<rparr>),
    ts_pending := [1, 0], ts_ready := [2], ts_earliest := 2000, ts_dirty := 1, ts_items := 2, ts_error := True,
    ts_worker := Handling 1 1 [] (2000, 9), ts_log := [((0, 7), 0)]\<rparr>"
  by (simp add: three_caught_def three_throws_eq tqueue_done_def drop_receiver_def one_defs fun_eq_iff)

lemma reach_insert:
  assumes "source_reach stale s" "q < ts_count s" "insert_item q it s = Ret t"
  shows "source_reach stale t"
  using reach_call [OF assms(1)] source_call.insert [OF assms(2), of stale it] assms(3) by simp

lemma three_items_reach: "source_reach None three_items"
proof -
  have 0: "source_reach None (source_new 3 0)" by (rule reach_init) blast
  let ?r = "\<lambda>q it s. ret_of (insert_item q it s)"
  have 1: "source_reach None (?r 0 (0, 7) (source_new 3 0))" (is "source_reach None ?a")
    by (rule reach_insert [OF 0, of 0 "(0, 7)"]) (simp_all add: one_defs)
  have 2: "source_reach None (?r 0 (1000, 8) ?a)" (is "source_reach None ?b")
    by (rule reach_insert [OF 1, of 0 "(1000, 8)"]) (simp_all add: one_defs)
  have 3: "source_reach None (?r 1 (2000, 9) ?b)" (is "source_reach None ?c")
    by (rule reach_insert [OF 2, of 1 "(2000, 9)"]) (simp_all add: one_defs)
  show ?thesis unfolding three_items_def
    by (rule reach_insert [OF 3, of 2 "(0, 5)"]) (simp_all add: one_defs)
qed

lemma three_reach: "source_reach None three_valued" "source_reach None three_caught"
proof -
  have "source_call None three_items (Ret (worker_select [0, 1, 2] three_items))"
    by (rule select) (simp_all add: three_items_eq source_new_def worker_goes_on_def worker_awake_def)
  then have 1: "source_reach None (worker_select [0, 1, 2] three_items)" by (rule reach_call [OF three_items_reach])
  have "source_call None (worker_select [0, 1, 2] three_items) (Ret three_waiting)"
    unfolding three_waiting_def by (rule dispatch [of _ _ "[2]"]) (simp_all add: three_items_eq one_defs)
  then have 2: "source_reach None three_waiting" by (rule reach_call [OF 1])
  have "source_call None three_waiting (tqueue_value False 0 0 0 0 three_waiting)"
    by (rule source_call.value_signal) (simp_all add: three_waiting_eq source_new_def is_top_def top_when_def)
  moreover have "tqueue_value False 0 0 0 0 three_waiting = Ret three_running"
    by (simp add: three_running_eq three_waiting_eq one_defs fun_eq_iff)
  ultimately have 3: "source_reach None three_running" using reach_call [OF 2] by metis
  have "source_call None three_running (Ret three_valued)"
    unfolding three_valued_def
    by (rule finished) (simp_all add: three_running_eq source_new_def is_top_def top_when_def)
  with 3 show 4: "source_reach None three_valued" by (rule reach_call)
  have "source_call None three_valued (Ret three_throws)"
    unfolding three_throws_def
    by (rule dispatch_throws) (simp_all add: three_valued_eq source_new_def tqueue_new_def is_top_def top_when_def)
  with 4 have 5: "source_reach None three_throws" by (rule reach_call)
  have "source_call None three_throws (tqueue_done None 0 0 three_throws)"
    by (rule done_signal) (simp add: three_throws_eq source_new_def)
  moreover have "tqueue_done None 0 0 three_throws = Ret three_caught"
    by (simp add: three_caught_eq three_throws_eq tqueue_done_def drop_receiver_def one_defs fun_eq_iff)
  ultimately show "source_reach None three_caught" using reach_call [OF 5] by metis
qed

text \<open>
  The handler of the worker goes through \<open>pending_\<close> with the lock released in between: a queue whose
  receiver is done meanwhile is appended, and the next step of the loop uses an invalid iterator.
\<close>
theorem time_source_handler_ub:
  "\<exists>s it. source_reach None s \<and> ts_worker s = Handling 1 1 [] it \<and> source_call None s UB"
proof (intro exI conjI)
  show "source_reach None three_caught" by (rule three_reach(2))
  show w: "ts_worker three_caught = Handling 1 1 [] (2000, 9)" by (simp add: three_caught_eq)
  have "source_call None three_caught (handler_resume 1 1 [] (\<lambda>q. 0) three_caught)"
    by (rule handled [OF w]) (simp add: three_caught_eq source_new_def tqueue_new_def is_top_def top_when_def)
  then show "source_call None three_caught UB" by (simp add: handler_resume_def three_caught_eq)
qed

end
