(* ===== verification/Submit.thy ===== *)
theory Submit
  imports On_Via
begin

text \<open>
  \<open>o/submit.h\<close>: \<open>submit\<close>, which builds the receiver from its arguments; \<open>get\<close>, which waits for one
  value; and \<open>blocking_submit\<close>, whose caller sleeps on a condition variable until the terminal signal
  and every nested task are through. The last one is a step relation: the caller and the threads
  that signal interleave at the grain of the operations on \<open>wait_state\<close>.
\<close>

section \<open>\<open>submit\<close>\<close>

text \<open>\<open>submit_fn::fn\<close>: a receiver made of the functions \<open>F\<close> (over the state they capture), then \<open>submit\<close>.\<close>

definition submit_fn ::
  "('d, 'v, 'e) rcv \<Rightarrow> ('c, 'd receiver_st, 'v, 'e, unit) sender \<Rightarrow> cat \<Rightarrow> ('c \<times> 'd) call" where
  "submit_fn F S k = (\<lambda>(c, d).
     map_outcome (\<lambda>(c', st). (c', rs_data st)) (S k (receiver_fn F) (c, receiver_new d)))"

lemma submit_fn_contract:
  assumes "sender_contract S k c sigs c'"
  shows "submit_fn F S k (c, d) = map_outcome (Pair c') (push_signals F sigs d)"
  using submit_wrapped_contract [OF assms, of F d]
  by (simp add: submit_fn_def submit_wrapped_def receiver_data_eq_fn)

section \<open>\<open>get\<close>\<close>

text \<open>
  The two options that the functions of the receiver write: the result, and the error to rethrow
  (an error that is not an \<open>exception_ptr\<close> is wrapped into one).
\<close>

type_synonym ('v, 'e) get_st = "'v option \<times> 'e error option"

definition get_on_value :: "'v \<Rightarrow> ('v, 'e) get_st call" where
  "get_on_value v = (\<lambda>(r, ep). Ret (Some v, ep))"

definition get_on_error :: "'e error \<Rightarrow> ('v, 'e) get_st call" where
  "get_on_error e = no_except (\<lambda>(r, ep). Ret (r, Some e))"

definition get_receiver :: "(('v, 'e) get_st, 'v, 'e) rcv" where
  "get_receiver = \<lparr>r_value = get_on_value, r_error = get_on_error, r_done = ignoreDF\<rparr>"

text \<open>What \<open>get\<close> does once the submit has come back: the value, the exception, or undefined.\<close>

datatype ('v, 'e) got = Got 'v | Rethrown "'e error" | Undefined

fun get_finish :: "('v, 'e) get_st \<Rightarrow> ('v, 'e) got" where
  "get_finish (r, Some (Eptr Null)) = Undefined"
| "get_finish (r, Some e) = Rethrown e"
| "get_finish (Some v, None) = Got v"
| "get_finish (None, None) = Undefined"

text \<open>With a sender that is \<open>AlwaysBlocking\<close>, \<open>get\<close> uses \<open>submit\<close>.\<close>

definition get_at_once :: "('c, ('v, 'e) get_st receiver_st, 'v, 'e, unit) sender \<Rightarrow> 'c \<Rightarrow> ('v, 'e) got outcome" where
  "get_at_once S c = map_outcome (\<lambda>(c', st). get_finish st) (submit_fn get_receiver S RValue (c, (None, None)))"

text \<open>What it should do, on the signals of the sender.\<close>

fun first_error :: "('v, 'e) signal list \<Rightarrow> 'e error option" where
  "first_error [] = None"
| "first_error (Value v # sigs) = first_error sigs"
| "first_error (Error e # sigs) = Some e"
| "first_error (Done # sigs) = None"

fun signal_values :: "('v, 'e) signal list \<Rightarrow> 'v list" where
  "signal_values [] = []"
| "signal_values (Value v # sigs) = v # signal_values sigs"
| "signal_values (Error e # sigs) = []"
| "signal_values (Done # sigs) = []"

fun last_of :: "'v option \<Rightarrow> 'v list \<Rightarrow> 'v option" where
  "last_of r [] = r"
| "last_of r (v # vs) = last_of (Some v) vs"

lemma get_push:
  "push_signals get_receiver sigs (r, None) = Ret (last_of r (signal_values sigs), first_error sigs)"
proof (induction sigs arbitrary: r)
  case (Cons sig sigs)
  then show ?case
    by (cases sig) (simp_all add: get_receiver_def get_on_value_def get_on_error_def ignoreDF_def no_except_def)
qed simp

lemma get_finish_error: "e \<noteq> Eptr Null \<Longrightarrow> get_finish (r, Some e) = Rethrown e"
  by (cases "(r, Some e)" rule: get_finish.cases) auto

lemma last_of_last: "last_of r vs = (if vs = [] then r else Some (last vs))"
  by (induction r vs rule: last_of.induct) auto

definition expected_got :: "('v, 'e) signal list \<Rightarrow> ('v, 'e) got" where
  "expected_got sigs = (case first_error sigs of
      Some e \<Rightarrow> if e = Eptr Null then Undefined else Rethrown e
    | None \<Rightarrow> if signal_values sigs = [] then Undefined else Got (last (signal_values sigs)))"

lemma get_finish_expected: "get_finish (last_of None (signal_values sigs), first_error sigs) = expected_got sigs"
  by (cases "first_error sigs" rule: option.exhaust; cases "signal_values sigs")
     (auto simp: expected_got_def last_of_last get_finish_error)

lemma get_contract:
  assumes "sender_contract S RValue c sigs c'"
  shows "get_at_once S c = Ret (expected_got sigs)"
  by (simp add: get_at_once_def get_push submit_fn_contract [OF assms] get_finish_expected)

section \<open>\<open>blocking_submit\<close>: the handlers\<close>

text \<open>
  The functions of the outer receiver take \<open>Out out\<close> by value: each signal goes to a copy of the
  inner receiver. The state of the inner receiver is split into what the object owns, which a copy
  duplicates, and what it refers to.
\<close>

definition on_copy :: "('o \<times> 'x) call \<Rightarrow> ('o \<times> 'x) call" where
  "on_copy f = (\<lambda>(o1, x). map_outcome (\<lambda>(o2, x'). (o1, x')) (f (o1, x)))"

text \<open>\<open>wait_state\<close>: \<open>done\<close> and \<open>nested\<close>. The notifications are in the step relation below.\<close>

record wait_state =
  ls_done :: bool
  ls_nested :: int

definition blocking_value ::
  "('o \<times> 'x, 'v, 'e, 'y) rcv_scheme \<Rightarrow> 'v \<Rightarrow> ('o \<times> 'x \<times> wait_state) call" where
  "blocking_value R v = (\<lambda>(o1, x, st).
     map_outcome (\<lambda>(o2, x'). (o2, x', st)) (on_copy (set_value R v) (o1, x)))"

definition blocking_error ::
  "('o \<times> 'x, 'v, 'e, 'y) rcv_scheme \<Rightarrow> 'e error \<Rightarrow> ('o \<times> 'x \<times> wait_state) call" where
  "blocking_error R e = no_except (\<lambda>(o1, x, st).
     map_outcome (\<lambda>(o2, x'). (o2, x', st\<lparr>ls_done := True\<rparr>)) (on_copy (set_error R e) (o1, x)))"

definition blocking_done ::
  "('o \<times> 'x, 'v, 'e, 'y) rcv_scheme \<Rightarrow> ('o \<times> 'x \<times> wait_state) call" where
  "blocking_done R = (\<lambda>(o1, x, st).
     map_outcome (\<lambda>(o2, x'). (o2, x', st\<lparr>ls_done := True\<rparr>)) (on_copy (set_done R) (o1, x)))"

definition blocking_receiver ::
  "('o \<times> 'x, 'v, 'e, 'y) rcv_scheme \<Rightarrow> (('o \<times> 'x \<times> wait_state) receiver_st, 'v, 'e) rcv" where
  "blocking_receiver R = receiver_data
     \<lparr>r_value = blocking_value R, r_error = blocking_error R, r_done = blocking_done R\<rparr>"

text \<open>The value of an executor: the nested count is raised around the delivery.\<close>

definition blocking_executor_value ::
  "('o \<times> 'x, 'v, 'e, 'y) rcv_scheme \<Rightarrow> 'v \<Rightarrow> ('o \<times> 'x \<times> wait_state) call" where
  "blocking_executor_value R ex = (\<lambda>(o1, x, st).
     map_outcome (\<lambda>(o2, x'). (o2, x', st\<lparr>ls_nested := ls_nested st + 1 - 1\<rparr>)) (on_copy (set_value R ex) (o1, x)))"

section \<open>\<open>blocking_submit\<close>: waiting\<close>

text \<open>
  The caller: holding the lock and about to test the predicate; holding the lock after a failed
  test, about to sleep; asleep; woken, about to take the lock; returned. \<open>bl_tasks\<close> counts
  the nested tasks under way, \<open>bl_quiet\<close> and \<open>bl_loud\<close> the threads that have brought \<open>nested\<close> to zero and are about to notify, without and with
  the lock.
\<close>

datatype waiter = Testing | Sleepy | Asleep | Woken | Returned

record blocking =
  bl_state :: wait_state
  bl_waiter :: waiter
  bl_tasks :: nat
  bl_quiet :: nat
  bl_loud :: nat

definition blocking_new :: blocking where
  "blocking_new = \<lparr>bl_state = \<lparr>ls_done = False, ls_nested = 0\<rparr>, bl_waiter = Testing, bl_tasks = 0, bl_quiet = 0, bl_loud = 0\<rparr>"

definition finished_pred :: "wait_state \<Rightarrow> bool" where
  "finished_pred st \<longleftrightarrow> ls_done st \<and> ls_nested st = 0"

definition lock_free :: "blocking \<Rightarrow> bool" where
  "lock_free b \<longleftrightarrow> bl_waiter b \<noteq> Testing \<and> bl_waiter b \<noteq> Sleepy"

definition notify_all :: "blocking \<Rightarrow> blocking" where
  "notify_all b = (if bl_waiter b = Asleep then b\<lparr>bl_waiter := Woken\<rparr> else b)"

text \<open>\<open>++nested\<close> and \<open>--nested == 0\<close>; the terminal signal.\<close>

definition nested_begin :: "blocking \<Rightarrow> blocking" where
  "nested_begin b = b\<lparr>bl_state := (bl_state b)\<lparr>ls_nested := ls_nested (bl_state b) + 1\<rparr>\<rparr>"

definition nested_end :: "bool \<Rightarrow> blocking \<Rightarrow> blocking" where
  "nested_end quiet b =
     (let b = b\<lparr>bl_state := (bl_state b)\<lparr>ls_nested := ls_nested (bl_state b) - 1\<rparr>\<rparr> in
      if ls_nested (bl_state b) = 0
      then (if quiet then b\<lparr>bl_quiet := Suc (bl_quiet b)\<rparr> else b\<lparr>bl_loud := Suc (bl_loud b)\<rparr>)
      else b)"

definition terminal_signal :: "blocking \<Rightarrow> blocking" where
  "terminal_signal b = notify_all (b\<lparr>bl_state := (bl_state b)\<lparr>ls_done := True\<rparr>\<rparr>)"

text \<open>
  The steps. With \<open>nested\<close> tasks may run on the executor that was delivered (\<open>nested_receiver_impl\<close>
  notifies without the lock); without, only \<open>on_value_impl\<close> raises and lowers the count.
\<close>

inductive blocking_step :: "bool \<Rightarrow> blocking \<Rightarrow> blocking \<Rightarrow> bool" for nested :: bool where
  test_true: "bl_waiter b = Testing \<Longrightarrow> finished_pred (bl_state b) \<Longrightarrow> blocking_step nested b (b\<lparr>bl_waiter := Returned\<rparr>)"
| test_false: "bl_waiter b = Testing \<Longrightarrow> \<not> finished_pred (bl_state b) \<Longrightarrow> blocking_step nested b (b\<lparr>bl_waiter := Sleepy\<rparr>)"
| sleep: "bl_waiter b = Sleepy \<Longrightarrow> blocking_step nested b (b\<lparr>bl_waiter := Asleep\<rparr>)"
| relock: "bl_waiter b = Woken \<Longrightarrow> blocking_step nested b (b\<lparr>bl_waiter := Testing\<rparr>)"
| value_begin: "\<not> ls_done (bl_state b) \<Longrightarrow> blocking_step nested b (nested_begin b)"
| value_end: "int (bl_tasks b) < ls_nested (bl_state b) \<Longrightarrow> blocking_step nested b (nested_end False b)"
| task_begin: "nested \<Longrightarrow> 0 < ls_nested (bl_state b) \<Longrightarrow>
    blocking_step nested b (nested_begin (b\<lparr>bl_tasks := Suc (bl_tasks b)\<rparr>))"
| task_end: "nested \<Longrightarrow> bl_tasks b = Suc n \<Longrightarrow> blocking_step nested b (nested_end True (b\<lparr>bl_tasks := n\<rparr>))"
| terminal: "\<not> ls_done (bl_state b) \<Longrightarrow> lock_free b \<Longrightarrow> blocking_step nested b (terminal_signal b)"
| notify_quiet: "bl_quiet b = Suc n \<Longrightarrow> blocking_step nested b (notify_all (b\<lparr>bl_quiet := n\<rparr>))"
| notify_loud: "bl_loud b = Suc n \<Longrightarrow> lock_free b \<Longrightarrow> blocking_step nested b (notify_all (b\<lparr>bl_loud := n\<rparr>))"

inductive_cases blocking_stepE: "blocking_step nested b c"

abbreviation blocking_reach :: "bool \<Rightarrow> blocking \<Rightarrow> bool" where
  "blocking_reach nested \<equiv> reachable (\<lambda>b. b = blocking_new) (blocking_step nested)"

text \<open>A caller that sleeps, or is about to, after the end has a notification coming.\<close>

definition woken_up :: "blocking \<Rightarrow> bool" where
  "woken_up b \<longleftrightarrow> bl_quiet b = 0 \<and> 0 \<le> ls_nested (bl_state b) \<and>
     (bl_waiter b \<in> {Sleepy, Asleep} \<and> finished_pred (bl_state b) \<longrightarrow> 0 < bl_loud b) \<and>
     (bl_waiter b = Returned \<longrightarrow> ls_done (bl_state b))"

lemma woken_up_step: "woken_up b \<Longrightarrow> blocking_step False b c \<Longrightarrow> woken_up c"
  by (erule blocking_stepE)
     (auto simp: woken_up_def finished_pred_def nested_begin_def nested_end_def terminal_signal_def notify_all_def
       lock_free_def Let_def)

interpretation waking: invariant_of "\<lambda>b. b = blocking_new" "blocking_step False" woken_up
proof unfold_locales
  fix b :: blocking
  show "b = blocking_new \<Longrightarrow> woken_up b" by (simp add: woken_up_def blocking_new_def)
  fix c :: blocking
  show "woken_up b \<Longrightarrow> blocking_step False b c \<Longrightarrow> woken_up c" by (rule woken_up_step)
qed

section \<open>\<open>get\<close> with a sender that may not block\<close>

text \<open>
  The receiver that \<open>get\<close> makes, with its own \<open>done_\<close> flag beside the options that its functions point to: each signal
  goes to a copy of it.
\<close>

definition get_out :: "(bool \<times> ('v, 'e) get_st, 'v, 'e) rcv" where
  "get_out =
     (let split = (\<lambda>f (d, x). map_outcome (\<lambda>st. (rs_done st, rs_data st)) (f \<lparr>rs_done = d, rs_data = x\<rparr>));
          F = receiver_fn get_receiver
      in \<lparr>r_value = (\<lambda>v. split (r_value F v)), r_error = (\<lambda>e. split (r_error F e)), r_done = split (r_done F)\<rparr>)"

text \<open>
  \<open>blocking_submit\<close> of that receiver, for values that are no executors: \<open>submit\<close>, then the signals \<open>later\<close> that other
  threads send while the caller waits. None: the caller waits for ever.
\<close>

definition get_awaited ::
  "('c, (bool \<times> ('v, 'e) get_st \<times> wait_state) receiver_st, 'v, 'e, unit) sender \<Rightarrow> ('v, 'e) signal list \<Rightarrow> 'c \<Rightarrow>
   ('v, 'e) got outcome option" where
  "get_awaited S later c =
     (let result = (\<lambda>st. get_finish (fst (snd (rs_data st)))) in
      case S RValue (blocking_receiver get_out) (c, receiver_new (False, (None, None), \<lparr>ls_done = False, ls_nested = 0\<rparr>)) of
        Ret (c', st) \<Rightarrow>
          (case deliver_all (blocking_receiver get_out) later st of
             Ret st' \<Rightarrow> if finished_pred (snd (snd (rs_data st'))) then Some (Ret (result st')) else None
           | Thr n st' \<Rightarrow> Some Term | Term \<Rightarrow> Some Term | UB \<Rightarrow> Some UB)
      | Thr n (c', st) \<Rightarrow> Some (Thr n (result st)) | Term \<Rightarrow> Some Term | UB \<Rightarrow> Some UB)"

text \<open>
  The choice (\<open>conditional_t<AlwaysBlocking<In>, ...>\<close>). \<open>S\<close> and \<open>S'\<close> are the sender with the one and with the other
  receiver.
\<close>

definition get ::
  "bool \<Rightarrow> ('c, ('v, 'e) get_st receiver_st, 'v, 'e, unit) sender \<Rightarrow>
   ('c, (bool \<times> ('v, 'e) get_st \<times> wait_state) receiver_st, 'v, 'e, unit) sender \<Rightarrow> ('v, 'e) signal list \<Rightarrow> 'c \<Rightarrow>
   ('v, 'e) got outcome option" where
  "get always_blocking S S' later c = (if always_blocking then Some (get_at_once S c) else get_awaited S' later c)"

lemma blocking_nothrow: "nothrow_error (blocking_receiver R)"
  by (simp add: blocking_receiver_def rdata.receiver_nothrow)

lemma get_awaited_deliver:
  "deliver (blocking_receiver get_out) sig \<lparr>rs_done = False, rs_data = (False, (r, None), \<lparr>ls_done = False, ls_nested = 0\<rparr>)\<rparr> =
   Ret \<lparr>rs_done = is_terminal sig, rs_data = (False, (last_of r (signal_values [sig]), first_error [sig]), \<lparr>ls_done = is_terminal sig, ls_nested = 0\<rparr>)\<rparr>"
  by (cases sig)
     (simp_all add: run_signals blocking_receiver_def receiver_data_defs blocking_value_def blocking_error_def blocking_done_def
       on_copy_def get_out_def receiver_fn_defs on_member_def get_receiver_def get_on_value_def get_on_error_def ignoreDF_def Let_def)

lemma get_awaited_push:
  "deliver_all (blocking_receiver get_out) sigs \<lparr>rs_done = False, rs_data = (False, (r, None), \<lparr>ls_done = False, ls_nested = 0\<rparr>)\<rparr> =
   (let t = \<exists>sig \<in> set sigs. is_terminal sig in
    Ret \<lparr>rs_done = t, rs_data = (False, (last_of r (signal_values sigs), first_error sigs), \<lparr>ls_done = t, ls_nested = 0\<rparr>)\<rparr>)"
proof (induction sigs arbitrary: r)
  case (Cons sig sigs)
  have closed: "deliver_all (blocking_receiver get_out) sigs st = Ret st" if "rs_done st" for st
    unfolding blocking_receiver_def by (rule rdata.closed_deliver_all) (rule that)
  show ?case
    using Cons.IH closed get_awaited_deliver [of sig r] by (cases sig) (simp_all add: and_then_def)
qed simp

lemma get_awaited_contract:
  assumes "sender_contract S RValue c sigs c'"
  shows "get_awaited S later c =
    (if \<exists>sig \<in> set (sigs @ later). is_terminal sig then Some (Ret (expected_got (sigs @ later))) else None)"
proof -
  let ?R = "blocking_receiver get_out" and ?st = "receiver_new (False, (None, None), \<lparr>ls_done = False, ls_nested = 0\<rparr>)"
  let ?t = "\<lambda>sigs :: ('a, 'b) signal list. \<exists>sig \<in> set sigs. is_terminal sig"
  let ?fin = "\<lambda>sigs. \<lparr>rs_done = ?t sigs, rs_data = (False, (last_of None (signal_values sigs), first_error sigs), \<lparr>ls_done = ?t sigs, ls_nested = 0\<rparr>)\<rparr>"
  have "deliver_all ?R (sigs @ later) ?st = Ret (?fin (sigs @ later))" "deliver_all ?R sigs ?st = Ret (?fin sigs)"
    by (simp_all add: receiver_new_def get_awaited_push Let_def)
  moreover have "S RValue ?R (c, ?st) = map_outcome (Pair c') (deliver_all ?R sigs ?st)"
    by (rule sender_contract.sends [OF assms blocking_nothrow])
  moreover have "deliver_all ?R (sigs @ later) ?st = and_then (deliver_all ?R sigs) (deliver_all ?R later) ?st"
    by (simp add: deliver_all_append)
  ultimately show ?thesis
    by (simp add: get_awaited_def finished_pred_def and_then_def get_finish_expected)
qed

section \<open>Properties\<close>

text \<open>
  C29: \<open>get\<close> on the signals of a sender: with a sender that is always blocking, it returns when \<open>submit\<close> does; with any other
  one it waits, also for signals that come later from other threads, and never returns when no terminal signal comes.
  When it returns, the first error before done is rethrown, otherwise the last
  value before the terminal signal is returned; a sender that completes without a value, or sends a
  null \<open>exception_ptr\<close>, makes it read an empty option or rethrow a null pointer, which is undefined.
\<close>
theorem get_signals:
  assumes "\<And>R r. nothrow_error R \<Longrightarrow> S RValue R (c, r) = map_outcome (Pair c') (deliver_all R sigs r)"
    and "\<And>R r. nothrow_error R \<Longrightarrow> S' RValue R (c, r) = map_outcome (Pair c') (deliver_all R sigs r)"
  shows "get True S S' later c = Some (Ret (expected_got sigs)) \<and>
    get False S S' later c =
      (if \<exists>sig \<in> set (sigs @ later). is_terminal sig then Some (Ret (expected_got (sigs @ later))) else None)"
proof -
  have "sender_contract S RValue c sigs c'" "sender_contract S' RValue c sigs c'"
    by unfold_locales (rule assms; assumption)+
  then show ?thesis by (simp add: get_def get_contract get_awaited_contract)
qed

theorem get_signals_witness:
  "get True (just (\<lambda>v. v)) (just (\<lambda>v. v)) [] (42 :: nat) = Some (Ret (Got 42 :: (nat, nat) got)) \<and>
   get False (just (\<lambda>v. v)) (just (\<lambda>v. v)) [Value 7] (42 :: nat) = Some (Ret (Got 42 :: (nat, nat) got))"
proof -
  let ?s = "[Value 42, Done] :: (nat, nat) signal list"
  have "get True (just (\<lambda>v. v)) (just (\<lambda>v. v)) [] (42 :: nat) = Some (Ret (expected_got ?s)) \<and>
    get False (just (\<lambda>v. v)) (just (\<lambda>v. v)) [] (42 :: nat) =
      (if \<exists>sig \<in> set (?s @ []). is_terminal sig then Some (Ret (expected_got (?s @ []))) else None)"
    by (rule get_signals) (rule just_s.sends; assumption)+
  moreover have "get True (just (\<lambda>v. v)) (just (\<lambda>v. v)) [Value 7] (42 :: nat) = Some (Ret (expected_got ?s)) \<and>
    get False (just (\<lambda>v. v)) (just (\<lambda>v. v)) [Value 7] (42 :: nat) =
      (if \<exists>sig \<in> set (?s @ [Value 7]). is_terminal sig then Some (Ret (expected_got (?s @ [Value 7]))) else None)"
    by (rule get_signals) (rule just_s.sends; assumption)+
  ultimately show ?thesis by (simp add: expected_got_def)
qed

theorem get_empty_undefined: "get True empty_sender empty_sender [] () = Some (Ret (Undefined :: (nat, nat) got))"
  by (simp add: get_def get_contract [OF empty_s.sender_contract_axioms] expected_got_def)

text \<open>
  C30: Without nested tasks \<open>blocking_submit\<close> never misses the end: from every reachable state in which
  the terminal signal has come and the count is zero, the caller can go on to return, and while it
  sleeps a notification is on its way.
\<close>
theorem blocking_returns:
  assumes "blocking_reach False b" "ls_done (bl_state b)" "ls_nested (bl_state b) = 0"
  shows "\<exists>c. (blocking_step False)\<^sup>*\<^sup>* b c \<and> bl_waiter c = Returned"
proof -
  have fin: "finished_pred (bl_state b)" using assms by (simp add: finished_pred_def)
  have testing: "(blocking_step False)\<^sup>*\<^sup>* c (c\<lparr>bl_waiter := Returned\<rparr>)"
    if "bl_waiter c = Testing" "bl_state c = bl_state b" for c
    using test_true [of c False] that fin by (simp add: r_into_rtranclp)
  have woken: "\<exists>d. (blocking_step False)\<^sup>*\<^sup>* c d \<and> bl_waiter d = Returned"
    if "bl_waiter c = Woken" "bl_state c = bl_state b" for c
    using relock [of c False] that testing [of "c\<lparr>bl_waiter := Testing\<rparr>"]
    by (intro exI [of _ "c\<lparr>bl_waiter := Returned\<rparr>"]) (auto intro: converse_rtranclp_into_rtranclp)
  have asleep: "\<exists>d. (blocking_step False)\<^sup>*\<^sup>* c d \<and> bl_waiter d = Returned"
    if c: "bl_waiter c = Asleep" "bl_state c = bl_state b" "0 < bl_loud c" for c
  proof -
    obtain n where n: "bl_loud c = Suc n" using c(3) by (cases "bl_loud c") auto
    have "blocking_step False c (notify_all (c\<lparr>bl_loud := n\<rparr>))"
      using n c by (intro notify_loud) (auto simp: lock_free_def)
    moreover have "bl_waiter (notify_all (c\<lparr>bl_loud := n\<rparr>)) = Woken" "bl_state (notify_all (c\<lparr>bl_loud := n\<rparr>)) = bl_state b"
      using c by (simp_all add: notify_all_def)
    ultimately show ?thesis using woken by (meson converse_rtranclp_into_rtranclp)
  qed
  have w: "woken_up b" by (rule waking.reachable_inv [OF assms(1)])
  show ?thesis
  proof (cases "bl_waiter b")
    case Testing
    then show ?thesis using testing [of b] by (metis blocking.select_convs(2) blocking.surjective blocking.update_convs(2))
  next
    case Sleepy
    then have "blocking_step False b (b\<lparr>bl_waiter := Asleep\<rparr>)" by (rule sleep)
    moreover have "0 < bl_loud b" using w Sleepy fin by (simp add: woken_up_def)
    ultimately show ?thesis using asleep [of "b\<lparr>bl_waiter := Asleep\<rparr>"] by (auto intro: converse_rtranclp_into_rtranclp)
  next
    case Asleep
    then show ?thesis using asleep [of b] w fin by (simp add: woken_up_def)
  next
    case Woken
    then show ?thesis using woken [of b] by simp
  qed auto
qed

lemma blocking_reach_new: "blocking_reach nested blocking_new"
  by (simp add: reach_init)

lemmas run_blocking = blocking_new_def finished_pred_def lock_free_def notify_all_def nested_begin_def nested_end_def
  terminal_signal_def Let_def

theorem blocking_returns_witness:
  "\<exists>c. (blocking_step False)\<^sup>*\<^sup>* (terminal_signal (blocking_new\<lparr>bl_waiter := Asleep\<rparr>)) c \<and> bl_waiter c = Returned"
proof (rule blocking_returns)
  have 1: "blocking_reach False (blocking_new\<lparr>bl_waiter := Sleepy\<rparr>)"
    by (rule reach_step [OF blocking_reach_new test_false]) (simp_all add: run_blocking)
  have 2: "blocking_reach False (blocking_new\<lparr>bl_waiter := Asleep\<rparr>)"
    using reach_step [OF 1 sleep] by simp
  show "blocking_reach False (terminal_signal (blocking_new\<lparr>bl_waiter := Asleep\<rparr>))"
    by (rule reach_step [OF 2 terminal]) (simp_all add: run_blocking)
qed (simp_all add: run_blocking)

text \<open>
  C35: A nested task can make \<open>blocking_submit\<close> hang: its receiver notifies without taking the lock,
  so when it finishes between the caller's test and the caller's sleep the notification is lost;
  the end has come, the count is zero, and nothing can ever wake the caller.
\<close>
theorem blocking_lost_wakeup:
  "\<exists>b. blocking_reach True b \<and> ls_done (bl_state b) \<and> ls_nested (bl_state b) = 0 \<and> bl_waiter b = Asleep \<and>
     (\<forall>c. \<not> blocking_step True b c)"
proof -
  let ?st = "\<lambda>d n w k q. \<lparr>bl_state = \<lparr>ls_done = d, ls_nested = n\<rparr>, bl_waiter = w, bl_tasks = k, bl_quiet = q, bl_loud = 0\<rparr>"
  let ?b = "?st True 0 Asleep 0 0"
  have step: "blocking_reach True c \<Longrightarrow> blocking_step True c d \<Longrightarrow> blocking_reach True d" for c d by (rule reach_step)
  have 0: "blocking_reach True (?st False 0 Testing 0 0)" using blocking_reach_new [of True] by (simp add: blocking_new_def)
  have 1: "blocking_reach True (?st False 1 Testing 0 0)"
    using step [OF 0 value_begin] by (simp add: run_blocking)
  have "blocking_reach True (?st False 2 Testing 1 0)"
    using step [OF 1 task_begin] by (simp add: run_blocking)
  from step [OF this value_end] have 1: "blocking_reach True (?st False 1 Testing 1 0)"
    by (simp add: run_blocking)
  have 2: "blocking_reach True (?st False 1 Sleepy 1 0)"
    using step [OF 1 test_false] by (simp add: run_blocking)
  have 3: "blocking_reach True (?st False 1 Asleep 1 0)"
    using step [OF 2 sleep] by (simp add: run_blocking)
  have 4: "blocking_reach True (?st True 1 Woken 1 0)"
    using step [OF 3 terminal] by (simp add: run_blocking)
  have 5: "blocking_reach True (?st True 1 Testing 1 0)"
    using step [OF 4 relock] by (simp add: run_blocking)
  have 6: "blocking_reach True (?st True 1 Sleepy 1 0)"
    using step [OF 5 test_false] by (simp add: run_blocking)
  have 7: "blocking_reach True (?st True 0 Sleepy 0 1)"
    using step [OF 6 task_end] by (simp add: run_blocking)
  have 8: "blocking_reach True (?st True 0 Sleepy 0 0)"
    using step [OF 7 notify_quiet] by (simp add: run_blocking)
  have "blocking_reach True ?b"
    using step [OF 8 sleep] by simp
  moreover have "\<not> blocking_step True ?b c" for c
    by (auto elim!: blocking_stepE)
  ultimately show ?thesis by (intro exI [of _ ?b]) simp
qed

end
