(* ===== verification/Flow_From.thy ===== *)
theory Flow_From
  imports Operators
begin

text \<open>
  \<open>flow_from\<close> (\<open>o/from.h\<close>) and \<open>for_each\<close> (\<open>o/for_each.h\<close>): a range that is sent on request, and the
  receiver \<open>Pull\<close> that requests one more value after each value. Sending a value and requesting
  the next one call each other through the executor, which may run a submitted task at once, in
  the middle of the value that requested it, or later: \<open>policy\<close> says which, for each submission.
  The producer is written for any receiver of its range, as the class template is; the receivers are
  \<open>Pull\<close> itself, and \<open>Pull\<close> behind an operator such as \<open>transform\<close> or \<open>filter\<close>. The interface
  \<open>flow_consumer\<close> says what the producer needs of either.
\<close>

section \<open>State\<close>

datatype flow_task = Start | Request int | Finish

text \<open>
  \<open>flow_from_producer\<close> (what is left of the range, \<open>stop\<close>), the flags of the \<open>flow_receiver\<close> that
  wraps \<open>Pull\<close>, whether \<open>Pull::pull\<close> is set, the receiver that \<open>for_each\<close> was given, the tasks the
  executor holds, and the number of submissions so far.
\<close>

record ('s, 'v) flow_from =
  ff_left :: "'v list"
  ff_stop :: bool
  ff_started :: bool
  ff_done :: bool
  ff_pull :: bool
  ff_out :: 's
  ff_tasks :: "flow_task list"
  ff_submits :: nat

definition flow_from_new :: "'v list \<Rightarrow> 's \<Rightarrow> ('s, 'v) flow_from" where
  "flow_from_new xs s = \<lparr>ff_left = xs, ff_stop = False, ff_started = False, ff_done = False, ff_pull = False,
     ff_out = s, ff_tasks = [], ff_submits = 0\<rparr>"

text \<open>
  A result: None when the fuel is used up. The recursive calls, of a task or of the executor's loop,
  are an argument, and \<open>flow_interp\<close> ties the knot.
\<close>

datatype flow_code = Task flow_task | Drain

type_synonym 'st flow_caller = "flow_code \<Rightarrow> 'st \<Rightarrow> 'st outcome option"

section \<open>\<open>flow_from_up\<close>\<close>

definition flow_submit ::
  "(nat \<Rightarrow> bool) \<Rightarrow> ('s, 'v, 'z) flow_from_scheme flow_caller \<Rightarrow> flow_task \<Rightarrow> ('s, 'v, 'z) flow_from_scheme \<Rightarrow>
   ('s, 'v, 'z) flow_from_scheme outcome option" where
  "flow_submit policy call t st =
     (let st' = st\<lparr>ff_submits := Suc (ff_submits st)\<rparr> in
      if policy (ff_submits st) then call (Task t) st'
      else Some (Ret (st'\<lparr>ff_tasks := ff_tasks st' @ [t]\<rparr>)))"

definition up_value ::
  "(nat \<Rightarrow> bool) \<Rightarrow> ('s, 'v, 'z) flow_from_scheme flow_caller \<Rightarrow> int \<Rightarrow> ('s, 'v, 'z) flow_from_scheme \<Rightarrow>
   ('s, 'v, 'z) flow_from_scheme outcome option" where
  "up_value policy call requested st =
     (if requested < 1 then Some (Ret st) else flow_submit policy call (Request requested) st)"

definition up_error ::
  "(nat \<Rightarrow> bool) \<Rightarrow> ('s, 'v, 'z) flow_from_scheme flow_caller \<Rightarrow> ('s, 'v, 'z) flow_from_scheme \<Rightarrow>
   ('s, 'v, 'z) flow_from_scheme outcome option" where
  "up_error policy call st = flow_submit policy call Finish (st\<lparr>ff_stop := True\<rparr>)"

definition up_done ::
  "(nat \<Rightarrow> bool) \<Rightarrow> ('s, 'v, 'z) flow_from_scheme flow_caller \<Rightarrow> ('s, 'v, 'z) flow_from_scheme \<Rightarrow>
   ('s, 'v, 'z) flow_from_scheme outcome option" where
  "up_done policy call st = flow_submit policy call Finish (st\<lparr>ff_stop := True\<rparr>)"

section \<open>\<open>Pull\<close>, inside its \<open>flow_receiver\<close>\<close>

definition pull_error ::
  "('s, 'w, 'e) rcv \<Rightarrow> 'e error \<Rightarrow> ('s, 'v, 'z) flow_from_scheme \<Rightarrow> ('s, 'v, 'z) flow_from_scheme outcome option" where
  "pull_error R e st =
     Some (if \<not> ff_started st then Term
           else if ff_done st then Ret st
           else map_outcome (\<lambda>s. st\<lparr>ff_done := True, ff_pull := False, ff_out := s\<rparr>)
                  (no_except (set_error R e) (ff_out st)))"

definition pull_done ::
  "('s, 'w, 'e) rcv \<Rightarrow> ('s, 'v, 'z) flow_from_scheme \<Rightarrow> ('s, 'v, 'z) flow_from_scheme outcome option" where
  "pull_done R st =
     Some (if \<not> ff_started st then Term
           else if ff_done st then Ret st
           else map_outcome (\<lambda>s. st\<lparr>ff_done := True, ff_pull := False, ff_out := s\<rparr>) (set_done R (ff_out st)))"

text \<open>
  \<open>pull(1)\<close>: an empty \<open>std::function\<close> throws, which the customization point that called \<open>Pull\<close> turns into an
  error of \<open>Pull\<close> itself, past the flags of its \<open>flow_receiver\<close>.
\<close>

definition bad_function_call :: nat where
  "bad_function_call = 2"

definition call_pull ::
  "(nat \<Rightarrow> bool) \<Rightarrow> ('s, 'v, 'z) flow_from_scheme flow_caller \<Rightarrow> ('s, 'w, 'e) rcv \<Rightarrow> ('s, 'v, 'z) flow_from_scheme \<Rightarrow>
   ('s, 'v, 'z) flow_from_scheme outcome option" where
  "call_pull policy call R st =
     (if ff_pull st then up_value policy call 1 st
      else Some (map_outcome (\<lambda>s. st\<lparr>ff_pull := False, ff_out := s\<rparr>)
             (no_except (set_error R (Eptr (Exn bad_function_call))) (ff_out st))))"

definition pull_value ::
  "(nat \<Rightarrow> bool) \<Rightarrow> ('s, 'v, 'z) flow_from_scheme flow_caller \<Rightarrow> ('s, 'w, 'e) rcv \<Rightarrow> 'w \<Rightarrow> ('s, 'v, 'z) flow_from_scheme \<Rightarrow>
   ('s, 'v, 'z) flow_from_scheme outcome option" where
  "pull_value policy call R v st =
     (if \<not> ff_started st then Some Term
      else if ff_done st then Some (Ret st)
      else case set_value R v (ff_out st) of
          Ret s \<Rightarrow> call_pull policy call R (st\<lparr>ff_out := s\<rparr>)
        | Thr n s \<Rightarrow> Some UB | Term \<Rightarrow> Some Term | UB \<Rightarrow> Some UB)"

definition pull_starting ::
  "(nat \<Rightarrow> bool) \<Rightarrow> ('s, 'v, 'z) flow_from_scheme flow_caller \<Rightarrow> ('s, 'w, 'e) rcv \<Rightarrow> ('s, 'v, 'z) flow_from_scheme \<Rightarrow>
   ('s, 'v, 'z) flow_from_scheme outcome option" where
  "pull_starting policy call R st =
     (if ff_started st then Some Term
      else call_pull policy call R (st\<lparr>ff_started := True, ff_pull := True\<rparr>))"

section \<open>The receiver of the range\<close>

text \<open>
  The signals of the receiver that the producer holds, as calls on the whole state. The functions of a receiver may call
  \<open>up\<close>, so each signal is given the recursive calls.
\<close>

record ('st, 'v, 'e) consumer =
  c_starting :: "'st flow_caller \<Rightarrow> 'st \<Rightarrow> 'st outcome option"
  c_value :: "'st flow_caller \<Rightarrow> 'v \<Rightarrow> 'st \<Rightarrow> 'st outcome option"
  c_error :: "'st flow_caller \<Rightarrow> 'e error \<Rightarrow> 'st \<Rightarrow> 'st outcome option"
  c_done :: "'st flow_caller \<Rightarrow> 'st \<Rightarrow> 'st outcome option"

definition pull_receiver ::
  "(nat \<Rightarrow> bool) \<Rightarrow> ('s, 'w, 'e) rcv \<Rightarrow> (('s, 'v, 'z) flow_from_scheme, 'w, 'e) consumer" where
  "pull_receiver policy R = \<lparr>c_starting = (\<lambda>call. pull_starting policy call R),
     c_value = (\<lambda>call. pull_value policy call R), c_error = (\<lambda>call. pull_error R),
     c_done = (\<lambda>call. pull_done R)\<rparr>"

text \<open>
  An operator between the producer and \<open>Pull\<close>: the \<open>flow_receiver\<close> of \<open>transform\<close> or \<open>filter\<close>, with its
  own flags. Its user function \<open>g\<close> throws, or gives a value to send on, or none.
\<close>

record ('s, 'v) staged_flow = "('s, 'v) flow_from" +
  sg_started :: bool
  sg_done :: bool

definition staged_new :: "'v list \<Rightarrow> 's \<Rightarrow> ('s, 'v) staged_flow" where
  "staged_new xs s = flow_from.extend (flow_from_new xs s) \<lparr>sg_started = False, sg_done = False\<rparr>"

definition stage_error ::
  "(('s, 'v) staged_flow, 'w, 'e) consumer \<Rightarrow> ('s, 'v) staged_flow flow_caller \<Rightarrow> 'e error \<Rightarrow> ('s, 'v) staged_flow \<Rightarrow>
   ('s, 'v) staged_flow outcome option" where
  "stage_error C call e st =
     (if \<not> sg_started st then Some Term
      else if sg_done st then Some (Ret st)
      else c_error C call e (st\<lparr>sg_done := True\<rparr>))"

definition stage_done ::
  "(('s, 'v) staged_flow, 'w, 'e) consumer \<Rightarrow> ('s, 'v) staged_flow flow_caller \<Rightarrow> ('s, 'v) staged_flow \<Rightarrow>
   ('s, 'v) staged_flow outcome option" where
  "stage_done C call st =
     (if \<not> sg_started st then Some Term
      else if sg_done st then Some (Ret st)
      else c_done C call (st\<lparr>sg_done := True\<rparr>))"

definition stage_value ::
  "('v \<Rightarrow> nat + 'w option) \<Rightarrow> (('s, 'v) staged_flow, 'w, 'e) consumer \<Rightarrow> ('s, 'v) staged_flow flow_caller \<Rightarrow> 'v \<Rightarrow>
   ('s, 'v) staged_flow \<Rightarrow> ('s, 'v) staged_flow outcome option" where
  "stage_value g C call v st =
     (if \<not> sg_started st then Some Term
      else if sg_done st then Some (Ret st)
      else case g v of
          Inl n \<Rightarrow> stage_error C call (Eptr (Exn n)) st
        | Inr None \<Rightarrow> Some (Ret st)
        | Inr (Some w) \<Rightarrow> c_value C call w st)"

definition stage_starting ::
  "(('s, 'v) staged_flow, 'w, 'e) consumer \<Rightarrow> ('s, 'v) staged_flow flow_caller \<Rightarrow> ('s, 'v) staged_flow \<Rightarrow>
   ('s, 'v) staged_flow outcome option" where
  "stage_starting C call st =
     (if sg_started st then Some Term else c_starting C call (st\<lparr>sg_started := True\<rparr>))"

definition stage ::
  "('v \<Rightarrow> nat + 'w option) \<Rightarrow> (('s, 'v) staged_flow, 'w, 'e) consumer \<Rightarrow> (('s, 'v) staged_flow, 'v, 'e) consumer" where
  "stage g C = \<lparr>c_starting = stage_starting C, c_value = stage_value g C, c_error = stage_error C,
     c_done = stage_done C\<rparr>"

text \<open>The function objects of \<open>transform(f)\<close> and \<open>filter(p)\<close>.\<close>

definition transform_stage :: "('v, 'w) user_fn \<Rightarrow> 'v \<Rightarrow> nat + 'w option" where
  "transform_stage f v = (case f v of Inl n \<Rightarrow> Inl n | Inr w \<Rightarrow> Inr (Some w))"

definition filter_stage :: "('v \<Rightarrow> nat + bool) \<Rightarrow> 'v \<Rightarrow> nat + 'v option" where
  "filter_stage p v = (case p v of Inl n \<Rightarrow> Inl n | Inr b \<Rightarrow> Inr (if b then Some v else None))"

section \<open>The tasks\<close>

text \<open>The loop of a request; the position is advanced before the value is sent.\<close>

fun request_loop ::
  "(('s, 'v, 'z) flow_from_scheme, 'v, 'e) consumer \<Rightarrow> ('s, 'v, 'z) flow_from_scheme flow_caller \<Rightarrow> nat \<Rightarrow>
   ('s, 'v, 'z) flow_from_scheme \<Rightarrow> ('s, 'v, 'z) flow_from_scheme outcome option" where
  "request_loop C call 0 st = Some (Ret st)"
| "request_loop C call (Suc k) st =
     (if ff_stop st then Some (Ret st)
      else case ff_left st of
          [] \<Rightarrow> Some (Ret st)
        | x # xs \<Rightarrow>
            (case c_value C call x (st\<lparr>ff_left := xs\<rparr>) of
               Some (Ret st') \<Rightarrow> request_loop C call k st' | r \<Rightarrow> r))"

definition flow_request ::
  "(('s, 'v, 'z) flow_from_scheme, 'v, 'e) consumer \<Rightarrow> ('s, 'v, 'z) flow_from_scheme flow_caller \<Rightarrow> int \<Rightarrow>
   ('s, 'v, 'z) flow_from_scheme \<Rightarrow> ('s, 'v, 'z) flow_from_scheme outcome option" where
  "flow_request C call requested st =
     (case request_loop C call (nat requested) st of
        Some (Ret st') \<Rightarrow> if ff_left st' = [] then c_done C call st' else Some (Ret st')
      | r \<Rightarrow> r)"

fun run_task ::
  "(('s, 'v, 'z) flow_from_scheme, 'v, 'e) consumer \<Rightarrow> ('s, 'v, 'z) flow_from_scheme flow_caller \<Rightarrow> flow_task \<Rightarrow>
   ('s, 'v, 'z) flow_from_scheme \<Rightarrow> ('s, 'v, 'z) flow_from_scheme outcome option" where
  "run_task C call Start = c_starting C call"
| "run_task C call (Request n) = flow_request C call n"
| "run_task C call Finish = c_done C call"

text \<open>The executor's loop over the tasks it has put off.\<close>

definition flow_drain ::
  "('s, 'v, 'z) flow_from_scheme flow_caller \<Rightarrow> ('s, 'v, 'z) flow_from_scheme \<Rightarrow>
   ('s, 'v, 'z) flow_from_scheme outcome option" where
  "flow_drain call st =
     (case ff_tasks st of
        [] \<Rightarrow> Some (Ret st)
      | t # ts \<Rightarrow>
          (case call (Task t) (st\<lparr>ff_tasks := ts\<rparr>) of Some (Ret st') \<Rightarrow> call Drain st' | r \<Rightarrow> r))"

primrec flow_interp ::
  "(('s, 'v, 'z) flow_from_scheme, 'v, 'e) consumer \<Rightarrow> nat \<Rightarrow> ('s, 'v, 'z) flow_from_scheme flow_caller" where
  "flow_interp C 0 = (\<lambda>c st. None)"
| "flow_interp C (Suc n) = (\<lambda>c st.
     case c of Task t \<Rightarrow> run_task C (flow_interp C n) t st
             | Drain \<Rightarrow> flow_drain (flow_interp C n) st)"

text \<open>
  \<open>flow_from(xs, exec)\<close> submitted to a receiver: submit the start, then the executor runs what is left.
\<close>

definition flow_run ::
  "(nat \<Rightarrow> bool) \<Rightarrow> (('s, 'v, 'z) flow_from_scheme, 'v, 'e) consumer \<Rightarrow> nat \<Rightarrow> ('s, 'v, 'z) flow_from_scheme \<Rightarrow>
   ('s, 'v, 'z) flow_from_scheme outcome option" where
  "flow_run policy C n st0 =
     (case flow_submit policy (flow_interp C n) Start st0 of
        Some (Ret st) \<Rightarrow> flow_interp C n Drain st | r \<Rightarrow> r)"

text \<open>\<open>flow_from(xs, exec) | for_each(args)\<close>, and the same with an operator in between.\<close>

definition for_each ::
  "(nat \<Rightarrow> bool) \<Rightarrow> nat \<Rightarrow> ('s, 'v, 'e) rcv \<Rightarrow> 'v list \<Rightarrow> 's \<Rightarrow> ('s, 'v) flow_from outcome option" where
  "for_each policy n R xs s = flow_run policy (pull_receiver policy R) n (flow_from_new xs s)"

definition stage_for_each ::
  "(nat \<Rightarrow> bool) \<Rightarrow> nat \<Rightarrow> ('v \<Rightarrow> nat + 'w option) \<Rightarrow> ('s, 'w, 'e) rcv \<Rightarrow> 'v list \<Rightarrow> 's \<Rightarrow>
   ('s, 'v) staged_flow outcome option" where
  "stage_for_each policy n g R xs s = flow_run policy (stage g (pull_receiver policy R)) n (staged_new xs s)"

section \<open>The interface of a receiver that requests one value after each value\<close>

text \<open>What the range sends on through \<open>g\<close>: a value that \<open>g\<close> drops is not followed by another request.\<close>

fun flow_signals :: "('v \<Rightarrow> nat + 'w option) \<Rightarrow> 'v list \<Rightarrow> ('w, 'e) signal list" where
  "flow_signals g [] = [Done]"
| "flow_signals g (x # xs) =
     (case g x of
        Inl n \<Rightarrow> [Error (Eptr (Exn n))]
      | Inr None \<Rightarrow> if xs = [] then [Done] else []
      | Inr (Some w) \<Rightarrow> Value w # flow_signals g xs)"

text \<open>
  \<open>fresh\<close> states are as constructed, \<open>running\<close> ones have been started and not been told to stop.
  \<open>ends\<close> describes a terminal call, which delivers one signal and closes the receiver.
\<close>

definition ends ::
  "(('s, 'v, 'z) flow_from_scheme \<Rightarrow> bool) \<Rightarrow> ('s, 'v, 'z) flow_from_scheme \<Rightarrow> 's outcome \<Rightarrow>
   ('s, 'v, 'z) flow_from_scheme outcome option \<Rightarrow> bool" where
  "ends running st r res \<longleftrightarrow>
     (\<exists>h. res = Some (map_outcome h r) \<and> (\<forall>s. running (h s) \<and> ff_done (h s) \<and> ff_out (h s) = s \<and>
        ff_left (h s) = ff_left st \<and> ff_tasks (h s) = ff_tasks st))"

locale flow_consumer =
  fixes policy :: "nat \<Rightarrow> bool" and C :: "(('s, 'v, 'z) flow_from_scheme, 'v, 'e) consumer" and R :: "('s, 'w, 'e) rcv"
    and g :: "'v \<Rightarrow> nat + 'w option" and fresh :: "('s, 'v, 'z) flow_from_scheme \<Rightarrow> bool"
    and running :: "('s, 'v, 'z) flow_from_scheme \<Rightarrow> bool"
    and started :: "('s, 'v, 'z) flow_from_scheme \<Rightarrow> ('s, 'v, 'z) flow_from_scheme"
  assumes running_frame: "running (st\<lparr>ff_left := xs\<rparr>) = running st" "running (st\<lparr>ff_out := s\<rparr>) = running st"
      "running (st\<lparr>ff_submits := k\<rparr>) = running st" "running (st\<lparr>ff_tasks := ts\<rparr>) = running st"
    and running_stop: "running st \<Longrightarrow> \<not> ff_stop st"
    and fresh_frame: "fresh (st\<lparr>ff_submits := k\<rparr>) = fresh st"
    and starts: "fresh st \<Longrightarrow> c_starting C call st = flow_submit policy call (Request 1) (started st)"
      "fresh st \<Longrightarrow> running (started st) \<and> \<not> ff_done (started st)"
      "ff_left (started st) = ff_left st" "ff_out (started st) = ff_out st" "ff_tasks (started st) = ff_tasks st"
    and sends: "running st \<Longrightarrow> \<not> ff_done st \<Longrightarrow> g x = Inr (Some w) \<Longrightarrow>
      c_value C call x st =
        (case set_value R w (ff_out st) of
           Ret s \<Rightarrow> flow_submit policy call (Request 1) (st\<lparr>ff_out := s\<rparr>)
         | Thr n s \<Rightarrow> Some UB | Term \<Rightarrow> Some Term | UB \<Rightarrow> Some UB)"
    and drops: "running st \<Longrightarrow> \<not> ff_done st \<Longrightarrow> g x = Inr None \<Longrightarrow> c_value C call x st = Some (Ret st)"
    and fails: "running st \<Longrightarrow> \<not> ff_done st \<Longrightarrow> g x = Inl n \<Longrightarrow>
      ends running st (deliver R (Error (Eptr (Exn n))) (ff_out st)) (c_value C call x st)"
    and done_ends: "running st \<Longrightarrow> \<not> ff_done st \<Longrightarrow> ends running st (deliver R Done (ff_out st)) (c_done C call st)"
    and done_closed: "running st \<Longrightarrow> ff_done st \<Longrightarrow> c_done C call st = Some (Ret st)"
    and fail_nothrow: "g x = Inl n \<Longrightarrow> nothrow_error R"
begin

definition owed :: "('s, 'v, 'z) flow_from_scheme \<Rightarrow> ('w, 'e) signal list" where
  "owed st = (if ff_done st then [] else flow_signals g (ff_left st))"

definition ready :: "('s, 'v, 'z) flow_from_scheme \<Rightarrow> bool" where
  "ready st \<longleftrightarrow> running st \<and> (ff_done st \<longrightarrow> ff_left st = [])"

text \<open>
  A request pays a part \<open>P\<close> of what is owed. Either that was all, and no task is added, or one
  more request is under way. A call that does not return ends as the delivery of \<open>P\<close> does.
\<close>

definition paid :: "('s, 'v, 'z) flow_from_scheme \<Rightarrow> ('w, 'e) signal list \<Rightarrow> ('s, 'v, 'z) flow_from_scheme \<Rightarrow> bool" where
  "paid st P st' \<longleftrightarrow>
     deliver_all R P (ff_out st) = Ret (ff_out st') \<and> running st' \<and> length (ff_left st') \<le> length (ff_left st) - 1 \<and>
     (owed st = P \<and> ff_tasks st' = ff_tasks st \<and> (ff_left st' = [] \<or> (\<forall>x. g x \<noteq> Inr None) \<longrightarrow> ff_done st')
      \<or> owed st = P @ owed st' \<and> ff_tasks st' = ff_tasks st @ [Request 1] \<and> ready st' \<and> ff_left st \<noteq> [])"

fun pays :: "('s, 'v, 'z) flow_from_scheme \<Rightarrow> ('s, 'v, 'z) flow_from_scheme outcome option \<Rightarrow> bool" where
  "pays st (Some (Ret st')) = (\<exists>P. paid st P st')"
| "pays st (Some Term) = (deliver_all R (owed st) (ff_out st) = Term)"
| "pays st (Some UB) = (deliver_all R (owed st) (ff_out st) = UB)"
| "pays st _ = False"

text \<open>The state in which the loop of a request is through, and what the end of the request makes of it.\<close>

definition looped :: "('s, 'v, 'z) flow_from_scheme \<Rightarrow> ('w, 'e) signal list \<Rightarrow> ('s, 'v, 'z) flow_from_scheme \<Rightarrow> bool" where
  "looped st P st2 \<longleftrightarrow>
     deliver_all R P (ff_out st) = Ret (ff_out st2) \<and> running st2 \<and> length (ff_left st2) \<le> length (ff_left st) - 1 \<and>
     (owed st = P \<and> ff_tasks st2 = ff_tasks st \<and> (ff_left st2 = [] \<or> (\<forall>x. g x \<noteq> Inr None) \<longrightarrow> ff_done st2)
      \<or> owed st = P @ owed st2 \<and> ready st2 \<and>
        (ff_tasks st2 = ff_tasks st \<and> ff_left st2 = [] \<or> ff_tasks st2 = ff_tasks st @ [Request 1] \<and> ff_left st \<noteq> []))"

lemma pays_end:
  assumes E: "ends running st2 (deliver R sig (ff_out st2)) res" and P: "deliver_all R P (ff_out st) = Ret (ff_out st2)"
    and owed: "owed st = P @ [sig]" and left: "length (ff_left st2) \<le> length (ff_left st) - 1"
    and tasks: "ff_tasks st2 = ff_tasks st \<or> ff_tasks st2 = ff_tasks st @ [Request 1] \<and> ff_left st2 = [] \<and> ff_left st \<noteq> []"
    and nothrow: "\<And>n t. deliver R sig (ff_out st2) \<noteq> Thr n t"
  shows "pays st res"
proof -
  obtain h where h: "res = Some (map_outcome h (deliver R sig (ff_out st2)))"
    "\<And>s. running (h s)" "\<And>s. ff_done (h s)" "\<And>s. ff_out (h s) = s" "\<And>s. ff_left (h s) = ff_left st2"
    "\<And>s. ff_tasks (h s) = ff_tasks st2"
    using E by (auto simp: ends_def)
  have del: "deliver_all R (P @ [sig]) (ff_out st) = deliver R sig (ff_out st2)"
    using P by (simp add: deliver_all_append and_then_def split: outcome.split)
  show ?thesis
  proof (cases "deliver R sig (ff_out st2)")
    case (Ret s)
    then have "paid st (P @ [sig]) (h s)"
      using h(2-6) left tasks del owed by (auto simp: paid_def ready_def owed_def [of "h s"])
    then show ?thesis using h(1) Ret by auto
  qed (use h(1) del owed nothrow in auto)
qed

lemma looped_pays:
  assumes "looped st P st2"
  shows "pays st (if ff_left st2 = [] then c_done C call st2 else Some (Ret st2))"
proof (cases "ff_left st2 = [] \<and> \<not> ff_done st2")
  case True
  then have o2: "owed st2 = [Done]" by (simp add: owed_def)
  have "pays st (c_done C call st2)"
    by (rule pays_end [of st2 Done _ P]) (use assms True o2 in \<open>auto simp: looped_def done_ends [simplified]\<close>)
  then show ?thesis using True by simp
next
  case False
  have "(if ff_left st2 = [] then c_done C call st2 else Some (Ret st2)) = Some (Ret st2)"
    using False assms done_closed by (auto simp: looped_def)
  moreover have "paid st P st2"
    using False assms by (auto simp: looped_def paid_def owed_def [of st2])
  ultimately show ?thesis by auto
qed

lemma request_one:
  "ff_left st = x # xs \<Longrightarrow> running st \<Longrightarrow>
   flow_interp C (Suc n) (Task (Request 1)) st =
     (case c_value C (flow_interp C n) x (st\<lparr>ff_left := xs\<rparr>) of
        Some (Ret st') \<Rightarrow> if ff_left st' = [] then c_done C (flow_interp C n) st' else Some (Ret st') | r \<Rightarrow> r)"
  using running_stop [of st] by (simp add: flow_request_def split: option.split outcome.split)

lemma request_pays:
  "ready st \<Longrightarrow> length (ff_left st) < n \<Longrightarrow> pays st (flow_interp C n (Task (Request 1)) st)"
proof (induction n arbitrary: st)
  case (Suc n)
  let ?call = "flow_interp C n"
  have run: "running st" using Suc.prems(1) by (simp add: ready_def)
  show ?case
  proof (cases "ff_left st")
    case Nil
    have "pays st (if ff_left st = [] then c_done C ?call st else Some (Ret st))"
      by (rule looped_pays [of st "[]"]) (use Nil Suc.prems(1) run in \<open>auto simp: looped_def\<close>)
    moreover have "request_loop C ?call 1 st = Some (Ret st)"
      using Nil by simp
    ultimately show ?thesis using Nil by (simp add: flow_request_def)
  next
    case (Cons x xs)
    let ?st0 = "st\<lparr>ff_left := xs\<rparr>"
    have d: "\<not> ff_done st" using Suc.prems(1) Cons by (auto simp: ready_def)
    have run0: "running ?st0" "\<not> ff_done ?st0" using run d by (simp_all add: running_frame)
    note task = request_one [OF Cons run, of n]
    note finish = looped_pays [of st _ _ ?call]
    show ?thesis
    proof (cases "g x")
      case (Inl n')
      let ?e = "Error (Eptr (Exn n'))"
      have owed: "owed st = [?e]" using d Cons Inl by (simp add: owed_def)
      obtain h where h: "c_value C ?call x ?st0 = Some (map_outcome h (deliver R ?e (ff_out st)))"
        "\<And>s. running (h s)" "\<And>s. ff_done (h s)" "\<And>s. ff_out (h s) = s" "\<And>s. ff_left (h s) = xs"
        "\<And>s. ff_tasks (h s) = ff_tasks st"
        using fails [OF run0 Inl, of ?call] by (auto simp: ends_def)
      show ?thesis
      proof (cases "deliver R ?e (ff_out st)")
        case (Ret s)
        have "looped st [?e] (h s)"
          using h(2-6) owed Ret Cons by (simp add: looped_def and_then_def)
        from finish [OF this] show ?thesis using task h(1) Ret by simp
      next
        case (Thr k t)
        then show ?thesis using nothrow_deliver [OF fail_nothrow [OF Inl]] by metis
      qed (use task h(1) owed in \<open>simp_all add: and_then_def\<close>)
    next
      case (Inr o')
      show ?thesis
      proof (cases o')
        case None
        have "looped st [] ?st0"
          using run0 None Inr d Cons by (auto simp: looped_def ready_def owed_def)
        from finish [OF this] show ?thesis
          using task drops [OF run0, of x ?call] None Inr by simp
      next
        case (Some w)
        have owed: "owed st = Value w # flow_signals g xs" using d Cons Inr Some by (simp add: owed_def)
        note sent = sends [OF run0, of x w ?call]
        show ?thesis
        proof (cases "set_value R w (ff_out st)")
          case (Ret s)
          let ?st1 = "st\<lparr>ff_left := xs, ff_out := s, ff_submits := Suc (ff_submits st)\<rparr>"
          have ready1: "ready ?st1" using run0 by (simp add: ready_def running_frame)
          have owed1: "owed ?st1 = flow_signals g xs" using d by (simp add: owed_def)
          have c: "c_value C ?call x ?st0 =
              (if policy (ff_submits st) then ?call (Task (Request 1)) ?st1
               else Some (Ret (?st1\<lparr>ff_tasks := ff_tasks st @ [Request 1]\<rparr>)))"
            using sent Inr Some Ret by (simp add: flow_submit_def Let_def)
          show ?thesis
          proof (cases "policy (ff_submits st)")
            case False
            let ?st2 = "?st1\<lparr>ff_tasks := ff_tasks st @ [Request 1]\<rparr>"
            have "looped st [Value w] ?st2"
              using run0 d owed Cons Ret by (simp add: looped_def ready_def owed_def running_frame and_then_def)
            from finish [OF this] show ?thesis using task c False by (simp del: pays.simps)
          next
            case True
            have ih: "pays ?st1 (?call (Task (Request 1)) ?st1)"
              by (rule Suc.IH [OF ready1]) (use Suc.prems(2) Cons in simp)
            show ?thesis
            proof (cases "?call (Task (Request 1)) ?st1")
              case None
              with ih show ?thesis by simp
            next
              case r: (Some r)
              show ?thesis
              proof (cases r)
                case st2: (Ret st2)
                from ih obtain P where P: "paid ?st1 P st2" by (auto simp: r st2)
                have "looped st (Value w # P) st2"
                  using P owed owed1 Cons Ret by (auto simp: looped_def paid_def and_then_def)
                from finish [OF this] show ?thesis using task c True r st2 by (simp del: pays.simps)
              qed (use ih task c True r Ret in \<open>auto simp: owed owed1 and_then_def\<close>)
            qed
          qed
        qed (use task sent Inr Some owed in \<open>auto simp: and_then_def\<close>)
      qed
    qed
  qed
qed simp

text \<open>The executor's loop: each round runs the one task that is under way.\<close>

lemma drain_pays:
  "ready st \<Longrightarrow> ff_tasks st = [Request 1] \<Longrightarrow> length (ff_left st) + 3 \<le> n \<Longrightarrow>
   \<exists>r. flow_interp C n Drain st = Some r \<and> map_outcome ff_out r = deliver_all R (owed st) (ff_out st) \<and>
     (\<forall>st'. r = Ret st' \<longrightarrow> ff_tasks st' = [] \<and> ((\<forall>x. g x \<noteq> Inr None) \<longrightarrow> ff_done st'))"
proof (induction n arbitrary: st)
  case (Suc n)
  let ?call = "flow_interp C n" and ?st = "st\<lparr>ff_tasks := []\<rparr>"
  have ready: "ready ?st" using Suc.prems(1) by (simp add: ready_def running_frame)
  have owed: "owed ?st = owed st" by (simp add: owed_def)
  have p: "pays ?st (?call (Task (Request 1)) ?st)"
    by (rule request_pays [OF ready]) (use Suc.prems(3) in simp)
  show ?case
  proof (cases "?call (Task (Request 1)) ?st")
    case None
    with p show ?thesis by simp
  next
    case (Some r)
    show ?thesis
    proof (cases r)
      case r: (Ret st2)
      have drain: "flow_interp C (Suc n) Drain st = ?call Drain st2"
        using Suc.prems(2) Some r by (simp add: flow_drain_def)
      from p obtain P where P: "paid ?st P st2" by (auto simp: Some r)
      then have del: "deliver_all R P (ff_out st) = Ret (ff_out st2)" by (simp add: paid_def)
      from P consider (all) "owed st = P" "ff_tasks st2 = []" "(\<forall>x. g x \<noteq> Inr None) \<longrightarrow> ff_done st2"
        | (more) "owed st = P @ owed st2" "ff_tasks st2 = [Request 1]" "ready st2" "length (ff_left st2) + 3 \<le> n"
        using Suc.prems(3) by (cases "ff_left st") (auto simp: paid_def owed)
      then show ?thesis
      proof cases
        case all
        obtain m where m: "n = Suc m" using Suc.prems(3) by (cases n) auto
        then show ?thesis using all drain del by (simp add: flow_drain_def)
      next
        case more
        obtain r' where r': "?call Drain st2 = Some r'" "map_outcome ff_out r' = deliver_all R (owed st2) (ff_out st2)"
            "\<forall>st'. r' = Ret st' \<longrightarrow> ff_tasks st' = [] \<and> ((\<forall>x. g x \<noteq> Inr None) \<longrightarrow> ff_done st')"
          using Suc.IH [OF more(3,2,4)] by auto
        have "deliver_all R (owed st) (ff_out st) = deliver_all R (owed st2) (ff_out st2)"
          unfolding more(1) using del by (simp add: deliver_all_append and_then_def)
        then show ?thesis using r' drain by simp
      qed
    qed (use p Some Suc.prems(2) owed in \<open>auto simp: flow_drain_def\<close>)
  qed
qed simp

text \<open>What follows the start: the first request, run at once or put off, then the executor's loop.\<close>

lemma start_then_drain:
  assumes "fresh st" "ff_tasks st = []" "length (ff_left st) + 4 \<le> n" "n \<le> m"
  shows "\<exists>r. (case c_starting C (flow_interp C n) st of
           Some (Ret st) \<Rightarrow> flow_interp C m Drain st | r \<Rightarrow> r) = Some r \<and>
     map_outcome ff_out r = deliver_all R (flow_signals g (ff_left st)) (ff_out st) \<and>
     (\<forall>st'. r = Ret st' \<longrightarrow> ff_tasks st' = [] \<and> ((\<forall>x. g x \<noteq> Inr None) \<longrightarrow> ff_done st'))"
proof -
  let ?st = "(started st)\<lparr>ff_submits := Suc (ff_submits (started st))\<rparr>"
  note start = starts(2) [OF assms(1)] starts(3-5) [of st]
  have ready: "ready ?st" using start by (simp add: ready_def running_frame)
  have owed: "owed ?st = flow_signals g (ff_left st)" using start by (simp add: owed_def)
  have c: "c_starting C (flow_interp C n) st =
      (if policy (ff_submits (started st)) then flow_interp C n (Task (Request 1)) ?st
       else Some (Ret (?st\<lparr>ff_tasks := [Request 1]\<rparr>)))"
    using start assms(2) by (simp add: starts(1) [OF assms(1)] flow_submit_def Let_def)
  show ?thesis
  proof (cases "policy (ff_submits (started st))")
    case False
    let ?st1 = "?st\<lparr>ff_tasks := [Request 1]\<rparr>"
    have "ready ?st1" "owed ?st1 = flow_signals g (ff_left st)" "ff_out ?st1 = ff_out st" "ff_left ?st1 = ff_left st"
      using ready owed start by (simp_all add: ready_def running_frame owed_def)
    then show ?thesis using drain_pays [of ?st1 m] assms c False by simp
  next
    case True
    have p: "pays ?st (flow_interp C n (Task (Request 1)) ?st)"
      by (rule request_pays [OF ready]) (use start assms in simp)
    show ?thesis
    proof (cases "flow_interp C n (Task (Request 1)) ?st")
      case None
      with p show ?thesis by simp
    next
      case (Some r)
      show ?thesis
      proof (cases r)
        case r: (Ret st2)
        from p obtain P where P: "paid ?st P st2" by (auto simp: Some r)
        then have del: "deliver_all R P (ff_out st) = Ret (ff_out st2)" using start by (simp add: paid_def)
        from P start assms(2) consider (all) "owed ?st = P" "ff_tasks st2 = []" "(\<forall>x. g x \<noteq> Inr None) \<longrightarrow> ff_done st2"
          | (more) "owed ?st = P @ owed st2" "ff_tasks st2 = [Request 1]" "ready st2" "length (ff_left st2) + 3 \<le> m"
          using assms(3,4) by (cases "ff_left st") (auto simp: paid_def)
        then show ?thesis
        proof cases
          case all
          obtain m' where m: "m = Suc m'" using assms(3,4) by (cases m) auto
          then show ?thesis using all c True Some r del owed by (simp add: flow_drain_def)
        next
          case more
          have "deliver_all R (owed ?st) (ff_out st) = deliver_all R (owed st2) (ff_out st2)"
            unfolding more(1) using del by (simp add: deliver_all_append and_then_def)
          then show ?thesis using drain_pays [OF more(3,2,4)] c True Some r owed by simp
        qed
      qed (use p start owed c True Some in simp_all)
    qed
  qed
qed

lemma run_pays:
  assumes "\<And>k. fresh (st\<lparr>ff_submits := k\<rparr>)" "ff_tasks st = []" "length (ff_left st) + 6 \<le> n"
  shows "\<exists>r. flow_run policy C n st = Some r \<and>
     map_outcome ff_out r = deliver_all R (flow_signals g (ff_left st)) (ff_out st) \<and>
     (\<forall>st'. r = Ret st' \<longrightarrow> ff_tasks st' = [] \<and> ((\<forall>x. g x \<noteq> Inr None) \<longrightarrow> ff_done st'))"
proof -
  define m where "m = n - 2"
  then have m: "n = Suc (Suc m)" "length (ff_left st) + 4 \<le> m" using assms(3) by simp_all
  let ?st = "st\<lparr>ff_submits := Suc (ff_submits st)\<rparr>"
  show ?thesis
  proof (cases "policy (ff_submits st)")
    case True
    have "flow_run policy C n st =
        (case c_starting C (flow_interp C (Suc m)) ?st of
           Some (Ret st) \<Rightarrow> flow_interp C (Suc (Suc m)) Drain st | r \<Rightarrow> r)"
      using True m by (simp add: flow_run_def flow_submit_def flow_interp.simps(2) [of _ "Suc m"] del: flow_interp.simps)
    then show ?thesis using start_then_drain [of ?st "Suc m" "Suc (Suc m)"] assms m
      by (simp del: flow_interp.simps)
  next
    case False
    have same: "st\<lparr>ff_submits := k, ff_tasks := []\<rparr> = st\<lparr>ff_submits := k\<rparr>" for k
      using assms(2) by (cases st) simp
    have "flow_run policy C n st =
        (case c_starting C (flow_interp C m) ?st of
           Some (Ret st) \<Rightarrow> flow_interp C (Suc m) Drain st | r \<Rightarrow> r)"
      using False m assms(2)
      by (simp add: flow_run_def flow_submit_def flow_interp.simps(2) [of _ "Suc m"] flow_drain_def del: flow_interp.simps)
         (simp add: flow_interp.simps(2) same)
    then show ?thesis using start_then_drain [of ?st m "Suc m"] assms m
      by (simp del: flow_interp.simps)
  qed
qed

end

section \<open>The two receivers\<close>

text \<open>\<open>Pull\<close> alone passes every value on.\<close>

definition pull_fresh :: "('s, 'v, 'z) flow_from_scheme \<Rightarrow> bool" where
  "pull_fresh st \<longleftrightarrow> \<not> ff_started st \<and> \<not> ff_done st \<and> \<not> ff_stop st"

definition pull_running :: "('s, 'v, 'z) flow_from_scheme \<Rightarrow> bool" where
  "pull_running st \<longleftrightarrow> ff_started st \<and> \<not> ff_stop st \<and> ff_pull st = (\<not> ff_done st)"

lemmas pull_defs = pull_receiver_def pull_starting_def pull_value_def pull_error_def pull_done_def call_pull_def up_value_def

interpretation pull: flow_consumer policy "pull_receiver policy R" R "\<lambda>x. Inr (Some x)" pull_fresh pull_running
    "\<lambda>st. st\<lparr>ff_started := True, ff_pull := True\<rparr>" for policy R
  by unfold_locales
     (auto simp: pull_fresh_def pull_running_def pull_defs ends_def cong: outcome.case_cong
       intro!: exI [of _ "\<lambda>s. _ s\<lparr>ff_done := True, ff_pull := False, ff_out := s\<rparr>"])

text \<open>Behind an operator, \<open>Pull\<close> gets what the user function gives.\<close>

definition staged_fresh :: "('s, 'v) staged_flow \<Rightarrow> bool" where
  "staged_fresh st \<longleftrightarrow> pull_fresh st \<and> \<not> sg_started st \<and> \<not> sg_done st"

definition staged_running :: "('s, 'v) staged_flow \<Rightarrow> bool" where
  "staged_running st \<longleftrightarrow> pull_running st \<and> sg_started st \<and> sg_done st = ff_done st"

lemmas stage_defs = stage_def stage_starting_def stage_value_def stage_error_def stage_done_def

text \<open>A user function that throws needs a receiver whose error does not.\<close>

definition may_fail :: "('v \<Rightarrow> nat + 'w option) \<Rightarrow> ('s, 'w, 'e) rcv \<Rightarrow> bool" where
  "may_fail g R \<longleftrightarrow> nothrow_error R \<or> (\<forall>x n. g x \<noteq> Inl n)"

lemma stage_fails:
  assumes "may_fail g R" "staged_running st" "\<not> ff_done st" "g x = Inl n"
  shows "ends staged_running st (deliver R (Error (Eptr (Exn n))) (ff_out st))
      (c_value (stage g (pull_receiver policy R)) call x st)"
proof -
  have "nothrow_error R" using assms by (auto simp: may_fail_def)
  then show ?thesis
    using assms(2-4) unfolding ends_def
    by (intro exI [of _ "\<lambda>s. st\<lparr>sg_done := True, ff_done := True, ff_pull := False, ff_out := s\<rparr>"])
       (auto simp: staged_running_def pull_running_def stage_defs pull_defs set_error_def nothrow_error_no_except)
qed

lemma stage_ends:
  assumes "staged_running st" "\<not> ff_done st"
  shows "ends staged_running st (deliver R Done (ff_out st)) (c_done (stage g (pull_receiver policy R)) call st)"
  using assms unfolding ends_def
  by (intro exI [of _ "\<lambda>s. st\<lparr>sg_done := True, ff_done := True, ff_pull := False, ff_out := s\<rparr>"])
     (auto simp: staged_running_def pull_running_def stage_defs pull_defs)

lemma staged_consumer:
  assumes "may_fail g R"
  shows "flow_consumer policy (stage g (pull_receiver policy R)) R g staged_fresh staged_running
     (\<lambda>st. st\<lparr>sg_started := True, ff_started := True, ff_pull := True\<rparr>)"
proof unfold_locales
  show "nothrow_error R" if "g x = Inl n" for x n
    using assms that by (auto simp: may_fail_def)
qed ((erule (2) stage_fails [OF assms] | erule (1) stage_ends)+ | 
     (auto simp: staged_fresh_def pull_fresh_def staged_running_def pull_running_def
      stage_defs pull_defs cong: outcome.case_cong)[1])+

section \<open>Properties\<close>

lemma pull_signals: "flow_signals (\<lambda>x. Inr (Some x)) xs = map Value xs @ [Done]"
  by (induction xs) simp_all

lemma transform_stage_signals:
  "flow_signals (transform_stage f) xs = transform_signals f (map Value xs @ [Done])"
  by (induction xs) (simp_all add: transform_stage_def split: sum.split)

lemma filter_stage_signals:
  "\<forall>y \<in> set ys. p y \<Longrightarrow> \<not> p x \<Longrightarrow>
   flow_signals (filter_stage (pure_fn p)) (ys @ x # zs) = map Value ys @ (if zs = [] then [Done] else [])"
  by (induction ys) (simp_all add: filter_stage_def)

lemma stage_run:
  assumes "may_fail g R" "length xs + 6 \<le> n"
  shows "\<exists>r. stage_for_each policy n g R xs s = Some r \<and> map_outcome ff_out r = deliver_all R (flow_signals g xs) s \<and>
    (\<forall>st. r = Ret st \<longrightarrow> ff_tasks st = [] \<and> ((\<forall>x. g x \<noteq> Inr None) \<longrightarrow> ff_done st))"
  using flow_consumer.run_pays [OF staged_consumer [OF assms(1)], of "staged_new xs s" n policy] assms(2)
  by (simp add: stage_for_each_def staged_new_def flow_from.defs flow_from_new_def staged_fresh_def pull_fresh_def)

text \<open>
  C11: \<open>flow_from(xs) | for_each(out)\<close> sends \<open>out\<close> every value of the range, in order, and then done,
  exactly once, for every choice of the executor between running a task at once (so that requests
  nest inside values) and running it later; and fuel that is linear in the length of the range is
  enough, so it terminates.
\<close>
theorem for_each_delivers:
  assumes "length xs + 6 \<le> n"
  shows "\<exists>r. for_each policy n R xs s = Some r \<and> map_outcome ff_out r = deliver_all R (map Value xs @ [Done]) s \<and>
    (\<forall>st. r = Ret st \<longrightarrow> ff_done st \<and> ff_tasks st = [])"
proof -
  have fresh: "pull_fresh ((flow_from_new xs s)\<lparr>ff_submits := k\<rparr>)" for k
    by (simp add: pull_fresh_def flow_from_new_def)
  from pull.run_pays [OF fresh, of n policy R] assms show ?thesis
    unfolding for_each_def by (auto simp: flow_from_new_def pull_signals)
qed

theorem for_each_delivers_witness:
  "\<exists>r. for_each even 12 collector [5, 6] ([], 0) = Some r \<and> map_outcome ff_out r = Ret ([5, 6], 1)"
proof -
  have "deliver_all collector (map Value [5, 6] @ [Done]) ([], 0) = Ret ([5, 6], 1)"
    by (simp add: run_signals collector_def)
  then show ?thesis using for_each_delivers [of "[5, 6]" 12 even collector "([], 0)"] by auto
qed

text \<open>
  C20: \<open>flow_from(xs) | transform(f) | for_each(out)\<close> sends \<open>out\<close> the results in order and then done, or
  those before the first exception of \<open>f\<close> and then one error that carries it, for every choice of the
  executor, and terminates with nothing left to run.
\<close>
theorem flow_transform_delivers:
  assumes "nothrow_error R" "length xs + 6 \<le> n"
  shows "\<exists>r. stage_for_each policy n (transform_stage f) R xs s = Some r \<and>
    map_outcome ff_out r = deliver_all R (transform_signals f (map Value xs @ [Done])) s \<and>
    (\<forall>st. r = Ret st \<longrightarrow> ff_done st \<and> ff_tasks st = [])"
proof -
  have "may_fail (transform_stage f) R" using assms(1) by (simp add: may_fail_def)
  from stage_run [OF this assms(2), of policy s] show ?thesis
    by (auto simp: transform_stage_signals transform_stage_def split: sum.splits)
qed

theorem flow_transform_delivers_witness:
  "\<exists>r. stage_for_each odd 9 (transform_stage (\<lambda>v. if v = 0 then Inl 7 else Inr (12 div v))) collector [3, 0, 4] ([], 0) = Some r \<and>
     map_outcome ff_out r = Ret ([4], 10)"
proof -
  have "deliver_all collector (transform_signals (\<lambda>v. if v = 0 then Inl 7 else Inr (12 div v)) (map Value [3, 0, 4] @ [Done]))
      ([], 0) = Ret ([4], 10)"
    by (simp add: run_signals collector_def)
  then show ?thesis
    using flow_transform_delivers [OF collector_nothrow, of "[3, 0, 4]" 9 odd "\<lambda>v. if v = 0 then Inl 7 else Inr (12 div v)" "([], 0)"]
    by auto
qed

text \<open>
  C36: \<open>flow_from(xs) | filter(p) | for_each(out)\<close> stalls: the first value that \<open>p\<close> rejects is not followed by
  another request, so unless it was the last of the range, \<open>out\<close> gets the values before it and then
  nothing more, neither the rest nor done, and no task is left to run.
\<close>
theorem flow_filter_stalls:
  assumes "\<forall>y \<in> set ys. p y" "\<not> p x" "length ys + length zs + 7 \<le> n"
  shows "\<exists>r. stage_for_each policy n (filter_stage (pure_fn p)) R (ys @ x # zs) s = Some r \<and>
    map_outcome ff_out r = deliver_all R (map Value ys @ (if zs = [] then [Done] else [])) s \<and>
    (\<forall>st. r = Ret st \<longrightarrow> ff_tasks st = [])"
proof -
  have "may_fail (filter_stage (pure_fn p)) R" by (simp add: may_fail_def filter_stage_def)
  from stage_run [OF this, of "ys @ x # zs" n policy s] assms(3) show ?thesis
    by (auto simp: filter_stage_signals [OF assms(1,2)] simp del: deliver_all_simps)
qed

theorem flow_filter_stalls_witness:
  "\<exists>r. stage_for_each even 10 (filter_stage (pure_fn even)) collector ([2] @ 3 # [4]) ([], 0) = Some r \<and>
     map_outcome ff_out r = Ret ([2], 0) \<and> (\<forall>st. r = Ret st \<longrightarrow> ff_tasks st = [])"
proof -
  have "deliver_all collector (map Value [2] @ (if [4] = [] then [Done] else [])) ([], 0) = Ret ([2], 0)"
    by (simp add: run_signals collector_def)
  with flow_filter_stalls [of "[2]" even 3 "[4]" 10 even collector "([], 0)"] show ?thesis by auto
qed

end
