(* ===== verification/Properties.thy ===== *)
theory Properties
  imports Main
begin

text \<open>
  \<open>traits.h\<close>, \<open>properties.h\<close> and the tags of \<open>concepts.h\<close>: the compile-time programs that keep the
  property set of a class. A property is a tag type; a set holds at most one property of each
  category; a query asks for a property or one that is derived from it. Types are values here, and
  a template that does not compile is \<open>None\<close> or \<open>False\<close>.
\<close>

section \<open>\<open>traits.h\<close>: folds over parameter packs without fold expressions\<close>

text \<open>\<open>and_v<Bs...>\<close> compares \<open>bools<Bs..., true>\<close> with \<open>bools<true, Bs...>\<close>; \<open>or_v\<close> likewise.\<close>

definition and_v :: "bool list \<Rightarrow> bool" where
  "and_v bs \<longleftrightarrow> bs @ [True] = True # bs"

definition or_v :: "bool list \<Rightarrow> bool" where
  "or_v bs \<longleftrightarrow> bs @ [False] \<noteq> False # bs"

text \<open>\<open>sum_impl\<close> runs an index over an array of constant size.\<close>

function sum_impl :: "int list \<Rightarrow> nat \<Rightarrow> int \<Rightarrow> int" where
  "sum_impl xs i state = (if i \<ge> length xs then state else sum_impl xs (i + 1) (state + xs ! i))"
  by pat_completeness auto
termination by (relation "measure (\<lambda>(xs, i, state). length xs - i)") auto

declare sum_impl.simps [simp del]

definition sum_v :: "int list \<Rightarrow> int" where
  "sum_v xs = sum_impl xs 0 0"

lemma rotate_const: "bs @ [b] = b # bs \<longleftrightarrow> (\<forall>x \<in> set bs. x = b)"
proof (induction bs)
  case (Cons a bs)
  then show ?case by (cases "a = b") auto
qed simp

lemma and_v_iff [simp]: "and_v bs \<longleftrightarrow> list_all id bs"
  by (auto simp: and_v_def rotate_const list_all_iff)

lemma or_v_iff [simp]: "or_v bs \<longleftrightarrow> list_ex id bs"
  by (auto simp: or_v_def rotate_const list_ex_iff)

lemma sum_impl_eq: "sum_impl xs i s = s + sum_list (drop i xs)"
proof (induction xs i s rule: sum_impl.induct)
  case (1 xs i s)
  then show ?case by (subst sum_impl.simps) (auto simp: Cons_nth_drop_Suc [symmetric])
qed

lemma sum_v_eq [simp]: "sum_v xs = sum_list xs"
  by (simp add: sum_v_def sum_impl_eq)

section \<open>Properties and categories\<close>

datatype category =
    Cardinality_Category | Flow_Category | Receiver_Category | Sender_Category | Executor_Category
  | Blocking_Category | Sequence_Category

datatype property =
    Is_Single | Is_Many | Is_Flow | Is_Receiver | Is_Sender | Is_Executor | Is_Constrained | Is_Time
  | Is_Always_Blocking | Is_Never_Blocking | Is_Maybe_Blocking
  | Is_Fifo_Sequence | Is_Concurrent_Sequence

text \<open>The base class of a tag.\<close>

fun tag_base :: "property \<Rightarrow> property option" where
  "tag_base Is_Constrained = Some Is_Executor"
| "tag_base Is_Time = Some Is_Constrained"
| "tag_base _ = None"

text \<open>\<open>property_category\<close>; a derived tag inherits the member of its base.\<close>

fun property_category :: "property \<Rightarrow> category" where
  "property_category Is_Single = Cardinality_Category"
| "property_category Is_Many = Cardinality_Category"
| "property_category Is_Flow = Flow_Category"
| "property_category Is_Receiver = Receiver_Category"
| "property_category Is_Sender = Sender_Category"
| "property_category Is_Executor = Executor_Category"
| "property_category Is_Constrained = Executor_Category"
| "property_category Is_Time = Executor_Category"
| "property_category Is_Always_Blocking = Blocking_Category"
| "property_category Is_Never_Blocking = Blocking_Category"
| "property_category Is_Maybe_Blocking = Blocking_Category"
| "property_category Is_Fifo_Sequence = Sequence_Category"
| "property_category Is_Concurrent_Sequence = Sequence_Category"

text \<open>\<open>std::is_base_of\<close> on the tags, of which the longest chain has three.\<close>

definition is_base_of :: "property \<Rightarrow> property \<Rightarrow> bool" where
  "is_base_of b p \<longleftrightarrow> b = p \<or> tag_base p = Some b \<or> Option.bind (tag_base p) tag_base = Some b"

lemma base_same_category: "is_base_of b p \<Longrightarrow> property_category b = property_category p"
  by (cases p) (auto simp: is_base_of_def)

lemma is_base_of_trans: "is_base_of a b \<Longrightarrow> is_base_of b c \<Longrightarrow> is_base_of a c"
  by (cases c; cases b) (auto simp: is_base_of_def)

section \<open>Property sets\<close>

text \<open>\<open>FoundExactlyOnce\<close> counts with \<open>sum_v\<close>; \<open>UniqueCategory\<close> is what \<open>property_set\<close> asserts.\<close>

definition FoundExactlyOnce :: "'a \<Rightarrow> 'a list \<Rightarrow> bool" where
  "FoundExactlyOnce t ts \<longleftrightarrow> sum_v (map (\<lambda>u. if t = u then 1 else 0) ts) = 1"

definition UniqueCategory :: "property list \<Rightarrow> bool" where
  "UniqueCategory ps \<longleftrightarrow>
     and_v (map (\<lambda>p. FoundExactlyOnce (property_category p) (map property_category ps)) ps)"

text \<open>
  The overload that takes a \<open>property_set_element<POut, C>\<close> is viable when the set has a base class
  for the category \<open>C\<close>, and deduces \<open>POut\<close>.
\<close>

definition element_of :: "category \<Rightarrow> property list \<Rightarrow> property option" where
  "element_of c ps = find (\<lambda>p. property_category p = c) ps"

definition property_set_index :: "property list \<Rightarrow> property \<Rightarrow> property option" where
  "property_set_index ps p = element_of (property_category p) ps"

text \<open>
  Inserting one property: a set that has an element \<open>POut\<close> of the category keeps its elements, with
  those equal to the new property replaced by \<open>POut\<close>; otherwise the property is appended.
\<close>

definition property_set_insert_one :: "property list \<Rightarrow> property \<Rightarrow> property list" where
  "property_set_insert_one ps pin =
     (case element_of (property_category pin) ps of
        Some pout \<Rightarrow> map (\<lambda>p. if p = pin then pout else p) ps
      | None \<Rightarrow> ps @ [pin])"

fun property_set_insert :: "property list \<Rightarrow> property list \<Rightarrow> property list" where
  "property_set_insert ps [] = ps"
| "property_set_insert ps (p # qs) = property_set_insert (property_set_insert_one ps p) qs"

text \<open>
  Queries. The argument is the property set of a type, or \<open>None\<close> for a type without one.
\<close>

definition property_query_fn :: "property list \<Rightarrow> property \<Rightarrow> bool" where
  "property_query_fn ps pin =
     (case element_of (property_category pin) ps of Some pout \<Rightarrow> is_base_of pin pout | None \<Rightarrow> False)"

definition property_query :: "property list option \<Rightarrow> property list \<Rightarrow> bool" where
  "property_query t expected =
     (case t of Some ps \<Rightarrow> and_v (map (property_query_fn ps) expected) | None \<Rightarrow> False)"

definition category_query :: "property list option \<Rightarrow> category list \<Rightarrow> bool" where
  "category_query t expected =
     (case t of Some ps \<Rightarrow> and_v (map (\<lambda>c. element_of c ps \<noteq> None) expected) | None \<Rightarrow> False)"

section \<open>Laws of property sets\<close>

lemma sum_indicator: "sum_list (map (\<lambda>u. if t = u then 1 else 0 :: int) ts) = int (count_list ts t)"
  by (induction ts) auto

lemma found_once: "FoundExactlyOnce t ts \<longleftrightarrow> count_list ts t = 1"
  by (simp add: FoundExactlyOnce_def sum_indicator)

lemma distinct_count: "distinct xs \<longleftrightarrow> (\<forall>x \<in> set xs. count_list xs x = 1)"
proof (induction xs)
  case (Cons a xs)
  have "count_list xs a = 0 \<longleftrightarrow> a \<notin> set xs" by (simp add: count_list_0_iff)
  with Cons show ?case by auto
qed simp

lemma unique_category_iff: "UniqueCategory ps \<longleftrightarrow> distinct (map property_category ps)"
  unfolding distinct_count by (auto simp: UniqueCategory_def found_once list_all_iff)

lemma element_of_None: "element_of c ps = None \<longleftrightarrow> c \<notin> property_category ` set ps"
  by (auto simp: element_of_def find_None_iff)

lemma element_of_Some:
  assumes "distinct (map property_category ps)"
  shows "element_of c ps = Some p \<longleftrightarrow> p \<in> set ps \<and> property_category p = c"
proof
  assume "element_of c ps = Some p"
  then show "p \<in> set ps \<and> property_category p = c"
    by (auto simp: element_of_def find_Some_iff)
next
  assume p: "p \<in> set ps \<and> property_category p = c"
  then obtain q where q: "element_of c ps = Some q" using element_of_None by fast
  then have "q \<in> set ps \<and> property_category q = c" by (auto simp: element_of_def find_Some_iff)
  then show "element_of c ps = Some p" using p q assms by (metis distinct_map inj_onD)
qed

lemma query_iff:
  assumes "distinct (map property_category ps)"
  shows "property_query (Some ps) es \<longleftrightarrow> (\<forall>e \<in> set es. \<exists>p \<in> set ps. is_base_of e p)"
proof -
  have "property_query_fn ps e \<longleftrightarrow> (\<exists>p \<in> set ps. is_base_of e p)" for e
  proof
    assume "property_query_fn ps e"
    then show "\<exists>p \<in> set ps. is_base_of e p"
      using element_of_Some [OF assms] by (auto simp: property_query_fn_def split: option.splits)
  next
    assume "\<exists>p \<in> set ps. is_base_of e p"
    then obtain p where p: "p \<in> set ps" "is_base_of e p" by blast
    then have "element_of (property_category e) ps = Some p"
      using element_of_Some [OF assms] base_same_category by metis
    with p show "property_query_fn ps e" by (simp add: property_query_fn_def)
  qed
  then show ?thesis by (simp add: property_query_def list_all_iff)
qed

text \<open>
  With at most one element of a category, an insertion either changes nothing or appends.
\<close>

lemma insert_one_eq:
  assumes "distinct (map property_category ps)"
  shows "property_set_insert_one ps p =
    (if property_category p \<in> property_category ` set ps then ps else ps @ [p])"
proof (cases "element_of (property_category p) ps")
  case None
  then have "property_category p \<notin> property_category ` set ps" by (simp add: element_of_None)
  then show ?thesis using None by (simp add: property_set_insert_one_def)
next
  case (Some q)
  then have q: "q \<in> set ps" "property_category q = property_category p"
    using element_of_Some [OF assms] by auto
  have "map (\<lambda>r. if r = p then q else r) ps = ps"
  proof (rule map_idI)
    fix r assume "r \<in> set ps"
    then show "(if r = p then q else r) = r" using q assms by (auto simp: distinct_map dest: inj_onD)
  qed
  then show ?thesis using Some q by (auto simp: property_set_insert_one_def intro: rev_image_eqI)
qed

lemma insert_one_unique:
  "distinct (map property_category ps) \<Longrightarrow> distinct (map property_category (property_set_insert_one ps p))"
  by (auto simp: insert_one_eq)

lemma insert_unique:
  "distinct (map property_category ps) \<Longrightarrow> distinct (map property_category (property_set_insert ps qs))"
  by (induction qs arbitrary: ps) (simp_all add: insert_one_unique)

lemma insert_keeps:
  assumes "distinct (map property_category ps)"
  shows "\<exists>rs. property_set_insert ps qs = ps @ rs \<and> set rs \<subseteq> set qs"
  using assms
proof (induction qs arbitrary: ps)
  case (Cons q qs)
  show ?case
  proof (cases "property_category q \<in> property_category ` set ps")
    case True
    then show ?thesis using Cons by (fastforce simp: insert_one_eq)
  next
    case False
    then have "distinct (map property_category (ps @ [q]))" using Cons.prems by auto
    from Cons.IH [OF this] show ?thesis using False Cons.prems by (fastforce simp: insert_one_eq)
  qed
qed simp

lemma insert_categories:
  assumes "distinct (map property_category ps)"
  shows "property_category ` set (property_set_insert ps qs) = property_category ` set ps \<union> property_category ` set qs"
  using assms
proof (induction qs arbitrary: ps)
  case (Cons q qs)
  then show ?case by (auto simp: insert_one_eq insert_one_unique)
qed simp

text \<open>
  C32: Inserting keeps a property set well formed, loses none of its properties, and adds a property
  only where the set has none of its category: a property of a category that is already there is
  ignored, not replaced. So what the result says of a property of a category that the first set
  has is what the first set said.
\<close>
theorem property_set_insert_laws:
  assumes "UniqueCategory ps"
  shows "UniqueCategory (property_set_insert ps qs) \<and>
    (\<exists>rs. property_set_insert ps qs = ps @ rs \<and> set rs \<subseteq> set qs) \<and>
    (\<forall>c. category_query (Some (property_set_insert ps qs)) [c] \<longleftrightarrow>
         category_query (Some ps) [c] \<or> category_query (Some qs) [c]) \<and>
    (\<forall>p. category_query (Some ps) [property_category p] \<longrightarrow>
         property_query (Some (property_set_insert ps qs)) [p] = property_query (Some ps) [p])"
proof (intro conjI allI impI)
  have d: "distinct (map property_category ps)" using assms by (simp add: unique_category_iff)
  have di: "distinct (map property_category (property_set_insert ps qs))" using insert_unique [OF d] .
  have cat: "category_query (Some xs) [c] \<longleftrightarrow> c \<in> property_category ` set xs" for xs c
    using element_of_None [of c xs] by (auto simp: category_query_def)
  show "UniqueCategory (property_set_insert ps qs)" using di by (simp add: unique_category_iff)
  show rs: "\<exists>rs. property_set_insert ps qs = ps @ rs \<and> set rs \<subseteq> set qs" by (rule insert_keeps [OF d])
  show "category_query (Some (property_set_insert ps qs)) [c] \<longleftrightarrow>
      category_query (Some ps) [c] \<or> category_query (Some qs) [c]" for c
    by (simp only: cat insert_categories [OF d] Un_iff)
  fix p assume p: "category_query (Some ps) [property_category p]"
  obtain rs where rs: "property_set_insert ps qs = ps @ rs" using rs by blast
  have "(\<exists>r \<in> set (ps @ rs). is_base_of p r) \<longleftrightarrow> (\<exists>r \<in> set ps. is_base_of p r)"
    using di p base_same_category unfolding rs cat by (fastforce simp: disjoint_iff)
  then show "property_query (Some (property_set_insert ps qs)) [p] = property_query (Some ps) [p]"
    using query_iff [OF d] query_iff [OF di] rs by simp
qed

theorem property_set_insert_laws_witness:
  "property_set_insert [Is_Sender, Is_Single, Is_Always_Blocking] [Is_Never_Blocking, Is_Flow] =
     [Is_Sender, Is_Single, Is_Always_Blocking, Is_Flow] \<and>
   UniqueCategory (property_set_insert [Is_Sender, Is_Single, Is_Always_Blocking] [Is_Never_Blocking, Is_Flow])"
proof
  show "property_set_insert [Is_Sender, Is_Single, Is_Always_Blocking] [Is_Never_Blocking, Is_Flow] =
     [Is_Sender, Is_Single, Is_Always_Blocking, Is_Flow]"
    by (simp add: property_set_insert_one_def element_of_def)
  have "UniqueCategory [Is_Sender, Is_Single, Is_Always_Blocking]" by (simp add: unique_category_iff)
  from property_set_insert_laws [OF this]
  show "UniqueCategory (property_set_insert [Is_Sender, Is_Single, Is_Always_Blocking] [Is_Never_Blocking, Is_Flow])"
    by blast
qed

end
