(* ===== verification/Concepts.thy ===== *)
theory Concepts
  imports Properties
begin

text \<open>
  The concepts of \<open>concepts.h\<close> as predicates on a description of a type, the property sets that the
  library's class templates compute for themselves, and what follows: the refinements between the
  concepts, and which properties the operators' results claim.
\<close>

section \<open>Types\<close>

text \<open>
  What the concepts ask of a type: its property set if it has one, whether it is \<open>SemiMovable\<close>, which
  of the customization points can be called on it (for values, errors and \<open>up\<close> ends of the argument
  types \<open>'a\<close>), and the types that \<open>schedule\<close>, \<open>get_executor\<close> and \<open>make_strand\<close> return. For \<open>top\<close>, the
  same customization point as \<open>now\<close>: whether the result is \<open>Regular\<close>, and whether it is so after a
  second is added.
\<close>

record top_type =
  tt_regular :: bool
  tt_time_regular :: bool

datatype 'a cxx = Cxx
  (props: "property list option")
  (semi_movable: bool)
  (has_set_done: bool)
  (has_set_value: "'a list \<Rightarrow> bool")
  (has_set_error: "'a \<Rightarrow> bool")
  (has_set_starting: "'a \<Rightarrow> bool")
  (scheduled: "'a cxx option")
  (scheduled_at: "'a cxx option")
  (top_of: "top_type option")
  (executor_of: "'a cxx option")
  (strand_of: "'a cxx option")

section \<open>Traits\<close>

definition has_cardinality_v :: "'a cxx \<Rightarrow> bool" where
  "has_cardinality_v t = category_query (props t) [Cardinality_Category]"

definition is_single_v :: "'a cxx \<Rightarrow> bool" where
  "is_single_v t = property_query (props t) [Is_Single]"

definition is_many_v :: "'a cxx \<Rightarrow> bool" where
  "is_many_v t = property_query (props t) [Is_Many]"

definition is_flow_v :: "'a cxx \<Rightarrow> bool" where
  "is_flow_v t = property_query (props t) [Is_Flow]"

definition is_receiver_v :: "'a cxx \<Rightarrow> bool" where
  "is_receiver_v t = property_query (props t) [Is_Receiver]"

definition is_sender_v :: "'a cxx \<Rightarrow> bool" where
  "is_sender_v t = property_query (props t) [Is_Sender]"

definition is_executor_v :: "'a cxx \<Rightarrow> bool" where
  "is_executor_v t = property_query (props t) [Is_Executor]"

definition Constrained_concept :: "'a cxx \<Rightarrow> bool" where
  "Constrained_concept t \<longleftrightarrow> property_query (props t) [Is_Constrained] \<and> is_executor_v t"

definition Time_concept :: "'a cxx \<Rightarrow> bool" where
  "Time_concept t \<longleftrightarrow>
     property_query (props t) [Is_Time] \<and> property_query (props t) [Is_Constrained] \<and> is_executor_v t"

definition AlwaysBlocking :: "'a cxx \<Rightarrow> bool" where
  "AlwaysBlocking t \<longleftrightarrow> property_query (props t) [Is_Always_Blocking] \<and> is_sender_v t"

definition NeverBlocking :: "'a cxx \<Rightarrow> bool" where
  "NeverBlocking t \<longleftrightarrow> property_query (props t) [Is_Never_Blocking] \<and> is_sender_v t"

definition MaybeBlocking :: "'a cxx \<Rightarrow> bool" where
  "MaybeBlocking t \<longleftrightarrow> property_query (props t) [Is_Maybe_Blocking] \<and> is_sender_v t"

definition FifoSequence :: "'a cxx \<Rightarrow> bool" where
  "FifoSequence t \<longleftrightarrow> property_query (props t) [Is_Fifo_Sequence] \<and> is_executor_v t"

definition ConcurrentSequence :: "'a cxx \<Rightarrow> bool" where
  "ConcurrentSequence t \<longleftrightarrow> property_query (props t) [Is_Concurrent_Sequence] \<and> is_executor_v t"

lemmas trait_defs = has_cardinality_v_def is_single_v_def is_many_v_def is_flow_v_def is_receiver_v_def
  is_sender_v_def is_executor_v_def Constrained_concept_def Time_concept_def AlwaysBlocking_def
  NeverBlocking_def MaybeBlocking_def FifoSequence_def ConcurrentSequence_def

section \<open>Concepts\<close>

definition valid_sender :: "'a cxx option \<Rightarrow> bool" where
  "valid_sender r = (case r of Some s \<Rightarrow> is_sender_v s | None \<Rightarrow> False)"

definition Executor_concept :: "'a cxx \<Rightarrow> property list \<Rightarrow> bool" where
  "Executor_concept t ps \<longleftrightarrow>
     valid_sender (scheduled t) \<and> semi_movable t \<and> property_query (props t) ps \<and> is_executor_v t"

definition ExecutorProvider_concept :: "'a cxx \<Rightarrow> property list \<Rightarrow> bool" where
  "ExecutorProvider_concept t ps \<longleftrightarrow>
     (case executor_of t of Some x \<Rightarrow> Executor_concept x [] | None \<Rightarrow> False) \<and>
     semi_movable t \<and> property_query (props t) ps"

definition Strand_concept :: "'a cxx \<Rightarrow> property list \<Rightarrow> bool" where
  "Strand_concept t ps \<longleftrightarrow> Executor_concept t [] \<and> property_query (props t) (Is_Fifo_Sequence # ps)"

definition StrandFactory_concept :: "'a cxx \<Rightarrow> bool" where
  "StrandFactory_concept t \<longleftrightarrow>
     (case strand_of t of Some x \<Rightarrow> Strand_concept x [] | None \<Rightarrow> False) \<and> semi_movable t"

definition ConstrainedExecutor_concept :: "'a cxx \<Rightarrow> property list \<Rightarrow> bool" where
  "ConstrainedExecutor_concept t ps \<longleftrightarrow>
     (case top_of t of Some c \<Rightarrow> tt_regular c | None \<Rightarrow> False) \<and>
     valid_sender (scheduled_at t) \<and> Executor_concept t (Is_Constrained # ps)"

definition TimeExecutor_concept :: "'a cxx \<Rightarrow> property list \<Rightarrow> bool" where
  "TimeExecutor_concept t ps \<longleftrightarrow>
     (case top_of t of Some c \<Rightarrow> tt_time_regular c | None \<Rightarrow> False) \<and> scheduled_at t \<noteq> None \<and>
     ConstrainedExecutor_concept t (Is_Time # ps)"

definition Receiver_concept :: "'a cxx \<Rightarrow> property list \<Rightarrow> bool" where
  "Receiver_concept t ps \<longleftrightarrow>
     has_set_done t \<and> semi_movable t \<and> property_query (props t) ps \<and> is_receiver_v t \<and> \<not> is_sender_v t"

text \<open>\<open>mc\<close> tells which of the argument types are \<open>MoveConstructible\<close>.\<close>

definition ReceiveValue :: "('a \<Rightarrow> bool) \<Rightarrow> 'a cxx \<Rightarrow> 'a list \<Rightarrow> bool" where
  "ReceiveValue mc t vs \<longleftrightarrow> has_set_value t vs \<and> Receiver_concept t [] \<and> and_v (map mc vs)"

definition ReceiveError :: "('a \<Rightarrow> bool) \<Rightarrow> 'a cxx \<Rightarrow> 'a \<Rightarrow> bool" where
  "ReceiveError mc t e \<longleftrightarrow> has_set_error t e \<and> Receiver_concept t [] \<and> mc e"

definition Sender_concept :: "'a cxx \<Rightarrow> property list \<Rightarrow> bool" where
  "Sender_concept t ps \<longleftrightarrow>
     semi_movable t \<and> has_cardinality_v t \<and> property_query (props t) ps \<and> is_sender_v t \<and> \<not> is_receiver_v t"

text \<open>\<open>ok\<close> tells whether \<open>submit(s, r)\<close> is a valid call.\<close>

definition SenderTo :: "bool \<Rightarrow> 'a cxx \<Rightarrow> 'a cxx \<Rightarrow> property list \<Rightarrow> bool" where
  "SenderTo ok t r ps \<longleftrightarrow> ok \<and> Sender_concept t ps \<and> Receiver_concept r []"

definition FlowReceiver_concept :: "'a cxx \<Rightarrow> property list \<Rightarrow> bool" where
  "FlowReceiver_concept t ps \<longleftrightarrow> Receiver_concept t [] \<and> property_query (props t) ps \<and> is_flow_v t"

definition FlowReceiveValue :: "('a \<Rightarrow> bool) \<Rightarrow> 'a cxx \<Rightarrow> 'a list \<Rightarrow> bool" where
  "FlowReceiveValue mc t vs \<longleftrightarrow> is_flow_v t \<and> ReceiveValue mc t vs"

definition FlowReceiveError :: "('a \<Rightarrow> bool) \<Rightarrow> 'a cxx \<Rightarrow> 'a \<Rightarrow> bool" where
  "FlowReceiveError mc t e \<longleftrightarrow> is_flow_v t \<and> ReceiveError mc t e"

definition FlowUpTo :: "'a cxx \<Rightarrow> 'a \<Rightarrow> bool" where
  "FlowUpTo t up \<longleftrightarrow> has_set_starting t up \<and> is_flow_v t"

definition FlowSender_concept :: "'a cxx \<Rightarrow> property list \<Rightarrow> bool" where
  "FlowSender_concept t ps \<longleftrightarrow> Sender_concept t [] \<and> property_query (props t) ps \<and> is_flow_v t"

definition FlowSenderTo :: "bool \<Rightarrow> 'a cxx \<Rightarrow> 'a cxx \<Rightarrow> property list \<Rightarrow> bool" where
  "FlowSenderTo ok t r ps \<longleftrightarrow>
     FlowSender_concept t [] \<and> SenderTo ok t r [] \<and> property_query (props t) ps \<and> FlowReceiver_concept r []"

lemmas concept_defs = valid_sender_def Executor_concept_def ExecutorProvider_concept_def Strand_concept_def
  StrandFactory_concept_def ConstrainedExecutor_concept_def TimeExecutor_concept_def Receiver_concept_def
  ReceiveValue_def ReceiveError_def Sender_concept_def SenderTo_def FlowReceiver_concept_def
  FlowReceiveValue_def FlowReceiveError_def FlowUpTo_def FlowSender_concept_def FlowSenderTo_def

lemma query_append:
  "property_query t (ps @ qs) \<longleftrightarrow> property_query t ps \<and> property_query t qs"
  by (cases t) (simp_all add: property_query_def)

lemma query_Cons:
  "property_query t (p # qs) \<longleftrightarrow> property_query t [p] \<and> property_query t qs"
  by (cases t) (simp_all add: property_query_def)

lemma query_Nil: "property_query t [] \<longleftrightarrow> t \<noteq> None"
  by (cases t) (simp_all add: property_query_def)

text \<open>A property of a derived tag gives that of its base.\<close>

lemma query_base:
  assumes "is_base_of b p" "property_query t [p]"
  shows "property_query t [b]"
proof -
  obtain ps q where q: "t = Some ps" "element_of (property_category p) ps = Some q" "is_base_of p q"
    using assms(2) by (cases t) (auto simp: property_query_def property_query_fn_def split: option.splits)
  from is_base_of_trans [OF assms(1) q(3)] q(1,2) show ?thesis
    by (simp add: property_query_def property_query_fn_def base_same_category [OF assms(1)])
qed

lemma time_is_constrained: "property_query t [Is_Time] \<Longrightarrow> property_query t [Is_Constrained]"
  by (rule query_base) (simp_all add: is_base_of_def)

lemma constrained_is_executor: "property_query t [Is_Constrained] \<Longrightarrow> property_query t [Is_Executor]"
  by (rule query_base) (simp_all add: is_base_of_def)

lemma query_without: "property_query t (p # q # ps) \<Longrightarrow> property_query t (p # ps)"
  using query_Cons [of t p "q # ps"] query_Cons [of t q ps] query_Cons [of t p ps] by blast

lemma time_refines: "TimeExecutor_concept t ps \<Longrightarrow> ConstrainedExecutor_concept t ps"
  unfolding TimeExecutor_concept_def ConstrainedExecutor_concept_def Executor_concept_def
  using query_without by blast

lemma constrained_refines: "ConstrainedExecutor_concept t ps \<Longrightarrow> Executor_concept t ps"
  unfolding ConstrainedExecutor_concept_def Executor_concept_def
  by (subst (asm) query_Cons [of _ Is_Constrained]) blast

lemma strand_refines: "Strand_concept t ps \<Longrightarrow> Executor_concept t ps \<and> FifoSequence t"
  unfolding Strand_concept_def Executor_concept_def FifoSequence_def
  by (subst (asm) query_Cons [of _ Is_Fifo_Sequence]) blast

lemma flow_sender_refines:
  "FlowSenderTo ok t r ps \<Longrightarrow> SenderTo ok t r ps \<and> FlowReceiver_concept r []"
  unfolding FlowSenderTo_def SenderTo_def Sender_concept_def by blast

lemma receiver_not_sender: "Receiver_concept t ps \<Longrightarrow> \<not> Sender_concept t qs"
  unfolding Receiver_concept_def Sender_concept_def by blast

section \<open>The executors of the library\<close>

text \<open>
  Their declared properties and operations: the inline executors, the new thread executor, the two
  executors of the trampoline, a strand and a time executor over an executor \<open>x\<close> (whose task type
  they depend on), and the erased executors.
\<close>

definition sender_type :: "property list \<Rightarrow> 'a cxx" where
  "sender_type ps = Cxx (Some ps) True False (\<lambda>_. False) (\<lambda>_. False) (\<lambda>_. False) None None None None None"

definition executor_type :: "property list \<Rightarrow> 'a cxx option \<Rightarrow> 'a cxx option \<Rightarrow> top_type option \<Rightarrow> 'a cxx" where
  "executor_type ps s a c = Cxx (Some ps) True False (\<lambda>_. False) (\<lambda>_. False) (\<lambda>_. False) s a c None None"

definition inline_task_type :: "'a cxx" where
  "inline_task_type = sender_type [Is_Sender, Is_Always_Blocking, Is_Single]"

definition inline_executor_type :: "'a cxx" where
  "inline_executor_type = executor_type [Is_Executor, Is_Fifo_Sequence] (Some inline_task_type) None None"

text \<open>\<open>top()\<close> returns \<open>0\<close>, an \<open>int\<close>, to which no second can be added; a time point can.\<close>

definition inline_constrained_executor_type :: "'a cxx" where
  "inline_constrained_executor_type =
     executor_type [Is_Constrained, Is_Fifo_Sequence] (Some inline_task_type) (Some inline_task_type)
       (Some \<lparr>tt_regular = True, tt_time_regular = False\<rparr>)"

definition inline_time_executor_type :: "'a cxx" where
  "inline_time_executor_type =
     executor_type [Is_Time, Is_Fifo_Sequence] (Some inline_task_type) (Some inline_task_type)
       (Some \<lparr>tt_regular = True, tt_time_regular = True\<rparr>)"

definition new_thread_executor_type :: "'a cxx" where
  "new_thread_executor_type =
     executor_type [Is_Executor, Is_Concurrent_Sequence]
       (Some (sender_type [Is_Sender, Is_Never_Blocking, Is_Single])) None None"

definition trampoline_task_type :: "'a cxx" where
  "trampoline_task_type = sender_type [Is_Sender, Is_Maybe_Blocking, Is_Single]"

definition delegator_type :: "'a cxx" where
  "delegator_type = executor_type [Is_Executor, Is_Fifo_Sequence] (Some trampoline_task_type) None None"

definition nester_type :: "'a cxx" where
  "nester_type = executor_type [Is_Executor, Is_Fifo_Sequence] (Some trampoline_task_type) None None"

text \<open>
  \<open>strand_task\<close> takes the blocking property of the executor's sender, and does not compile when there
  is none; \<open>time_source_task\<close> inserts \<open>is_never_blocking\<close> into the properties of that sender.
\<close>

definition task_properties :: "'a cxx \<Rightarrow> property list option" where
  "task_properties x = Option.bind (scheduled x) props"

definition strand_task_properties :: "property list \<Rightarrow> property list option" where
  "strand_task_properties ps =
     map_option (\<lambda>b. [Is_Sender, b, Is_Single]) (property_set_index ps Is_Never_Blocking)"

definition strand_executor_type :: "'a cxx \<Rightarrow> 'a cxx" where
  "strand_executor_type x =
     executor_type [Is_Executor, Is_Fifo_Sequence]
       (map_option sender_type (Option.bind (task_properties x) strand_task_properties)) None None"

definition time_source_task_properties :: "property list \<Rightarrow> property list" where
  "time_source_task_properties ps = property_set_insert ps [Is_Never_Blocking]"

definition time_source_executor_type :: "'a cxx \<Rightarrow> 'a cxx" where
  "time_source_executor_type x =
     (let task = map_option (\<lambda>ps. sender_type (time_source_task_properties ps)) (task_properties x)
      in executor_type [Is_Time, Is_Fifo_Sequence] task task (Some \<lparr>tt_regular = True, tt_time_regular = True\<rparr>))"

definition any_executor_type :: "'a cxx" where
  "any_executor_type = executor_type [Is_Executor] (Some (sender_type [Is_Sender, Is_Single])) None None"

definition any_constrained_executor_type :: "top_type \<Rightarrow> 'a cxx" where
  "any_constrained_executor_type c =
     executor_type [Is_Constrained] (Some (sender_type [Is_Sender, Is_Single]))
       (Some (sender_type [Is_Sender, Is_Single])) (Some c)"

definition any_time_executor_type :: "top_type \<Rightarrow> 'a cxx" where
  "any_time_executor_type c =
     executor_type [Is_Time] (Some (sender_type [Is_Sender, Is_Single]))
       (Some (sender_type [Is_Sender, Is_Single])) (Some c)"

lemmas type_defs = sender_type_def executor_type_def inline_task_type_def inline_executor_type_def
  inline_constrained_executor_type_def inline_time_executor_type_def new_thread_executor_type_def
  trampoline_task_type_def delegator_type_def nester_type_def any_executor_type_def
  any_constrained_executor_type_def any_time_executor_type_def

lemmas query_run = property_query_def category_query_def property_query_fn_def element_of_def is_base_of_def
  concept_defs trait_defs

lemma library_executor_types:
  "Strand_concept inline_executor_type []" "Strand_concept delegator_type []" "Strand_concept nester_type []"
  "ConstrainedExecutor_concept inline_constrained_executor_type [Is_Fifo_Sequence]"
  "TimeExecutor_concept inline_time_executor_type [Is_Fifo_Sequence]"
  "Executor_concept new_thread_executor_type [Is_Concurrent_Sequence]"
  "Executor_concept any_executor_type []"
  by (simp_all add: type_defs query_run)

text \<open>
  The concepts refine each other: a \<open>TimeExecutor\<close> is a \<open>ConstrainedExecutor\<close>, that an \<open>Executor\<close>,
  with the same further properties; a strand is a fifo executor; a flow sender to a receiver is a
  sender to it; and no type is both a \<open>Receiver\<close> and a \<open>Sender\<close>.
\<close>
theorem concept_refinement:
  "(TimeExecutor_concept t ps \<longrightarrow> ConstrainedExecutor_concept t ps) \<and>
   (ConstrainedExecutor_concept t ps \<longrightarrow> Executor_concept t ps) \<and>
   (Strand_concept t ps \<longrightarrow> Executor_concept t ps \<and> FifoSequence t) \<and>
   (FlowSenderTo ok t r ps \<longrightarrow> SenderTo ok t r ps \<and> FlowReceiver_concept r []) \<and>
   \<not> (Receiver_concept t ps \<and> Sender_concept t qs)"
  using time_refines constrained_refines strand_refines flow_sender_refines receiver_not_sender by blast

theorem concept_refinement_witness:
  "Executor_concept (inline_time_executor_type :: nat cxx) [Is_Fifo_Sequence] \<and>
   FifoSequence (inline_executor_type :: nat cxx)"
  using concept_refinement [of "inline_time_executor_type :: nat cxx" "[Is_Fifo_Sequence]"]
    concept_refinement [of "inline_executor_type :: nat cxx" "[]"] library_executor_types(1,5) by blast

section \<open>The property sets of the class templates\<close>

text \<open>
  A sender class that wraps \<open>Data\<close>, a receiver class, an executor class; \<open>sender_from\<close> chooses the
  sender class from the cardinality and the flow property of \<open>in\<close>.
\<close>

definition single_sender_properties :: "property list \<Rightarrow> property list" where
  "single_sender_properties ps = property_set_insert ps [Is_Sender, Is_Single]"

definition many_sender_properties :: "property list \<Rightarrow> property list" where
  "many_sender_properties ps = property_set_insert ps [Is_Sender, Is_Many]"

definition flow_single_sender_properties :: "property list \<Rightarrow> property list" where
  "flow_single_sender_properties ps = property_set_insert ps [Is_Sender, Is_Flow, Is_Single]"

definition flow_many_sender_properties :: "property list \<Rightarrow> property list" where
  "flow_many_sender_properties ps = property_set_insert ps [Is_Sender, Is_Flow, Is_Many]"

definition sender_from_properties :: "property list \<Rightarrow> property list option" where
  "sender_from_properties ps =
     (case (property_set_index ps Is_Single, property_query (Some ps) [Is_Flow]) of
        (Some Is_Single, False) \<Rightarrow> Some (single_sender_properties ps)
      | (Some Is_Many, False) \<Rightarrow> Some (many_sender_properties ps)
      | (Some Is_Single, True) \<Rightarrow> Some (flow_single_sender_properties ps)
      | (Some Is_Many, True) \<Rightarrow> Some (flow_many_sender_properties ps)
      | _ \<Rightarrow> None)"

definition receiver_data_properties :: "property list \<Rightarrow> property list" where
  "receiver_data_properties ps = property_set_insert ps [Is_Receiver]"

definition flow_receiver_data_properties :: "property list \<Rightarrow> property list" where
  "flow_receiver_data_properties ps = property_set_insert ps [Is_Receiver, Is_Flow]"

definition executor_data_properties :: "property list \<Rightarrow> property list" where
  "executor_data_properties ps = property_set_insert ps [Is_Executor]"

definition constrained_executor_data_properties :: "property list \<Rightarrow> property list" where
  "constrained_executor_data_properties ps = property_set_insert ps [Is_Constrained]"

definition time_executor_data_properties :: "property list \<Rightarrow> property list" where
  "time_executor_data_properties ps = property_set_insert ps [Is_Time]"

text \<open>\<open>just\<close>, and \<open>get\<close>, which submits with plain \<open>submit\<close> when its sender is \<open>AlwaysBlocking\<close>, and waits only otherwise.\<close>

definition just_properties :: "property list" where
  "just_properties = [Is_Sender, Is_Single, Is_Always_Blocking]"

definition get_waits :: "'a cxx \<Rightarrow> bool" where
  "get_waits t \<longleftrightarrow> \<not> AlwaysBlocking t"

lemma insert_present:
  assumes "distinct (map property_category ps)" "property_category ` set qs \<subseteq> property_category ` set ps"
  shows "property_set_insert ps qs = ps"
  using assms by (induction qs) (auto simp: insert_one_eq)

lemma query_category:
  assumes "property_query (Some ps) [p]"
  shows "property_category p \<in> property_category ` set ps"
proof -
  obtain q where "element_of (property_category p) ps = Some q"
    using assms by (auto simp: property_query_def property_query_fn_def split: option.splits)
  then have "q \<in> set ps" "property_category q = property_category p"
    by (auto simp: element_of_def find_Some_iff)
  then show ?thesis by (metis imageI)
qed

lemma cardinality_cases:
  assumes "property_category p = Cardinality_Category"
  obtains "p = Is_Single" | "p = Is_Many"
  using assms by (cases p) auto

text \<open>
  C33: \<open>sender_from\<close>, and with it every operator that is built on it (\<open>transform\<close>, \<open>filter\<close>, \<open>on\<close>, \<open>via\<close>
  and others), gives its result exactly the properties of its input: the cardinality, the flow and
  also the blocking property, whatever the operator does. \<open>just(x) | on(ex)\<close> therefore claims to be
  \<open>AlwaysBlocking\<close> for every executor, and \<open>get\<close> does not wait for it. Likewise the task of a time
  executor over a strand of the inline executor, which only queues its receiver, keeps the
  strand's \<open>is_always_blocking\<close>.
\<close>
theorem sender_from_keeps_properties:
  assumes "props t = Some ps" "UniqueCategory ps" "Sender_concept t []"
  shows "sender_from_properties ps = Some ps \<and>
    (\<exists>qs. sender_from_properties just_properties = Some qs \<and>
       \<not> get_waits (sender_type qs)) \<and>
    (\<exists>task. scheduled (time_source_executor_type (strand_executor_type inline_executor_type)) = Some task \<and>
       AlwaysBlocking task \<and> \<not> NeverBlocking task)"
proof (intro conjI)
  have d: "distinct (map property_category ps)" using assms(2) by (simp add: unique_category_iff)
  have sender: "Sender_Category \<in> property_category ` set ps"
    using query_category [of ps Is_Sender] assms by (simp add: concept_defs trait_defs)
  have "element_of Cardinality_Category ps \<noteq> None"
    using assms by (simp add: concept_defs trait_defs category_query_def)
  then obtain c where c: "element_of Cardinality_Category ps = Some c" by blast
  then have c2: "c \<in> set ps" "property_category c = Cardinality_Category" using element_of_Some [OF d] by auto
  then have card: "Cardinality_Category \<in> property_category ` set ps" by (metis imageI)
  have flow: "property_query (Some ps) [Is_Flow] \<Longrightarrow> Flow_Category \<in> property_category ` set ps"
    using query_category [of ps Is_Flow] by simp
  show "sender_from_properties ps = Some ps"
    using c2(2)
  proof (cases rule: cardinality_cases)
    case 1
    then show ?thesis using insert_present [OF d] sender card flow c
      by (cases "property_query (Some ps) [Is_Flow]")
         (simp_all add: sender_from_properties_def property_set_index_def single_sender_properties_def
            flow_single_sender_properties_def del: property_set_insert.simps)
  next
    case 2
    then show ?thesis using insert_present [OF d] sender card flow c
      by (cases "property_query (Some ps) [Is_Flow]")
         (simp_all add: sender_from_properties_def property_set_index_def many_sender_properties_def
            flow_many_sender_properties_def del: property_set_insert.simps)
  qed
  show "\<exists>qs. sender_from_properties just_properties = Some qs \<and>
       \<not> get_waits (sender_type qs)"
    by (simp add: sender_from_properties_def just_properties_def property_set_index_def element_of_def
        single_sender_properties_def property_set_insert_one_def property_query_def property_query_fn_def
        get_waits_def trait_defs is_base_of_def sender_type_def)
  show "\<exists>task. scheduled (time_source_executor_type (strand_executor_type inline_executor_type)) = Some task \<and>
       AlwaysBlocking task \<and> \<not> NeverBlocking task"
    by (simp add: time_source_executor_type_def strand_executor_type_def task_properties_def Let_def
        strand_task_properties_def time_source_task_properties_def property_set_index_def
        property_set_insert_one_def type_defs query_run)
qed

theorem sender_from_keeps_properties_witness:
  "sender_from_properties [Is_Sender, Is_Many, Is_Flow, Is_Always_Blocking] =
     Some [Is_Sender, Is_Many, Is_Flow, Is_Always_Blocking]"
  by (rule sender_from_keeps_properties
        [where t = "sender_type [Is_Sender, Is_Many, Is_Flow, Is_Always_Blocking]", THEN conjunct1])
     (simp_all add: sender_type_def unique_category_iff query_run)

end
