(* ===== verification/Opt.thy ===== *)
theory Opt
  imports Main
begin

text \<open>
  \<open>detail/opt.h\<close>, the optional value used where the standard library has none: a flag and raw storage
  in which an object is constructed and destroyed by hand. The storage says whether it holds a live
  object; an operation that constructs over a live object (a leak), or destroys, assigns to or
  reads one that is not there, is \<open>None\<close>. \<open>mv\<close> is the value that a move leaves behind.
\<close>

record 'a opt =
  op_empty :: bool
  op_data :: "'a option"

section \<open>The storage\<close>

definition construct :: "'a \<Rightarrow> 'a opt \<Rightarrow> 'a opt option" where
  "construct v s = (if op_data s = None then Some (s\<lparr>op_data := Some v\<rparr>) else None)"

definition destroy :: "'a opt \<Rightarrow> 'a opt option" where
  "destroy s = (if op_data s = None then None else Some (s\<lparr>op_data := None\<rparr>))"

definition assign :: "'a \<Rightarrow> 'a opt \<Rightarrow> 'a opt option" where
  "assign v s = (if op_data s = None then None else Some (s\<lparr>op_data := Some v\<rparr>))"

section \<open>The operations\<close>

definition opt_new :: "'a opt" where
  "opt_new = \<lparr>op_empty = True, op_data = None\<rparr>"

text \<open>\<open>operator bool\<close> and \<open>operator*\<close>, which does not look at the flag.\<close>

definition opt_bool :: "'a opt \<Rightarrow> bool" where
  "opt_bool s \<longleftrightarrow> \<not> op_empty s"

definition opt_deref :: "'a opt \<Rightarrow> 'a option" where
  "opt_deref s = op_data s"

definition opt_reset :: "'a opt \<Rightarrow> 'a opt option" where
  "opt_reset s =
     (if \<not> op_empty s then map_option (\<lambda>t. t\<lparr>op_empty := True\<rparr>) (destroy s) else Some s)"

definition opt_destroy :: "'a opt \<Rightarrow> 'a opt option" where
  "opt_destroy s = opt_reset s"

definition opt_fill :: "'a \<Rightarrow> 'a opt \<Rightarrow> 'a opt option" where
  "opt_fill v s = map_option (\<lambda>t. t\<lparr>op_empty := False\<rparr>) (construct v s)"

text \<open>Construction from a value.\<close>

definition opt_of :: "'a \<Rightarrow> 'a opt option" where
  "opt_of v = opt_fill v opt_new"

text \<open>The move constructor; the results are the new object and the source.\<close>

definition opt_move :: "('a \<Rightarrow> 'a) \<Rightarrow> 'a opt \<Rightarrow> ('a opt \<times> 'a opt) option" where
  "opt_move mv that =
     (if opt_bool that then
        Option.bind (opt_deref that) (\<lambda>v.
        Option.bind (opt_fill v opt_new) (\<lambda>new.
        Option.bind (assign (mv v) that) (\<lambda>that1.
        map_option (Pair new) (opt_reset that1))))
      else Some (opt_new, that))"

definition opt_copy :: "'a opt \<Rightarrow> 'a opt option" where
  "opt_copy that =
     (if opt_bool that then Option.bind (opt_deref that) (\<lambda>v. opt_fill v opt_new) else Some opt_new)"

text \<open>Move assignment: the third branch does not reset the source.\<close>

definition opt_assign_move :: "('a \<Rightarrow> 'a) \<Rightarrow> 'a opt \<Rightarrow> 'a opt \<Rightarrow> ('a opt \<times> 'a opt) option" where
  "opt_assign_move mv this that =
     (if opt_bool this \<and> opt_bool that then
        Option.bind (opt_deref that) (\<lambda>v.
        Option.bind (assign v this) (\<lambda>this1.
        Option.bind (assign (mv v) that) (\<lambda>that1.
        map_option (Pair this1) (opt_reset that1))))
      else if opt_bool this then map_option (\<lambda>t. (t, that)) (opt_reset this)
      else if opt_bool that then
        Option.bind (opt_deref that) (\<lambda>v.
        Option.bind (opt_fill v this) (\<lambda>this1.
        map_option (Pair this1) (assign (mv v) that)))
      else Some (this, that))"

definition opt_assign_copy :: "'a opt \<Rightarrow> 'a opt \<Rightarrow> 'a opt option" where
  "opt_assign_copy this that =
     (if opt_bool this \<and> opt_bool that then Option.bind (opt_deref that) (\<lambda>v. assign v this)
      else if opt_bool this then opt_reset this
      else if opt_bool that then Option.bind (opt_deref that) (\<lambda>v. opt_fill v this)
      else Some this)"

definition opt_assign_value :: "'a \<Rightarrow> 'a opt \<Rightarrow> 'a opt option" where
  "opt_assign_value v this = (if opt_bool this then assign v this else opt_fill v this)"

section \<open>What it means\<close>

definition opt_ok :: "'a opt \<Rightarrow> bool" where
  "opt_ok s \<longleftrightarrow> (op_empty s \<longleftrightarrow> op_data s = None)"

text \<open>The abstraction: a well-formed \<open>opt\<close> is an \<open>option\<close>.\<close>

definition opt_abs :: "'a opt \<Rightarrow> 'a option" where
  "opt_abs s = (if op_empty s then None else op_data s)"

lemmas opt_defs = construct_def destroy_def assign_def opt_new_def opt_bool_def opt_deref_def opt_reset_def
  opt_destroy_def opt_fill_def opt_of_def opt_move_def opt_copy_def opt_assign_move_def
  opt_assign_copy_def opt_assign_value_def opt_ok_def opt_abs_def

lemma opt_cases:
  assumes "opt_ok s"
  obtains (none) "s = \<lparr>op_empty = True, op_data = None\<rparr>" | (some) v where "s = \<lparr>op_empty = False, op_data = Some v\<rparr>"
  using assms by (cases s; cases "op_data s"; cases "op_empty s") (auto simp: opt_ok_def)

lemma opt_simple_ops:
  assumes "opt_ok s"
  shows "\<exists>t. opt_of v = Some t \<and> opt_ok t \<and> opt_abs t = Some v"
    and "\<exists>t. opt_copy s = Some t \<and> opt_ok t \<and> opt_abs t = opt_abs s"
    and "\<exists>t. opt_assign_value v s = Some t \<and> opt_ok t \<and> opt_abs t = Some v"
    and "\<exists>t. opt_destroy s = Some t \<and> op_data t = None"
  using assms by (cases rule: opt_cases; simp add: opt_defs)+

lemma opt_move_ok:
  assumes "opt_ok s"
  shows "\<exists>t s'. opt_move mv s = Some (t, s') \<and> opt_ok t \<and> opt_ok s' \<and> opt_abs t = opt_abs s \<and> opt_abs s' = None"
  using assms by (cases rule: opt_cases) (simp_all add: opt_defs)

lemma opt_assign_copy_ok:
  assumes "opt_ok t" "opt_ok s"
  shows "\<exists>t'. opt_assign_copy t s = Some t' \<and> opt_ok t' \<and> opt_abs t' = opt_abs s"
  using assms(1) by (cases rule: opt_cases; use assms(2) in \<open>cases rule: opt_cases\<close>; simp add: opt_defs)

lemma opt_assign_move_ok:
  assumes "opt_ok t" "opt_ok s"
  shows "\<exists>t' s'. opt_assign_move mv t s = Some (t', s') \<and> opt_ok t' \<and> opt_ok s' \<and> opt_abs t' = opt_abs s \<and>
    opt_abs s' = (if opt_abs t = None then map_option mv (opt_abs s) else None)"
  using assms(1) by (cases rule: opt_cases; use assms(2) in \<open>cases rule: opt_cases\<close>; simp add: opt_defs)

text \<open>
  C34: \<open>opt\<close> implements an optional value: on well-formed objects no operation leaks an object,
  destroys, assigns or reads one that is not there, and each has the effect of the same operation on
  \<open>option\<close>. A move empties its source, with one exception: move assignment to an empty target
  leaves the moved-from value in it. (Source and target are distinct objects.)
\<close>
theorem opt_refines_option:
  assumes "opt_ok t" "opt_ok s"
  shows "(\<exists>u. opt_copy s = Some u \<and> opt_ok u \<and> opt_abs u = opt_abs s) \<and>
    (\<exists>u. opt_assign_copy t s = Some u \<and> opt_ok u \<and> opt_abs u = opt_abs s) \<and>
    (\<exists>u. opt_assign_value v t = Some u \<and> opt_ok u \<and> opt_abs u = Some v) \<and>
    (\<exists>u s'. opt_move mv s = Some (u, s') \<and> opt_ok u \<and> opt_ok s' \<and> opt_abs u = opt_abs s \<and> opt_abs s' = None) \<and>
    (\<exists>u s'. opt_assign_move mv t s = Some (u, s') \<and> opt_ok u \<and> opt_ok s' \<and> opt_abs u = opt_abs s \<and>
       opt_abs s' = (if opt_abs t = None then map_option mv (opt_abs s) else None)) \<and>
    (\<exists>u. opt_destroy s = Some u \<and> op_data u = None)"
  by (intro conjI opt_simple_ops(2,4) [OF assms(2)] opt_simple_ops(3) [OF assms(1)]
      opt_assign_copy_ok [OF assms] opt_move_ok [OF assms(2)] opt_assign_move_ok [OF assms])

theorem opt_refines_option_witness:
  "\<exists>u s'. opt_assign_move (\<lambda>v. 0) opt_new \<lparr>op_empty = False, op_data = Some (5 :: nat)\<rparr> = Some (u, s') \<and>
     opt_abs u = Some 5 \<and> opt_abs s' = Some 0"
proof -
  have ok: "opt_ok (opt_new :: nat opt)" "opt_ok \<lparr>op_empty = False, op_data = Some (5 :: nat)\<rparr>"
    by (simp_all add: opt_ok_def opt_new_def)
  have abs: "opt_abs \<lparr>op_empty = False, op_data = Some (5 :: nat)\<rparr> = Some 5" "opt_abs (opt_new :: nat opt) = None"
    by (simp_all add: opt_abs_def opt_new_def)
  from opt_refines_option [OF ok, of undefined "\<lambda>v. 0", unfolded abs] show ?thesis by auto
qed

end
