(* ===== verification/Make_Receiver.thy ===== *)
theory Make_Receiver
  imports Main
begin

text \<open>
  The overloads of \<open>make_receiver\<close> (\<open>receiver.h\<close>) and \<open>make_flow_receiver\<close> (\<open>flow_receiver.h\<close>), the
  deduction guides that say the same for class template argument deduction, and \<open>overload_fn\<close> of
  \<open>boosters.h\<close>. An argument is described by what the overloads ask of its type; an overload by the
  patterns of its parameters, its constraint and the template arguments of its result; and
  overload resolution by viability and partial ordering. The tables are those of a compiler
  without concepts, where \<open>PUSHMI_BROKEN_SUBSUMPTION\<close> keeps its argument.
\<close>

section \<open>Overload resolution\<close>

text \<open>
  An argument: whether it is an \<open>on_value\<close>, \<open>on_error\<close> or \<open>on_done\<close> object, whether it is a receiver
  to wrap (\<open>ReceiverDataArg\<close>, \<open>FlowReceiverDataArg\<close>), and whether it can be called without
  arguments (\<open>Invocable<T&>\<close>) or with the first argument alone (\<open>Invocable<T&, Data&>\<close>).
\<close>

datatype wrapper = Plain | On_Value | On_Error | On_Done

record arg =
  ar_wrap :: wrapper
  ar_data :: bool
  ar_nullary :: bool
  ar_on_data :: bool

text \<open>What \<open>ReceiverDataArg\<close> implies by its definition.\<close>

definition arg_ok :: "arg \<Rightarrow> bool" where
  "arg_ok a \<longleftrightarrow> (ar_data a \<longrightarrow> \<not> ar_nullary a \<and> ar_wrap a = Plain)"

text \<open>A parameter: a template parameter, or a specialisation of \<open>on_error_fn\<close> or \<open>on_done_fn\<close>.\<close>

datatype param = Any | Error_Fn | Done_Fn

text \<open>
  A template argument of the result: the type of an argument, or a class of \<open>boosters.h\<close> (those of
  the receivers first, then those of the executors).
\<close>

datatype slot = Arg nat
  | IgnoreVF | AbortEF | IgnoreDF | IgnoreStrtF | PassDVF | PassDEF | PassDDF | PassDStrtF
  | IgnoreSF | PassDSF | PriorityZeroF | PassDZF | SystemNowF | PassDNF

record ctor =
  ct_params :: "param list"
  ct_ok :: "arg list \<Rightarrow> bool"
  ct_class :: "slot list"

abbreviation ctor_of :: "param list \<Rightarrow> (arg list \<Rightarrow> bool) \<Rightarrow> slot list \<Rightarrow> ctor" where
  "ctor_of ps ok c \<equiv> \<lparr>ct_params = ps, ct_ok = ok, ct_class = c\<rparr>"

fun accepts :: "param \<Rightarrow> arg \<Rightarrow> bool" where
  "accepts Any a = True"
| "accepts Error_Fn a = (ar_wrap a = On_Error)"
| "accepts Done_Fn a = (ar_wrap a = On_Done)"

definition viable :: "arg list \<Rightarrow> ctor \<Rightarrow> bool" where
  "viable args c \<longleftrightarrow> list_all2 accepts (ct_params c) args \<and> ct_ok c args"

text \<open>At least as specialised, parameter by parameter.\<close>

definition specialised :: "ctor \<Rightarrow> ctor \<Rightarrow> bool" where
  "specialised c d \<longleftrightarrow> list_all2 (\<lambda>p q. q = Any \<or> p = q) (ct_params c) (ct_params d)"

text \<open>The call is ambiguous, and does not compile, unless exactly one viable overload is the best.\<close>

definition resolve :: "ctor list \<Rightarrow> arg list \<Rightarrow> slot list option" where
  "resolve cs args =
     (let v = filter (viable args) cs
      in case filter (\<lambda>c. list_all (specialised c) v) v of [c] \<Rightarrow> Some (ct_class c) | _ \<Rightarrow> None)"

abbreviation data_first :: "arg list \<Rightarrow> bool" where
  "data_first args \<equiv> ar_data (args ! 0)"

section \<open>\<open>make_receiver\<close> and the guides of \<open>receiver\<close>\<close>

definition make_receiver_overloads :: "ctor list" where
  "make_receiver_overloads =
    [ctor_of [] (\<lambda>a. True) [IgnoreVF, AbortEF, IgnoreDF],
     ctor_of [Any] (\<lambda>a. \<not> data_first a) [Arg 0, AbortEF, IgnoreDF],
     ctor_of [Error_Fn] (\<lambda>a. True) [IgnoreVF, Arg 0, IgnoreDF],
     ctor_of [Done_Fn] (\<lambda>a. True) [IgnoreVF, AbortEF, Arg 0],
     ctor_of [Any, Any] (\<lambda>a. \<not> data_first a \<and> \<not> ar_nullary (a ! 1)) [Arg 0, Arg 1, IgnoreDF],
     ctor_of [Any, Any] (\<lambda>a. ar_nullary (a ! 1) \<and> \<not> data_first a) [IgnoreVF, Arg 0, Arg 1],
     ctor_of [Any, Any, Any] (\<lambda>a. ar_nullary (a ! 2) \<and> \<not> data_first a) [Arg 0, Arg 1, Arg 2],
     ctor_of [Any] data_first [Arg 0, PassDVF, PassDEF, PassDDF],
     ctor_of [Any, Any] data_first [Arg 0, Arg 1, PassDEF, PassDDF],
     ctor_of [Any, Error_Fn] data_first [Arg 0, PassDVF, Arg 1, PassDDF],
     ctor_of [Any, Done_Fn] data_first [Arg 0, PassDVF, PassDEF, Arg 1],
     ctor_of [Any, Any, Error_Fn] data_first [Arg 0, Arg 1, Arg 2, PassDDF],
     ctor_of [Any, Any, Done_Fn] data_first [Arg 0, PassDVF, Arg 1, Arg 2],
     ctor_of [Any, Any, Any, Any] (\<lambda>a. data_first a \<and> ar_on_data (a ! 3)) [Arg 0, Arg 1, Arg 2, Arg 3]]"

definition make_receiver :: "arg list \<Rightarrow> slot list option" where
  "make_receiver = resolve make_receiver_overloads"

definition receiver_guides :: "ctor list" where
  "receiver_guides =
    [ctor_of [] (\<lambda>a. True) [IgnoreVF, AbortEF, IgnoreDF],
     ctor_of [Any] (\<lambda>a. \<not> data_first a) [Arg 0, AbortEF, IgnoreDF],
     ctor_of [Error_Fn] (\<lambda>a. True) [IgnoreVF, Arg 0, IgnoreDF],
     ctor_of [Done_Fn] (\<lambda>a. True) [IgnoreVF, AbortEF, Arg 0],
     ctor_of [Any, Any] (\<lambda>a. \<not> data_first a \<and> \<not> ar_nullary (a ! 1)) [Arg 0, Arg 1, IgnoreDF],
     ctor_of [Any, Any] (\<lambda>a. ar_nullary (a ! 1) \<and> \<not> data_first a) [IgnoreVF, Arg 0, Arg 1],
     ctor_of [Any, Any, Any] (\<lambda>a. ar_nullary (a ! 2) \<and> \<not> data_first a) [Arg 0, Arg 1, Arg 2],
     ctor_of [Any] data_first [Arg 0, PassDVF, PassDEF, PassDDF],
     ctor_of [Any, Any] data_first [Arg 0, Arg 1, PassDEF, PassDDF],
     ctor_of [Any, Error_Fn] data_first [Arg 0, PassDVF, Arg 1, PassDDF],
     ctor_of [Any, Done_Fn] data_first [Arg 0, PassDVF, PassDEF, Arg 1],
     ctor_of [Any, Any, Error_Fn] data_first [Arg 0, Arg 1, Arg 2, PassDDF],
     ctor_of [Any, Any, Done_Fn] (\<lambda>a. data_first a \<and> \<not> ar_on_data (a ! 1)) [Arg 0, PassDVF, Arg 1, Arg 2],
     ctor_of [Any, Any, Any, Any] (\<lambda>a. data_first a \<and> ar_on_data (a ! 3)) [Arg 0, Arg 1, Arg 2, Arg 3]]"

section \<open>\<open>make_flow_receiver\<close> and the guides of \<open>flow_receiver\<close>\<close>

definition make_flow_receiver_overloads :: "ctor list" where
  "make_flow_receiver_overloads =
    [ctor_of [] (\<lambda>a. True) [IgnoreVF, AbortEF, IgnoreDF, IgnoreStrtF],
     ctor_of [Any] (\<lambda>a. \<not> data_first a) [Arg 0, AbortEF, IgnoreDF, IgnoreStrtF],
     ctor_of [Error_Fn] (\<lambda>a. True) [IgnoreVF, Arg 0, IgnoreDF, IgnoreStrtF],
     ctor_of [Done_Fn] (\<lambda>a. True) [IgnoreVF, AbortEF, Arg 0, IgnoreStrtF],
     ctor_of [Any, Any] (\<lambda>a. \<not> data_first a \<and> \<not> ar_nullary (a ! 1)) [Arg 0, Arg 1, IgnoreDF, IgnoreStrtF],
     ctor_of [Any, Any] (\<lambda>a. ar_nullary (a ! 1) \<and> \<not> data_first a) [IgnoreVF, Arg 0, Arg 1, IgnoreStrtF],
     ctor_of [Any, Any, Any] (\<lambda>a. ar_nullary (a ! 2) \<and> \<not> data_first a) [Arg 0, Arg 1, Arg 2, IgnoreStrtF],
     ctor_of [Any, Any, Any, Any] (\<lambda>a. ar_nullary (a ! 2) \<and> \<not> data_first a) [Arg 0, Arg 1, Arg 2, Arg 3],
     ctor_of [Any] data_first [Arg 0, PassDVF, PassDEF, PassDDF, PassDStrtF],
     ctor_of [Any, Any] data_first [Arg 0, Arg 1, PassDEF, PassDDF, PassDStrtF],
     ctor_of [Any, Error_Fn] data_first [Arg 0, PassDVF, Arg 1, PassDDF, PassDStrtF],
     ctor_of [Any, Done_Fn] data_first [Arg 0, PassDVF, PassDEF, Arg 1, PassDStrtF],
     ctor_of [Any, Any, Any] (\<lambda>a. data_first a \<and> \<not> ar_on_data (a ! 2)) [Arg 0, Arg 1, Arg 2, PassDDF, PassDStrtF],
     ctor_of [Any, Any, Any] (\<lambda>a. data_first a \<and> ar_on_data (a ! 2)) [Arg 0, PassDVF, Arg 1, Arg 2, PassDStrtF],
     ctor_of [Any, Any, Any, Any] (\<lambda>a. data_first a \<and> ar_on_data (a ! 3)) [Arg 0, Arg 1, Arg 2, Arg 3, PassDStrtF],
     ctor_of [Any, Any, Any, Any, Any] (\<lambda>a. data_first a \<and> ar_on_data (a ! 3)) [Arg 0, Arg 1, Arg 2, Arg 3, Arg 4]]"

definition make_flow_receiver :: "arg list \<Rightarrow> slot list option" where
  "make_flow_receiver = resolve make_flow_receiver_overloads"

definition flow_receiver_guides :: "ctor list" where
  "flow_receiver_guides =
    [ctor_of [] (\<lambda>a. True) [IgnoreVF, AbortEF, IgnoreDF, IgnoreStrtF],
     ctor_of [Any] (\<lambda>a. \<not> data_first a) [Arg 0, AbortEF, IgnoreDF, IgnoreStrtF],
     ctor_of [Error_Fn] (\<lambda>a. True) [IgnoreVF, Arg 0, IgnoreDF, IgnoreStrtF],
     ctor_of [Done_Fn] (\<lambda>a. True) [IgnoreVF, AbortEF, Arg 0, IgnoreStrtF],
     ctor_of [Any, Any] (\<lambda>a. \<not> data_first a \<and> \<not> ar_nullary (a ! 1)) [Arg 0, Arg 1, IgnoreDF, IgnoreStrtF],
     ctor_of [Any, Any] (\<lambda>a. ar_nullary (a ! 1) \<and> \<not> data_first a) [IgnoreVF, Arg 0, Arg 1, IgnoreStrtF],
     ctor_of [Any, Any, Any] (\<lambda>a. ar_nullary (a ! 2) \<and> \<not> data_first a) [Arg 0, Arg 1, Arg 2, IgnoreStrtF],
     ctor_of [Any, Any, Any, Any] (\<lambda>a. ar_nullary (a ! 2) \<and> \<not> data_first a) [Arg 0, Arg 1, Arg 2, Arg 3],
     ctor_of [Any] data_first [Arg 0, PassDVF, PassDEF, PassDDF, PassDStrtF],
     ctor_of [Any, Any] data_first [Arg 0, Arg 1, PassDEF, PassDDF, PassDStrtF],
     ctor_of [Any, Error_Fn] data_first [Arg 0, PassDVF, Arg 1, PassDDF, PassDStrtF],
     ctor_of [Any, Done_Fn] data_first [Arg 0, PassDVF, PassDEF, Arg 1, PassDStrtF],
     ctor_of [Any, Any, Any] (\<lambda>a. data_first a \<and> \<not> ar_on_data (a ! 2)) [Arg 0, Arg 1, Arg 2, PassDDF, PassDStrtF],
     ctor_of [Any, Any, Any] (\<lambda>a. data_first a \<and> ar_on_data (a ! 2)) [Arg 0, PassDVF, Arg 1, Arg 2, PassDStrtF],
     ctor_of [Any, Any, Any, Any] (\<lambda>a. data_first a \<and> ar_on_data (a ! 3)) [Arg 0, Arg 1, Arg 2, Arg 3, PassDStrtF],
     ctor_of [Any, Any, Any, Any, Any] (\<lambda>a. data_first a \<and> ar_on_data (a ! 3)) [Arg 0, Arg 1, Arg 2, Arg 3, Arg 4]]"

section \<open>Which arguments go where\<close>

text \<open>The arguments that a class keeps, in the order of its members.\<close>

fun kept :: "slot list \<Rightarrow> nat list" where
  "kept [] = []"
| "kept (Arg n # ss) = n # kept ss"
| "kept (_ # ss) = kept ss"

text \<open>The specification: the meaning of a list of arguments, by its length and their kinds.\<close>

fun receiver_meaning :: "arg list \<Rightarrow> slot list option" where
  "receiver_meaning [] = Some [IgnoreVF, AbortEF, IgnoreDF]"
| "receiver_meaning [a] =
     Some (if ar_data a then [Arg 0, PassDVF, PassDEF, PassDDF]
           else if ar_wrap a = On_Error then [IgnoreVF, Arg 0, IgnoreDF]
           else if ar_wrap a = On_Done then [IgnoreVF, AbortEF, Arg 0]
           else [Arg 0, AbortEF, IgnoreDF])"
| "receiver_meaning [a, b] =
     Some (if ar_data a then
             (if ar_wrap b = On_Error then [Arg 0, PassDVF, Arg 1, PassDDF]
              else if ar_wrap b = On_Done then [Arg 0, PassDVF, PassDEF, Arg 1]
              else [Arg 0, Arg 1, PassDEF, PassDDF])
           else if ar_nullary b then [IgnoreVF, Arg 0, Arg 1]
           else [Arg 0, Arg 1, IgnoreDF])"
| "receiver_meaning [a, b, c] =
     (if ar_data a then
        (if ar_wrap c = On_Error then Some [Arg 0, Arg 1, Arg 2, PassDDF]
         else if ar_wrap c = On_Done then Some [Arg 0, PassDVF, Arg 1, Arg 2]
         else None)
      else if ar_nullary c then Some [Arg 0, Arg 1, Arg 2] else None)"
| "receiver_meaning [a, b, c, d] =
     (if ar_data a \<and> ar_on_data d then Some [Arg 0, Arg 1, Arg 2, Arg 3] else None)"
| "receiver_meaning _ = None"

fun flow_receiver_meaning :: "arg list \<Rightarrow> slot list option" where
  "flow_receiver_meaning [] = Some [IgnoreVF, AbortEF, IgnoreDF, IgnoreStrtF]"
| "flow_receiver_meaning [a] =
     Some (if ar_data a then [Arg 0, PassDVF, PassDEF, PassDDF, PassDStrtF]
           else if ar_wrap a = On_Error then [IgnoreVF, Arg 0, IgnoreDF, IgnoreStrtF]
           else if ar_wrap a = On_Done then [IgnoreVF, AbortEF, Arg 0, IgnoreStrtF]
           else [Arg 0, AbortEF, IgnoreDF, IgnoreStrtF])"
| "flow_receiver_meaning [a, b] =
     Some (if ar_data a then
             (if ar_wrap b = On_Error then [Arg 0, PassDVF, Arg 1, PassDDF, PassDStrtF]
              else if ar_wrap b = On_Done then [Arg 0, PassDVF, PassDEF, Arg 1, PassDStrtF]
              else [Arg 0, Arg 1, PassDEF, PassDDF, PassDStrtF])
           else if ar_nullary b then [IgnoreVF, Arg 0, Arg 1, IgnoreStrtF]
           else [Arg 0, Arg 1, IgnoreDF, IgnoreStrtF])"
| "flow_receiver_meaning [a, b, c] =
     (if ar_data a then
        Some (if ar_on_data c then [Arg 0, PassDVF, Arg 1, Arg 2, PassDStrtF]
              else [Arg 0, Arg 1, Arg 2, PassDDF, PassDStrtF])
      else if ar_nullary c then Some [Arg 0, Arg 1, Arg 2, IgnoreStrtF] else None)"
| "flow_receiver_meaning [a, b, c, d] =
     (if ar_data a then if ar_on_data d then Some [Arg 0, Arg 1, Arg 2, Arg 3, PassDStrtF] else None
      else if ar_nullary c then Some [Arg 0, Arg 1, Arg 2, Arg 3] else None)"
| "flow_receiver_meaning [a, b, c, d, e] =
     (if ar_data a \<and> ar_on_data d then Some [Arg 0, Arg 1, Arg 2, Arg 3, Arg 4] else None)"
| "flow_receiver_meaning _ = None"

lemmas resolve_defs = resolve_def viable_def specialised_def Let_def

lemma wrapper_cases: "w = Plain \<or> w = On_Value \<or> w = On_Error \<or> w = On_Done"
  by (cases w) auto

lemma accepts_wrap [simp]: "accepts p a \<longleftrightarrow> (p = Error_Fn \<longrightarrow> ar_wrap a = On_Error) \<and> (p = Done_Fn \<longrightarrow> ar_wrap a = On_Done)"
  by (cases p) auto

declare accepts.simps [simp del]

lemma at_most_four:
  fixes args :: "arg list"
  obtains "args = []" | a where "args = [a]" | a b where "args = [a, b]" | a b c where "args = [a, b, c]"
  | a b c d where "args = [a, b, c, d]" | a b c d e fs where "args = a # b # c # d # e # fs"
  by (cases args rule: receiver_meaning.cases) auto

lemma make_receiver_meaning:
  assumes "list_all arg_ok args"
  shows "make_receiver args = receiver_meaning args"
  using assms
  by (cases args rule: at_most_four)
     (simp_all add: make_receiver_def resolve_defs make_receiver_overloads_def arg_ok_def)

lemma receiver_guides_meaning:
  assumes "list_all arg_ok args"
  shows "resolve receiver_guides args =
    (if length args = 3 \<and> ar_data (args ! 0) \<and> ar_wrap (args ! 2) = On_Done \<and> ar_on_data (args ! 1)
     then None else receiver_meaning args)"
  using assms
  by (cases args rule: at_most_four)
     (simp_all add: resolve_defs receiver_guides_def arg_ok_def)

lemma flow_guides_same: "flow_receiver_guides = make_flow_receiver_overloads"
  by (simp add: flow_receiver_guides_def make_flow_receiver_overloads_def)

lemma at_most_five:
  fixes args :: "arg list"
  obtains "args = []" | a where "args = [a]" | a b where "args = [a, b]" | a b c where "args = [a, b, c]"
  | a b c d where "args = [a, b, c, d]" | a b c d e where "args = [a, b, c, d, e]"
  | a b c d e f fs where "args = a # b # c # d # e # f # fs"
  by (cases args rule: flow_receiver_meaning.cases) auto

lemma make_flow_receiver_meaning:
  assumes "list_all arg_ok args"
  shows "make_flow_receiver args = flow_receiver_meaning args"
  using assms
  by (cases args rule: at_most_five)
     (simp_all add: make_flow_receiver_def resolve_defs make_flow_receiver_overloads_def arg_ok_def)

lemma receiver_meaning_kept: "receiver_meaning args = Some c \<Longrightarrow> kept c = [0..<length args]"
  by (cases args rule: at_most_four) (auto split: if_splits)

lemma flow_receiver_meaning_kept: "flow_receiver_meaning args = Some c \<Longrightarrow> kept c = [0..<length args]"
  by (cases args rule: at_most_five) (auto split: if_splits)

text \<open>
  \<open>make_receiver\<close> and \<open>make_flow_receiver\<close> are never ambiguous: each list of arguments selects the
  class that its length and the kinds of its arguments mean, or none, and the class selected keeps
  every argument exactly once, in order; what is not given is filled with the defaults.
\<close>
theorem make_receiver_resolves:
  assumes "list_all arg_ok args"
  shows "make_receiver args = receiver_meaning args \<and> make_flow_receiver args = flow_receiver_meaning args \<and>
    (\<forall>c. make_receiver args = Some c \<or> make_flow_receiver args = Some c \<longrightarrow> kept c = [0..<length args])"
  using make_receiver_meaning [OF assms] make_flow_receiver_meaning [OF assms]
    receiver_meaning_kept flow_receiver_meaning_kept by metis

theorem make_receiver_resolves_witness:
  "make_receiver [\<lparr>ar_wrap = Plain, ar_data = True, ar_nullary = False, ar_on_data = False\<rparr>,
      \<lparr>ar_wrap = On_Error, ar_data = False, ar_nullary = False, ar_on_data = False\<rparr>] =
    Some [Arg 0, PassDVF, Arg 1, PassDDF]"
  by (subst make_receiver_resolves [THEN conjunct1]) (simp_all add: arg_ok_def)

text \<open>
  Class template argument deduction agrees with the \<open>make\<close> functions for every list of arguments,
  with one exception: for a receiver to wrap, an error function and an \<open>on_done\<close>, where the error
  function can be called with the receiver alone, \<open>make_receiver\<close> has a result and \<open>receiver\<close> has
  no guide.
\<close>
theorem receiver_guides_agree:
  assumes "list_all arg_ok args"
  shows "resolve flow_receiver_guides args = make_flow_receiver args \<and>
    (resolve receiver_guides args = make_receiver args \<longleftrightarrow>
       \<not> (length args = 3 \<and> ar_data (args ! 0) \<and> ar_wrap (args ! 2) = On_Done \<and> ar_on_data (args ! 1)))"
proof
  show "resolve flow_receiver_guides args = make_flow_receiver args"
    by (simp add: make_flow_receiver_def flow_guides_same)
  show "resolve receiver_guides args = make_receiver args \<longleftrightarrow>
       \<not> (length args = 3 \<and> ar_data (args ! 0) \<and> ar_wrap (args ! 2) = On_Done \<and> ar_on_data (args ! 1))"
    unfolding receiver_guides_meaning [OF assms] make_receiver_meaning [OF assms]
    using assms by (cases args rule: at_most_four) auto
qed

theorem receiver_guides_agree_witness:
  "resolve receiver_guides [\<lparr>ar_wrap = Plain, ar_data = True, ar_nullary = False, ar_on_data = False\<rparr>,
      \<lparr>ar_wrap = Plain, ar_data = False, ar_nullary = False, ar_on_data = True\<rparr>,
      \<lparr>ar_wrap = On_Done, ar_data = False, ar_nullary = False, ar_on_data = True\<rparr>] \<noteq>
    make_receiver [\<lparr>ar_wrap = Plain, ar_data = True, ar_nullary = False, ar_on_data = False\<rparr>,
      \<lparr>ar_wrap = Plain, ar_data = False, ar_nullary = False, ar_on_data = True\<rparr>,
      \<lparr>ar_wrap = On_Done, ar_data = False, ar_nullary = False, ar_on_data = True\<rparr>]"
  by (subst receiver_guides_agree [THEN conjunct2]) (simp_all add: arg_ok_def)

text \<open>
  An \<open>on_error\<close> that can also be called without arguments (a variadic lambda) is taken for the done
  function when it is the second of two, and the value function for the error function.
\<close>

lemma nullary_error_is_done:
  assumes "ar_wrap b = On_Error" "ar_nullary b" "\<not> ar_data a"
  shows "make_receiver [a, b] = Some [IgnoreVF, Arg 0, Arg 1]"
  using assms by (simp add: make_receiver_def resolve_defs make_receiver_overloads_def)

section \<open>\<open>overload_fn\<close>\<close>

text \<open>
  A function object: what a call on a const or a non-const object with given arguments returns, if
  it is invocable so.
\<close>

type_synonym ('a, 'r) fn = "bool \<Rightarrow> 'a \<Rightarrow> 'r option"

fun overload_fn :: "('a, 'r) fn list \<Rightarrow> ('a, 'r) fn" where
  "overload_fn [] = (\<lambda>const args. None)"
| "overload_fn [f] = f"
| "overload_fn (f # fs) = (\<lambda>const args.
     let invocable = (f const args \<noteq> None)
     in ([f, overload_fn fs] ! (if \<not> invocable then 1 else 0)) const args)"

definition overload :: "('a, 'r) fn list \<Rightarrow> ('a, 'r) fn" where
  "overload fs = overload_fn fs"

definition on_value_fns :: "('a, 'r) fn list \<Rightarrow> wrapper \<times> ('a, 'r) fn" where
  "on_value_fns fs = (On_Value, overload_fn fs)"

definition on_error_fns :: "('a, 'r) fn list \<Rightarrow> wrapper \<times> ('a, 'r) fn" where
  "on_error_fns fs = (On_Error, overload_fn fs)"

definition on_done_fns :: "('a, 'r) fn \<Rightarrow> wrapper \<times> ('a, 'r) fn" where
  "on_done_fns f = (On_Done, f)"

text \<open>The order of the functions decides, not how well they fit: the first that can be called is.\<close>

lemma overload_first:
  "overload fs const args = Option.bind (find (\<lambda>f. f const args \<noteq> None) fs) (\<lambda>f. f const args)"
  unfolding overload_def by (induction fs rule: overload_fn.induct) (auto simp: Let_def)

end
