(* ===== verification/Make_Executor.thy ===== *)
theory Make_Executor
  imports Make_Receiver
begin

text \<open>
  The overloads of \<open>make_executor\<close>, \<open>make_constrained_executor\<close> and \<open>make_time_executor\<close>
  (\<open>executor.h\<close>) and the deduction guides of the same classes, in the form of \<open>Make_Receiver\<close>: here
  \<open>ar_data\<close> tells that the argument is an executor of the kind that is wrapped. The second part asks
  which of the classes can be scheduled at all with the functions that the tables fill in.
\<close>

section \<open>The tables\<close>

definition make_executor_overloads :: "ctor list" where
  "make_executor_overloads =
    [ctor_of [] (\<lambda>a. True) [IgnoreSF],
     ctor_of [Any] (\<lambda>a. \<not> data_first a) [Arg 0],
     ctor_of [Any] data_first [Arg 0, PassDSF],
     ctor_of [Any, Any] data_first [Arg 0, Arg 1]]"

definition executor_guides :: "ctor list" where
  "executor_guides =
    [ctor_of [] (\<lambda>a. True) [IgnoreSF],
     ctor_of [Any] (\<lambda>a. \<not> data_first a) [Arg 0],
     ctor_of [Any] data_first [Arg 0, PassDSF],
     ctor_of [Any, Any] data_first [Arg 0, Arg 1]]"

definition make_executor :: "arg list \<Rightarrow> slot list option" where
  "make_executor = resolve make_executor_overloads"

definition make_constrained_executor_overloads :: "ctor list" where
  "make_constrained_executor_overloads =
    [ctor_of [] (\<lambda>a. True) [IgnoreSF, PriorityZeroF],
     ctor_of [Any] (\<lambda>a. \<not> data_first a) [Arg 0, PriorityZeroF],
     ctor_of [Any, Any] (\<lambda>a. \<not> data_first a) [Arg 0, Arg 1],
     ctor_of [Any] data_first [Arg 0, PassDSF, PassDZF],
     ctor_of [Any, Any] data_first [Arg 0, Arg 1, PassDZF],
     ctor_of [Any, Any, Any] data_first [Arg 0, Arg 1, Arg 2]]"

definition constrained_executor_guides :: "ctor list" where
  "constrained_executor_guides =
    [ctor_of [] (\<lambda>a. True) [IgnoreSF, PriorityZeroF],
     ctor_of [Any] (\<lambda>a. \<not> data_first a) [Arg 0, PriorityZeroF],
     ctor_of [Any, Any] (\<lambda>a. \<not> data_first a) [Arg 0, Arg 1],
     ctor_of [Any] data_first [Arg 0, PassDSF, PassDZF],
     ctor_of [Any, Any] data_first [Arg 0, Arg 1, PassDZF],
     ctor_of [Any, Any, Any] data_first [Arg 0, Arg 1, Arg 2]]"

definition make_constrained_executor :: "arg list \<Rightarrow> slot list option" where
  "make_constrained_executor = resolve make_constrained_executor_overloads"

definition make_time_executor_overloads :: "ctor list" where
  "make_time_executor_overloads =
    [ctor_of [] (\<lambda>a. True) [IgnoreSF, SystemNowF],
     ctor_of [Any] (\<lambda>a. \<not> data_first a) [Arg 0, SystemNowF],
     ctor_of [Any, Any] (\<lambda>a. \<not> data_first a) [Arg 0, Arg 1],
     ctor_of [Any] data_first [Arg 0, PassDSF, PassDNF],
     ctor_of [Any, Any] data_first [Arg 0, Arg 1, PassDNF],
     ctor_of [Any, Any, Any] data_first [Arg 0, Arg 1, Arg 2]]"

definition time_executor_guides :: "ctor list" where
  "time_executor_guides =
    [ctor_of [] (\<lambda>a. True) [IgnoreSF, SystemNowF],
     ctor_of [Any] (\<lambda>a. \<not> data_first a) [Arg 0, SystemNowF],
     ctor_of [Any, Any] (\<lambda>a. \<not> data_first a) [Arg 0, Arg 1],
     ctor_of [Any] data_first [Arg 0, PassDSF, PassDNF],
     ctor_of [Any, Any] data_first [Arg 0, Arg 1, PassDNF],
     ctor_of [Any, Any, Any] data_first [Arg 0, Arg 1, Arg 2]]"

definition make_time_executor :: "arg list \<Rightarrow> slot list option" where
  "make_time_executor = resolve make_time_executor_overloads"

section \<open>What can be scheduled\<close>

text \<open>
  With how many arguments the function of a slot can be called; \<open>user i n\<close> says it of the \<open>i\<close>-th
  argument of the \<open>make\<close> function. \<open>ignoreSF\<close> and \<open>passDSF\<close> are the submit functions of the senders:
  the one takes one or two arguments, the other a sender, possibly a time point, and a receiver.
\<close>

fun callable_with :: "(nat \<Rightarrow> nat \<Rightarrow> bool) \<Rightarrow> slot \<Rightarrow> nat \<Rightarrow> bool" where
  "callable_with user (Arg i) n = user i n"
| "callable_with user IgnoreSF n = (n = 1 \<or> n = 2)"
| "callable_with user PassDSF n = (n = 2 \<or> n = 3)"
| "callable_with user _ n = False"

text \<open>
  \<open>schedule(an...)\<close> with \<open>n\<close> arguments: the classes without data call their first function with
  them, the classes with data call the second slot with the data before them.
\<close>

definition can_schedule :: "bool \<Rightarrow> (nat \<Rightarrow> nat \<Rightarrow> bool) \<Rightarrow> slot list \<Rightarrow> nat \<Rightarrow> bool" where
  "can_schedule data user c n =
     (if data then callable_with user (c ! 1) (n + 1) else callable_with user (c ! 0) n)"

text \<open>
  An executor that is made without a schedule function is none: whatever \<open>make_executor\<close>,
  \<open>make_constrained_executor\<close> and \<open>make_time_executor\<close> fill in (\<open>ignoreSF\<close>, \<open>passDSF\<close>, which are the
  senders' functions) cannot be called as \<open>schedule()\<close>, so the result does not satisfy the
  \<open>Executor\<close> concept, also when the executor that it wraps does. With a schedule function it can be
  scheduled exactly when the function can be called so.
\<close>
theorem make_executor_defaults:
  "(\<exists>c. make_executor [] = Some c \<and> \<not> can_schedule False user c 0) \<and>
   (\<exists>c. make_constrained_executor [] = Some c \<and> \<not> can_schedule False user c 0) \<and>
   (\<exists>c. make_time_executor [] = Some c \<and> \<not> can_schedule False user c 0) \<and>
   (\<exists>c. make_executor [d\<lparr>ar_data := True\<rparr>] = Some c \<and> \<not> can_schedule True user c 0) \<and>
   (\<exists>c. make_constrained_executor [d\<lparr>ar_data := True\<rparr>] = Some c \<and> \<not> can_schedule True user c 0) \<and>
   (\<exists>c. make_time_executor [d\<lparr>ar_data := True\<rparr>] = Some c \<and> \<not> can_schedule True user c 0) \<and>
   (\<exists>c. make_executor [d\<lparr>ar_data := True\<rparr>, f] = Some c \<and> can_schedule True user c n = user 1 (n + 1)) \<and>
   (\<exists>c. make_executor [d\<lparr>ar_data := False\<rparr>] = Some c \<and> can_schedule False user c n = user 0 n)"
  by (simp add: make_executor_def make_constrained_executor_def make_time_executor_def
      make_executor_overloads_def make_constrained_executor_overloads_def make_time_executor_overloads_def
      resolve_defs can_schedule_def)

lemma executor_guides_agree:
  "resolve executor_guides = make_executor"
  "resolve constrained_executor_guides = make_constrained_executor"
  "resolve time_executor_guides = make_time_executor"
  by (simp_all add: executor_guides_def constrained_executor_guides_def time_executor_guides_def
      make_executor_def make_constrained_executor_def make_time_executor_def
      make_executor_overloads_def make_constrained_executor_overloads_def make_time_executor_overloads_def)

end
