(* ===== verification/Executors.thy ===== *)
theory Executors
  imports Senders
begin

text \<open>
  \<open>executor.h\<close>: the executor classes that are made of functions, the three type-erased executors that
  own what they wrap, and the three references. An executor's \<open>schedule\<close> returns a sender; the erased
  ones wrap it in an \<open>any_single_sender\<close>.
\<close>

section \<open>Executors\<close>

text \<open>
  \<open>schedule\<close> on an executor object \<open>'x\<close> with arguments \<open>'a\<close>: the object after the call and the
  sender. A constrained executor has \<open>top\<close> besides (\<open>now\<close> is the same customization point), and is
  also scheduled with a constraint \<open>'cv\<close>.
\<close>

type_synonym ('x, 'a, 'c) executor = "'a \<Rightarrow> 'x \<Rightarrow> ('x \<times> 'c) outcome"

record ('x, 'cv, 'a, 'c) constrained =
  ce_top :: "'x \<Rightarrow> ('x \<times> 'cv) outcome"
  ce_schedule :: "'cv \<Rightarrow> ('x, 'a, 'c) executor"

text \<open>
  Two calls that return something, the second with the first one's result; when the first throws,
  \<open>z\<close> fills the place of the result, that nobody reads.
\<close>

definition bind_outcome ::
  "'r \<Rightarrow> ('x \<times> 'y) outcome \<Rightarrow> ('x \<times> 'y \<Rightarrow> ('x \<times> 'r) outcome) \<Rightarrow> ('x \<times> 'r) outcome" where
  "bind_outcome z r f =
     (case r of Ret p \<Rightarrow> f p | Thr n p \<Rightarrow> Thr n (fst p, z) | Term \<Rightarrow> Term | UB \<Rightarrow> UB)"

text \<open>The functions of \<open>boosters.h\<close>; \<open>clock\<close> is what \<open>system_clock::now()\<close> returns.\<close>

definition priorityZeroF :: "'x \<Rightarrow> ('x \<times> int) outcome" where
  "priorityZeroF x = Ret (x, 0)"

definition systemNowF :: "int \<Rightarrow> 'x \<Rightarrow> ('x \<times> int) outcome" where
  "systemNowF clock x = Ret (x, clock)"

definition passDZF :: "('x \<Rightarrow> ('x \<times> 'cv) outcome) \<Rightarrow> 'x \<Rightarrow> ('x \<times> 'cv) outcome" where
  "passDZF top_fn x = (case top_fn x of Thr n p \<Rightarrow> Term | r \<Rightarrow> r)"

definition passDNF :: "('x \<Rightarrow> ('x \<times> 'cv) outcome) \<Rightarrow> 'x \<Rightarrow> ('x \<times> 'cv) outcome" where
  "passDNF now_fn x = (case now_fn x of Thr n p \<Rightarrow> Term | r \<Rightarrow> r)"

text \<open>
  The classes: \<open>executor<SF>\<close> calls its function, \<open>executor<Data, DSF>\<close> calls it with its data. The
  state of the function is part of \<open>'x\<close>.
\<close>

definition executor_fn :: "('x, 'a, 'c) executor \<Rightarrow> ('x, 'a, 'c) executor" where
  "executor_fn SF a x = SF a x"

definition executor_data :: "('d \<times> 'f, 'a, 'c) executor \<Rightarrow> ('d \<times> 'f, 'a, 'c) executor" where
  "executor_data DSF a x = DSF a x"

definition constrained_executor_fn ::
  "('cv \<Rightarrow> ('x, 'a, 'c) executor) \<Rightarrow> ('x \<Rightarrow> ('x \<times> 'cv) outcome) \<Rightarrow> ('x, 'cv, 'a, 'c) constrained" where
  "constrained_executor_fn SF ZF = \<lparr>ce_top = ZF, ce_schedule = SF\<rparr>"

definition constrained_executor_data ::
  "('cv \<Rightarrow> ('d \<times> 'f, 'a, 'c) executor) \<Rightarrow> ('d \<times> 'f \<Rightarrow> (('d \<times> 'f) \<times> 'cv) outcome) \<Rightarrow>
   ('d \<times> 'f, 'cv, 'a, 'c) constrained" where
  "constrained_executor_data DSF DZF = \<lparr>ce_top = DZF, ce_schedule = DSF\<rparr>"

definition time_executor_fn ::
  "('cv \<Rightarrow> ('x, 'a, 'c) executor) \<Rightarrow> ('x \<Rightarrow> ('x \<times> 'cv) outcome) \<Rightarrow> ('x, 'cv, 'a, 'c) constrained" where
  "time_executor_fn SF NF = \<lparr>ce_top = NF, ce_schedule = SF\<rparr>"

definition time_executor_data ::
  "('cv \<Rightarrow> ('d \<times> 'f, 'a, 'c) executor) \<Rightarrow> ('d \<times> 'f \<Rightarrow> (('d \<times> 'f) \<times> 'cv) outcome) \<Rightarrow>
   ('d \<times> 'f, 'cv, 'a, 'c) constrained" where
  "time_executor_data DSF DNF = \<lparr>ce_top = DNF, ce_schedule = DSF\<rparr>"

section \<open>\<open>any_executor\<close>\<close>

definition any_executor_new :: "bool \<Rightarrow> 'w \<Rightarrow> 'w mem \<Rightarrow> 'w mem \<times> 'w box" where
  "any_executor_new insitu w m = box_new insitu w m"

definition any_executor_move :: "'w mem \<Rightarrow> 'w box \<Rightarrow> ('w mem \<times> 'w box \<times> 'w box) outcome" where
  "any_executor_move = box_move"

definition any_executor_destroy :: "'w mem \<Rightarrow> 'w box \<Rightarrow> ('w mem \<times> 'w box) outcome" where
  "any_executor_destroy = box_destroy"

definition any_executor_assign :: "'w mem \<Rightarrow> 'w box \<Rightarrow> 'w box \<Rightarrow> ('w mem \<times> 'w box \<times> 'w box) outcome" where
  "any_executor_assign = box_assign"

text \<open>
  A call through the table that returns something: on the no-op table the default \<open>z\<close>, else what the
  call on the wrapped object returns.
\<close>

definition erased_call :: "'r \<Rightarrow> ('w \<Rightarrow> ('w \<times> 'r) outcome) \<Rightarrow> 'w mem \<times> 'w box \<Rightarrow> (('w mem \<times> 'w box) \<times> 'r) outcome" where
  "erased_call z f s = erased_submit (\<lambda>(w, r). f w) (s, z)"

text \<open>
  \<open>schedule\<close>: the sender that the wrapped executor returns, an rvalue, becomes an
  \<open>any_single_sender\<close> (in its buffer when \<open>i\<close>, else on the heap \<open>sm\<close>); the no-op table returns an
  empty one.
\<close>

type_synonym 'c erased = "'c mem \<times> 'c any_sender_st"

definition erase_sender :: "bool \<Rightarrow> 'c mem \<Rightarrow> ('w \<times> 'c) outcome \<Rightarrow> ('w \<times> 'c erased) outcome" where
  "erase_sender i sm r = map_outcome (\<lambda>(w, c). (w, any_single_new RValue i c sm)) r"

definition any_executor_schedule ::
  "('w, 'a, 'c) executor \<Rightarrow> bool \<Rightarrow> 'c mem \<Rightarrow> 'a \<Rightarrow> 'w mem \<times> 'w box \<Rightarrow> (('w mem \<times> 'w box) \<times> 'c erased) outcome" where
  "any_executor_schedule X i sm a =
     erased_call (sm, any_single_empty) (\<lambda>w. erase_sender i sm (X a w))"

section \<open>\<open>any_constrained_executor\<close>\<close>

definition any_constrained_new :: "bool \<Rightarrow> 'w \<Rightarrow> 'w mem \<Rightarrow> 'w mem \<times> 'w box" where
  "any_constrained_new insitu w m = box_new insitu w m"

definition any_constrained_move :: "'w mem \<Rightarrow> 'w box \<Rightarrow> ('w mem \<times> 'w box \<times> 'w box) outcome" where
  "any_constrained_move = box_move"

definition any_constrained_destroy :: "'w mem \<Rightarrow> 'w box \<Rightarrow> ('w mem \<times> 'w box) outcome" where
  "any_constrained_destroy = box_destroy"

definition any_constrained_assign :: "'w mem \<Rightarrow> 'w box \<Rightarrow> 'w box \<Rightarrow> ('w mem \<times> 'w box \<times> 'w box) outcome" where
  "any_constrained_assign = box_assign"

text \<open>\<open>zero\<close> is the value-initialised constraint \<open>CV{}\<close>.\<close>

definition any_constrained_top ::
  "('w, 'cv, 'a, 'c) constrained \<Rightarrow> 'cv \<Rightarrow> 'w mem \<times> 'w box \<Rightarrow> (('w mem \<times> 'w box) \<times> 'cv) outcome" where
  "any_constrained_top X zero = erased_call zero (ce_top X)"

definition any_constrained_schedule_at ::
  "('w, 'cv, 'a, 'c) constrained \<Rightarrow> bool \<Rightarrow> 'c mem \<Rightarrow> 'cv \<Rightarrow> 'a \<Rightarrow> 'w mem \<times> 'w box \<Rightarrow>
   (('w mem \<times> 'w box) \<times> 'c erased) outcome" where
  "any_constrained_schedule_at X i sm cv a =
     erased_call (sm, any_single_empty) (\<lambda>w. erase_sender i sm (ce_schedule X cv a w))"

definition any_constrained_schedule ::
  "('w, 'cv, 'a, 'c) constrained \<Rightarrow> 'cv \<Rightarrow> bool \<Rightarrow> 'c mem \<Rightarrow> 'a \<Rightarrow> 'w mem \<times> 'w box \<Rightarrow>
   (('w mem \<times> 'w box) \<times> 'c erased) outcome" where
  "any_constrained_schedule X zero i sm a s =
     bind_outcome (sm, any_single_empty) (any_constrained_top X zero s) (\<lambda>(s', cv). any_constrained_schedule_at X i sm cv a s')"

section \<open>\<open>any_time_executor\<close>\<close>

definition any_time_new :: "bool \<Rightarrow> 'w \<Rightarrow> 'w mem \<Rightarrow> 'w mem \<times> 'w box" where
  "any_time_new insitu w m = box_new insitu w m"

definition any_time_move :: "'w mem \<Rightarrow> 'w box \<Rightarrow> ('w mem \<times> 'w box \<times> 'w box) outcome" where
  "any_time_move = box_move"

definition any_time_destroy :: "'w mem \<Rightarrow> 'w box \<Rightarrow> ('w mem \<times> 'w box) outcome" where
  "any_time_destroy = box_destroy"

definition any_time_assign :: "'w mem \<Rightarrow> 'w box \<Rightarrow> 'w box \<Rightarrow> ('w mem \<times> 'w box \<times> 'w box) outcome" where
  "any_time_assign = box_assign"

definition any_time_top ::
  "('w, 'cv, 'a, 'c) constrained \<Rightarrow> 'cv \<Rightarrow> 'w mem \<times> 'w box \<Rightarrow> (('w mem \<times> 'w box) \<times> 'cv) outcome" where
  "any_time_top X zero = erased_call zero (ce_top X)"

definition any_time_schedule_at ::
  "('w, 'cv, 'a, 'c) constrained \<Rightarrow> bool \<Rightarrow> 'c mem \<Rightarrow> 'cv \<Rightarrow> 'a \<Rightarrow> 'w mem \<times> 'w box \<Rightarrow>
   (('w mem \<times> 'w box) \<times> 'c erased) outcome" where
  "any_time_schedule_at X i sm tp a =
     erased_call (sm, any_single_empty) (\<lambda>w. erase_sender i sm (ce_schedule X tp a w))"

definition any_time_schedule ::
  "('w, 'cv, 'a, 'c) constrained \<Rightarrow> 'cv \<Rightarrow> bool \<Rightarrow> 'c mem \<Rightarrow> 'a \<Rightarrow> 'w mem \<times> 'w box \<Rightarrow>
   (('w mem \<times> 'w box) \<times> 'c erased) outcome" where
  "any_time_schedule X zero i sm a s =
     bind_outcome (sm, any_single_empty) (any_time_top X zero s) (\<lambda>(s', tp). any_time_schedule_at X i sm tp a s')"

section \<open>References\<close>

text \<open>
  \<open>any_executor_ref\<close> and its relatives hold the address of an executor that lives elsewhere, in \<open>h\<close>;
  copies share it. Those of \<open>any_constrained_executor_ref\<close> are modelled as its table intends, which does not compile
  (\<open>Executor_References\<close>).
\<close>

definition ref_call :: "('w \<Rightarrow> ('w \<times> 'r) outcome) \<Rightarrow> nat \<Rightarrow> 'w mem \<Rightarrow> ('w mem \<times> 'r) outcome" where
  "ref_call f p h =
     (case cells h p of
        Some w \<Rightarrow> map_outcome (\<lambda>(w', r). (h\<lparr>cells := (cells h)(p \<mapsto> w')\<rparr>, r)) (f w)
      | None \<Rightarrow> UB)"

definition any_executor_ref_schedule ::
  "('w, unit, 'c) executor \<Rightarrow> bool \<Rightarrow> 'c mem \<Rightarrow> nat \<Rightarrow> 'w mem \<Rightarrow> ('w mem \<times> 'c erased) outcome" where
  "any_executor_ref_schedule X i sm = ref_call (\<lambda>w. erase_sender i sm (X () w))"

definition any_constrained_ref_top ::
  "('w, 'cv, 'a, 'c) constrained \<Rightarrow> nat \<Rightarrow> 'w mem \<Rightarrow> ('w mem \<times> 'cv) outcome" where
  "any_constrained_ref_top X = ref_call (ce_top X)"

text \<open>Without a constraint, one call through the table takes \<open>top\<close> and schedules.\<close>

definition top_schedule :: "('w, 'cv, 'a, 'c) constrained \<Rightarrow> bool \<Rightarrow> 'c mem \<Rightarrow> 'a \<Rightarrow> 'w \<Rightarrow> ('w \<times> 'c erased) outcome" where
  "top_schedule X i sm a w =
     bind_outcome (sm, any_single_empty) (ce_top X w) (\<lambda>(w', cv). erase_sender i sm (ce_schedule X cv a w'))"

definition any_constrained_ref_schedule ::
  "('w, 'cv, 'a, 'c) constrained \<Rightarrow> bool \<Rightarrow> 'c mem \<Rightarrow> 'a \<Rightarrow> nat \<Rightarrow> 'w mem \<Rightarrow> ('w mem \<times> 'c erased) outcome" where
  "any_constrained_ref_schedule X i sm a = ref_call (top_schedule X i sm a)"

definition any_constrained_ref_schedule_at ::
  "('w, 'cv, 'a, 'c) constrained \<Rightarrow> bool \<Rightarrow> 'c mem \<Rightarrow> 'cv \<Rightarrow> 'a \<Rightarrow> nat \<Rightarrow> 'w mem \<Rightarrow> ('w mem \<times> 'c erased) outcome" where
  "any_constrained_ref_schedule_at X i sm cv a = ref_call (\<lambda>w. erase_sender i sm (ce_schedule X cv a w))"

definition any_time_ref_top ::
  "('w, 'cv, 'a, 'c) constrained \<Rightarrow> nat \<Rightarrow> 'w mem \<Rightarrow> ('w mem \<times> 'cv) outcome" where
  "any_time_ref_top X = ref_call (ce_top X)"

definition any_time_ref_schedule ::
  "('w, 'cv, 'a, 'c) constrained \<Rightarrow> bool \<Rightarrow> 'c mem \<Rightarrow> 'a \<Rightarrow> nat \<Rightarrow> 'w mem \<Rightarrow> ('w mem \<times> 'c erased) outcome" where
  "any_time_ref_schedule X i sm a = ref_call (top_schedule X i sm a)"

definition any_time_ref_schedule_at ::
  "('w, 'cv, 'a, 'c) constrained \<Rightarrow> bool \<Rightarrow> 'c mem \<Rightarrow> 'cv \<Rightarrow> 'a \<Rightarrow> nat \<Rightarrow> 'w mem \<Rightarrow> ('w mem \<times> 'c erased) outcome" where
  "any_time_ref_schedule_at X i sm tp a = ref_call (\<lambda>w. erase_sender i sm (ce_schedule X tp a w))"

lemmas any_executor_defs = any_executor_new_def any_executor_move_def any_executor_destroy_def
  any_executor_assign_def any_executor_schedule_def
lemmas any_constrained_defs = any_constrained_new_def any_constrained_top_def any_constrained_schedule_def
  any_constrained_schedule_at_def
lemmas any_time_defs = any_time_new_def any_time_top_def any_time_schedule_def any_time_schedule_at_def

section \<open>Erased executors\<close>

text \<open>What the box holds after a call, and the call's result.\<close>

definition call_view :: "('w mem \<times> 'w box) \<times> 'r \<Rightarrow> 'w option \<times> 'r" where
  "call_view s = (box_obj (fst (fst s)) (snd (fst s)), snd s)"

lemma erased_call_view:
  assumes "box_obj m b = Some w"
  shows "map_outcome call_view (erased_call z f (m, b)) = map_outcome (\<lambda>(w', r). (Some w', r)) (f w)"
proof -
  have "map_outcome call_view (erased_call z f (m, b)) = map_outcome sender_view (erased_submit (\<lambda>(w, r). f w) ((m, b), z))"
    by (simp add: erased_call_def call_view_def [abs_def] sender_view_def [abs_def])
  then show ?thesis using erased_submit_view [OF assms, of "\<lambda>(w, r). f w" z] by simp
qed

lemma erased_call_noop: "bx_vptr b = NoopVT \<Longrightarrow> erased_call z f (m, b) = Ret ((m, b), z)"
  by (simp add: erased_call_def erased_submit_def)

lemma empty_sender_silent: "any_single_submit S R ((sm, any_single_empty), r) = Ret ((sm, any_single_empty), r)"
  by (simp add: any_single_submit_def any_single_empty_def erased_submit_def box_empty_def)

text \<open>Submitting the sender that was erased last.\<close>

lemma submit_erased:
  assumes "sender_contract S RValue c sigs c'"
  shows "map_outcome (\<lambda>((m', st), r'). (box_obj m' (as_box st), r'))
      (any_single_submit S R (any_single_new RValue i c sm, r)) =
    map_outcome (Pair (Some c')) (deliver_all (any_receiver R) sigs r)"
proof -
  obtain m1 b where b: "box_new i c sm = (m1, b)" by (cases "box_new i c sm")
  show ?thesis using any_single_submit_view [OF assms box_new_obj(1) [OF b], of R r]
    by (simp add: any_single_new_def b)
qed

text \<open>
  An \<open>any_executor\<close> does what the executor in it does: whether it was stored in place or on the
  heap, \<open>schedule\<close> changes the wrapped executor as its own \<open>schedule\<close> does, and the sender it returns,
  submitted to any receiver, sends the signals of the wrapped executor's sender.
\<close>
theorem any_executor_transparent:
  assumes "X a x = Ret (x', c)"
    and "\<And>R r. nothrow_error R \<Longrightarrow> S RValue R (c, r) = map_outcome (Pair c') (deliver_all R sigs r)"
  shows "\<exists>w sm' st. any_executor_schedule X i sm a (any_executor_new i' x m) = Ret (w, (sm', st)) \<and>
    box_obj (fst w) (snd w) = Some x' \<and>
    map_outcome (\<lambda>((n, st'), r'). (box_obj n (as_box st'), ar_view r'))
      (any_single_submit S R ((sm', st), any_receiver_new i'' s rm)) =
    map_outcome (\<lambda>t. (Some c', rs_view t)) (deliver_all (receiver_pass R) sigs (receiver_new s))"
proof -
  obtain m1 b where b: "box_new i' x m = (m1, b)" by (cases "box_new i' x m")
  obtain sm' st where st: "any_single_new RValue i c sm = (sm', st)" by (cases "any_single_new RValue i c sm")
  have con: "sender_contract S RValue c sigs c'" by unfold_locales (rule assms(2))
  have "map_outcome call_view (any_executor_schedule X i sm a (m1, b)) = Ret (Some x', (sm', st))"
    unfolding any_executor_schedule_def erased_call_view [OF box_new_obj(1) [OF b]]
    by (simp add: erase_sender_def assms(1) st)
  then obtain w where w: "any_executor_schedule X i sm a (m1, b) = Ret (w, (sm', st))" "box_obj (fst w) (snd w) = Some x'"
    by (auto simp: call_view_def)
  let ?r = "any_receiver_new i'' s rm"
  have "map_outcome (\<lambda>((n, st'), r'). (box_obj n (as_box st'), ar_view r')) (any_single_submit S R ((sm', st), ?r)) =
      map_outcome (\<lambda>(x, r'). (x, ar_view r')) (map_outcome (\<lambda>((n, st'), r'). (box_obj n (as_box st'), r'))
        (any_single_submit S R (any_single_new RValue i c sm, ?r)))"
    by (simp add: st map_outcome_comp case_prod_unfold)
  also have "\<dots> = map_outcome (Pair (Some c')) (map_outcome ar_view (deliver_all (any_receiver R) sigs ?r))"
    by (simp add: submit_erased [OF con] map_outcome_comp)
  also have "\<dots> = map_outcome (\<lambda>t. (Some c', rs_view t)) (deliver_all (receiver_pass R) sigs (receiver_new s))"
    by (simp add: any_receiver_pass_sim [OF any_receiver_new_view] map_outcome_comp)
  finally show ?thesis using w b by (auto simp: any_executor_new_def)
qed

theorem any_executor_transparent_witness:
  "\<exists>w sm' st. any_executor_schedule (executor_fn (\<lambda>a x. Ret (Suc x, a + x))) True \<lparr>cells = Map.empty, next_cell = 0\<rparr> 5
      (any_executor_new False 2 \<lparr>cells = Map.empty, next_cell = 0\<rparr>) = Ret (w, (sm', st)) \<and> box_obj (fst w) (snd w) = Some 3"
proof -
  let ?S = "\<lambda>k R (c, s). map_outcome (Pair c) (deliver_all R [Value c, Done] s)"
  let ?X = "executor_fn (\<lambda>a x. Ret (Suc x, a + x))"
  let ?m = "\<lparr>cells = Map.empty, next_cell = 0\<rparr>"
  have x: "?X 5 2 = Ret (3, 7)" by (simp add: executor_fn_def)
  have c: "?S RValue R (7, r) = map_outcome (Pair 7) (deliver_all R [Value 7, Done] r)" for R r by simp
  show ?thesis
    using any_executor_transparent [where X = ?X and a = 5 and x = 2 and x' = 3 and c = 7 and c' = 7 and S = ?S
        and sigs = "[Value 7, Done]" and i' = False and i = True and sm = ?m and m = ?m and i'' = True and s = "()" and rm = ?m
        and R = "\<lparr>r_value = \<lambda>v. skip, r_error = \<lambda>e. skip, r_done = skip\<rparr>", OF x c]
    by (elim exE conjE) (intro exI conjI)
qed

text \<open>
  A moved-from \<open>any_executor\<close> loses work silently: the executor goes with the move, and what is
  scheduled on the source afterwards is an empty sender, that drops its receiver without a signal.
\<close>
theorem any_executor_moved_from_drops:
  assumes "box_live m b"
  shows "\<exists>new old. any_executor_move m b = Ret (m, new, old) \<and> box_obj m new = box_obj m b \<and>
    any_executor_schedule X i sm a (m, old) = Ret ((m, old), (sm, any_single_empty)) \<and>
    any_single_submit S R ((sm, any_single_empty), r) = Ret ((sm, any_single_empty), r)"
proof -
  have "\<exists>new old. box_move m b = Ret (m, new, old) \<and> box_obj m new = box_obj m b \<and> bx_vptr old = NoopVT"
  proof (cases "bx_vptr b = NoopVT")
    case True
    then have "box_obj m b = None" by (simp add: box_obj.simps)
    then show ?thesis using True by (auto simp: box_move_empty)
  next
    case False
    from box_move_live [OF assms False] show ?thesis by blast
  qed
  then show ?thesis
    by (auto simp: any_executor_move_def any_executor_schedule_def erased_call_noop empty_sender_silent)
qed

theorem any_executor_moved_from_drops_witness:
  "\<exists>new old. any_executor_move \<lparr>cells = Map.empty, next_cell = 0\<rparr> \<lparr>bx_data = Buf (5 :: nat), bx_vptr = InsituVT\<rparr> =
     Ret (\<lparr>cells = Map.empty, next_cell = 0\<rparr>, new, old) \<and> box_obj \<lparr>cells = Map.empty, next_cell = 0\<rparr> new = Some 5"
proof -
  have "box_live \<lparr>cells = Map.empty, next_cell = 0\<rparr> \<lparr>bx_data = Buf (5 :: nat), bx_vptr = InsituVT\<rparr>"
    by (simp add: box_live_def box_obj.simps)
  moreover have "box_obj \<lparr>cells = Map.empty, next_cell = 0\<rparr> \<lparr>bx_data = Buf (5 :: nat), bx_vptr = InsituVT\<rparr> = Some 5"
    by (simp add: box_obj.simps)
  ultimately show ?thesis
    using any_executor_moved_from_drops [of _ _ undefined undefined undefined undefined undefined undefined undefined]
    by metis
qed

lemma bind_view:
  assumes "map_outcome v r = Ret p"
  shows "\<exists>q. r = Ret q \<and> p = v q \<and> bind_outcome z r f = f q"
  using assms by (auto simp: bind_outcome_def)

lemma erased_call_Ret:
  assumes "box_obj m b = Some w" "f w = Ret (w', r)"
  shows "\<exists>m' b'. erased_call z f (m, b) = Ret ((m', b'), r) \<and> box_obj m' b' = Some w'"
proof -
  have "map_outcome call_view (erased_call z f (m, b)) = Ret (Some w', r)"
    using erased_call_view [OF assms(1), of z f] assms(2) by simp
  then show ?thesis by (auto simp: call_view_def)
qed

lemma ref_call_Ret:
  "cells h p = Some w \<Longrightarrow> f w = Ret (w', r) \<Longrightarrow> ref_call f p h = Ret (h\<lparr>cells := (cells h)(p \<mapsto> w')\<rparr>, r)"
  by (simp add: ref_call_def)

text \<open>
  Scheduling without a constraint is scheduling at \<open>top\<close>, in every erased form: on an
  \<open>any_constrained_executor\<close>, an \<open>any_time_executor\<close> and on references to the executor, whose calls
  reach the executor itself; and a reference that outlives its executor is undefined behaviour.
\<close>
theorem erased_schedule_is_at_top:
  assumes "ce_top X x = Ret (x1, cv)" "ce_schedule X cv a x1 = Ret (x2, c)"
    and "box_obj m b = Some x" "cells h p = Some x"
  shows "(\<exists>w. any_constrained_schedule X zero i sm a (m, b) = Ret (w, any_single_new RValue i c sm) \<and> box_obj (fst w) (snd w) = Some x2) \<and>
    (\<exists>w. any_time_schedule X zero i sm a (m, b) = Ret (w, any_single_new RValue i c sm) \<and> box_obj (fst w) (snd w) = Some x2) \<and>
    any_constrained_ref_schedule X i sm a p h = Ret (h\<lparr>cells := (cells h)(p \<mapsto> x2)\<rparr>, any_single_new RValue i c sm) \<and>
    any_time_ref_schedule X i sm a p h = Ret (h\<lparr>cells := (cells h)(p \<mapsto> x2)\<rparr>, any_single_new RValue i c sm) \<and>
    (\<forall>h'. mem_delete (Some p) h = Ret h' \<longrightarrow> any_time_ref_schedule X i sm a p h' = UB)"
proof -
  obtain m1 b1 where 1: "erased_call zero (ce_top X) (m, b) = Ret ((m1, b1), cv)" "box_obj m1 b1 = Some x1"
    using erased_call_Ret [where f = "ce_top X" and z = zero, OF assms(3) assms(1)] by blast
  have s: "erase_sender i sm (ce_schedule X cv a x1) = Ret (x2, any_single_new RValue i c sm)"
    by (simp add: erase_sender_def assms(2))
  obtain m2 b2 where 2: "erased_call (sm, any_single_empty) (\<lambda>w. erase_sender i sm (ce_schedule X cv a w)) (m1, b1) =
      Ret ((m2, b2), any_single_new RValue i c sm)" "box_obj m2 b2 = Some x2"
    using erased_call_Ret [where f = "\<lambda>w. erase_sender i sm (ce_schedule X cv a w)"
        and z = "(sm, any_single_empty)", OF 1(2) s] by blast
  have t: "top_schedule X i sm a x = Ret (x2, any_single_new RValue i c sm)"
    by (simp add: top_schedule_def bind_outcome_def assms(1) s)
  show ?thesis
    using 1 2 t assms(4)
    by (auto simp: any_constrained_schedule_def any_constrained_schedule_at_def any_constrained_top_def
        any_time_schedule_def any_time_schedule_at_def any_time_top_def bind_outcome_def
        any_constrained_ref_schedule_def any_time_ref_schedule_def ref_call_def)
qed

theorem erased_schedule_is_at_top_witness:
  "any_constrained_ref_schedule (constrained_executor_fn (\<lambda>cv a x. Ret (x, cv + a)) priorityZeroF) True
      \<lparr>cells = Map.empty, next_cell = 0\<rparr> 7 0 \<lparr>cells = [0 \<mapsto> 9 :: nat], next_cell = 1\<rparr> =
    Ret (\<lparr>cells = [0 \<mapsto> 9 :: nat], next_cell = 1\<rparr>, any_single_new RValue True 7 \<lparr>cells = Map.empty, next_cell = 0\<rparr>)"
proof -
  let ?X = "constrained_executor_fn (\<lambda>cv a x. Ret (x, cv + a)) priorityZeroF"
  have 1: "ce_top ?X (9 :: nat) = Ret (9, 0)" "ce_schedule ?X 0 7 (9 :: nat) = Ret (9, 7)"
    by (simp_all add: constrained_executor_fn_def priorityZeroF_def)
  have 2: "box_obj \<lparr>cells = Map.empty, next_cell = 0\<rparr> \<lparr>bx_data = Buf (9 :: nat), bx_vptr = InsituVT\<rparr> = Some 9"
    by (simp add: box_obj.simps)
  have 3: "cells \<lparr>cells = [0 \<mapsto> 9 :: nat], next_cell = 1\<rparr> 0 = Some 9" by simp
  from erased_schedule_is_at_top [OF 1 2 3, of 0 True "\<lparr>cells = Map.empty, next_cell = 0\<rparr>"] show ?thesis by simp
qed

end
