(* ===== verification/Inline_Executors.thy ===== *)
theory Inline_Executors
  imports Executors Trampoline_Correct
begin

text \<open>
  The executors of \<open>inline.h\<close> and \<open>new_thread.h\<close>, and the operators of \<open>o/schedule.h\<close>. An inline task
  signals its receiver before \<open>submit\<close> returns; a task of the new thread executor starts a thread,
  which runs its receiver through a trampoline of its own, in any order with the other threads.
\<close>

section \<open>\<open>inline_executor_t\<close>\<close>

text \<open>\<open>ex\<close> is the executor value that the receiver is given.\<close>

definition inline_schedule :: "('x, unit, unit) executor" where
  "inline_schedule a x = Ret (x, ())"

definition inline_submit :: "'v \<Rightarrow> ('c, 's, 'v, 'e, 'x) sender" where
  "inline_submit ex k R = (\<lambda>(c, s). map_outcome (Pair c) (and_then (set_value R ex) (set_done R) s))"

section \<open>\<open>inline_constrained_executor_t\<close>\<close>

definition inline_constrained_top :: "'x \<Rightarrow> ('x \<times> int) outcome" where
  "inline_constrained_top x = Ret (x, 0)"

text \<open>The task keeps the constraint, and does not use it.\<close>

definition inline_constrained_schedule :: "int \<Rightarrow> ('x, unit, int) executor" where
  "inline_constrained_schedule cv a x = Ret (x, cv)"

definition inline_constrained_submit :: "'v \<Rightarrow> (int, 's, 'v, 'e, 'x) sender" where
  "inline_constrained_submit ex k R = (\<lambda>(cv, s). map_outcome (Pair cv) (and_then (set_value R ex) (set_done R) s))"

definition inline_constrained :: "('x, int, unit, int) constrained" where
  "inline_constrained = \<lparr>ce_top = inline_constrained_top, ce_schedule = inline_constrained_schedule\<rparr>"

section \<open>\<open>inline_time_executor_t\<close>\<close>

text \<open>The executor's state is the clock; \<open>sleep_until\<close> advances it, and the receiver is signalled then.\<close>

definition inline_time_top :: "int \<Rightarrow> (int \<times> int) outcome" where
  "inline_time_top clock = Ret (clock, clock)"

definition inline_time_schedule :: "int \<Rightarrow> (int, unit, int) executor" where
  "inline_time_schedule tp a clock = Ret (clock, tp)"

definition inline_time_submit :: "'v \<Rightarrow> int \<Rightarrow> ('s, 'v, 'e, 'x) rcv_scheme \<Rightarrow> (int \<times> 's) call" where
  "inline_time_submit ex tp R = (\<lambda>(clock, s).
     map_outcome (Pair (max clock tp)) (and_then (set_value R ex) (set_done R) s))"

definition inline_time :: "(int, int, unit, int) constrained" where
  "inline_time = \<lparr>ce_top = inline_time_top, ce_schedule = inline_time_schedule\<rparr>"

section \<open>\<open>o/schedule.h\<close>\<close>

definition schedule_op :: "('x, unit, 'c) executor \<Rightarrow> 'x \<Rightarrow> ('x \<times> 'c) outcome" where
  "schedule_op X x = X () x"

definition schedule_at_op :: "('x, 'cv, unit, 'c) constrained \<Rightarrow> 'cv \<Rightarrow> 'x \<Rightarrow> ('x \<times> 'c) outcome" where
  "schedule_at_op X cv x = ce_schedule X cv () x"

text \<open>\<open>none\<close> fills the place of the sender when \<open>now\<close> throws.\<close>

definition schedule_after_op ::
  "('x, int, unit, 'c) constrained \<Rightarrow> 'c \<Rightarrow> int \<Rightarrow> 'x \<Rightarrow> ('x \<times> 'c) outcome" where
  "schedule_after_op X none dur x =
     bind_outcome none (ce_top X x) (\<lambda>(x', t). ce_schedule X (t + dur) () x')"

section \<open>\<open>new_thread_executor\<close>\<close>

text \<open>
  The detached threads that have not run yet, the logs of those that have (each thread's receivers
  in their order), and, as history, what was submitted.
\<close>

record threads =
  nt_waiting :: "task list"
  nt_logs :: "event list list"
  nt_submitted :: "task list"

definition threads_new :: threads where
  "threads_new = \<lparr>nt_waiting = [], nt_logs = [], nt_submitted = []\<rparr>"

definition new_thread_submit :: "task \<Rightarrow> threads \<Rightarrow> threads" where
  "new_thread_submit t s = s\<lparr>nt_waiting := nt_waiting s @ [t], nt_submitted := nt_submitted s @ [t]\<rparr>"

text \<open>
  The function of the \<open>i\<close>-th waiting thread: the receiver is submitted to the trampoline of the new
  thread, which nobody owns yet, with the fuel that \<open>submit_total\<close> asks for.
\<close>

definition new_thread_run :: "nat \<Rightarrow> threads \<Rightarrow> threads result" where
  "new_thread_run i s =
     (let t = nt_waiting s ! i in
      map_option (map_outcome (\<lambda>st. s\<lparr>nt_waiting := take i (nt_waiting s) @ drop (Suc i) (nt_waiting s),
          nt_logs := nt_logs s @ [log st]\<rparr>))
        (trampoline_submit (fuel_task t + 2) OwnOrDelegate t idle_thread))"

inductive new_thread_step :: "threads \<Rightarrow> threads \<Rightarrow> bool" where
  submitted: "norec_task t \<Longrightarrow> new_thread_step s (new_thread_submit t s)"
| ran: "i < length (nt_waiting s) \<Longrightarrow> new_thread_run i s = Some (Ret s') \<Longrightarrow> new_thread_step s s'"

section \<open>What the tasks send\<close>

lemma deliver_done: "deliver_all R [Done] = set_done R"
  by (rule ext) (simp add: and_then_def split: outcome.split)

lemma deliver_pair: "deliver_all R [Value v, Done] s = and_then (set_value R v) (set_done R) s"
  by (simp add: and_then_def split: outcome.split)

interpretation inline_s: sender_contract "inline_submit ex" k c "[Value ex, Done]" c for ex k c
  by unfold_locales (simp only: inline_submit_def prod.case deliver_pair)

interpretation inline_constrained_s: sender_contract "inline_constrained_submit ex" k c "[Value ex, Done]" c for ex k c
  by unfold_locales (simp only: inline_constrained_submit_def prod.case deliver_pair)

text \<open>
  An inline time task signals its receiver before \<open>submit\<close> returns and not before it is due:
  \<open>schedule_after(d)\<close> on the inline time executor gives a task for \<open>d\<close> after the present, whose
  receiver gets one value and done, with the clock not before that time.
\<close>
theorem inline_time_after:
  "\<exists>tp. schedule_after_op inline_time 0 d clock = Ret (clock, tp) \<and> tp = clock + d \<and>
     inline_time_submit ex tp R (clock, s) =
       map_outcome (Pair (clock + max 0 d)) (deliver_all R [Value ex, Done] s)"
proof -
  have "max clock (clock + d) = clock + max 0 d" by (simp add: max_def)
  then show ?thesis
    by (simp add: schedule_after_op_def bind_outcome_def inline_time_def inline_time_top_def
        inline_time_schedule_def inline_time_submit_def deliver_done)
qed

section \<open>What the threads do\<close>

lemma sum_events_remove:
  "i < length ts \<Longrightarrow> sum_list (map ev_task ts) = ev_task (ts ! i) + sum_list (map ev_task (take i ts @ drop (Suc i) ts))"
  by (subst id_take_nth_drop [of i ts]) (simp_all add: ac_simps)

definition threads_ok :: "threads \<Rightarrow> bool" where
  "threads_ok s \<longleftrightarrow> (\<forall>t \<in> set (nt_waiting s). norec_task t) \<and>
     mset (map erase (concat (nt_logs s))) + sum_list (map ev_task (nt_waiting s)) = sum_list (map ev_task (nt_submitted s))"

lemma new_thread_run_events:
  assumes "i < length (nt_waiting s)" "norec_task (nt_waiting s ! i)"
  shows "\<exists>es. new_thread_run i s = Some (Ret (s\<lparr>nt_waiting := take i (nt_waiting s) @ drop (Suc i) (nt_waiting s),
      nt_logs := nt_logs s @ [es]\<rparr>)) \<and> mset (map erase es) = ev_task (nt_waiting s ! i)"
proof -
  obtain st where "trampoline_submit (fuel_task (nt_waiting s ! i) + 2) OwnOrDelegate (nt_waiting s ! i) idle_thread = Some (Ret st)"
      "mset (map erase (log st)) = ev_task (nt_waiting s ! i)"
    using submit_total [OF assms(2) _ order_refl, of idle_thread OwnOrDelegate] by (auto simp: idle_thread_def seen_def)
  then show ?thesis by (auto simp: new_thread_run_def Let_def)
qed

interpretation new_threads: invariant_of "\<lambda>s. s = threads_new" new_thread_step threads_ok
proof
  show "threads_ok s" if "s = threads_new" for s using that by (simp add: threads_ok_def threads_new_def)
  fix s t assume ok: "threads_ok s" and step: "new_thread_step s t"
  from step show "threads_ok t"
  proof (cases rule: new_thread_step.cases)
    case (submitted u)
    then show ?thesis using ok by (auto simp: threads_ok_def new_thread_submit_def ac_simps)
  next
    case (ran i)
    have i: "norec_task (nt_waiting s ! i)" using ok ran(1) by (auto simp: threads_ok_def)
    from new_thread_run_events [OF ran(1) i] ran(2) obtain es
      where t: "t = s\<lparr>nt_waiting := take i (nt_waiting s) @ drop (Suc i) (nt_waiting s), nt_logs := nt_logs s @ [es]\<rparr>"
        and es: "image_mset erase (mset es) = ev_task (nt_waiting s ! i)" by auto
    have "\<forall>u \<in> set (take i (nt_waiting s) @ drop (Suc i) (nt_waiting s)). norec_task u"
      using ok by (auto simp: threads_ok_def dest: in_set_takeD in_set_dropD)
    then show ?thesis
      using ok sum_events_remove [OF ran(1)] by (simp add: threads_ok_def t es ac_simps)
  qed
qed

text \<open>
  Nothing submitted to the new thread executor is lost or run twice, whatever the order in which
  the threads run: what the receivers have observed and what the waiting ones are owed is together
  what the submissions stand for, and each waiting thread can run, and then returns.
\<close>
theorem new_thread_delivers:
  assumes "reachable (\<lambda>s. s = threads_new) new_thread_step s"
  shows "mset (map erase (concat (nt_logs s))) + sum_list (map ev_task (nt_waiting s)) =
      sum_list (map ev_task (nt_submitted s)) \<and>
    (\<forall>i < length (nt_waiting s). \<exists>t. new_thread_run i s = Some (Ret t) \<and> new_thread_step s t)"
proof (intro conjI allI impI)
  have ok: "threads_ok s" using new_threads.reachable_inv [OF assms] .
  then show "mset (map erase (concat (nt_logs s))) + sum_list (map ev_task (nt_waiting s)) =
      sum_list (map ev_task (nt_submitted s))" by (simp add: threads_ok_def)
  fix i assume i: "i < length (nt_waiting s)"
  then have "norec_task (nt_waiting s ! i)" using ok by (auto simp: threads_ok_def)
  from new_thread_run_events [OF i this] show "\<exists>t. new_thread_run i s = Some (Ret t) \<and> new_thread_step s t"
    using ran [OF i] by blast
qed

theorem new_thread_delivers_witness:
  "\<exists>t. new_thread_run 0 (new_thread_submit example_task threads_new) = Some (Ret t)"
proof -
  have "reachable (\<lambda>s. s = threads_new) new_thread_step (new_thread_submit example_task threads_new)"
    by (rule reach_step [of _ _ threads_new], rule reach_init, rule refl, rule submitted)
       (simp add: example_task_def)
  from new_thread_delivers [OF this] show ?thesis by (fastforce simp: new_thread_submit_def threads_new_def)
qed

end
