(* ===== verification/Pointers.thy ===== *)
theory Pointers
  imports Senders
begin

text \<open>
  The forwarding functions of \<open>extension_points.h\<close>: on a class reference each customization point
  calls the member function of the same name, on a pointer (also a smart pointer) it calls itself
  on what the pointer points to; and \<open>future_from\<close> of \<open>receiver.h\<close>.
\<close>

section \<open>Class references\<close>

definition class_done :: "('s, 'v, 'e, 'x) rcv_scheme \<Rightarrow> 's call" where
  "class_done R = r_done R"

definition class_error :: "('s, 'v, 'e, 'x) rcv_scheme \<Rightarrow> 'e error \<Rightarrow> 's call" where
  "class_error R e = r_error R e"

definition class_value :: "('s, 'v, 'e, 'x) rcv_scheme \<Rightarrow> 'v \<Rightarrow> 's call" where
  "class_value R v = r_value R v"

definition class_starting :: "('s, 'v, 'e, 'u) flow_rcv \<Rightarrow> 'u \<Rightarrow> 's call" where
  "class_starting R up = r_starting R up"

section \<open>Pointers\<close>

text \<open>A pointer owns or refers to an object \<open>'s\<close>; \<open>None\<close> is a null pointer.\<close>

definition deref :: "'s call \<Rightarrow> 's option call" where
  "deref f p = (case p of None \<Rightarrow> UB | Some s \<Rightarrow> map_outcome Some (f s))"

definition ptr_done :: "('s, 'v, 'e, 'x) rcv_scheme \<Rightarrow> 's option call" where
  "ptr_done R = deref (class_done R)"

definition ptr_error :: "('s, 'v, 'e, 'x) rcv_scheme \<Rightarrow> 'e error \<Rightarrow> 's option call" where
  "ptr_error R e = deref (class_error R e)"

definition ptr_value :: "('s, 'v, 'e, 'x) rcv_scheme \<Rightarrow> 'v \<Rightarrow> 's option call" where
  "ptr_value R v = deref (class_value R v)"

definition ptr_starting :: "('s, 'v, 'e, 'u) flow_rcv \<Rightarrow> 'u \<Rightarrow> 's option call" where
  "ptr_starting R up = deref (class_starting R up)"

definition ptr_receiver :: "('s, 'v, 'e, 'u) flow_rcv \<Rightarrow> ('s option, 'v, 'e, 'u) flow_rcv" where
  "ptr_receiver R = \<lparr>r_value = ptr_value R, r_error = ptr_error R, r_done = ptr_done R,
     r_starting = ptr_starting R\<rparr>"

text \<open>\<open>submit\<close> on a pointer submits to the object as an lvalue.\<close>

definition ptr_submit :: "('c, 's, 'v, 'e, 'x) sender \<Rightarrow> ('c option, 's, 'v, 'e, 'x) sender" where
  "ptr_submit S k R = (\<lambda>(p, s).
     case p of None \<Rightarrow> UB | Some c \<Rightarrow> map_outcome (\<lambda>(c', s'). (Some c', s')) (S LValue R (c, s)))"

section \<open>\<open>future_from\<close>\<close>

text \<open>
  The sender is submitted a promise, which is destroyed at the latest with the sender's receiver;
  the result is what the future then holds.
\<close>

definition future_from :: "('c, ('v, 'e) promise, 'v, 'e, unit) sender \<Rightarrow> cat \<Rightarrow> 'c \<Rightarrow> ('v, 'e) promise outcome" where
  "future_from S k c = map_outcome (\<lambda>(c', p). promise_drop p) (S k promise_receiver (c, Unset))"

section \<open>Transparency\<close>

lemma map_no_except: "no_except (\<lambda>s. map_outcome g (f s)) s = map_outcome g (no_except f s)"
  by (simp add: no_except_def split: outcome.split)

lemma deref_simps [simp]: "deref f None = UB" "deref f (Some s) = map_outcome Some (f s)"
  by (simp_all add: deref_def)

lemma deref_guarded:
  "no_except (try_catch (deref f) (\<lambda>ep. deref (h ep))) p = deref (no_except (try_catch f h)) p"
proof (cases p)
  case (Some s)
  show ?thesis
  proof (cases "f s")
    case (Thr n t)
    then show ?thesis by (cases "h (Exn n) t") (simp_all add: Some no_except_def try_catch_def)
  qed (simp_all add: Some no_except_def try_catch_def)
qed (simp add: no_except_def try_catch_def)

lemma deliver_ptr: "deliver (ptr_receiver R) sig p = deref (deliver R sig) p"
  by (cases sig)
     (simp_all add: set_value_def set_done_def set_error_def ptr_receiver_def ptr_value_def ptr_done_def
        ptr_error_def class_value_def class_done_def class_error_def deref_guarded)

lemma deliver_all_ptr: "deliver_all (ptr_receiver R) sigs (Some s) = map_outcome Some (deliver_all R sigs s)"
proof (induction sigs arbitrary: s)
  case (Cons x xs)
  then show ?case by (cases "deliver R x s") (simp_all add: and_then_def deliver_ptr)
qed simp

text \<open>
  A pointer to a receiver is the receiver: \<open>starting\<close> and then any signals, sent to the pointer,
  have the effect that they have on the object, exceptions and the error channel included; a signal
  to a null pointer is undefined behaviour. A pointer to a sender sends the signals of the object
  as an lvalue.
\<close>
theorem pointer_transparent:
  assumes "\<And>R r. nothrow_error R \<Longrightarrow> S LValue R (c, r) = map_outcome (Pair c') (deliver_all R sigs r)"
    and "nothrow_error Q"
  shows "and_then (set_starting (ptr_receiver R) up) (deliver_all (ptr_receiver R) xs) (Some s) =
      map_outcome Some (and_then (set_starting R up) (deliver_all R xs) s) \<and>
    deliver (ptr_receiver R) x None = UB \<and>
    ptr_submit S k Q (Some c, r) = map_outcome (Pair (Some c')) (deliver_all Q sigs r)"
proof (intro conjI)
  have start: "set_starting (ptr_receiver R) up p = deref (set_starting R up) p" for p
    by (simp add: set_starting_def ptr_receiver_def ptr_starting_def class_starting_def ptr_error_def
        class_error_def deref_guarded)
  show "and_then (set_starting (ptr_receiver R) up) (deliver_all (ptr_receiver R) xs) (Some s) =
      map_outcome Some (and_then (set_starting R up) (deliver_all R xs) s)"
    by (cases "set_starting R up s") (simp_all add: and_then_def start deliver_all_ptr)
  show "deliver (ptr_receiver R) x None = UB" by (simp add: deliver_ptr)
  show "ptr_submit S k Q (Some c, r) = map_outcome (Pair (Some c')) (deliver_all Q sigs r)"
    by (simp add: ptr_submit_def assms map_outcome_comp)
qed

lemma promise_nothrow: "nothrow_error promise_receiver"
  by (simp add: nothrow_error_def promise_receiver_def promise_error_def)

lemma promise_drop_outcome:
  assumes "Done \<notin> set ys"
  shows "map_outcome promise_drop (promise_outcome ys) = (case ys of
      [] \<Rightarrow> Ret (PError (Eptr (Exn broken_promise)))
    | [Value v] \<Rightarrow> Ret (PValue v)
    | [Error e] \<Rightarrow> Ret (PError e)
    | _ \<Rightarrow> Term)"
  using assms by (cases ys rule: promise_outcome.cases) (auto split: list.split signal.split)

text \<open>
  \<open>future_from\<close>: for a sender whose signals are one value, or one error, and done in any order, the
  future holds that value or error; with done alone it holds \<open>broken_promise\<close>; a second value or
  error ends the program.
\<close>
theorem future_from_holds:
  assumes "\<And>R r. nothrow_error R \<Longrightarrow> S k R (c, r) = map_outcome (Pair c') (deliver_all R sigs r)"
  shows "future_from S k c = (case filter (\<lambda>x. x \<noteq> Done) sigs of
      [] \<Rightarrow> Ret (PError (Eptr (Exn broken_promise)))
    | [Value v] \<Rightarrow> Ret (PValue v)
    | [Error e] \<Rightarrow> Ret (PError e)
    | _ \<Rightarrow> Term)"
proof -
  have "future_from S k c = map_outcome promise_drop (promise_outcome (filter (\<lambda>x. x \<noteq> Done) sigs))"
    by (simp add: future_from_def assms [OF promise_nothrow] map_outcome_comp promise_signals_eq)
  then show ?thesis by (simp add: promise_drop_outcome)
qed

theorem future_from_holds_witness:
  "future_from (\<lambda>k R (c, s). map_outcome (Pair c) (deliver_all R [Done, Value (5 :: nat), Done] s)) RValue () = Ret (PValue 5)"
  by (subst future_from_holds [where sigs = "[Done, Value 5, Done]" and c' = "()"]) simp_all

theorem pointer_transparent_witness:
  "ptr_submit (\<lambda>k R (c, s). map_outcome (Pair c) (deliver_all R [Value (5 :: nat), Done] s)) RValue promise_receiver (Some (), Unset) =
    map_outcome (Pair (Some ())) (deliver_all promise_receiver [Value 5, Done] Unset)"
  by (rule pointer_transparent [THEN conjunct2, THEN conjunct2]) (simp_all add: promise_nothrow)

end
