(* ===== verification/Make_Sender.thy ===== *)
theory Make_Sender
  imports Concepts Make_Receiver
begin

text \<open>
  The overloads of \<open>make_single_sender\<close>, \<open>make_many_sender\<close>, \<open>make_flow_single_sender\<close> and
  \<open>make_flow_many_sender\<close>, the deduction guides of the four classes, and the choice between the
  four that \<open>sender_from\<close> makes. All parameters are template parameters, so an overload is told
  from the others by its number of parameters and by its constraint alone; the arguments are types
  in the sense of \<open>Concepts\<close>.
\<close>

section \<open>The tables\<close>

record 'a template =
  tm_arity :: nat
  tm_requires :: "'a cxx list \<Rightarrow> bool"
  tm_class :: "slot list"

abbreviation template_of :: "nat \<Rightarrow> ('a cxx list \<Rightarrow> bool) \<Rightarrow> slot list \<Rightarrow> 'a template" where
  "template_of n r c \<equiv> \<lparr>tm_arity = n, tm_requires = r, tm_class = c\<rparr>"

text \<open>Two viable overloads with the same parameters are ambiguous.\<close>

definition resolve_templates :: "'a template list \<Rightarrow> 'a cxx list \<Rightarrow> slot list option" where
  "resolve_templates ts args =
     (case filter (\<lambda>t. tm_arity t = length args \<and> tm_requires t args) ts of
        [t] \<Rightarrow> Some (tm_class t)
      | _ \<Rightarrow> None)"

definition make_single_sender_overloads :: "'a template list" where
  "make_single_sender_overloads =
    [template_of 0 (\<lambda>a. True) [IgnoreSF],
     template_of 1 (\<lambda>a. True \<and> \<not> Sender_concept (a ! 0) []) [Arg 0],
     template_of 1 (\<lambda>a. True \<and> Sender_concept (a ! 0) [Is_Single]) [Arg 0, PassDSF],
     template_of 2 (\<lambda>a. Sender_concept (a ! 0) [Is_Single]) [Arg 0, Arg 1]]"

definition single_sender_guides :: "'a template list" where
  "single_sender_guides =
    [template_of 0 (\<lambda>a. True) [IgnoreSF],
     template_of 1 (\<lambda>a. True \<and> \<not> Sender_concept (a ! 0) []) [Arg 0],
     template_of 1 (\<lambda>a. True \<and> Sender_concept (a ! 0) [Is_Single]) [Arg 0, PassDSF],
     template_of 2 (\<lambda>a. Sender_concept (a ! 0) [Is_Single]) [Arg 0, Arg 1]]"

definition make_many_sender_overloads :: "'a template list" where
  "make_many_sender_overloads =
    [template_of 0 (\<lambda>a. True) [IgnoreSF],
     template_of 1 (\<lambda>a. True \<and> \<not> Sender_concept (a ! 0) []) [Arg 0],
     template_of 1 (\<lambda>a. True \<and> Sender_concept (a ! 0) [Is_Many]) [Arg 0, PassDSF],
     template_of 2 (\<lambda>a. Sender_concept (a ! 0) [Is_Many]) [Arg 0, Arg 1]]"

definition many_sender_guides :: "'a template list" where
  "many_sender_guides =
    [template_of 0 (\<lambda>a. True) [IgnoreSF],
     template_of 1 (\<lambda>a. True \<and> \<not> Sender_concept (a ! 0) []) [Arg 0],
     template_of 1 (\<lambda>a. True \<and> Sender_concept (a ! 0) [Is_Many]) [Arg 0, PassDSF],
     template_of 2 (\<lambda>a. Sender_concept (a ! 0) [Is_Many]) [Arg 0, Arg 1]]"

definition make_flow_single_sender_overloads :: "'a template list" where
  "make_flow_single_sender_overloads =
    [template_of 0 (\<lambda>a. True) [IgnoreSF],
     template_of 1 (\<lambda>a. True \<and> \<not> Sender_concept (a ! 0) []) [Arg 0],
     template_of 1 (\<lambda>a. True \<and> Sender_concept (a ! 0) [Is_Single, Is_Flow]) [Arg 0, PassDSF],
     template_of 2 (\<lambda>a. Sender_concept (a ! 0) [Is_Single, Is_Flow]) [Arg 0, Arg 1]]"

definition flow_single_sender_guides :: "'a template list" where
  "flow_single_sender_guides =
    [template_of 0 (\<lambda>a. True) [IgnoreSF],
     template_of 1 (\<lambda>a. True \<and> \<not> Sender_concept (a ! 0) []) [Arg 0],
     template_of 1 (\<lambda>a. True \<and> Sender_concept (a ! 0) [Is_Single, Is_Flow]) [Arg 0, PassDSF],
     template_of 2 (\<lambda>a. Sender_concept (a ! 0) [Is_Single, Is_Flow]) [Arg 0, Arg 1]]"

definition make_flow_many_sender_overloads :: "'a template list" where
  "make_flow_many_sender_overloads =
    [template_of 0 (\<lambda>a. True) [IgnoreSF],
     template_of 1 (\<lambda>a. True \<and> \<not> Sender_concept (a ! 0) []) [Arg 0],
     template_of 1 (\<lambda>a. True \<and> Sender_concept (a ! 0) [Is_Many, Is_Flow]) [Arg 0, PassDSF],
     template_of 2 (\<lambda>a. Sender_concept (a ! 0) [Is_Many, Is_Flow]) [Arg 0, Arg 1]]"

definition flow_many_sender_guides :: "'a template list" where
  "flow_many_sender_guides =
    [template_of 0 (\<lambda>a. True) [IgnoreSF],
     template_of 1 (\<lambda>a. True \<and> \<not> Sender_concept (a ! 0) []) [Arg 0],
     template_of 1 (\<lambda>a. True \<and> Sender_concept (a ! 0) [Is_Many, Is_Flow]) [Arg 0, PassDSF],
     template_of 2 (\<lambda>a. Sender_concept (a ! 0) [Is_Many, Is_Flow]) [Arg 0, Arg 1]]"

section \<open>\<open>sender_from\<close>\<close>

text \<open>
  \<open>make_sender<Cardinality, IsFlow>\<close> has four specialisations; \<open>sender_from\<close> indexes the property set
  of \<open>In\<close> for its cardinality and queries it for \<open>is_flow\<close>.
\<close>

datatype sender_class = Single_Sender | Many_Sender | Flow_Single_Sender | Flow_Many_Sender

fun make_sender :: "property \<Rightarrow> bool \<Rightarrow> sender_class option" where
  "make_sender Is_Single False = Some Single_Sender"
| "make_sender Is_Many False = Some Many_Sender"
| "make_sender Is_Single True = Some Flow_Single_Sender"
| "make_sender Is_Many True = Some Flow_Many_Sender"
| "make_sender _ _ = None"

fun overloads_of :: "sender_class \<Rightarrow> 'a template list" where
  "overloads_of Single_Sender = make_single_sender_overloads"
| "overloads_of Many_Sender = make_many_sender_overloads"
| "overloads_of Flow_Single_Sender = make_flow_single_sender_overloads"
| "overloads_of Flow_Many_Sender = make_flow_many_sender_overloads"

definition sender_from_class :: "'a cxx \<Rightarrow> sender_class option" where
  "sender_from_class t =
     (case props t of
        None \<Rightarrow> None
      | Some ps \<Rightarrow> Option.bind (property_set_index ps Is_Single)
                    (\<lambda>c. make_sender c (property_query (Some ps) [Is_Flow])))"

definition sender_from_type :: "'a cxx \<Rightarrow> 'a cxx list \<Rightarrow> (sender_class \<times> slot list) option" where
  "sender_from_type t fns =
     (if Sender_concept t []
      then Option.bind (sender_from_class t)
             (\<lambda>c. map_option (Pair c) (resolve_templates (overloads_of c) (t # fns)))
      else None)"

text \<open>The properties that each class wants of its data.\<close>

fun class_properties :: "sender_class \<Rightarrow> property list" where
  "class_properties Single_Sender = [Is_Single]"
| "class_properties Many_Sender = [Is_Many]"
| "class_properties Flow_Single_Sender = [Is_Single, Is_Flow]"
| "class_properties Flow_Many_Sender = [Is_Many, Is_Flow]"

section \<open>Resolution\<close>

lemmas sender_table_defs = make_single_sender_overloads_def make_many_sender_overloads_def
  make_flow_single_sender_overloads_def make_flow_many_sender_overloads_def

lemma sender_more: "Sender_concept t ps \<Longrightarrow> Sender_concept t []"
  by (cases "props t") (auto simp: Sender_concept_def property_query_def)

text \<open>What a list of arguments means to each of the four.\<close>

fun sender_meaning :: "property list \<Rightarrow> 'a cxx list \<Rightarrow> slot list option" where
  "sender_meaning ps [] = Some [IgnoreSF]"
| "sender_meaning ps [a] =
     (if Sender_concept a ps then Some [Arg 0, PassDSF]
      else if Sender_concept a [] then None else Some [Arg 0])"
| "sender_meaning ps [a, b] = (if Sender_concept a ps then Some [Arg 0, Arg 1] else None)"
| "sender_meaning ps _ = None"

lemma make_sender_meaning:
  "resolve_templates (overloads_of c) args = sender_meaning (class_properties c) args"
  by (cases c; cases "(class_properties c, args)" rule: sender_meaning.cases)
     (auto simp: resolve_templates_def sender_table_defs dest: sender_more)

lemma sender_guides_same:
  "single_sender_guides = make_single_sender_overloads" "many_sender_guides = make_many_sender_overloads"
  "flow_single_sender_guides = make_flow_single_sender_overloads"
  "flow_many_sender_guides = make_flow_many_sender_overloads"
  by (simp_all add: single_sender_guides_def many_sender_guides_def flow_single_sender_guides_def
      flow_many_sender_guides_def sender_table_defs)

text \<open>The class that \<open>sender_from\<close> chooses accepts the sender it was chosen for.\<close>

lemma index_query:
  assumes "UniqueCategory ps" "property_set_index ps Is_Single = Some c"
  shows "property_query (Some ps) [c] \<and> property_category c = Cardinality_Category"
proof -
  have "element_of (property_category Is_Single) ps = Some c" using assms(2) by (simp add: property_set_index_def)
  then have c: "c \<in> set ps" "property_category c = Cardinality_Category"
    by (auto simp: element_of_def find_Some_iff)
  then show ?thesis
    using assms(1) by (auto simp: unique_category_iff query_iff is_base_of_def)
qed

lemma sender_from_class_total:
  assumes "Sender_concept t []" "props t = Some ps" "UniqueCategory ps"
  shows "\<exists>c. sender_from_class t = Some c \<and> Sender_concept t (class_properties c) \<and>
    (c \<in> {Single_Sender, Flow_Single_Sender} \<longleftrightarrow> is_single_v t) \<and>
    (c \<in> {Flow_Single_Sender, Flow_Many_Sender} \<longleftrightarrow> is_flow_v t)"
proof -
  have "has_cardinality_v t" using assms(1) by (simp add: Sender_concept_def)
  then obtain p where p: "property_set_index ps Is_Single = Some p"
    using assms(2) by (auto simp: has_cardinality_v_def category_query_def property_set_index_def)
  from index_query [OF assms(3) p] have q: "property_query (Some ps) [p]" "property_category p = Cardinality_Category"
    by blast+
  then have pc: "p = Is_Single \<or> p = Is_Many" by (cases p) auto
  have single: "is_single_v t \<longleftrightarrow> p = Is_Single"
    using p q pc assms(2)
    by (auto simp: is_single_v_def property_query_def property_query_fn_def property_set_index_def is_base_of_def
        split: option.splits)
  have flow: "is_flow_v t \<longleftrightarrow> property_query (Some ps) [Is_Flow]" using assms(2) by (simp add: is_flow_v_def)
  show ?thesis
    using assms(1,2) pc q(1) query_Cons [of "Some ps" p "[Is_Flow]"]
    by (cases "property_query (Some ps) [Is_Flow]")
       (auto simp: sender_from_class_def p single flow Sender_concept_def)
qed

text \<open>
  \<open>sender_from\<close> always has a result: for every sender type with a valid property set, alone or with
  a submit function, exactly one class and one of its overloads are chosen, the class has the
  cardinality of the sender and is a flow class exactly if the sender is one, and it keeps the
  sender and the function. The \<open>make\<close> functions themselves refuse a sender of another kind, rather
  than take it for a submit function, and agree with the deduction guides.
\<close>
theorem sender_from_resolves:
  assumes "Sender_concept t []" "props t = Some ps" "UniqueCategory ps"
  shows "\<exists>c. sender_from_type t [] = Some (c, [Arg 0, PassDSF]) \<and> sender_from_type t [f] = Some (c, [Arg 0, Arg 1]) \<and>
    (c \<in> {Single_Sender, Flow_Single_Sender} \<longleftrightarrow> is_single_v t) \<and>
    (c \<in> {Flow_Single_Sender, Flow_Many_Sender} \<longleftrightarrow> is_flow_v t) \<and>
    (\<forall>d. \<not> Sender_concept t (class_properties d) \<longrightarrow>
       resolve_templates (overloads_of d) [t] = None \<and> resolve_templates (overloads_of d) [t, f] = None)"
proof -
  obtain c where c: "sender_from_class t = Some c" "Sender_concept t (class_properties c)"
      "c \<in> {Single_Sender, Flow_Single_Sender} \<longleftrightarrow> is_single_v t"
      "c \<in> {Flow_Single_Sender, Flow_Many_Sender} \<longleftrightarrow> is_flow_v t"
    using sender_from_class_total [OF assms] by blast
  then show ?thesis
    using assms(1) by (intro exI [of _ c]) (simp add: sender_from_type_def make_sender_meaning)
qed

theorem sender_from_resolves_witness:
  "\<exists>c. sender_from_type (inline_task_type :: nat cxx) [] = Some (c, [Arg 0, PassDSF]) \<and>
     (c \<in> {Flow_Single_Sender, Flow_Many_Sender} \<longleftrightarrow> False)"
proof -
  have s: "Sender_concept (inline_task_type :: nat cxx) []" "\<not> is_flow_v (inline_task_type :: nat cxx)"
    by (simp_all add: type_defs query_run)
  have p: "props (inline_task_type :: nat cxx) = Some [Is_Sender, Is_Always_Blocking, Is_Single]"
    by (simp add: type_defs)
  have u: "UniqueCategory [Is_Sender, Is_Always_Blocking, Is_Single]" by (simp add: unique_category_iff)
  from sender_from_resolves [OF s(1) p u, of inline_task_type] show ?thesis using s(2) by blast
qed

end
