(* ===== verification/Concept_Emulation.thy ===== *)
theory Concept_Emulation
  imports Properties
begin

text \<open>
  What stands for C++20 concepts with a compiler that has none: the preprocessor metaprogram of
  \<open>detail/concept_def.h\<close> that takes a concept definition apart, the classes \<open>Not\<close>, \<open>And\<close> and \<open>Or\<close>
  that combine concepts without instantiating more than is needed, the \<open>select\<close> of
  \<open>detail/if_constexpr.h\<close> that stands for \<open>if constexpr\<close>, and the general concepts of \<open>traits.h\<close>.
\<close>

section \<open>Combining concepts\<close>

text \<open>
  The body of a concept for some arguments: a condition with its value, a form that is invalid in
  the immediate context of the substitution, or one that is an error outside of it.
\<close>

datatype requirement = Holds bool | Invalid | Hard_Error

text \<open>
  \<open>Eval\<close>: its \<open>impl(int)\<close> is viable when \<open>Requires_\<close> can be instantiated, whose return type
  \<open>enable_if_t\<close> is invalid if the condition is false; \<open>impl(long)\<close> always is, and is the worse
  match. The value is \<open>None\<close> when nothing compiles.
\<close>

fun enable_if :: "requirement \<Rightarrow> requirement" where
  "enable_if (Holds b) = (if b then Holds True else Invalid)"
| "enable_if r = r"

fun concept_eval :: "requirement \<Rightarrow> bool option" where
  "concept_eval r =
     (case enable_if r of Holds b \<Rightarrow> Some True | Invalid \<Rightarrow> Some False | Hard_Error \<Rightarrow> None)"

datatype cx = Eval requirement | CNot cx | CAnd cx cx | COr cx cx

text \<open>
  \<open>operator bool\<close>; \<open>std::conditional_t\<close> names a type, and only the chosen one is instantiated.
\<close>

fun cx_bool :: "cx \<Rightarrow> bool option" where
  "cx_bool (Eval r) = concept_eval r"
| "cx_bool (CNot t) = map_option Not (cx_bool t)"
| "cx_bool (CAnd t u) = Option.bind (cx_bool t) (\<lambda>b. if b then cx_bool u else Some False)"
| "cx_bool (COr t u) = Option.bind (cx_bool t) (\<lambda>b. if b then Some True else cx_bool u)"

fun cx_not :: "cx \<Rightarrow> cx" where
  "cx_not (CNot t) = t"
| "cx_not t = CNot t"

definition cx_and :: "cx \<Rightarrow> cx \<Rightarrow> cx" where
  "cx_and t u = CAnd t u"

definition cx_or :: "cx \<Rightarrow> cx \<Rightarrow> cx" where
  "cx_or t u = COr t u"

text \<open>
  The conversion to \<open>std::integral_constant<bool, B>\<close>. That of \<open>Eval\<close> asks for the value of
  \<open>Concept{}\<close>, the class that \<open>Eval\<close> is a member of, which has no conversion to \<open>bool\<close>.
\<close>

fun cx_converts :: "cx \<Rightarrow> bool \<Rightarrow> bool" where
  "cx_converts (Eval r) b = False"
| "cx_converts t b = (cx_bool t = Some b)"

fun expAnd :: "cx list \<Rightarrow> cx option" where
  "expAnd [] = None"
| "expAnd [t] = Some t"
| "expAnd (t # ts) = map_option (CAnd t) (expAnd ts)"

text \<open>
  \<open>PUSHMI_TEMPLATE\<close>: \<open>enable_if_t<bool(C) || false>\<close>; the overload is viable if that is a type.
\<close>

definition template_viable :: "cx \<Rightarrow> bool" where
  "template_viable t \<longleftrightarrow> cx_bool t = Some True"

text \<open>The same conjunction of the variables \<open>Name<T>\<close>, each of which is instantiated.\<close>

fun eager_and :: "cx list \<Rightarrow> bool option" where
  "eager_and [] = Some True"
| "eager_and (t # ts) = Option.bind (cx_bool t) (\<lambda>b. map_option (\<lambda>c. b \<and> c) (eager_and ts))"

lemma cx_not_bool: "cx_bool (cx_not t) = map_option Not (cx_bool t)"
  by (cases t) (auto simp: option.map_comp comp_def option.map_ident)

lemma expAnd_Cons: "ts \<noteq> [] \<Longrightarrow> expAnd (t # ts) = map_option (CAnd t) (expAnd ts)"
  by (cases ts) auto

lemma expAnd_Some: "ts \<noteq> [] \<Longrightarrow> \<exists>c. expAnd ts = Some c"
  by (induction ts rule: expAnd.induct) auto

text \<open>Instantiation stops at the first concept that does not hold.\<close>

lemma expAnd_bool:
  "expAnd ts = Some c \<Longrightarrow>
   cx_bool c = (case dropWhile (\<lambda>t. cx_bool t = Some True) ts of [] \<Rightarrow> Some True | t # _ \<Rightarrow> cx_bool t)"
proof (induction ts arbitrary: c)
  case (Cons t ts)
  show ?case
  proof (cases "ts = []")
    case True
    with Cons.prems show ?thesis by (auto split: list.split)
  next
    case False
    then obtain d where d: "expAnd ts = Some d" "c = CAnd t d" using Cons.prems expAnd_Cons by auto
    from Cons.IH [OF d(1)] show ?thesis by (cases "cx_bool t") (auto simp: d(2))
  qed
qed simp

lemma eager_and_expAnd:
  "expAnd ts = Some c \<Longrightarrow> eager_and ts = Some b \<Longrightarrow> cx_bool c = Some b"
proof (induction ts arbitrary: b c)
  case (Cons t ts)
  then obtain b1 b2 where b: "cx_bool t = Some b1" "eager_and ts = Some b2" "b = (b1 \<and> b2)"
    by (auto simp: bind_eq_Some_conv)
  show ?case
  proof (cases "ts = []")
    case True
    with Cons.prems b show ?thesis by auto
  next
    case False
    then obtain d where d: "expAnd ts = Some d" "c = CAnd t d" using Cons.prems expAnd_Cons by auto
    from Cons.IH [OF d(1) b(2)] b d show ?thesis by simp
  qed
qed simp

lemma expAnd_viable: "expAnd ts = Some c \<Longrightarrow> template_viable c \<longleftrightarrow> list_all template_viable ts"
proof (induction ts arbitrary: c)
  case (Cons t ts)
  show ?case
  proof (cases "ts = []")
    case False
    then obtain d where d: "expAnd ts = Some d" "c = CAnd t d" using Cons.prems expAnd_Cons by auto
    from Cons.IH [OF d(1)] show ?thesis by (auto simp: d(2) template_viable_def bind_eq_Some_conv split: if_splits)
  qed (use Cons.prems in simp)
qed simp

text \<open>
  The lazy conjunction \<open>PUSHMI_EXP(lazy::A PUSHMI_AND lazy::B ...)\<close> is the conjunction of its
  concepts, evaluated from the left up to the first that does not hold: it has the value of the
  plain \<open>&&\<close> wherever that compiles, and has a value whenever an earlier concept rules out the one
  that does not compile. De Morgan's laws and double negation hold for the operators.
\<close>
theorem lazy_conjunction:
  assumes "expAnd ts = Some c"
  shows "cx_bool c = (case dropWhile (\<lambda>t. cx_bool t = Some True) ts of [] \<Rightarrow> Some True | t # _ \<Rightarrow> cx_bool t) \<and>
    (eager_and ts \<noteq> None \<longrightarrow> cx_bool c = eager_and ts) \<and>
    (template_viable c \<longleftrightarrow> list_all template_viable ts) \<and>
    cx_not (cx_not (CAnd t u)) = CAnd t u \<and>
    cx_bool (cx_not (cx_and t u)) = cx_bool (cx_or (cx_not t) (cx_not u))"
proof (intro conjI impI)
  show eq: "cx_bool c = (case dropWhile (\<lambda>t. cx_bool t = Some True) ts of [] \<Rightarrow> Some True | t # _ \<Rightarrow> cx_bool t)"
    by (rule expAnd_bool [OF assms])
  show "eager_and ts \<noteq> None \<Longrightarrow> cx_bool c = eager_and ts" using eager_and_expAnd [OF assms] by auto
  show "template_viable c \<longleftrightarrow> list_all template_viable ts" by (rule expAnd_viable [OF assms])
  show "cx_not (cx_not (CAnd t u)) = CAnd t u" by simp
  show "cx_bool (cx_not (cx_and t u)) = cx_bool (cx_or (cx_not t) (cx_not u))"
    by (cases "cx_bool t"; cases "cx_bool u") (auto simp: cx_and_def cx_or_def cx_not_bool)
qed

theorem lazy_conjunction_witness:
  "cx_bool (CAnd (Eval (Holds False)) (Eval Hard_Error)) = Some False \<and>
   eager_and [Eval (Holds False), Eval Hard_Error] = None"
  using lazy_conjunction [of "[Eval (Holds False), Eval Hard_Error]" "CAnd (Eval (Holds False)) (Eval Hard_Error)"]
  by simp

section \<open>The preprocessor metaprogram\<close>

text \<open>
  Preprocessor tokens: a word, a number, or a parenthesised list of arguments. An argument is a list
  of tokens.
\<close>

datatype tok = Word string | Number nat | Parens "tok list list"

type_synonym tokens = "tok list"

text \<open>
  \<open>PUSHMI_PP_CHECK(...)\<close> is the second of its arguments followed by \<open>0\<close> and nothing;
  \<open>PUSHMI_PP_PROBE(x)\<close> becomes \<open>x, 1,\<close>.
\<close>

definition pp_check :: "tokens list \<Rightarrow> tokens" where
  "pp_check args = (args @ [[Number 0], []]) ! 1"

definition pp_probe :: "tokens \<Rightarrow> tokens list" where
  "pp_probe x = [x, [Number 1], []]"

text \<open>\<open>PUSHMI_PP_IS_PAREN_PROBE x\<close> is a macro call exactly when \<open>x\<close> begins with a parenthesis.\<close>

fun is_paren_probe :: "tokens \<Rightarrow> tokens list" where
  "is_paren_probe (Parens as # ts) =
     (let p = pp_probe [Word ''~''] in butlast p @ [last p @ ts])"
| "is_paren_probe ts = [Word ''PUSHMI_PP_IS_PAREN_PROBE'' # ts]"

definition pp_is_paren :: "tokens \<Rightarrow> tokens" where
  "pp_is_paren x = pp_check (is_paren_probe x)"

text \<open>\<open>PUSHMI_PP_COUNT\<close>: the 51st of the arguments followed by 50, 49, ... 1 and nothing.\<close>

definition pp_count :: "tokens list \<Rightarrow> tokens" where
  "pp_count args = (args @ map (\<lambda>n. [Number n]) (rev [1..<51]) @ [[]]) ! 50"

definition pp_iif :: "bool \<Rightarrow> tokens \<Rightarrow> tokens \<Rightarrow> tokens" where
  "pp_iif b t f = (if b then t else f)"

text \<open>
  \<open>PUSHMI_PP_CAT(PUSHMI_PP_DEF_, ...)\<close> pastes the prefix to the first word; the macros of the words
  that introduce a parameter, and of \<open>concept\<close>, are empty.
\<close>

definition pp_keywords :: "string list" where
  "pp_keywords = [''concept'', ''class'', ''typename'', ''int'', ''bool'', ''size_t'', ''unsigned'']"

fun pp_def :: "tokens \<Rightarrow> tokens" where
  "pp_def (Word w # ts) = (if w \<in> set pp_keywords then ts else Word (''PUSHMI_PP_DEF_'' @ w) # ts)"
| "pp_def ts = Word ''PUSHMI_PP_DEF_'' # ts"

text \<open>
  \<open>PUSHMI_PP_TPARAM_1\<close> to \<open>_5\<close>; \<open>PUSHMI_PP_AUX_template\<close> chooses by the count. There is none for
  another number of parameters.
\<close>

fun pp_tparam :: "nat \<Rightarrow> tokens list \<Rightarrow> tokens list option" where
  "pp_tparam (Suc 0) [p] = Some [pp_def p]"
| "pp_tparam (Suc n) (p # ps) = (if n \<le> 4 then map_option (Cons (pp_def p)) (pp_tparam n ps) else None)"
| "pp_tparam _ _ = None"

fun the_number :: "tokens \<Rightarrow> nat option" where
  "the_number [Number n] = Some n"
| "the_number _ = None"

definition aux_template :: "tokens list \<Rightarrow> tokens list option" where
  "aux_template ps = Option.bind (the_number (pp_count ps)) (\<lambda>n. pp_tparam n ps)"

text \<open>
  A concept definition: template parameters, name, template arguments, and the form of the
  requirements (\<open>PUSHMI_PP_DEF_IMPL\<close>: whether they begin with \<open>requires\<close>).
\<close>

record concept_decl =
  cd_params :: "tokens list"
  cd_name :: tokens
  cd_args :: "tokens list"
  cd_requires :: bool
  cd_body :: tokens

fun requires_probe :: "tokens \<Rightarrow> tokens list" where
  "requires_probe (Word w # ts) =
     (if w = ''requires'' then (let p = pp_probe [Word ''~''] in butlast p @ [last p @ ts])
      else [Word (''PUSHMI_PP_REQUIRES_PROBE_'' @ w) # ts])"
| "requires_probe ts = [Word ''PUSHMI_PP_REQUIRES_PROBE_'' # ts]"

definition def_impl :: "tokens \<Rightarrow> bool" where
  "def_impl body \<longleftrightarrow> pp_check (requires_probe body) = [Number 1]"

definition decl_def_impl :: "tokens list \<Rightarrow> tokens \<Rightarrow> tokens list \<Rightarrow> tokens \<Rightarrow> concept_decl" where
  "decl_def_impl tparams name args body =
     \<lparr>cd_params = tparams, cd_name = name, cd_args = args, cd_requires = def_impl body, cd_body = body\<rparr>"

text \<open>
  \<open>PUSHMI_PP_DECL_DEF\<close>: with a name \<open>(concept Name)(A, B...)\<close> the arguments are those given, with a
  name \<open>concept Name\<close> they are computed from the parameters.
\<close>

fun decl_def :: "tokens list \<Rightarrow> tokens \<Rightarrow> tokens \<Rightarrow> concept_decl option" where
  "decl_def tparams name body =
     (if pp_is_paren name = [Number 1]
      then (case name of
              [Parens [n], Parens args] \<Rightarrow> Some (decl_def_impl tparams (pp_def n) args body)
            | _ \<Rightarrow> None)
      else map_option (\<lambda>args. decl_def_impl tparams (pp_def name) args body) (aux_template tparams))"

lemma pp_count_ok: "1 \<le> length args \<Longrightarrow> length args \<le> 50 \<Longrightarrow> pp_count args = [Number (length args)]"
  by (auto simp: pp_count_def nth_append rev_nth)

lemma pp_count_0: "pp_count [[]] = [Number 1]"
  using pp_count_ok [of "[[]]"] by simp

lemma pp_is_paren_iff: "pp_is_paren x = [Number 1] \<longleftrightarrow> (\<exists>as ts. x = Parens as # ts)"
  by (cases x rule: is_paren_probe.cases) (auto simp: pp_is_paren_def pp_check_def pp_probe_def)

lemma def_impl_iff: "def_impl body \<longleftrightarrow> (\<exists>ts. body = Word ''requires'' # ts)"
  by (cases body rule: requires_probe.cases) (auto simp: def_impl_def pp_check_def pp_probe_def)

lemma pp_tparam_map: "1 \<le> length ps \<Longrightarrow> length ps \<le> 5 \<Longrightarrow> pp_tparam (length ps) ps = Some (map pp_def ps)"
proof (induction ps)
  case (Cons p ps)
  then show ?case by (cases ps) auto
qed simp

lemma pp_tparam_many: "5 < n \<Longrightarrow> pp_tparam n ps = None"
  by (cases "(n, ps)" rule: pp_tparam.cases) auto

text \<open>
  A concept definition means the same in both of its forms, for up to five parameters each introduced
  by one of the known words: \<open>template(class A, ...) concept Name\<close> is the definition that is written
  \<open>template(class A, ...) (concept Name)(A, ...)\<close>. The number of parameters is counted right up to
  fifty, with more than five the short form is refused.
\<close>
theorem concept_definition_forms:
  assumes "length names = length kinds" "1 \<le> length names" "length names \<le> 50" "set kinds \<subseteq> set pp_keywords"
    and "\<forall>a. name \<noteq> Parens a"
  defines "params \<equiv> map2 (\<lambda>k n. [Word k, Word n]) kinds names" and "args \<equiv> map (\<lambda>n. [Word n]) names"
  shows "pp_count params = [Number (length names)] \<and>
    decl_def params [Parens [[Word ''concept'', name]], Parens args] body =
      Some \<lparr>cd_params = params, cd_name = [name], cd_args = args,
        cd_requires = (\<exists>ts. body = Word ''requires'' # ts), cd_body = body\<rparr> \<and>
    decl_def params [Word ''concept'', name] body =
      (if length names \<le> 5 then decl_def params [Parens [[Word ''concept'', name]], Parens args] body else None)"
proof -
  have len: "length params = length names" using assms(1) by (simp add: params_def)
  have cnt: "pp_count params = [Number (length names)]" using pp_count_ok [of params] assms(2,3) len by simp
  have "map pp_def params = args"
    using assms(1,4) unfolding params_def args_def
    by (induction kinds names rule: list_induct2') auto
  then have "length names \<le> 5 \<Longrightarrow> aux_template params = Some args"
    using pp_tparam_map [of params] assms(2) len by (simp add: aux_template_def cnt)
  moreover have "5 < length names \<Longrightarrow> aux_template params = None"
    by (simp add: aux_template_def cnt pp_tparam_many)
  ultimately show ?thesis
    using cnt by (simp add: pp_is_paren_iff decl_def_impl_def def_impl_iff pp_keywords_def del: One_nat_def)
qed

theorem concept_definition_forms_witness:
  "decl_def [[Word ''class'', Word ''T''], [Word ''class'', Word ''U'']] [Word ''concept'', Word ''Same''] [Word ''x''] =
   Some \<lparr>cd_params = [[Word ''class'', Word ''T''], [Word ''class'', Word ''U'']], cd_name = [Word ''Same''],
     cd_args = [[Word ''T''], [Word ''U'']], cd_requires = False, cd_body = [Word ''x'']\<rparr>"
  using concept_definition_forms [of "[''T'', ''U'']" "[''class'', ''class'']" "Word ''Same''" "[Word ''x'']"]
  by (simp add: pp_keywords_def)

section \<open>\<open>if constexpr\<close>\<close>

text \<open>
  A branch: a function on the state whose return type is \<open>void\<close> or not. \<open>id_fn\<close>, the object that is
  passed to it, converts to \<open>false\<close>.
\<close>

datatype ('s, 'r) branch = Void_Branch "'s \<Rightarrow> 's" | Value_Branch "'s \<Rightarrow> 's \<times> 'r"

fun run_branch :: "('s, 'r) branch \<Rightarrow> 's \<Rightarrow> 's \<times> 'r option" where
  "run_branch (Void_Branch f) s = (f s, None)"
| "run_branch (Value_Branch f) s = (let (s', r) = f s in (s', Some r))"

definition id_fn_bool :: bool where
  "id_fn_bool = False"

text \<open>With language support: \<open>if constexpr (id_fn id = {}) {} else if constexpr (c) ... else ...\<close>.\<close>

definition if_constexpr_17 :: "bool \<Rightarrow> ('s, 'r) branch \<Rightarrow> ('s, 'r) branch \<Rightarrow> 's \<Rightarrow> 's \<times> 'r option" where
  "if_constexpr_17 c t e s = (if id_fn_bool then (s, None) else if c then run_branch t s else run_branch e s)"

text \<open>
  Without: \<open>select<c>() ->* t ->* e\<close>. The two overloads of \<open>select<true>::operator->*\<close> differ in
  \<open>const\<close>: the one for results is the better match for the prvalue, and is not viable for \<open>void\<close>,
  for which \<open>eat_return\<close> has no type.
\<close>

datatype 'r eaten = Eat_Return 'r | Eat | Eat_False

fun select_then :: "bool \<Rightarrow> ('s, 'r) branch \<Rightarrow> 's \<Rightarrow> 's \<times> 'r eaten" where
  "select_then True (Value_Branch f) s = (let (s', r) = f s in (s', Eat_Return r))"
| "select_then True (Void_Branch f) s = (f s, Eat)"
| "select_then False t s = (s, Eat_False)"

fun select_else :: "'r eaten \<Rightarrow> ('s, 'r) branch \<Rightarrow> 's \<Rightarrow> 's \<times> 'r option" where
  "select_else (Eat_Return v) e s = (s, Some v)"
| "select_else Eat e s = (s, None)"
| "select_else Eat_False e s = run_branch e s"

definition if_constexpr_14 :: "bool \<Rightarrow> ('s, 'r) branch \<Rightarrow> ('s, 'r) branch \<Rightarrow> 's \<Rightarrow> 's \<times> 'r option" where
  "if_constexpr_14 c t e s = (let (s', x) = select_then c t s in select_else x e s')"

text \<open>Both run exactly the chosen branch, once, and return what it returns.\<close>

lemma if_constexpr_same: "if_constexpr_14 c t e = if_constexpr_17 c t e"
  by (rule ext, cases c; cases t) (simp_all add: if_constexpr_14_def if_constexpr_17_def id_fn_bool_def split: prod.split)

section \<open>The concepts of \<open>traits.h\<close>\<close>

text \<open>
  What these concepts ask the compiler: types \<open>'t\<close> with references and decay, and which expressions
  are valid for them. \<open>cc_assign t u\<close> is the type of \<open>t = (U &&) u\<close>.
\<close>

record 't compiler =
  cc_object :: "'t \<Rightarrow> bool"
  cc_constructible :: "'t \<Rightarrow> 't list \<Rightarrow> bool"
  cc_static_cast :: "'t \<Rightarrow> 't \<Rightarrow> bool"
  cc_convertible :: "'t \<Rightarrow> 't \<Rightarrow> bool"
  cc_base_of :: "'t \<Rightarrow> 't \<Rightarrow> bool"
  cc_decay :: "'t \<Rightarrow> 't"
  cc_lref :: "'t \<Rightarrow> 't"
  cc_cref :: "'t \<Rightarrow> 't"
  cc_assign :: "'t \<Rightarrow> 't \<Rightarrow> 't option"
  cc_eq :: "'t \<Rightarrow> bool"
  cc_neq :: "'t \<Rightarrow> bool"

definition Same_concept :: "'t \<Rightarrow> 't \<Rightarrow> bool" where
  "Same_concept t u \<longleftrightarrow> t = u \<and> u = t"

definition And_concept :: "bool list \<Rightarrow> bool" where
  "And_concept bs = and_v bs"

definition Or_concept :: "bool list \<Rightarrow> bool" where
  "Or_concept bs = or_v bs"

definition Object_concept :: "'t compiler \<Rightarrow> 't \<Rightarrow> bool" where
  "Object_concept C t = cc_object C t"

definition Constructible_concept :: "'t compiler \<Rightarrow> 't \<Rightarrow> 't list \<Rightarrow> bool" where
  "Constructible_concept C t args = cc_constructible C t args"

definition MoveConstructible_concept :: "'t compiler \<Rightarrow> 't \<Rightarrow> bool" where
  "MoveConstructible_concept C t = Constructible_concept C t [t]"

definition ConvertibleTo_concept :: "'t compiler \<Rightarrow> 't \<Rightarrow> 't \<Rightarrow> bool" where
  "ConvertibleTo_concept C from to \<longleftrightarrow> cc_static_cast C from to \<and> cc_convertible C from to"

definition DerivedFrom_concept :: "'t compiler \<Rightarrow> 't \<Rightarrow> 't \<Rightarrow> bool" where
  "DerivedFrom_concept C a b = cc_base_of C b a"

definition Decayed_concept :: "'t compiler \<Rightarrow> 't \<Rightarrow> bool" where
  "Decayed_concept C a = Same_concept a (cc_decay C a)"

definition Assignable_concept :: "'t compiler \<Rightarrow> 't \<Rightarrow> 't \<Rightarrow> bool" where
  "Assignable_concept C t u \<longleftrightarrow>
     (case cc_assign C t u of Some r \<Rightarrow> Same_concept r t | None \<Rightarrow> False) \<and> Same_concept t (cc_lref C t)"

definition EqualityComparable_concept :: "'t compiler \<Rightarrow> 't \<Rightarrow> bool" where
  "EqualityComparable_concept C t \<longleftrightarrow> cc_eq C t \<and> cc_neq C t"

definition SemiMovable_concept :: "'t compiler \<Rightarrow> 't \<Rightarrow> bool" where
  "SemiMovable_concept C t \<longleftrightarrow>
     Object_concept C t \<and> Constructible_concept C t [t] \<and> ConvertibleTo_concept C t t"

definition Movable_concept :: "'t compiler \<Rightarrow> 't \<Rightarrow> bool" where
  "Movable_concept C t \<longleftrightarrow> SemiMovable_concept C t \<and> Assignable_concept C (cc_lref C t) t"

definition Copyable_concept :: "'t compiler \<Rightarrow> 't \<Rightarrow> bool" where
  "Copyable_concept C t \<longleftrightarrow>
     Movable_concept C t \<and> Assignable_concept C (cc_lref C t) (cc_cref C t) \<and>
     ConvertibleTo_concept C (cc_cref C t) t"

definition Semiregular_concept :: "'t compiler \<Rightarrow> 't \<Rightarrow> bool" where
  "Semiregular_concept C t \<longleftrightarrow> Copyable_concept C t \<and> Constructible_concept C t []"

definition Regular_concept :: "'t compiler \<Rightarrow> 't \<Rightarrow> bool" where
  "Regular_concept C t \<longleftrightarrow> Semiregular_concept C t \<and> EqualityComparable_concept C t"

text \<open>\<open>is_v<T, C>\<close>: whether \<open>T\<close> is a specialisation of the template \<open>C\<close>.\<close>

datatype 'n cxx_instance = Instance 'n "'n cxx_instance list"

fun is_v :: "'n cxx_instance \<Rightarrow> 'n \<Rightarrow> bool" where
  "is_v (Instance n args) c = (n = c)"

lemma regular_refines:
  "Regular_concept C t \<Longrightarrow> Semiregular_concept C t" "Semiregular_concept C t \<Longrightarrow> Copyable_concept C t"
  "Copyable_concept C t \<Longrightarrow> Movable_concept C t" "Movable_concept C t \<Longrightarrow> SemiMovable_concept C t"
  "SemiMovable_concept C t \<Longrightarrow> MoveConstructible_concept C t"
  unfolding Regular_concept_def Semiregular_concept_def Copyable_concept_def Movable_concept_def
    SemiMovable_concept_def MoveConstructible_concept_def by blast+

text \<open>Only an lvalue reference type is \<open>Assignable\<close>, whatever the assignment returns.\<close>

lemma assignable_reference: "Assignable_concept C t u \<Longrightarrow> t = cc_lref C t"
  unfolding Assignable_concept_def Same_concept_def by blast

end
