(* ===== verification/Factories.thy ===== *)
theory Factories
  imports Strand Time_Source_Correct Concepts
begin

text \<open>
  The customization points that return something (\<open>get_executor\<close>, \<open>make_strand\<close>, \<open>schedule\<close>,
  \<open>top\<close> of \<open>extension_points.h\<close>), and what makes strands and time executors: \<open>strands\<close> of
  \<open>strand.h\<close>, \<open>time_source::make\<close> of \<open>time_source.h\<close>, their executors and tasks. The many queues of
  one factory are composed here from the component models of \<open>Strand\<close> and \<open>Time_Source\<close>.
\<close>

section \<open>Customization points\<close>

text \<open>A member function without a signal: the object after the call, and the result.\<close>

type_synonym ('s, 'r) getter = "'s \<Rightarrow> ('s \<times> 'r) outcome"

definition deref_get :: "('s, 'r) getter \<Rightarrow> ('s option, 'r) getter" where
  "deref_get f p = (case p of None \<Rightarrow> UB | Some s \<Rightarrow> map_outcome (\<lambda>(s', r). (Some s', r)) (f s))"

definition class_get_executor :: "('s, 'x) getter \<Rightarrow> ('s, 'x) getter" where
  "class_get_executor M sd = M sd"

definition class_make_strand :: "('s, 'x) getter \<Rightarrow> ('s, 'x) getter" where
  "class_make_strand M sd = M sd"

definition class_top :: "('s, 'cv) getter \<Rightarrow> ('s, 'cv) getter" where
  "class_top M sd = M sd"

definition class_schedule :: "('s, 'c) getter \<Rightarrow> ('s, 'c) getter" where
  "class_schedule M sd = M sd"

definition class_schedule_at :: "('tp \<Rightarrow> ('s, 'c) getter) \<Rightarrow> 'tp \<Rightarrow> ('s, 'c) getter" where
  "class_schedule_at M tp sd = M tp sd"

definition ptr_get_executor :: "('s, 'x) getter \<Rightarrow> ('s option, 'x) getter" where
  "ptr_get_executor M = deref_get (class_get_executor M)"

definition ptr_make_strand :: "('s, 'x) getter \<Rightarrow> ('s option, 'x) getter" where
  "ptr_make_strand M = deref_get (class_make_strand M)"

definition ptr_top :: "('s, 'cv) getter \<Rightarrow> ('s option, 'cv) getter" where
  "ptr_top M = deref_get (class_top M)"

definition ptr_schedule :: "('s, 'c) getter \<Rightarrow> ('s option, 'c) getter" where
  "ptr_schedule M = deref_get (class_schedule M)"

definition ptr_schedule_at :: "('tp \<Rightarrow> ('s, 'c) getter) \<Rightarrow> 'tp \<Rightarrow> ('s option, 'c) getter" where
  "ptr_schedule_at M tp = deref_get (class_schedule_at M tp)"

text \<open>
  The function objects look the overload up: on a class the member, on a pointer, possibly to another
  pointer, the function of what it points to.
\<close>

datatype 's obj = Obj 's | Ptr "'s obj option"

fun adl :: "('s, 'r) getter \<Rightarrow> ('s obj, 'r) getter" where
  "adl f (Obj s) = map_outcome (\<lambda>(s', r). (Obj s', r)) (f s)"
| "adl f (Ptr None) = UB"
| "adl f (Ptr (Some q)) = map_outcome (\<lambda>(q', r). (Ptr (Some q'), r)) (adl f q)"

definition get_executor_fn :: "('s, 'x) getter \<Rightarrow> ('s obj, 'x) getter" where
  "get_executor_fn M = adl (class_get_executor M)"

definition make_strand_fn :: "('s, 'x) getter \<Rightarrow> ('s obj, 'x) getter" where
  "make_strand_fn M = adl (class_make_strand M)"

definition do_schedule_fn :: "('s, 'c) getter \<Rightarrow> ('s obj, 'c) getter" where
  "do_schedule_fn M = adl (class_schedule M)"

definition get_top_fn :: "('s, 'cv) getter \<Rightarrow> ('s obj, 'cv) getter" where
  "get_top_fn M = adl (class_top M)"

text \<open>A nullary function is a strand factory: it is called.\<close>

definition fn_make_strand :: "('f, 'x) getter \<Rightarrow> ('f, 'x) getter" where
  "fn_make_strand f s = f s"

section \<open>\<open>strands\<close>\<close>

text \<open>
  The queues of the strands that were made; a \<open>strand_executor\<close> and a \<open>strand_task\<close> hold a shared
  pointer to one of them. All queues have a copy of the same executor.
\<close>

type_synonym strand_world = "strand list"

definition same_strand_factory_make :: "strand_world \<Rightarrow> strand_world \<times> nat" where
  "same_strand_factory_make w = (w @ [strand_new], length w)"

definition strand_executor_schedule :: "nat \<Rightarrow> nat" where
  "strand_executor_schedule q = q"

definition strand_task_submit :: "nat \<Rightarrow> nat \<Rightarrow> strand_world \<Rightarrow> strand_world" where
  "strand_task_submit q i w = w[q := task_submit i (w ! q)]"

text \<open>Making a strand, submitting to one through its executor, and any other step of one strand.\<close>

inductive strands_step :: "strand_world \<Rightarrow> strand_world \<Rightarrow> bool" where
  make: "strands_step w (fst (same_strand_factory_make w))"
| schedule_submit: "q < length w \<Longrightarrow> strands_step w (strand_task_submit (strand_executor_schedule q) i w)"
| work: "q < length w \<Longrightarrow> strand_step (w ! q) s \<Longrightarrow> strands_step w (w[q := s])"

inductive_cases strands_stepE: "strands_step w w'"

text \<open>Which of the overloads of \<open>strands\<close> is chosen for an argument type, if one is.\<close>

datatype strands_from = From_Provider | From_Executor

definition strands_overloads :: "'a cxx \<Rightarrow> strands_from list" where
  "strands_overloads t =
     (if ExecutorProvider_concept t [] \<and>
         (case executor_of t of Some x \<Rightarrow> ConcurrentSequence x | None \<Rightarrow> False) then [From_Provider] else []) @
     (if Executor_concept t [] \<and> ConcurrentSequence t then [From_Executor] else [])"

definition strands :: "'a cxx \<Rightarrow> strands_from option" where
  "strands t = (case strands_overloads t of [m] \<Rightarrow> Some m | _ \<Rightarrow> None)"

section \<open>Time executors\<close>

text \<open>
  A \<open>time_source\<close> starts without queues. A \<open>time_source_executor\<close> holds its queue, whose \<open>nf_\<close> returns
  \<open>now\<close> at the call; a task holds a time point and the queue.
\<close>

definition time_source_ctor :: "int \<Rightarrow> source" where
  "time_source_ctor t = source_new 0 t"

definition time_executor_top :: "int \<Rightarrow> nat \<Rightarrow> int" where
  "time_executor_top now q = now"

definition time_executor_schedule :: "int \<Rightarrow> nat \<Rightarrow> int \<times> nat" where
  "time_executor_schedule now q = (now, q)"

definition time_executor_schedule_at :: "int \<Rightarrow> nat \<Rightarrow> int \<times> nat" where
  "time_executor_schedule_at tp q = (tp, q)"

definition time_task_submit :: "int \<times> nat \<Rightarrow> nat \<Rightarrow> source call" where
  "time_task_submit task out = insert_item (snd task) (fst task, out)"

text \<open>
  \<open>time_source_executor_factory_fn\<close> calls the strand factory it holds and makes a queue for each
  executor; \<open>time_source_same_executor_factory_fn\<close> has one queue, made by \<open>time_source::make\<close>.
\<close>

definition factory_make_strand :: "('f, 'x) getter \<Rightarrow> 'f \<times> source \<Rightarrow> (('f \<times> source) \<times> nat) outcome" where
  "factory_make_strand ef = (\<lambda>(f, s).
     case class_make_strand ef f of
       Ret (f', ex) \<Rightarrow> Ret ((f', make_queue s), ts_count s)
     | Thr n (f', ex) \<Rightarrow> Thr n ((f', s), 0)
     | Term \<Rightarrow> Term | UB \<Rightarrow> UB)"

definition make_same_factory :: "source \<Rightarrow> source \<times> nat" where
  "make_same_factory s = (make_queue s, ts_count s)"

definition same_factory_make_strand :: "nat \<Rightarrow> source \<Rightarrow> source \<times> nat" where
  "same_factory_make_strand q s = (s, q)"

text \<open>The overloads of \<open>time_source::make\<close>.\<close>

datatype make_from = Make_Factory | Make_Provider | Make_Executor

definition task_never_blocks :: "'a cxx \<Rightarrow> bool" where
  "task_never_blocks x = (case scheduled x of Some s \<Rightarrow> NeverBlocking s | None \<Rightarrow> False)"

definition make_overloads :: "'a cxx \<Rightarrow> make_from list" where
  "make_overloads t =
     (if StrandFactory_concept t \<and> \<not> Executor_concept t [] \<and> \<not> ExecutorProvider_concept t [] then [Make_Factory] else []) @
     (if ExecutorProvider_concept t [] \<and>
         (case executor_of t of Some x \<Rightarrow> task_never_blocks x | None \<Rightarrow> False) \<and> \<not> StrandFactory_concept t
      then [Make_Provider] else []) @
     (if Executor_concept t [] \<and> task_never_blocks t \<and> \<not> StrandFactory_concept t then [Make_Executor] else [])"

definition time_source_make :: "'a cxx \<Rightarrow> make_from option" where
  "time_source_make t = (case make_overloads t of [m] \<Rightarrow> Some m | _ \<Rightarrow> None)"

section \<open>Strands do not disturb each other\<close>

abbreviation strands_reach :: "strand_world \<Rightarrow> bool" where
  "strands_reach \<equiv> reachable (\<lambda>w. w = []) strands_step"

definition all_strands :: "strand_world \<Rightarrow> bool" where
  "all_strands w \<longleftrightarrow> (\<forall>s \<in> set w. strand_reach s)"

lemma all_strands_update: "all_strands w \<Longrightarrow> q < length w \<Longrightarrow> strand_step (w ! q) s \<Longrightarrow> all_strands (w[q := s])"
  using set_update_subset_insert [of w q s] reach_step [of "\<lambda>s. s = strand_new" strand_step "w ! q" s]
  by (auto simp: all_strands_def)

lemma all_strands_step: "all_strands w \<Longrightarrow> strands_step w w' \<Longrightarrow> all_strands w'"
proof (erule strands_stepE)
  assume "all_strands w" "w' = fst (same_strand_factory_make w)"
  then show ?thesis by (auto simp: all_strands_def same_strand_factory_make_def intro: reach_init)
next
  fix q i assume "all_strands w" "w' = strand_task_submit (strand_executor_schedule q) i w" "q < length w"
  then show ?thesis
    by (simp add: strand_task_submit_def strand_executor_schedule_def all_strands_update strand_step.submit)
qed (simp add: all_strands_update)

interpretation strand_set: invariant_of "\<lambda>w. w = []" strands_step all_strands
  by unfold_locales (simp add: all_strands_def, rule all_strands_step)

text \<open>
  Every strand that \<open>strands(ex)\<close> makes behaves as a strand of its own, whatever is submitted to the
  other strands of the same factory and however their workers interleave: it is in a state that a
  single strand reaches, so its items leave it in the order of their submission; making another
  strand or working on another one does not change it.
\<close>
theorem strands_are_independent:
  assumes "strands_reach w" "q < length w"
  shows "strand_reach (w ! q) \<and> submitted (w ! q) = map item_of (left (w ! q)) @ items (w ! q) \<and>
    fst (same_strand_factory_make w) ! q = w ! q \<and>
    (p \<noteq> q \<longrightarrow> strand_task_submit (strand_executor_schedule p) i w ! q = w ! q)"
proof -
  have r: "strand_reach (w ! q)"
    using strand_set.reachable_inv [OF assms(1)] assms(2) by (simp add: all_strands_def)
  then show ?thesis
    using fifo.reachable_inv [OF r] assms(2)
    by (simp add: fifo_inv_def same_strand_factory_make_def strand_task_submit_def strand_executor_schedule_def nth_append)
qed

theorem strands_are_independent_witness:
  "strand_task_submit 0 7 [strand_new, strand_new] ! 1 = strand_new \<and> strand_reach strand_new"
proof -
  have "strands_reach []" by (rule reach_init) simp
  from reach_step [OF reach_step [OF this strands_step.make] strands_step.make]
  have "strands_reach [strand_new, strand_new]" by (simp add: same_strand_factory_make_def)
  from strands_are_independent [OF this, of 1 0 7] show ?thesis by (simp add: strand_executor_schedule_def)
qed

section \<open>Queues of a time source\<close>

lemma time_factory_step:
  "source_call stale s (Ret (make_queue s))" "source_call stale s (Ret (fst (make_same_factory s)))"
  by (simp_all add: make_same_factory_def source_call.make)

text \<open>
  Two executors of a factory over a strand factory never share a queue, and two executors of a factory
  over an executor always do; a task that was scheduled through an executor is inserted into that
  executor's queue, with the time at which \<open>schedule()\<close> was called, or the one it was given.
\<close>
theorem time_factories:
  assumes "factory_make_strand ef (f, s) = Ret ((f', s'), q)" "factory_make_strand ef (f', t) = Ret ((f'', t'), q')"
    and "ts_count s' \<le> ts_count t"
  shows "q \<noteq> q' \<and> q < ts_count s' \<and> q' < ts_count t' \<and>
    snd (same_factory_make_strand (snd (make_same_factory u)) v) = snd (same_factory_make_strand (snd (make_same_factory u)) w) \<and>
    time_task_submit (time_executor_schedule now q) out t' = insert_item q (time_executor_top now q, out) t' \<and>
    time_task_submit (time_executor_schedule_at tp q) out t' = insert_item q (tp, out) t'"
  using assms
  by (auto simp: factory_make_strand_def make_queue_def same_factory_make_strand_def time_task_submit_def
      time_executor_schedule_def time_executor_schedule_at_def time_executor_top_def split: outcome.splits)

theorem time_factories_witness:
  "factory_make_strand (\<lambda>f. Ret (f, ())) ((), make_queue (time_source_ctor 0)) \<noteq>
   factory_make_strand (\<lambda>f. Ret (f, ())) ((), time_source_ctor 0)"
  using time_factories [of "\<lambda>f. Ret (f, ())" "()" "time_source_ctor 0" "()" "make_queue (time_source_ctor 0)" 0
      "make_queue (time_source_ctor 0)" "()" "make_queue (make_queue (time_source_ctor 0))" 1]
  by (simp add: factory_make_strand_def class_make_strand_def make_queue_def time_source_ctor_def source_new_def)

text \<open>
  \<open>strands\<close> and \<open>time_source::make\<close> are ambiguous exactly for a type that is both an executor and the
  provider of one.
\<close>

lemma make_ambiguous:
  "length (make_overloads t) \<le> 2"
  "length (make_overloads t) = 2 \<longleftrightarrow>
     ExecutorProvider_concept t [] \<and> Executor_concept t [] \<and> \<not> StrandFactory_concept t \<and> task_never_blocks t \<and>
     (case executor_of t of Some x \<Rightarrow> task_never_blocks x | None \<Rightarrow> False)"
  by (auto simp: make_overloads_def)

lemma strands_ambiguous:
  "length (strands_overloads t) = 2 \<longleftrightarrow>
     ExecutorProvider_concept t [] \<and> (case executor_of t of Some x \<Rightarrow> ConcurrentSequence x | None \<Rightarrow> False) \<and>
     Executor_concept t [] \<and> ConcurrentSequence t"
  by (auto simp: strands_overloads_def)

text \<open>The new thread executor can be used with both; an inline executor with neither.\<close>

lemma strands_of_library:
  "strands (new_thread_executor_type :: nat cxx) = Some From_Executor"
  "time_source_make (new_thread_executor_type :: nat cxx) = Some Make_Executor"
  "strands (inline_executor_type :: nat cxx) = None"
  "time_source_make (inline_executor_type :: nat cxx) = None"
  by (simp_all add: strands_def strands_overloads_def time_source_make_def make_overloads_def task_never_blocks_def
      type_defs query_run)

lemma deref_get_None: "deref_get f None = UB"
  by (simp add: deref_get_def)

lemma ptr_getters:
  "ptr_get_executor f (Some s) = map_outcome (\<lambda>(s', r). (Some s', r)) (f s)"
  "ptr_make_strand f (Some s) = map_outcome (\<lambda>(s', r). (Some s', r)) (f s)"
  "ptr_top f (Some s) = map_outcome (\<lambda>(s', r). (Some s', r)) (f s)"
  "ptr_schedule f (Some s) = map_outcome (\<lambda>(s', r). (Some s', r)) (f s)"
  "ptr_schedule_at g tp (Some s) = map_outcome (\<lambda>(s', r). (Some s', r)) (g tp s)"
  by (simp_all add: deref_get_def ptr_get_executor_def ptr_make_strand_def ptr_top_def ptr_schedule_def
      ptr_schedule_at_def class_get_executor_def class_make_strand_def class_top_def class_schedule_def class_schedule_at_def)

text \<open>
  However deep the pointers, the result is that of the innermost object, which is updated in place; a
  null pointer on the way is undefined.
\<close>

fun innermost :: "'s obj \<Rightarrow> 's option" where
  "innermost (Obj s) = Some s"
| "innermost (Ptr None) = None"
| "innermost (Ptr (Some q)) = innermost q"

lemma adl_innermost:
  "adl f q = (case innermost q of None \<Rightarrow> UB | Some s \<Rightarrow> map_outcome (\<lambda>(s', r). (map_obj (\<lambda>_. s') q, r)) (f s))"
proof (induction f q rule: adl.induct)
  case (3 f q)
  then show ?case
    by (cases "innermost q") (simp_all add: map_outcome_comp case_prod_unfold)
qed simp_all

lemma adl_once: "adl f (Ptr (Some (Obj s))) = map_outcome (\<lambda>(p, r). (Ptr (map_option Obj p), r)) (deref_get f (Some s))"
  by (simp add: deref_get_def map_outcome_comp case_prod_beta)

end
