(* ===== verification/Flow_Operators.thy ===== *)
theory Flow_Operators
  imports Operators
begin

text \<open>
  The operators over flow senders: \<open>receiver_from_fn\<close> wraps \<open>out\<close> in a \<open>flow_receiver\<close>, which passes
  \<open>starting\<close> on. The interface \<open>flow_sender_contract\<close> of \<open>Senders\<close> says what a flow sender that
  finishes inside \<open>submit\<close> sends; each operator turns one such contract into another.
\<close>

section \<open>Operators that wrap a flow receiver\<close>

text \<open>A started \<open>flow_receiver<Data, ...>\<close> behaves as the \<open>receiver<Data, ...>\<close> with the same functions.\<close>

definition started_view :: "'d flow_st \<Rightarrow> 'd receiver_st" where
  "started_view st = \<lparr>rs_done = fs_done st, rs_data = fs_data st\<rparr>"

lemma started_view_sel [simp]: "rs_done (started_view st) = fs_done st" "rs_data (started_view st) = fs_data st"
  by (simp_all add: started_view_def)

lemma started_sim:
  assumes "fs_started st"
  shows "map_outcome started_view (deliver (flow_data F) sig st) =
      deliver (receiver_data (rcv.truncate F)) sig (started_view st)"
  using assms
  by (cases sig)
     (auto simp: set_value_def set_error_def set_done_def flow_data_defs receiver_data_defs rcv.truncate_def
       try_catch_def no_except_def on_member_def started_view_def split: outcome.split)

lemma started_sim_all:
  "fs_started st \<Longrightarrow> map_outcome started_view (deliver_all (flow_data F) sigs st) =
     deliver_all (receiver_data (rcv.truncate F)) sigs (started_view st)"
proof (induction sigs arbitrary: st)
  case (Cons sig sigs)
  note sim = started_sim [OF Cons.prems, of F sig, symmetric]
  show ?case
  proof (cases "deliver (flow_data F) sig st")
    case (Ret t)
    then show ?thesis using sim Cons.IH [OF fdata.deliver_started [OF Ret]] by (simp add: and_then_def)
  qed (use sim in \<open>simp_all add: and_then_def\<close>)
qed simp

text \<open>What reaches the data: \<open>starting\<close>, which may throw, and then the signals.\<close>

definition flow_push ::
  "('d, 'v, 'e, 'u) flow_rcv \<Rightarrow> 'u \<Rightarrow> ('v, 'e) signal list \<Rightarrow> 'd call" where
  "flow_push F up sigs d =
     (case r_starting F up d of
        Ret d' \<Rightarrow> push_signals (rcv.truncate F) sigs d'
      | Thr n d' \<Rightarrow> no_except (r_error F (Eptr (Exn n))) d'
      | Term \<Rightarrow> Term | UB \<Rightarrow> UB)"

lemma started_push:
  assumes "fs_started st" "\<not> fs_done st"
  shows "map_outcome fs_data (deliver_all (flow_data F) sigs st) = push_signals (rcv.truncate F) sigs (fs_data st)"
proof -
  have "map_outcome rs_data (map_outcome started_view (deliver_all (flow_data F) sigs st)) =
      push_signals (rcv.truncate F) sigs (fs_data st)"
    by (simp add: started_sim_all assms receiver_data_push)
  then show ?thesis by (simp add: map_outcome_comp)
qed

lemma flow_data_push:
  "map_outcome fs_data (and_then (set_starting (flow_data F) up) (deliver_all (flow_data F) sigs) (flow_new d)) =
   flow_push F up sigs d"
proof (cases "r_starting F up d")
  case (Ret d')
  then show ?thesis
    using started_push [of "\<lparr>fs_done = False, fs_started = True, fs_data = d'\<rparr>" F sigs]
    by (simp add: flow_push_def set_starting_def flow_data_defs flow_new_def on_member_def and_then_def outcome_simps)
next
  case (Thr n d')
  let ?st = "\<lambda>b d. \<lparr>fs_done = b, fs_started = True, fs_data = d\<rparr>"
  have e: "r_error (flow_data F) (Eptr (Exn n)) (?st False d') =
      map_outcome (?st True) (no_except (r_error F (Eptr (Exn n))) d')"
    by (simp add: flow_data_defs on_member_def no_except_def split: outcome.split)
  have c: "deliver_all (flow_data F) sigs (?st True d'') = Ret (?st True d'')" for d''
    by (rule fdata.closed_deliver_all) (simp add: fs_closed_def)
  have "r_starting (flow_data F) up (flow_new d) = Thr n (?st False d')"
    using Thr by (simp add: flow_data_defs flow_new_def on_member_def)
  then show ?thesis using Thr
    by (cases "no_except (r_error F (Eptr (Exn n))) d'")
       (simp_all add: flow_push_def set_starting_def and_then_def outcome_simps e c)
qed (simp_all add: flow_push_def set_starting_def flow_data_defs flow_new_def on_member_def and_then_def outcome_simps)

lemma flow_data_nothrow: "nothrow_error (flow_data F)"
  by (rule fdata.receiver_nothrow)

definition flow_submit_wrapped ::
  "('d, 'v, 'e, 'u) flow_rcv \<Rightarrow> (('d flow_st, 'v, 'e, 'u) flow_rcv \<Rightarrow> ('c \<times> 'd flow_st) call) \<Rightarrow> ('c \<times> 'd) call" where
  "flow_submit_wrapped F sub = (\<lambda>(c, d).
     map_outcome (\<lambda>(c', st). (c', fs_data st)) (sub (flow_data F) (c, flow_new d)))"

context flow_sender_contract begin

lemma wrapped_eq:
  assumes "nothrow_error R"
  shows "map_outcome (\<lambda>(c', st). (c', h st)) (S k R (c, s)) =
     map_outcome (Pair c') (map_outcome h (and_then (set_starting R up) (deliver_all R sigs) s))"
  by (simp add: flow_sends [OF assms] map_outcome_comp)

end

lemma flow_submit_wrapped_contract:
  assumes "flow_sender_contract S k c up sigs c'"
  shows "flow_submit_wrapped F (S k) (c, d) = map_outcome (Pair c') (flow_push F up sigs d)"
  by (simp add: flow_submit_wrapped_def flow_sender_contract.wrapped_eq [OF assms flow_data_nothrow] flow_data_push)

text \<open>The functions that pass \<open>starting\<close>, an error and done on, beside the value function \<open>vf\<close>.\<close>

definition flow_fns ::
  "('v \<Rightarrow> 's call) \<Rightarrow> ('s, 'w, 'e, 'u) flow_rcv \<Rightarrow> ('s, 'v, 'e, 'u) flow_rcv" where
  "flow_fns vf R = \<lparr>r_value = vf, r_error = passDEF R, r_done = passDDF R, r_starting = passDStrtF R\<rparr>"

lemma flow_fns_truncate:
  "rcv.truncate (flow_fns vf R) = \<lparr>r_value = vf, r_error = passDEF R, r_done = passDDF R\<rparr>"
  by (simp add: flow_fns_def rcv.truncate_def)

lemma set_starting_nothrow [simp]: "set_starting R up s \<noteq> Thr n t"
  by (simp add: set_starting_def)

lemma flow_fns_push:
  assumes "\<And>d. push_signals \<lparr>r_value = vf, r_error = passDEF R, r_done = passDDF R\<rparr> sigs d = deliver_all R sigs' d"
  shows "flow_push (flow_fns vf R) up sigs d = and_then (set_starting R up) (deliver_all R sigs') d"
proof -
  have "r_starting (flow_fns vf R) = set_starting R" by (simp add: flow_fns_def passDStrtF_def fun_eq_iff)
  then show ?thesis by (simp add: flow_push_def flow_fns_truncate assms and_then_def split: outcome.split)
qed

section \<open>\<open>transform\<close>, \<open>filter\<close> and \<open>tap\<close>\<close>

text \<open>
  \<open>transform_on<F, is_many<>, true>\<close>. (The flow single variant names a function that does not exist.)
\<close>

definition transform_on_flow_many ::
  "('v, 'w) user_fn \<Rightarrow> ('s, 'w, 'e, 'u) flow_rcv \<Rightarrow> ('s, 'v, 'e, 'u) flow_rcv" where
  "transform_on_flow_many f R = flow_fns (\<lambda>v s. case f v of Inl n \<Rightarrow> Thr n s | Inr w \<Rightarrow> set_value R w s) R"

definition flow_transform_submit ::
  "cat \<Rightarrow> ('v, 'w) user_fn \<Rightarrow> ('c, 's flow_st, 'v, 'e, 'u) flow_sender \<Rightarrow> ('c, 's, 'w, 'e, 'u) flow_sender" where
  "flow_transform_submit cap f S k R = flow_submit_wrapped (transform_on_flow_many f R) (S cap)"

definition flow_filter_submit ::
  "('v \<Rightarrow> nat + bool) \<Rightarrow> ('c, 's flow_st, 'v, 'e, 'u) flow_sender \<Rightarrow> ('c, 's, 'v, 'e, 'u) flow_sender" where
  "flow_filter_submit p S k R = flow_submit_wrapped (flow_fns (filter_value p R) R) (S RValue)"

text \<open>\<open>sender_from\<close> makes a flow class of it, which calls the function with its data as an lvalue.\<close>

definition flow_sender_from :: "cardinality \<Rightarrow> ('c, 's, 'v, 'e, 'u) flow_sender \<Rightarrow> ('c, 's, 'v, 'e, 'u) flow_sender" where
  "flow_sender_from n DSF = (case n of Single \<Rightarrow> flow_single_sender_data DSF | Many \<Rightarrow> flow_many_sender_data DSF)"

definition flow_transform ::
  "cat \<Rightarrow> ('v, 'w) user_fn \<Rightarrow> ('c, 's flow_st, 'v, 'e, 'u) flow_sender \<Rightarrow> ('c, 's, 'w, 'e, 'u) flow_sender" where
  "flow_transform cap f S = flow_sender_from Many (flow_transform_submit cap f S)"

definition flow_filter ::
  "cardinality \<Rightarrow> ('v \<Rightarrow> nat + bool) \<Rightarrow> ('c, 's flow_st, 'v, 'e, 'u) flow_sender \<Rightarrow> ('c, 's, 'v, 'e, 'u) flow_sender" where
  "flow_filter n p S = flow_sender_from n (flow_filter_submit p S)"

lemma flow_sender_from_eq: "flow_sender_from n DSF k R = DSF LValue R"
  by (cases n) (simp_all add: flow_sender_from_def sender_class_defs)

lemma flow_sender_from_is: "flow_sender_from n = sender_from n True"
  by (cases n) (auto simp: flow_sender_from_def fun_eq_iff)

lemma transform_many_push:
  "nothrow_error R \<Longrightarrow>
   push_signals \<lparr>r_value = \<lambda>v s. case f v of Inl n \<Rightarrow> Thr n s | Inr w \<Rightarrow> set_value R w s,
     r_error = passDEF R, r_done = passDDF R\<rparr> sigs d = deliver_all R (transform_signals f sigs) d"
  using transform_push [of R Many f sigs d] by (simp add: transform_on_many_def)

lemma flow_transform_contract:
  assumes "flow_sender_contract S cap c up sigs c'"
  shows "flow_sender_contract (flow_transform cap f S) k c up (transform_signals f sigs) c'"
  by unfold_locales
     (simp add: flow_transform_def flow_sender_from_eq flow_transform_submit_def transform_on_flow_many_def
       flow_submit_wrapped_contract [OF assms] flow_fns_push transform_many_push)

lemma flow_filter_contract:
  assumes "flow_sender_contract S RValue c up sigs c'"
  shows "flow_sender_contract (flow_filter n p S) k c up (filter_signals p sigs) c'"
  by unfold_locales
     (simp add: flow_filter_def flow_sender_from_eq flow_filter_submit_def flow_submit_wrapped_contract [OF assms]
       flow_fns_push filter_push)

text \<open>\<open>tap\<close>, with \<open>starting\<close> beside the functions of \<open>make_tap\<close>.\<close>

definition make_flow_tap ::
  "('t, 'v, 'e, 'u) flow_rcv \<Rightarrow> ('s, 'v, 'e, 'u) flow_rcv \<Rightarrow> ('t \<times> 's, 'v, 'e, 'u) flow_rcv" where
  "make_flow_tap E R = \<lparr>r_value = tap_value E R, r_error = tap_error E R, r_done = tap_done E R,
     r_starting = tap_starting E R\<rparr>"

definition flow_tap_submit ::
  "cat \<Rightarrow> ('t, 'v, 'e, 'u) flow_rcv \<Rightarrow> 't \<Rightarrow> ('c, ('t \<times> 's) flow_st, 'v, 'e, 'u) flow_sender \<Rightarrow>
   cat \<Rightarrow> ('s, 'v, 'e, 'u) flow_rcv \<Rightarrow> 'c \<times> 's \<Rightarrow> ('c \<times> 't \<times> 's) outcome" where
  "flow_tap_submit cap E t0 S k R = (\<lambda>(c, s).
     map_outcome (\<lambda>(c', st). (c', fs_data st)) (S cap (flow_pass (make_flow_tap E R)) (c, flow_new (t0, s))))"

lemma truncate_deliver: "deliver (rcv.truncate F) sig = deliver F sig"
  by (cases sig) (simp_all add: set_value_def set_error_def set_done_def rcv.truncate_def)

lemma truncate_deliver_fn: "deliver (rcv.truncate F) = deliver F"
  by (rule ext) (rule truncate_deliver)

lemma truncate_deliver_all: "deliver_all (rcv.truncate F) sigs = deliver_all F sigs"
  by (simp add: deliver_all_def truncate_deliver_fn)

lemma make_flow_tap_truncate: "rcv.truncate (make_flow_tap E R) = make_tap E R"
  by (simp add: make_flow_tap_def make_tap_def rcv.truncate_def)

lemma make_flow_tap_nothrow: "nothrow_error (make_flow_tap E R)"
  by (simp add: nothrow_error_def make_flow_tap_def tap_error_def)

lemma flow_pass_push:
  assumes "nothrow_error D"
  shows "flow_push (flow_pass_fns D) up sigs d = and_then (set_starting D up) (deliver_all D (upto_terminal sigs)) d"
proof -
  have "flow_pass_fns D = flow_fns (passDVF D) D" by (simp add: flow_pass_fns_def flow_fns_def)
  moreover have "push_signals \<lparr>r_value = passDVF D, r_error = passDEF D, r_done = passDDF D\<rparr> sigs d' =
      deliver_all D (upto_terminal sigs) d'" for d'
    using pass_push [OF assms, of sigs d'] by (simp add: pass_rcv_def)
  ultimately show ?thesis by (simp add: flow_fns_push)
qed

lemma flow_tap_starting:
  "set_starting E up t = Ret t1 \<Longrightarrow> set_starting (make_flow_tap E R) up (t, s) = map_outcome (Pair t1) (set_starting R up s)"
proof -
  assume t: "set_starting E up t = Ret t1"
  have "r_starting (make_flow_tap E R) up = tap_starting E R up" by (simp add: make_flow_tap_def)
  with t show ?thesis
    by (cases "set_starting R up s")
       (simp_all add: set_starting_def [of "make_flow_tap E R"] tap_starting_def on_member_def and_then_def
         try_catch_def no_except_def)
qed

lemma flow_tap_contract:
  assumes S: "flow_sender_contract S cap c up sigs c'" and n: "nothrow_error E" "nothrow_error R"
    and t: "and_then (set_starting E up) (deliver_all E (upto_terminal sigs)) t = Ret t'"
  shows "flow_tap_submit cap E t S k R (c, s) =
    map_outcome (\<lambda>s'. (c', t', s')) (and_then (set_starting R up) (deliver_all R (upto_terminal sigs)) s)"
proof -
  obtain t1 where t1: "set_starting E up t = Ret t1" "deliver_all E (upto_terminal sigs) t1 = Ret t'"
    using t by (auto simp: and_then_eq_Ret)
  have "deliver_all (make_flow_tap E R) (upto_terminal sigs) (t1, r) =
      map_outcome (Pair t') (deliver_all R (upto_terminal sigs) r)" for r
    using tap_deliver_all [OF n t1(2), of r] by (simp flip: make_flow_tap_truncate add: truncate_deliver_all)
  then have "and_then (set_starting (make_flow_tap E R) up) (deliver_all (make_flow_tap E R) (upto_terminal sigs)) (t, s) =
      map_outcome (Pair t') (and_then (set_starting R up) (deliver_all R (upto_terminal sigs)) s)"
    by (cases "set_starting R up s") (simp_all add: and_then_def flow_tap_starting [OF t1(1)])
  then show ?thesis
    by (simp add: flow_tap_submit_def flow_pass_def flow_sender_contract.wrapped_eq [OF S flow_data_nothrow]
        flow_data_push flow_pass_push [OF make_flow_tap_nothrow] map_outcome_comp)
qed

section \<open>\<open>switch_on_error\<close>\<close>

text \<open>The sender that the selector returns is submitted to \<open>out\<close>, which the input has started.\<close>

definition flow_switch_fns ::
  "('e error \<Rightarrow> 'd) \<Rightarrow> ('d, 's, 'v, 'e, 'u) flow_sender \<Rightarrow> ('s, 'v, 'e, 'u) flow_rcv \<Rightarrow> ('s, 'v, 'e, 'u) flow_rcv" where
  "flow_switch_fns es S2 R = \<lparr>r_value = passDVF R, r_error = switch_error es S2 R, r_done = passDDF R,
     r_starting = passDStrtF R\<rparr>"

definition flow_switch_submit ::
  "cat \<Rightarrow> ('e error \<Rightarrow> 'd) \<Rightarrow> ('d, 's, 'v, 'e, 'u) flow_sender \<Rightarrow> ('c, 's flow_st, 'v, 'e, 'u) flow_sender \<Rightarrow>
   ('c, 's, 'v, 'e, 'u) flow_sender" where
  "flow_switch_submit cap es S2 S k R = flow_submit_wrapped (flow_switch_fns es S2 R) (S cap)"

definition flow_switch_on_error ::
  "cardinality \<Rightarrow> cat \<Rightarrow> ('e error \<Rightarrow> 'd) \<Rightarrow> ('d, 's, 'v, 'e, 'u) flow_sender \<Rightarrow>
   ('c, 's flow_st, 'v, 'e, 'u) flow_sender \<Rightarrow> ('c, 's, 'v, 'e, 'u) flow_sender" where
  "flow_switch_on_error n cap es S2 S = flow_sender_from n (flow_switch_submit cap es S2 S)"

lemma flow_switch_push:
  "flow_push (flow_switch_fns es S2 R) up sigs d =
   (case set_starting R up d of
      Ret d' \<Rightarrow> push_signals \<lparr>r_value = passDVF R, r_error = switch_error es S2 R, r_done = passDDF R\<rparr> sigs d'
    | r \<Rightarrow> r)"
  by (cases "set_starting R up d") (simp_all add: flow_push_def flow_switch_fns_def passDStrtF_def rcv.truncate_def)

lemma switch_push_values:
  "deliver_all R (map Value vs) d = Ret t \<Longrightarrow>
   push_signals \<lparr>r_value = passDVF R, r_error = h, r_done = passDDF R\<rparr> (map Value vs @ Error e # sigs) d = no_except (h e) t"
  by (induction vs arbitrary: d) (auto simp: passDVF_def and_then_eq_Ret)

section \<open>Properties\<close>

text \<open>A flow sender for examples: it sends all values and done in \<open>submit\<close>, whatever is requested.\<close>

definition eager_source :: "(nat list, 's, nat, nat, unit) flow_sender" where
  "eager_source k R = (\<lambda>(xs, s).
     map_outcome (Pair xs) (and_then (set_starting R ()) (deliver_all R (map Value xs @ [Done])) s))"

lemma eager_source_sends:
  "eager_source k R (xs, s) = map_outcome (Pair xs) (and_then (set_starting R ()) (deliver_all R (map Value xs @ [Done])) s)"
  by (simp add: eager_source_def)

definition flow_collector :: "(nat list \<times> nat, nat, nat, unit) flow_rcv" where
  "flow_collector = \<lparr>r_value = r_value collector, r_error = r_error collector, r_done = r_done collector,
     r_starting = (\<lambda>up (vs, d). Ret (vs, d + 100))\<rparr>"

lemma flow_collector_nothrow: "nothrow_error flow_collector"
  by (simp add: nothrow_error_def flow_collector_def collector_def)

text \<open>
  The receiver that a flow sender gets when \<open>out\<close> is submitted to \<open>sender | filter(p) | transform(f)\<close>: the one of
  \<open>filter\<close>, around the one of \<open>transform\<close>, around \<open>out\<close>.
\<close>

definition pipeline_receiver ::
  "('v, 'w) user_fn \<Rightarrow> ('v \<Rightarrow> nat + bool) \<Rightarrow> ('s, 'w, 'e, 'u) flow_rcv \<Rightarrow> ('s flow_st flow_st, 'v, 'e, 'u) flow_rcv" where
  "pipeline_receiver f p R =
     (let T = flow_data (transform_on_flow_many f R) in flow_data (flow_fns (filter_value p T) T))"

lemma pipeline_receiver_push:
  assumes "nothrow_error R"
  shows "map_outcome (\<lambda>st. fs_data (fs_data st))
      (and_then (set_starting (pipeline_receiver f p R) up) (deliver_all (pipeline_receiver f p R) sigs) (flow_new (flow_new s))) =
    and_then (set_starting R up) (deliver_all R (transform_signals f (filter_signals p sigs))) s"
proof -
  let ?T = "flow_data (transform_on_flow_many f R)"
  have "map_outcome fs_data
      (and_then (set_starting (pipeline_receiver f p R) up) (deliver_all (pipeline_receiver f p R) sigs) (flow_new d)) =
      and_then (set_starting ?T up) (deliver_all ?T (filter_signals p sigs)) d" for d
    by (simp add: pipeline_receiver_def Let_def flow_data_push flow_fns_push filter_push flow_data_nothrow)
  moreover have "map_outcome fs_data (and_then (set_starting ?T up) (deliver_all ?T (filter_signals p sigs)) (flow_new s)) =
      and_then (set_starting R up) (deliver_all R (transform_signals f (filter_signals p sigs))) s"
    by (simp add: flow_data_push transform_on_flow_many_def flow_fns_push transform_many_push assms)
  ultimately show ?thesis by (simp flip: map_outcome_comp [of fs_data fs_data, unfolded comp_def])
qed

text \<open>
  C22: Flow pipelines: whatever sender is below, submitting to \<open>sender | filter(p) | transform(f)\<close> gives it one
  receiver, and after any signals that it has sent to that receiver, at whatever time and complete or not, \<open>out\<close> has
  got \<open>starting\<close> once, before anything else, and then what the operators make of these signals, as over plain senders;
  a throwing user function ends the sequence with one error.
\<close>
theorem flow_pipeline_sends:
  assumes "nothrow_error R"
  shows "flow_transform cap f (flow_filter n p S) k R (c, s) =
      map_outcome (\<lambda>(c', st). (c', fs_data (fs_data st))) (S RValue (pipeline_receiver f p R) (c, flow_new (flow_new s))) \<and>
    (\<forall>up sigs. map_outcome (\<lambda>st. fs_data (fs_data st))
        (and_then (set_starting (pipeline_receiver f p R) up) (deliver_all (pipeline_receiver f p R) sigs) (flow_new (flow_new s))) =
      and_then (set_starting R up) (deliver_all R (transform_signals f (filter_signals p sigs))) s)"
proof (rule conjI)
  show "flow_transform cap f (flow_filter n p S) k R (c, s) =
      map_outcome (\<lambda>(c', st). (c', fs_data (fs_data st))) (S RValue (pipeline_receiver f p R) (c, flow_new (flow_new s)))"
    by (simp add: flow_transform_def flow_filter_def flow_sender_from_eq flow_transform_submit_def
      flow_filter_submit_def flow_submit_wrapped_def pipeline_receiver_def Let_def map_outcome_comp case_prod_unfold)
qed (simp add: pipeline_receiver_push [OF assms])

theorem flow_pipeline_sends_witness:
  "map_outcome (\<lambda>st. fs_data (fs_data st))
     (and_then (set_starting (pipeline_receiver (\<lambda>v. if v = 0 then Inl 7 else Inr (12 div v)) (\<lambda>v. Inr (v \<noteq> 5)) flow_collector) ())
       (deliver_all (pipeline_receiver (\<lambda>v. if v = 0 then Inl 7 else Inr (12 div v)) (\<lambda>v. Inr (v \<noteq> 5)) flow_collector)
         (map Value [5, 4, 3, 0, 2] @ [Done]))
       (flow_new (flow_new ([], 0)))) = Ret ([3, 4], 110)"
  by (rule trans [OF flow_pipeline_sends [OF flow_collector_nothrow, THEN conjunct2, rule_format]])
     (simp add: run_signals flow_collector_def collector_def set_starting_def)

text \<open>The same over a sender that sends all its signals in \<open>submit\<close>.\<close>

lemma flow_pipeline_contract:
  assumes "flow_sender_contract S RValue c up sigs c'"
  shows "flow_sender_contract (flow_transform cap f (flow_filter n p S)) k c up (transform_signals f (filter_signals p sigs)) c'"
  by (rule flow_transform_contract [OF flow_filter_contract [OF assms]])

interpretation eager: flow_sender_contract eager_source k xs "()" "map Value xs @ [Done]" xs for k xs
  by unfold_locales (rule eager_source_sends)

text \<open>
  \<open>switch_on_error\<close> over a flow sender: with a plain sender to switch to, \<open>out\<close> is started once and
  gets the signals of the first sender with those of the second in place of the error. With a flow
  sender to switch to, the error ends the program: \<open>out\<close>, a \<open>flow_receiver\<close>, is started a second time.
\<close>
theorem flow_switch_restarts:
  assumes S: "\<And>R r. nothrow_error R \<Longrightarrow>
      S cap R (c, r) = map_outcome (Pair c') (and_then (set_starting R up) (deliver_all R sigs) r)"
    and plain: "\<And>e R r. nothrow_error R \<Longrightarrow> S1 RValue R (es e, r) = map_outcome (Pair (d' e)) (deliver_all R (h e) r)"
    and flow: "\<And>e R r. nothrow_error R \<Longrightarrow>
      S2 RValue R (es e, r) = map_outcome (Pair (d' e)) (and_then (set_starting R up2) (deliver_all R (h e)) r)"
    and sigs: "sigs = map Value vs @ Error e # rest"
    and vals: "and_then (set_starting (flow_data G) up) (deliver_all (flow_data G) (map Value vs)) s = Ret t"
  shows "flow_switch_on_error n cap es S1 S k (flow_data G) (c, s) =
      map_outcome (Pair c') (and_then (set_starting (flow_data G) up) (deliver_all (flow_data G) (switch_signals h sigs)) s)
    \<and> flow_switch_on_error n cap es S2 S k (flow_data G) (c, s) = Term"
proof (rule conjI)
  have con: "flow_sender_contract S cap c up sigs c'" by unfold_locales (rule S)
  have S1: "\<And>e. sender_contract S1 RValue (es e) (h e) (d' e)" by unfold_locales (rule plain)
  note submit = flow_switch_on_error_def flow_sender_from_eq flow_switch_submit_def
    flow_submit_wrapped_contract [OF con] flow_switch_push
  show "flow_switch_on_error n cap es S1 S k (flow_data G) (c, s) =
      map_outcome (Pair c') (and_then (set_starting (flow_data G) up) (deliver_all (flow_data G) (switch_signals h sigs)) s)"
    by (cases "set_starting (flow_data G) up s")
       (simp_all add: submit switch_push [OF flow_data_nothrow S1] and_then_def)
  obtain t0 where t0: "set_starting (flow_data G) up s = Ret t0" "deliver_all (flow_data G) (map Value vs) t0 = Ret t"
    using vals by (auto simp: and_then_eq_Ret)
  have "fs_started t"
    using fdata.deliver_all_started [OF fdata.set_starting_started [OF t0(1)] t0(2)] .
  then have "switch_error es S2 (flow_data G) e t = Term"
    by (simp add: switch_error_def no_except_def flow [OF flow_data_nothrow] and_then_def fdata.set_starting_twice)
  then show "flow_switch_on_error n cap es S2 S k (flow_data G) (c, s) = Term"
    using t0 by (simp add: submit sigs switch_push_values [OF t0(2)] no_except_def)
qed

text \<open>A sender that signals an error after one value, and a flow sender to switch to.\<close>

definition failing_source :: "(nat, 's, nat, nat, unit) flow_sender" where
  "failing_source k R = (\<lambda>(x, s).
     map_outcome (Pair x) (and_then (set_starting R ()) (deliver_all R [Value x, Error (Eval 1)]) s))"

lemma failing_source_sends:
  "failing_source k R (x, s) =
     map_outcome (Pair x) (and_then (set_starting R ()) (deliver_all R [Value x, Error (Eval 1)]) s)"
  by (simp add: failing_source_def)

theorem flow_switch_restarts_witness:
  "flow_switch_on_error Many LValue (\<lambda>e. [8]) from_sender failing_source LValue (flow_data flow_collector) (3, flow_new ([], 0)) =
     Ret (3, \<lparr>fs_done = True, fs_started = True, fs_data = ([3, 8], 101)\<rparr>)
   \<and> flow_switch_on_error Many LValue (\<lambda>e. [8]) eager_source failing_source LValue (flow_data flow_collector)
       (3, flow_new ([], 0)) = Term"
proof -
  note run = run_signals flow_collector_def collector_def set_starting_def flow_data_defs flow_new_def on_member_def
  have "and_then (set_starting (flow_data flow_collector) ()) (deliver_all (flow_data flow_collector) (map Value [3]))
      (flow_new ([], 0)) = Ret \<lparr>fs_done = False, fs_started = True, fs_data = ([3], 100)\<rparr>"
    by (simp add: run)
  note inst = flow_switch_restarts [where S = failing_source and e = "Eval 1" and rest = "[]" and es = "\<lambda>e. [8]"
      and n = Many and k = LValue, OF failing_source_sends from_s.sends eager_source_sends _ this]
  show ?thesis
    by (rule conjI, rule trans [OF conjunct1 [OF inst]]) (simp add: run, simp, simp add: run, rule conjunct2 [OF inst], simp_all)
qed

end
