(* ===== verification/Flow_Via.thy ===== *)
theory Flow_Via
  imports On_Via Flow_Operators
begin

text \<open>
  \<open>via\<close> over a flow sender (\<open>o/via.h\<close>): \<open>starting\<close> is one more task for the executor, and the receiver
  is a \<open>flow_receiver\<close> over the same data and functions as for a plain sender. The order of tasks is
  again the business of \<open>Delivery_Queue\<close>.
\<close>

section \<open>The receiver\<close>

datatype ('v, 'e, 'u) flow_item = Starting 'u | Sig "('v, 'e) signal"

fun flow_deliver :: "('s, 'v, 'e, 'u) flow_rcv \<Rightarrow> ('v, 'e, 'u) flow_item \<Rightarrow> 's call" where
  "flow_deliver R (Starting up) = set_starting R up"
| "flow_deliver R (Sig sig) = deliver R sig"

definition via_starting :: "'u \<Rightarrow> ('s, ('v, 'e, 'u) flow_item) via_st call" where
  "via_starting up st = (if via_done st then Ret st else Ret (via_push (Starting up) st))"

text \<open>
  \<open>via_fn_data\<close> is a \<open>flow_receiver<>\<close> whose \<open>starting\<close> is hidden by its own, so the base is never
  started, and its value, error and done would end the program. \<open>passDStrtF\<close> calls its \<open>starting\<close>.
\<close>

definition via_fn_data :: "(('s, ('v, 'e, 'u) flow_item) via_st, 'v, 'e, 'u) flow_rcv" where
  "via_fn_data = \<lparr>r_value = (\<lambda>v. terminate), r_error = (\<lambda>e. terminate), r_done = terminate, r_starting = via_starting\<rparr>"

definition flow_via_fns :: "(('s, ('v, 'e, 'u) flow_item) via_st, 'v, 'e, 'u) flow_rcv" where
  "flow_via_fns = \<lparr>r_value = via_value Sig, r_error = via_error Sig, r_done = via_on_done Sig,
     r_starting = passDStrtF via_fn_data\<rparr>"

definition flow_via_receiver :: "(('s, ('v, 'e, 'u) flow_item) via_st flow_st, 'v, 'e, 'u) flow_rcv" where
  "flow_via_receiver = flow_data flow_via_fns"

definition flow_via_submit ::
  "cat \<Rightarrow> ('c, ('s, ('v, 'e, 'u) flow_item) via_st flow_st, 'v, 'e, 'u) flow_sender \<Rightarrow> 'c \<times> 's \<Rightarrow>
   ('c \<times> ('s, ('v, 'e, 'u) flow_item) via_st flow_st) outcome" where
  "flow_via_submit cap S = (\<lambda>(c, s). S cap flow_via_receiver (c, flow_new (via_start s)))"

section \<open>The run\<close>

abbreviation flow_via_put ::
  "('i \<times> bool) list \<Rightarrow> 's \<Rightarrow> ('s, 'i) via_st flow_st \<Rightarrow> ('s, 'i) via_st flow_st" where
  "flow_via_put ts s st \<equiv> st\<lparr>fs_data := (fs_data st)\<lparr>via_tasks := ts, via_out := s\<rparr>\<rparr>"

definition flow_via_run ::
  "('s, 'v, 'e, 'u) flow_rcv \<Rightarrow> ('v, 'e, 'u) flow_item event list \<Rightarrow> ('s, ('v, 'e, 'u) flow_item) via_st flow_st call" where
  "flow_via_run R = queue_run (flow_deliver flow_via_receiver) (\<lambda>st. via_tasks (fs_data st)) (\<lambda>st. via_out (fs_data st))
     flow_via_put (via_task (flow_deliver R))"

definition flow_via_flush :: "('s, 'v, 'e, 'u) flow_rcv \<Rightarrow> ('s, ('v, 'e, 'u) flow_item) via_st flow_st call" where
  "flow_via_flush R = queue_flush (flow_deliver flow_via_receiver) (\<lambda>st. via_tasks (fs_data st)) (\<lambda>st. via_out (fs_data st))
     flow_via_put (via_task (flow_deliver R))"

text \<open>After \<open>starting\<close> only signals come: a second \<open>starting\<close> ends the program.\<close>

fun is_sig :: "('v, 'e, 'u) flow_item \<Rightarrow> bool" where
  "is_sig (Starting up) = False"
| "is_sig (Sig sig) = True"

fun item_signals :: "('v, 'e, 'u) flow_item list \<Rightarrow> ('v, 'e) signal list" where
  "item_signals [] = []"
| "item_signals (Starting up # is) = item_signals is"
| "item_signals (Sig sig # is) = sig # item_signals is"

definition flow_via_ok :: "('s, 'i) via_st flow_st \<Rightarrow> bool" where
  "flow_via_ok st \<longleftrightarrow> fs_started st \<and> via_done (fs_data st) = fs_done st \<and> via_held (fs_data st) = (\<not> fs_done st) \<and>
     list_all snd (via_tasks (fs_data st))"

definition flow_via_owed ::
  "('s, ('v, 'e, 'u) flow_item) via_st flow_st \<Rightarrow> ('v, 'e, 'u) flow_item list \<Rightarrow> (('v, 'e, 'u) flow_item \<times> bool) list" where
  "flow_via_owed st is =
     via_tasks (fs_data st) @
     (if fs_done st then [] else map (\<lambda>sig. (Sig sig, True)) (upto_terminal (item_signals is)))"

lemma flow_via_signal:
  assumes "flow_via_ok st" "is_sig i"
  shows "\<exists>st'. flow_deliver flow_via_receiver i st = Ret st' \<and> flow_via_ok st' \<and>
     via_out (fs_data st') = via_out (fs_data st) \<and> (\<forall>is. flow_via_owed st' is = flow_via_owed st (i # is))"
proof -
  obtain sig where i: "i = Sig sig" using assms(2) by (cases i) auto
  show ?thesis
  proof (cases "fs_done st")
    case True
    then have "deliver flow_via_receiver sig st = Ret st"
      using assms(1) by (simp add: flow_via_receiver_def fdata.closed_deliver fs_closed_def flow_via_ok_def)
    then show ?thesis using assms True i by (simp add: flow_via_owed_def)
  next
    case False
    with assms i show ?thesis
      by (cases sig)
         (auto simp: run_signals flow_via_receiver_def flow_via_fns_def flow_data_defs via_fn_defs on_member_def
           flow_via_ok_def flow_via_owed_def)
  qed
qed

interpretation flow_viaq: delivery_queue "flow_deliver flow_via_receiver" "\<lambda>st. via_tasks (fs_data st)"
    "\<lambda>st. via_out (fs_data st)" flow_via_put "via_task (flow_deliver R)" is_sig flow_via_ok flow_via_owed for R
  by unfold_locales (simp_all add: flow_via_signal, auto simp: flow_via_owed_def flow_via_ok_def)

lemma flow_via_start:
  "flow_deliver flow_via_receiver (Starting up) (flow_new (via_start s)) =
   Ret \<lparr>fs_done = False, fs_started = True,
        fs_data = \<lparr>via_done = False, via_held = True, via_tasks = [(Starting up, True)], via_out = s\<rparr>\<rparr>"
  by (simp add: set_starting_def flow_via_receiver_def flow_via_fns_def flow_data_defs passDStrtF_def via_fn_data_def
      via_starting_def via_push_def flow_new_def via_start_def on_member_def try_catch_def no_except_def)

lemma flow_via_value:
  "deliver flow_via_receiver (Value v) \<lparr>fs_done = False, fs_started = True,
      fs_data = \<lparr>via_done = False, via_held = True, via_tasks = ts, via_out = s\<rparr>\<rparr> =
   Ret \<lparr>fs_done = False, fs_started = True,
      fs_data = \<lparr>via_done = False, via_held = True, via_tasks = ts @ [(Sig (Value v), True)], via_out = s\<rparr>\<rparr>"
  by (simp add: run_signals flow_via_receiver_def flow_via_fns_def flow_data_defs via_fn_defs on_member_def)

section \<open>Properties\<close>

text \<open>
  \<open>via\<close> over a flow sender keeps the order: with a fifo executor, however its runs interleave with
  the signals, \<open>out\<close> is started once, on the executor, before it gets the signals of the input up to
  the first terminal one. But an executor that runs the task of a value before that of \<open>starting\<close>
  ends the program.
\<close>
theorem flow_via_keeps_order:
  assumes "list_all fifo_event evs" "list_all is_sig (event_signals evs)"
  shows "map_outcome (\<lambda>st. via_out (fs_data st))
       (and_then (flow_via_run R (Signal (Starting up) # evs)) (flow_via_flush R) (flow_new (via_start s))) =
     and_then (set_starting R up) (deliver_all R (upto_terminal (item_signals (event_signals evs)))) s
   \<and> flow_via_run (flow_data G) [Signal (Starting up), Signal (Sig (Value v)), Run 1] (flow_new (via_start (flow_new d))) = Term"
proof (rule conjI)
  let ?st = "\<lparr>fs_done = False, fs_started = True,
      fs_data = \<lparr>via_done = False, via_held = True, via_tasks = [(Starting up, True)], via_out = s\<rparr>\<rparr>"
  have "flow_via_ok ?st" by (simp add: flow_via_ok_def)
  note fifo = flow_viaq.fifo [OF this assms, of R, folded flow_via_run_def flow_via_flush_def]
  have "flow_via_run R (Signal (Starting up) # evs) (flow_new (via_start s)) = flow_via_run R evs ?st"
    by (simp add: flow_via_run_def flow_viaq.run_simps and_then_def flow_via_start del: flow_deliver.simps)
  then have "and_then (flow_via_run R (Signal (Starting up) # evs)) (flow_via_flush R) (flow_new (via_start s)) =
      and_then (flow_via_run R evs) (flow_via_flush R) ?st"
    by (simp add: and_then_def)
  with fifo show "map_outcome (\<lambda>st. via_out (fs_data st))
       (and_then (flow_via_run R (Signal (Starting up) # evs)) (flow_via_flush R) (flow_new (via_start s))) =
     and_then (set_starting R up) (deliver_all R (upto_terminal (item_signals (event_signals evs)))) s"
    by (simp add: flow_via_owed_def deliver_all_def via_task_def comp_def and_then_def)
next
  have "deliver (flow_data G) (Value v) (flow_new d) = Term"
    by (rule fdata.early_deliver) (simp add: flow_new_def)
  then show "flow_via_run (flow_data G) [Signal (Starting up), Signal (Sig (Value v)), Run 1]
      (flow_new (via_start (flow_new d))) = Term"
    by (simp add: flow_via_run_def flow_viaq.run_simps and_then_def flow_via_start flow_via_value via_task_def
        del: flow_deliver.simps(1) deliver.simps)
qed

theorem flow_via_keeps_order_witness:
  "map_outcome (\<lambda>st. via_out (fs_data st))
     (and_then (flow_via_run flow_collector [Signal (Starting ()), Signal (Sig (Value 1)), Run 0, Signal (Sig (Value 2)),
          Signal (Sig Done), Run 0]) (flow_via_flush flow_collector) (flow_new (via_start ([], 0)))) = Ret ([1, 2], 101)"
  by (rule trans [OF conjunct1 [OF flow_via_keeps_order]])
     (simp_all add: run_signals set_starting_def flow_collector_def collector_def)

end
