(* ===== verification/Piping.thy ===== *)
theory Piping
  imports Concepts Make_Receiver Operators
begin

text \<open>
  How operators are put together: \<open>operator|\<close> and \<open>pipe\<close> (\<open>piping.h\<close>), \<open>invoke\<close>
  (\<open>detail/functional.h\<close>), and from \<open>o/extension_operators.h\<close> \<open>apply\<close>, \<open>receiver_from\<close>, which every
  operator uses to build its receiver, and the function objects that turn the customization points
  into operators; also \<open>request_via\<close> (\<open>o/request_via.h\<close>).
\<close>

section \<open>\<open>operator|\<close> and \<open>pipe\<close>\<close>

text \<open>
  The left operand is an object of type \<open>'x\<close> with a description of its type; an operator is a function
  object, which may not be callable with the operand. An expression that does not compile, because no
  overload is viable or two are, is \<open>None\<close>.
\<close>

type_synonym ('a, 'x) operand = "'a cxx \<times> 'x"

type_synonym ('a, 'x) pipe_op = "('a, 'x) operand \<Rightarrow> ('a, 'x) operand option"

definition pipe_overloads :: "('a cxx \<Rightarrow> bool) list" where
  "pipe_overloads = [\<lambda>t. Sender_concept t [], \<lambda>t. Executor_concept t [], \<lambda>t. Receiver_concept t []]"

definition pipe_or :: "('a, 'x) operand \<Rightarrow> ('a, 'x) pipe_op \<Rightarrow> ('a, 'x) operand option" where
  "pipe_or x f =
     (case filter (\<lambda>concept. concept (fst x) \<and> f x \<noteq> None) pipe_overloads of [c] \<Rightarrow> f x | _ \<Rightarrow> None)"

text \<open>The fold expression \<open>(t | ... | fn)\<close>, and the recursion of a compiler without fold expressions.\<close>

definition pipe_17 :: "('a, 'x) operand \<Rightarrow> ('a, 'x) pipe_op list \<Rightarrow> ('a, 'x) operand option" where
  "pipe_17 t fns = foldl (\<lambda>r f. Option.bind r (\<lambda>x. pipe_or x f)) (Some t) fns"

fun pipe_14 :: "('a, 'x) operand \<Rightarrow> ('a, 'x) pipe_op list \<Rightarrow> ('a, 'x) operand option" where
  "pipe_14 t [] = None"
| "pipe_14 t [f] = pipe_or t f"
| "pipe_14 t (f # g # fns) = Option.bind (pipe_or t f) (\<lambda>x. pipe_14 x (g # fns))"

text \<open>Exactly one of the three concepts: what makes a type an operand.\<close>

definition pipeable :: "'a cxx \<Rightarrow> bool" where
  "pipeable t \<longleftrightarrow> length (filter (\<lambda>concept. concept t) pipe_overloads) = 1"

lemma pipe_or_eq: "pipe_or x f = (if pipeable (fst x) then f x else None)"
  by (cases "f x") (auto simp: pipe_or_def pipeable_def length_Suc_conv split: list.split)

lemma pipeable_iff:
  "pipeable t \<longleftrightarrow> (Executor_concept t [] \<noteq> (Sender_concept t [] \<or> Receiver_concept t []))"
proof -
  have "\<not> (Sender_concept t [] \<and> Receiver_concept t [])"
    by (auto simp: Sender_concept_def Receiver_concept_def is_sender_v_def is_receiver_v_def)
  then show ?thesis by (auto simp: pipeable_def pipe_overloads_def)
qed

lemma foldl_None: "foldl (\<lambda>r f. Option.bind r (\<lambda>x. pipe_or x f)) None fns = None"
  by (induction fns) simp_all

lemma pipe_17_Cons: "pipe_17 t (f # fns) = Option.bind (pipe_or t f) (\<lambda>x. pipe_17 x fns)"
  by (cases "pipe_or t f") (simp_all add: pipe_17_def foldl_None)

lemma pipe_17_Nil: "pipe_17 t [] = Some t"
  by (simp add: pipe_17_def)

lemma pipe_17_append: "pipe_17 t (fs @ gs) = Option.bind (pipe_17 t fs) (\<lambda>x. pipe_17 x gs)"
  by (induction fs arbitrary: t) (simp_all add: pipe_17_Cons pipe_17_Nil Option.bind_assoc)

lemma pipe_forms: "fns \<noteq> [] \<Longrightarrow> pipe_14 t fns = pipe_17 t fns"
proof (induction t fns rule: pipe_14.induct)
  case (2 t f)
  then show ?case by (cases "pipe_or t f") (simp_all add: pipe_17_Cons pipe_17_Nil)
qed (simp_all add: pipe_17_Cons split: bind_split)

section \<open>\<open>invoke\<close> and \<open>apply\<close>\<close>

text \<open>
  \<open>invoke_fn\<close> has two overloads: for what can be called, and for what \<open>std::mem_fn\<close> makes callable. A
  callable is described by the results of the two.
\<close>

record ('x, 'r) callable =
  ca_direct :: "'x list \<Rightarrow> 'r option"
  ca_member :: "'x list \<Rightarrow> 'r option"

definition invoke :: "('x, 'r) callable \<Rightarrow> 'x list \<Rightarrow> 'r option" where
  "invoke f as =
     (case (ca_direct f as, ca_member f as) of
        (Some r, None) \<Rightarrow> Some r
      | (None, Some r) \<Rightarrow> Some r
      | _ \<Rightarrow> None)"

definition Invocable_concept :: "('x, 'r) callable \<Rightarrow> 'x list \<Rightarrow> bool" where
  "Invocable_concept f as \<longleftrightarrow> invoke f as \<noteq> None"

text \<open>\<open>nx\<close>: whether the call is declared not to throw.\<close>

definition NothrowInvocable_concept :: "('x, 'r) callable \<Rightarrow> bool \<Rightarrow> 'x list \<Rightarrow> bool" where
  "NothrowInvocable_concept f nx as \<longleftrightarrow> nx \<and> Invocable_concept f as"

definition apply_impl :: "('x, 'r) callable \<Rightarrow> 'x list \<Rightarrow> nat list \<Rightarrow> 'r option" where
  "apply_impl f t is = invoke f (map (\<lambda>i. t ! i) is)"

definition apply_tuple :: "('x, 'r) callable \<Rightarrow> 'x list \<Rightarrow> 'r option" where
  "apply_tuple f t = apply_impl f t [0..<length t]"

lemma apply_tuple_eq: "apply_tuple f t = invoke f t"
  by (simp add: apply_tuple_def apply_impl_def map_nth)

section \<open>\<open>receiver_from\<close>\<close>

text \<open>
  The type of an argument: one that the caller gave, as the overload tables see it, or a receiver class
  with the types it was made from.
\<close>

datatype rtype = Given arg | Receiver_Of "slot list" "rtype list"

fun as_arg :: "rtype \<Rightarrow> arg" where
  "as_arg (Given a) = a"
| "as_arg (Receiver_Of c ts) = \<lparr>ar_wrap = Plain, ar_data = True, ar_nullary = False, ar_on_data = False\<rparr>"

text \<open>\<open>make_receiver<IsFlow>\<close>, called with the arguments.\<close>

definition make_receiver_of :: "bool \<Rightarrow> rtype list \<Rightarrow> rtype option" where
  "make_receiver_of flow ts =
     map_option (\<lambda>c. Receiver_Of c ts) ((if flow then make_flow_receiver else make_receiver) (map as_arg ts))"

text \<open>The first argument of \<open>receiver_from_impl\<close>: a tuple, as the operators store their arguments, or not.\<close>

datatype from_arg = Tuple "rtype list" | Out rtype

function receiver_from :: "bool \<Rightarrow> from_arg \<Rightarrow> rtype list \<Rightarrow> rtype option" where
  "receiver_from flow (Tuple ts) [] = make_receiver_of flow ts"
| "receiver_from flow (Tuple ts) (f0 # fns) =
     Option.bind (make_receiver_of flow ts) (\<lambda>r. receiver_from flow (Out r) (f0 # fns))"
| "receiver_from flow (Out out) fns = make_receiver_of flow (out # fns)"
  by pat_completeness auto

text \<open>The second call is with a receiver, which is not a tuple.\<close>

termination receiver_from
  by (relation "measure (\<lambda>(flow, a, fns). case a of Tuple ts \<Rightarrow> 1 | Out r \<Rightarrow> 0)") auto

text \<open>The receivers that a receiver wraps, from the outside in.\<close>

fun layers :: "rtype \<Rightarrow> slot list list" where
  "layers (Given a) = []"
| "layers (Receiver_Of c []) = [c]"
| "layers (Receiver_Of c (t # ts)) = c # layers t"

section \<open>The function objects\<close>

text \<open>
  \<open>set_value(v...)\<close> and the like make an object that, applied to a receiver, sends it the signal. The
  object takes the receiver by value, so for \<open>out | set_value(v)\<close> the signal goes to a copy, or to what
  \<open>out\<close> was moved into, and \<open>done_\<close> of \<open>out\<close> itself is not touched. Here the functions of the receiver
  capture by reference: their state \<open>'s\<close> is shared by the copies.
\<close>

definition piped_signal ::
  "('s receiver_st, 'v, 'e) rcv \<Rightarrow> ('v, 'e) signal \<Rightarrow> 's receiver_st call" where
  "piped_signal R sig st = map_outcome (\<lambda>copy. st\<lparr>rs_data := rs_data copy\<rparr>) (deliver R sig st)"

text \<open>
  \<open>submit(out)\<close> stores a receiver and gives it away on the first use; \<open>mv\<close> is what a move leaves.
\<close>

definition ep_submit ::
  "('s \<Rightarrow> 's) \<Rightarrow> ('c, 's, 'v, 'e, 'x) sender \<Rightarrow> ('s, 'v, 'e, 'x) rcv_scheme \<Rightarrow> cat \<Rightarrow> 'c \<times> 's \<Rightarrow> ('c \<times> 's \<times> 's) outcome" where
  "ep_submit mv S R k = (\<lambda>(c, out). map_outcome (\<lambda>(c', s). (c', s, mv out)) (S k R (c, out)))"

text \<open>\<open>get_executor()\<close>, \<open>make_strand()\<close>, \<open>schedule()\<close>, \<open>now()\<close> and \<open>top()\<close> apply a customization point.\<close>

definition ep_apply :: "('a cxx \<Rightarrow> bool) \<Rightarrow> ('a, 'x) pipe_op \<Rightarrow> ('a, 'x) pipe_op" where
  "ep_apply concept cpo x = (if concept (fst x) then cpo x else None)"

definition ep_get_executor :: "('a, 'x) pipe_op \<Rightarrow> ('a, 'x) pipe_op" where
  "ep_get_executor = ep_apply (\<lambda>t. Sender_concept t [])"

definition ep_make_strand :: "('a, 'x) pipe_op \<Rightarrow> ('a, 'x) pipe_op" where
  "ep_make_strand = ep_apply (\<lambda>t. Sender_concept t [])"

definition ep_schedule :: "('a, 'x) pipe_op \<Rightarrow> ('a, 'x) pipe_op" where
  "ep_schedule = ep_apply (\<lambda>t. Executor_concept t [])"

definition ep_top :: "('a, 'x) pipe_op \<Rightarrow> ('a, 'x) pipe_op" where
  "ep_top = ep_apply (\<lambda>t. ConstrainedExecutor_concept t [])"

definition ep_now :: "('a, 'x) pipe_op \<Rightarrow> ('a, 'x) pipe_op" where
  "ep_now = ep_apply (\<lambda>t. TimeExecutor_concept t [])"

section \<open>\<open>request_via\<close>\<close>

text \<open>
  \<open>request_via()\<close> wraps its input in a \<open>send_via\<close>, whose \<open>via(args)\<close> is \<open>in | via(args)\<close>; \<open>via_cast\<close> takes the
  input out again, and leaves a sender as it is.
\<close>

datatype ('a, 'x) requested = Send_Via "('a, 'x) operand" | Plain_Sender "('a, 'x) operand"

definition request_via :: "('a, 'x) operand \<Rightarrow> ('a, 'x) requested option" where
  "request_via x = (if Sender_concept (fst x) [] then Some (Send_Via x) else None)"

fun send_via_via :: "('a, 'x) requested \<Rightarrow> ('a, 'x) pipe_op \<Rightarrow> ('a, 'x) operand option" where
  "send_via_via (Send_Via x) f = pipe_or x f"
| "send_via_via (Plain_Sender x) f = None"

fun via_cast :: "('a, 'x) requested \<Rightarrow> ('a, 'x) operand option" where
  "via_cast (Send_Via x) = Some x"
| "via_cast (Plain_Sender x) = (if Sender_concept (fst x) [] then Some x else None)"

section \<open>Properties\<close>

text \<open>
  Piping is composition: the two implementations of \<open>pipe\<close> agree, a pipeline can be split anywhere, and
  each step needs an operand that is a sender or receiver, or an executor, but not one of the first two
  and an executor: for a type that is both, \<open>operator|\<close> is ambiguous.
\<close>
theorem pipe_composes:
  assumes "gs \<noteq> []"
  shows "pipe_14 t (fs @ gs) = Option.bind (pipe_17 t fs) (\<lambda>x. pipe_14 x gs)
    \<and> pipe_17 t (f # fs) = (if Executor_concept (fst t) [] \<noteq> (Sender_concept (fst t) [] \<or> Receiver_concept (fst t) [])
         then Option.bind (f t) (\<lambda>x. pipe_17 x fs) else None)"
proof (rule conjI)
  show "pipe_14 t (fs @ gs) = Option.bind (pipe_17 t fs) (\<lambda>x. pipe_14 x gs)"
    using assms by (simp add: pipe_forms pipe_17_append)
  show "pipe_17 t (f # fs) = (if Executor_concept (fst t) [] \<noteq> (Sender_concept (fst t) [] \<or> Receiver_concept (fst t) [])
         then Option.bind (f t) (\<lambda>x. pipe_17 x fs) else None)"
    unfolding pipe_17_Cons pipe_or_eq pipeable_iff by (simp only: if_distrib [of "\<lambda>r. Option.bind r _"] bind.simps)
qed

theorem pipe_composes_witness:
  "pipe_14 (inline_task_type :: nat cxx, 3 :: nat) [\<lambda>(t, n). Some (t, n + 1), \<lambda>(t, n). Some (t, n * 10)] =
     Some (inline_task_type, 40)"
proof -
  let ?f = "\<lambda>(t :: nat cxx, n :: nat). Some (t, n + 1)" and ?g = "\<lambda>(t :: nat cxx, n :: nat). Some (t, n * 10)" and ?t = "inline_task_type :: nat cxx"
  have "pipe_17 (?t, 3) [?f] = Some (?t, 4)"
    by (simp add: pipe_17_Cons pipe_17_Nil pipe_or_eq pipeable_iff type_defs concept_defs query_run)
  moreover have "pipe_14 (?t, 4) [?g] = Some (?t, 40)"
    by (simp add: pipe_or_eq pipeable_iff type_defs concept_defs query_run)
  ultimately show ?thesis
    using conjunct1 [OF pipe_composes [of "[?g]" "(?t, 3)" "[?f]" ?f]] by simp
qed

text \<open>
  The receivers that operators build: if the arguments of an operator make a receiver and the operator
  adds functions, the result wraps that receiver. It is never taken for a value function, and a signal
  that no function handles is passed on to it, not ignored and not answered with \<open>std::terminate\<close>.
\<close>
theorem receiver_from_wraps:
  assumes "list_all arg_ok (map as_arg (f # fns))" "receiver_from flow (Tuple ts) (f # fns) = Some rr"
  shows "\<exists>r c. receiver_from flow (Tuple ts) [] = Some r \<and> rr = Receiver_Of (Arg 0 # c) (r # f # fns) \<and>
    layers rr = (Arg 0 # c) # layers r \<and> set c \<inter> {IgnoreVF, AbortEF, IgnoreDF, IgnoreStrtF} = {}"
proof -
  obtain r where r: "make_receiver_of flow ts = Some r" "make_receiver_of flow (r # f # fns) = Some rr"
    using assms(2) by (auto simp: bind_eq_Some_conv)
  obtain c where c: "(if flow then make_flow_receiver else make_receiver) (map as_arg (r # f # fns)) = Some c"
      "rr = Receiver_Of c (r # f # fns)"
    using r(2) by (auto simp: make_receiver_of_def)
  have data: "as_arg r = \<lparr>ar_wrap = Plain, ar_data = True, ar_nullary = False, ar_on_data = False\<rparr>"
    using r(1) by (auto simp: make_receiver_of_def)
  have ok: "list_all arg_ok (map as_arg (r # f # fns))"
    using assms(1) by (simp add: arg_ok_def data)
  have sel: "ar_data (as_arg r)" by (simp add: data)
  have "\<exists>c'. c = Arg 0 # c' \<and> set c' \<inter> {IgnoreVF, AbortEF, IgnoreDF, IgnoreStrtF} = {}"
  proof (cases flow)
    case True
    with c(1) ok have "flow_receiver_meaning (map as_arg (r # f # fns)) = Some c"
      by (simp add: make_flow_receiver_meaning)
    with sel show ?thesis
      by (cases "map as_arg (r # f # fns)" rule: flow_receiver_meaning.cases) (auto split: if_splits)
  next
    case False
    with c(1) ok have "receiver_meaning (map as_arg (r # f # fns)) = Some c"
      by (simp add: make_receiver_meaning)
    with sel show ?thesis
      by (cases "map as_arg (r # f # fns)" rule: receiver_meaning.cases) (auto split: if_splits)
  qed
  then show ?thesis using r c by auto
qed

theorem receiver_from_wraps_witness:
  "\<exists>r. receiver_from True (Tuple [Given \<lparr>ar_wrap = Plain, ar_data = False, ar_nullary = False, ar_on_data = False\<rparr>]) [] = Some r \<and>
     receiver_from True (Tuple [Given \<lparr>ar_wrap = Plain, ar_data = False, ar_nullary = False, ar_on_data = False\<rparr>])
       [Given \<lparr>ar_wrap = On_Error, ar_data = False, ar_nullary = False, ar_on_data = False\<rparr>] =
       Some (Receiver_Of [Arg 0, PassDVF, Arg 1, PassDDF, PassDStrtF]
         [r, Given \<lparr>ar_wrap = On_Error, ar_data = False, ar_nullary = False, ar_on_data = False\<rparr>])"
proof -
  let ?v = "Given \<lparr>ar_wrap = Plain, ar_data = False, ar_nullary = False, ar_on_data = False\<rparr>"
  let ?e = "Given \<lparr>ar_wrap = On_Error, ar_data = False, ar_nullary = False, ar_on_data = False\<rparr>"
  have v: "make_receiver_of True [?v] = Some (Receiver_Of [Arg 0, AbortEF, IgnoreDF, IgnoreStrtF] [?v])"
    by (simp add: make_receiver_of_def make_flow_receiver_meaning arg_ok_def)
  let ?r = "Receiver_Of [Arg 0, AbortEF, IgnoreDF, IgnoreStrtF] [?v]"
  have rr: "receiver_from True (Tuple [?v]) [?e] = Some (Receiver_Of [Arg 0, PassDVF, Arg 1, PassDDF, PassDStrtF] [?r, ?e])"
    by (simp add: v) (simp add: make_receiver_of_def make_flow_receiver_meaning arg_ok_def)
  have "list_all arg_ok (map as_arg [?e])" by (simp add: arg_ok_def)
  from receiver_from_wraps [OF this rr] rr show ?thesis by auto
qed

text \<open>
  Signals that are piped into a receiver are not guarded: \<open>out | set_value(v)\<close>, \<open>out | set_done()\<close> and so on
  each send their signal to another copy of \<open>out\<close>, so its functions are called for every signal, also
  for those after error or done, which the receiver itself would ignore.
\<close>
theorem piped_signals_unguarded:
  "map_outcome rs_data (run_all (map (piped_signal (receiver_fn F)) sigs) (receiver_new s)) =
   run_all (map (\<lambda>sig. push_signals F [sig]) sigs) s"
proof (induction sigs arbitrary: s)
  case (Cons sig sigs)
  have "map_outcome rs_data (deliver (receiver_fn F) sig (receiver_new s)) = push_signals F [sig] s"
    using receiver_fn_push [of "receiver_new s" F "[sig]"]
    by (cases "deliver (receiver_fn F) sig (receiver_new s)") (simp_all add: receiver_new_def and_then_def)
  then have "piped_signal (receiver_fn F) sig (receiver_new s) = map_outcome receiver_new (push_signals F [sig] s)"
    by (simp add: piped_signal_def receiver_new_def map_outcome_comp flip: \<open>_ = push_signals F [sig] s\<close>)
  then show ?case using Cons.IH
    by (cases "push_signals F [sig] s") (simp_all add: and_then_def receiver_new_def del: push_signals.simps)
qed (simp add: receiver_new_def)

text \<open>A sender that was wrapped by \<open>request_via\<close> is given back by \<open>via_cast\<close>, and goes through \<open>via\<close> as itself.\<close>

theorem request_via_roundtrip:
  assumes "Sender_concept (fst x) []" "\<not> Executor_concept (fst x) []"
  shows "\<exists>q. request_via x = Some q \<and> via_cast q = Some x \<and> via_cast (Plain_Sender x) = Some x \<and>
    send_via_via q f = f x"
  using assms by (simp add: request_via_def pipe_or_eq pipeable_iff)

theorem request_via_roundtrip_witness:
  "\<exists>q. request_via (inline_task_type :: nat cxx, 3 :: nat) = Some q \<and> via_cast q = Some (inline_task_type, 3) \<and>
     via_cast (Plain_Sender (inline_task_type :: nat cxx, 3 :: nat)) = Some (inline_task_type, 3) \<and>
     send_via_via q (\<lambda>x. None) = None"
  by (rule request_via_roundtrip) (simp_all add: type_defs concept_defs query_run)

end
