(* ===== verification/Bulk.thy ===== *)
theory Bulk
  imports Submit
begin

text \<open>
  The operators and algorithms of \<open>examples\<close>: \<open>bulk\<close> (\<open>bulk.h\<close>), which runs a function over a range
  when its input sends a value, on a target that the user gives; the inline target of
  \<open>reduce_3.cpp\<close> and \<open>for_each_3.cpp\<close>; \<open>reduce\<close> and \<open>for_each\<close>, which are built from it; and \<open>no_fail\<close>.
  The range is a list that the iterators refer to, shared by everything that holds them.
\<close>

section \<open>\<open>bulk\<close>\<close>

text \<open>
  A target with everything bound but the input and the receiver: it works on the range and on the
  receiver it is given.
\<close>

type_synonym ('i, 'x, 's) target = "'i \<Rightarrow> ('x list \<times> 's) call"

text \<open>
  The receiver that \<open>bulk\<close> submits: \<open>data\<close> holds \<open>out\<close>, which the first value moves into the target, and
  \<open>empty\<close>. The functions for error and done take a copy of the data.
\<close>

record ('x, 's) bulk_st =
  bk_empty :: bool
  bk_moved :: bool
  bk_range :: "'x list"
  bk_out :: 's

definition bulk_new :: "'x list \<Rightarrow> 's \<Rightarrow> ('x, 's) bulk_st" where
  "bulk_new xs s = \<lparr>bk_empty = True, bk_moved = False, bk_range = xs, bk_out = s\<rparr>"

definition bulk_value :: "('i, 'x, 's) target \<Rightarrow> 'i \<Rightarrow> ('x, 's) bulk_st call" where
  "bulk_value driver v = no_except (\<lambda>st.
     if bk_moved st then UB
     else map_outcome (\<lambda>(xs, s). \<lparr>bk_empty = False, bk_moved = True, bk_range = xs, bk_out = s\<rparr>)
            (driver v (bk_range st, bk_out st)))"

definition bulk_error :: "('s, 'r, 'e, 'z) rcv_scheme \<Rightarrow> 'e error \<Rightarrow> ('x, 's) bulk_st call" where
  "bulk_error R e = no_except (\<lambda>st.
     if bk_moved st then UB else map_outcome (\<lambda>s. st\<lparr>bk_out := s\<rparr>) (set_error R e (bk_out st)))"

definition bulk_done :: "('s, 'r, 'e, 'z) rcv_scheme \<Rightarrow> ('x, 's) bulk_st call" where
  "bulk_done R st =
     (if bk_empty st then map_outcome (\<lambda>s. st\<lparr>bk_out := s\<rparr>) (set_done R (bk_out st)) else Ret st)"

definition bulk_fns ::
  "(('s, 'r, 'e, 'z) rcv_scheme \<Rightarrow> ('i, 'x, 's) target) \<Rightarrow> ('s, 'r, 'e, 'z) rcv_scheme \<Rightarrow> (('x, 's) bulk_st, 'i, 'e) rcv" where
  "bulk_fns driver R = \<lparr>r_value = bulk_value (driver R), r_error = bulk_error R, r_done = bulk_done R\<rparr>"

text \<open>\<open>bulk(...)\<close>, applied to \<open>S\<close>: the input is captured and submitted as an lvalue.\<close>

definition bulk_submit ::
  "(('s, 'r, 'e, 'z) rcv_scheme \<Rightarrow> ('i, 'x, 's) target) \<Rightarrow> ('c, ('x, 's) bulk_st receiver_st, 'i, 'e, unit) sender \<Rightarrow>
   ('c \<times> 'x list, 's, 'r, 'e, 'z) sender" where
  "bulk_submit driver S k R = (\<lambda>((c, xs), s).
     map_outcome (\<lambda>(c', st). ((c', bk_range st), bk_out st))
       (submit_wrapped (bulk_fns driver R) (S LValue) (c, bulk_new xs s)))"

definition bulk ::
  "(('s, 'r, 'e, 'z) rcv_scheme \<Rightarrow> ('i, 'x, 's) target) \<Rightarrow> ('c, ('x, 's) bulk_st receiver_st, 'i, 'e, unit) sender \<Rightarrow>
   ('c \<times> 'x list, 's, 'r, 'e, 'z) sender" where
  "bulk driver S = single_sender_fn (bulk_submit driver S)"

section \<open>The inline target\<close>

text \<open>
  \<open>func(acc, idx)\<close> updates the accumulator and may write the element at \<open>idx\<close>; the loop leaves the
  range as the calls before an exception have made it.
\<close>

fun bulk_loop :: "('acc \<Rightarrow> 'x \<Rightarrow> (nat + 'acc) \<times> 'x) \<Rightarrow> 'acc \<Rightarrow> 'x list \<Rightarrow> (nat + 'acc) \<times> 'x list" where
  "bulk_loop func acc [] = (Inr acc, [])"
| "bulk_loop func acc (x # xs) =
     (case func acc x of
        (Inl n, x') \<Rightarrow> (Inl n, x' # xs)
      | (Inr acc', x') \<Rightarrow> (let (r, xs') = bulk_loop func acc' xs in (r, x' # xs')))"

definition inline_bulk_target ::
  "('i \<Rightarrow> nat + 'acc) \<Rightarrow> ('acc \<Rightarrow> nat + 'r) \<Rightarrow> ('acc \<Rightarrow> 'x \<Rightarrow> (nat + 'acc) \<times> 'x) \<Rightarrow>
   ('s, 'r, 'e, 'z) rcv_scheme \<Rightarrow> ('i, 'x, 's) target" where
  "inline_bulk_target init selector func R input = (\<lambda>(xs, s).
     case init input of
       Inl n \<Rightarrow> map_outcome (Pair xs) (set_error R (Eptr (Exn n)) s)
     | Inr acc \<Rightarrow>
         (case bulk_loop func acc xs of
            (Inl n, xs') \<Rightarrow> map_outcome (Pair xs') (set_error R (Eptr (Exn n)) s)
          | (Inr acc', xs') \<Rightarrow>
              (case selector acc' of
                 Inl n \<Rightarrow> map_outcome (Pair xs') (set_error R (Eptr (Exn n)) s)
               | Inr r \<Rightarrow> map_outcome (Pair xs')
                   (try_catch (and_then (set_value R r) (set_done R)) (\<lambda>ep. set_error R (Eptr ep)) s))))"

section \<open>The interface of a target\<close>

text \<open>A target that, for input \<open>v\<close> over the range \<open>xs\<close>, sends \<open>sigs\<close> and leaves the range as \<open>xs'\<close>.\<close>

locale bulk_target =
  fixes driver :: "('s, 'r, 'e, 'z) rcv_scheme \<Rightarrow> ('i, 'x, 's) target" and v :: 'i
    and xs :: "'x list" and sigs :: "('r, 'e) signal list" and xs' :: "'x list"
  assumes drives: "nothrow_error R \<Longrightarrow> driver R v (xs, s) = map_outcome (Pair xs') (deliver_all R sigs s)"
begin

lemma bulk_push_value:
  assumes "nothrow_error R"
  shows "map_outcome (\<lambda>st. (bk_range st, bk_out st)) (push_signals (bulk_fns driver R) [Value v, Done] (bulk_new xs s)) =
    map_outcome (Pair xs') (deliver_all R sigs s)"
proof -
  have "deliver_all R sigs s \<noteq> Thr n t" for n t by (rule nothrow_deliver_all [OF assms])
  with drives [OF assms, of s] show ?thesis
    by (cases "deliver_all R sigs s") (auto simp: bulk_fns_def bulk_value_def bulk_done_def bulk_new_def no_except_def)
qed

lemma bulk_sends:
  assumes "sender_contract S LValue c [Value v, Done] c'"
  shows "sender_contract (bulk driver S) k (c, xs) sigs (c', xs')"
proof unfold_locales
  fix R s assume R: "nothrow_error (R :: ('s, 'r, 'e, 'z) rcv_scheme)"
  have "bulk driver S k R ((c, xs), s) =
      map_outcome (\<lambda>(ys, t). ((c', ys), t)) (map_outcome (\<lambda>st. (bk_range st, bk_out st))
        (push_signals (bulk_fns driver R) [Value v, Done] (bulk_new xs s)))"
    by (simp add: bulk_def single_sender_fn_def bulk_submit_def submit_wrapped_contract [OF assms] map_outcome_comp
        del: push_signals.simps)
  then show "bulk driver S k R ((c, xs), s) = map_outcome (Pair (c', xs')) (deliver_all R sigs s)"
    unfolding bulk_push_value [OF R] by (simp add: map_outcome_comp)
qed

end

text \<open>What the inline target computes, sends and leaves.\<close>

definition inline_result ::
  "('i \<Rightarrow> nat + 'acc) \<Rightarrow> ('acc \<Rightarrow> nat + 'r) \<Rightarrow> ('acc \<Rightarrow> 'x \<Rightarrow> (nat + 'acc) \<times> 'x) \<Rightarrow> 'i \<Rightarrow> 'x list \<Rightarrow> nat + 'r" where
  "inline_result init selector func v xs =
     (case init v of
        Inl n \<Rightarrow> Inl n
      | Inr acc \<Rightarrow> (case fst (bulk_loop func acc xs) of Inl n \<Rightarrow> Inl n | Inr acc' \<Rightarrow> selector acc'))"

definition inline_range ::
  "('i \<Rightarrow> nat + 'acc) \<Rightarrow> ('acc \<Rightarrow> 'x \<Rightarrow> (nat + 'acc) \<times> 'x) \<Rightarrow> 'i \<Rightarrow> 'x list \<Rightarrow> 'x list" where
  "inline_range init func v xs = (case init v of Inl n \<Rightarrow> xs | Inr acc \<Rightarrow> snd (bulk_loop func acc xs))"

fun result_signals :: "nat + 'r \<Rightarrow> ('r, 'e) signal list" where
  "result_signals (Inl n) = [Error (Eptr (Exn n))]"
| "result_signals (Inr r) = [Value r, Done]"

lemma value_then_done:
  "try_catch (and_then (set_value R r) (set_done R)) h s = deliver_all R [Value r, Done] s"
  by (cases "set_value R r s"; cases "and_then (set_value R r) (set_done R) s")
     (simp_all add: and_then_def try_catch_def)

lemma inline_drives:
  "inline_bulk_target init selector func R v (xs, s) =
     map_outcome (Pair (inline_range init func v xs))
       (deliver_all R (result_signals (inline_result init selector func v xs)) s)"
  by (auto simp: inline_bulk_target_def inline_result_def inline_range_def value_then_done and_then_def
      split: sum.split outcome.split prod.split)

interpretation inline_target: bulk_target "inline_bulk_target init selector func" v xs
    "result_signals (inline_result init selector func v xs)" "inline_range init func v xs" for init selector func v xs
  by unfold_locales (rule inline_drives)

lemma inline_bulk_contract:
  "sender_contract (bulk (inline_bulk_target init selector func) (just mv)) k (v, xs)
     (result_signals (inline_result init selector func v xs)) (mv v, inline_range init func v xs)"
  by (rule inline_target.bulk_sends [OF just_s.sender_contract_axioms])

section \<open>\<open>reduce\<close>\<close>

definition reduce_fn :: "('t \<Rightarrow> 'x \<Rightarrow> nat + 't) \<Rightarrow> 't \<Rightarrow> 'x \<Rightarrow> (nat + 't) \<times> 'x" where
  "reduce_fn binary_op acc x = (binary_op acc x, x)"

text \<open>\<open>just(init) | bulk(fn, begin, end, policy, identity, identity) | get\<close>; \<open>policy\<close> is the target. The
  sender is a \<open>single_sender\<close>, which is not always blocking, so \<open>get\<close> waits.\<close>

definition reduce ::
  "(('t \<Rightarrow> nat + 't) \<Rightarrow> ('t \<Rightarrow> nat + 't) \<Rightarrow> ('t \<Rightarrow> 'x \<Rightarrow> (nat + 't) \<times> 'x) \<Rightarrow>
     ((bool \<times> ('t, 'e) get_st \<times> wait_state) receiver_st, 't, 'e) rcv \<Rightarrow>
     ('t, 'x, (bool \<times> ('t, 'e) get_st \<times> wait_state) receiver_st) target) \<Rightarrow>
   ('t \<Rightarrow> 't) \<Rightarrow> 'x list \<Rightarrow> 't \<Rightarrow> ('t \<Rightarrow> 'x \<Rightarrow> nat + 't) \<Rightarrow> ('t, 'e) got outcome option" where
  "reduce policy mv xs init binary_op =
     get_awaited (bulk (policy Inr Inr (reduce_fn binary_op)) (just mv)) [] (init, xs)"

text \<open>The fold, which stops at an exception.\<close>

fun fold_throws :: "('t \<Rightarrow> 'x \<Rightarrow> nat + 't) \<Rightarrow> 't \<Rightarrow> 'x list \<Rightarrow> nat + 't" where
  "fold_throws f acc [] = Inr acc"
| "fold_throws f acc (x # xs) = (case f acc x of Inl n \<Rightarrow> Inl n | Inr acc' \<Rightarrow> fold_throws f acc' xs)"

lemma reduce_loop: "bulk_loop (reduce_fn f) acc xs = (fold_throws f acc xs, xs)"
  by (induction xs arbitrary: acc) (simp_all add: reduce_fn_def split: sum.split)

lemma fold_pure: "fold_throws (\<lambda>acc x. Inr (f acc x)) acc xs = Inr (foldl f acc xs)"
  by (induction xs arbitrary: acc) simp_all

lemma reduce_inline:
  "reduce inline_bulk_target mv xs init f =
     Some (Ret (case fold_throws f init xs of Inl n \<Rightarrow> Rethrown (Eptr (Exn n)) | Inr r \<Rightarrow> Got r))"
proof -
  have con: "sender_contract (bulk (inline_bulk_target Inr Inr (reduce_fn f)) (just mv)) RValue (init, xs)
      (result_signals (fold_throws f init xs)) (mv init, xs)"
    using inline_bulk_contract [of Inr Inr "reduce_fn f" mv RValue init xs]
    by (auto simp: inline_result_def inline_range_def reduce_loop split: sum.splits)
  show ?thesis by (simp add: reduce_def get_awaited_contract [OF con] expected_got_def split: sum.split)
qed

section \<open>\<open>for_each\<close>\<close>

text \<open>\<open>f\<close> may write the element, and throw.\<close>

definition each_fn :: "('x \<Rightarrow> (nat + unit) \<times> 'x) \<Rightarrow> 'acc \<Rightarrow> 'x \<Rightarrow> (nat + 'acc) \<times> 'x" where
  "each_fn f acc x = (case f x of (Inl n, x') \<Rightarrow> (Inl n, x') | (Inr u, x') \<Rightarrow> (Inr acc, x'))"

text \<open>The receiver of \<open>blocking_submit()\<close> without arguments: a \<open>receiver<>\<close>, which refers to nothing.\<close>

definition empty_out :: "('s receiver_st \<times> 'x, 'v, 'e) rcv" where
  "empty_out = (let E = receiver_empty :: ('s receiver_st, 'v, 'e) rcv in
     \<lparr>r_value = (\<lambda>v. on_fst (r_value E v)), r_error = (\<lambda>e. on_fst (r_error E e)), r_done = on_fst (r_done E)\<rparr>)"

definition blocking_start :: "(unit receiver_st \<times> unit \<times> wait_state) receiver_st" where
  "blocking_start = receiver_new (receiver_new (), (), \<lparr>ls_done = False, ls_nested = 0\<rparr>)"

text \<open>
  \<open>just(0) | bulk(fn, begin, end, policy, identity, zero) | blocking_submit()\<close>: what the range is, and the
  state that the caller waits on.
\<close>

definition for_each_range ::
  "((int \<Rightarrow> nat + int) \<Rightarrow> (int \<Rightarrow> nat + int) \<Rightarrow> (int \<Rightarrow> 'x \<Rightarrow> (nat + int) \<times> 'x) \<Rightarrow>
     ((unit receiver_st \<times> unit \<times> wait_state) receiver_st, int, 'e) rcv \<Rightarrow>
     (int, 'x, (unit receiver_st \<times> unit \<times> wait_state) receiver_st) target) \<Rightarrow>
   'x list \<Rightarrow> ('x \<Rightarrow> (nat + unit) \<times> 'x) \<Rightarrow> ('x list \<times> wait_state) outcome" where
  "for_each_range policy xs f =
     map_outcome (\<lambda>((c, xs'), st). (xs', snd (snd (rs_data st))))
       (bulk (policy Inr (\<lambda>acc. Inr 0) (each_fn f)) (just id) RValue (blocking_receiver empty_out) ((0, xs), blocking_start))"

fun each_range :: "('x \<Rightarrow> (nat + unit) \<times> 'x) \<Rightarrow> 'x list \<Rightarrow> nat option \<times> 'x list" where
  "each_range f [] = (None, [])"
| "each_range f (x # xs) =
     (case f x of
        (Inl n, x') \<Rightarrow> (Some n, x' # xs)
      | (Inr u, x') \<Rightarrow> (let (r, xs') = each_range f xs in (r, x' # xs')))"

lemma each_loop:
  "bulk_loop (each_fn f) acc xs =
     ((case fst (each_range f xs) of None \<Rightarrow> Inr acc | Some n \<Rightarrow> Inl n), snd (each_range f xs))"
  by (induction xs) (auto simp: each_fn_def Let_def split: sum.split prod.split option.split)

section \<open>\<open>no_fail\<close>\<close>

definition no_fail_error :: "'e error \<Rightarrow> 's call" where
  "no_fail_error e = no_except terminate"

definition no_fail_submit ::
  "('c, 's receiver_st, 'v, 'e, unit) sender \<Rightarrow> ('c, 's, 'v, 'e, 'x) sender" where
  "no_fail_submit S k R =
     submit_wrapped \<lparr>r_value = passDVF R, r_error = no_fail_error, r_done = passDDF R\<rparr> (S RValue)"

definition no_fail :: "cardinality \<Rightarrow> ('c, 's receiver_st, 'v, 'e, unit) sender \<Rightarrow> ('c, 's, 'v, 'e, 'x) sender" where
  "no_fail n S = sender_from n False (no_fail_submit S)"

lemma no_fail_push:
  "push_signals \<lparr>r_value = passDVF R, r_error = no_fail_error, r_done = passDDF R\<rparr> (map Value vs @ sig # sigs) s =
   (case deliver_all R (map Value vs) s of
      Ret t \<Rightarrow> (case sig of
          Value v \<Rightarrow> push_signals \<lparr>r_value = passDVF R, r_error = no_fail_error, r_done = passDDF R\<rparr> (sig # sigs) t
        | Error e \<Rightarrow> Term | Done \<Rightarrow> set_done R t)
    | r \<Rightarrow> r)"
  by (induction vs arbitrary: s)
     (auto simp: passDVF_def passDDF_def no_fail_error_def no_except_def and_then_def split: outcome.split signal.split)

section \<open>Properties\<close>

text \<open>
  \<open>reduce\<close> with the inline target is the left fold of its range: \<open>get\<close> returns the result, or rethrows
  the first exception of the function, and is never without a value.
\<close>
theorem reduce_folds:
  "reduce inline_bulk_target mv xs init f =
     Some (Ret (case fold_throws f init xs of Inl n \<Rightarrow> Rethrown (Eptr (Exn n)) | Inr r \<Rightarrow> Got r))
   \<and> reduce inline_bulk_target mv xs init (\<lambda>acc x. Inr (g acc x)) = Some (Ret (Got (foldl g init xs)))"
  by (simp add: reduce_inline fold_pure)

text \<open>
  \<open>for_each\<close> with the inline target: every element is passed to the function in order and the caller can
  return from its wait; but an exception of the function ends the program, because \<open>blocking_submit()\<close>
  without arguments has no error function.
\<close>
theorem for_each_runs:
  "for_each_range inline_bulk_target xs f =
     (case each_range f xs of
        (None, xs') \<Rightarrow> Ret (xs', \<lparr>ls_done = True, ls_nested = 0\<rparr>) | (Some n, xs') \<Rightarrow> Term)"
proof -
  note run = run_signals blocking_receiver_def receiver_data_defs blocking_value_def blocking_error_def blocking_done_def
    on_copy_def empty_out_def receiver_empty_def receiver_fn_defs ignoreVF_def abortEF_def ignoreDF_def on_member_def
    blocking_start_def receiver_new_def
  obtain r xs' where e: "each_range f xs = (r, xs')" by fastforce
  have res: "inline_result Inr (\<lambda>acc. Inr 0) (each_fn f) (0 :: int) xs = (case r of None \<Rightarrow> Inr (0 :: int) | Some n \<Rightarrow> Inl n)"
    "inline_range Inr (each_fn f) (0 :: int) xs = xs'"
    by (simp_all add: inline_result_def inline_range_def each_loop e split: option.split)
  note sends = for_each_range_def sender_contract.sends [OF inline_bulk_contract blocking_nothrow] res e
  show ?thesis
  proof (cases r)
    case None
    then show ?thesis by (simp add: sends) (simp add: run)
  next
    case (Some n)
    then show ?thesis by (simp add: sends) (simp add: run)
  qed
qed

text \<open>
  \<open>no_fail\<close> sends its receiver values and done as they are; an error of its input ends the program, and
  never reaches the receiver.
\<close>
theorem no_fail_sends:
  assumes "\<And>R r. nothrow_error R \<Longrightarrow>
      S RValue R (c, r) = map_outcome (Pair c') (deliver_all R (map Value vs @ sig # sigs) r)"
    and "is_terminal sig" "deliver_all R (map Value vs) s = Ret t"
  shows "no_fail n S k R (c, s) =
    (case sig of Error e \<Rightarrow> Term | _ \<Rightarrow> map_outcome (Pair c') (set_done R t))"
proof -
  have "sender_contract S RValue c (map Value vs @ sig # sigs) c'" by unfold_locales (rule assms(1))
  then show ?thesis using assms(2,3)
    by (cases sig) (simp_all add: no_fail_def sender_from_eq no_fail_submit_def submit_wrapped_contract no_fail_push
        del: deliver_all_simps)
qed

theorem no_fail_sends_witness:
  "no_fail Many from_sender LValue collector ([4, 5], ([], 0)) = Ret ([4, 5], ([4, 5], 1)) \<and>
   no_fail Single error_sender LValue collector (Eval 3, ([], 0)) = Term"
proof (rule conjI)
  have "deliver_all collector (map Value [4, 5]) ([], 0) = Ret ([4, 5], 0)"
    by (simp add: run_signals collector_def)
  then show "no_fail Many from_sender LValue collector ([4, 5], ([], 0)) = Ret ([4, 5], ([4, 5], 1))"
    by (intro trans [OF no_fail_sends [where S = from_sender and sig = Done and sigs = "[]" and vs = "[4, 5]"]])
       (auto simp: from_s.sends run_signals collector_def)
  have "deliver_all collector (map Value []) ([], 0) = Ret ([], 0)" by simp
  then show "no_fail Single error_sender LValue collector (Eval 3, ([], 0)) = Term"
    by (intro trans [OF no_fail_sends [where S = error_sender and sig = "Error (Eval 3)" and sigs = "[]" and vs = "[]"]])
       (auto simp: error_s.sends)
qed

end
