(* ===== verification/Strand_Refinement.thy ===== *)
theory Strand_Refinement
  imports Strand "HOL-Library.Multiset"
begin

text \<open>
  What a strand is for, as an abstract machine: items wait in a queue, leave it from the front, are
  under way, and end. The steps of \<open>Strand\<close>, with its workers, counter and executor, are shown to
  simulate it: so each item that was submitted is in exactly one of the three places.
\<close>

section \<open>The abstract machine\<close>

record fifo_spec =
  waiting :: "nat list"
  underway :: "nat multiset"
  ended :: "nat multiset"

definition spec_new :: fifo_spec where
  "spec_new = \<lparr>waiting = [], underway = {#}, ended = {#}\<rparr>"

inductive spec_step :: "fifo_spec \<Rightarrow> fifo_spec \<Rightarrow> bool" where
  spec_submit: "spec_step a (a\<lparr>waiting := waiting a @ [i]\<rparr>)"
| spec_begin: "waiting a = i # q \<Longrightarrow> spec_step a (a\<lparr>waiting := q, underway := add_mset i (underway a)\<rparr>)"
| spec_end: "underway a = add_mset i u \<Longrightarrow> spec_step a (a\<lparr>underway := u, ended := add_mset i (ended a)\<rparr>)"

section \<open>The abstraction\<close>

fun worker_items :: "worker \<Rightarrow> nat multiset" where
  "worker_items (Running i) = {#i#}"
| "worker_items (Failing i) = {#i#}"
| "worker_items _ = {#}"

definition strand_underway :: "strand \<Rightarrow> nat multiset" where
  "strand_underway s = \<Sum>\<^sub># (image_mset worker_items (mset (workers s)))"

definition strand_taken :: "strand \<Rightarrow> nat multiset" where
  "strand_taken s = mset (map item_of (left s))"

definition strand_abs :: "strand \<Rightarrow> fifo_spec" where
  "strand_abs s = \<lparr>waiting = items s, underway = strand_underway s, ended = strand_taken s - strand_underway s\<rparr>"

definition held_once :: "strand \<Rightarrow> bool" where
  "held_once s \<longleftrightarrow> strand_underway s \<subseteq># strand_taken s"

lemmas abs_defs = strand_abs_def strand_underway_def strand_taken_def held_once_def

lemma goto_underway:
  assumes "k < length (workers s)"
  obtains u where "strand_underway s = worker_items (workers s ! k) + u"
    "\<And>w. strand_underway (goto k w s) = worker_items w + u"
proof -
  obtain m where m: "mset (workers s) = add_mset (workers s ! k) m"
    using multi_member_split [of "workers s ! k" "mset (workers s)"] assms by auto
  have "mset ((workers s)[k := w]) = add_mset w m" for w
    using assms by (simp add: mset_update m)
  then show ?thesis using that m by (simp add: strand_underway_def)
qed

text \<open>An item ends when its worker goes on; nothing changes when a worker without an item does.\<close>

lemma sim_end:
  assumes "k < length (workers s)" "held_once s" "worker_items w = {#}"
  shows "spec_step\<^sup>*\<^sup>* (strand_abs s) (strand_abs (goto k w s)) \<and> held_once (goto k w s)"
proof -
  obtain u where u: "strand_underway s = worker_items (workers s ! k) + u"
      "\<And>w. strand_underway (goto k w s) = worker_items w + u"
    by (rule goto_underway [OF assms(1)]) blast
  have taken: "strand_taken (goto k w s) = strand_taken s" by (simp add: strand_taken_def)
  have sub: "worker_items (workers s ! k) + u \<subseteq># strand_taken s" using assms(2) u by (simp add: held_once_def)
  have "worker_items (workers s ! k) = {#} \<or> (\<exists>i. worker_items (workers s ! k) = {#i#})"
    by (cases "workers s ! k") auto
  then show ?thesis
  proof (elim disjE exE)
    assume "worker_items (workers s ! k) = {#}"
    then show ?thesis using u assms(2,3) taken by (simp add: strand_abs_def held_once_def)
  next
    fix i assume i: "worker_items (workers s ! k) = {#i#}"
    then obtain d where d: "strand_taken s = add_mset i u + d"
      using sub by (auto simp: mset_subset_eq_exists_conv)
    have "spec_step (strand_abs s) ((strand_abs s)\<lparr>underway := u, ended := add_mset i (ended (strand_abs s))\<rparr>)"
      by (rule spec_end) (simp add: strand_abs_def u i)
    then show ?thesis using u i assms(3) taken d by (simp add: strand_abs_def held_once_def r_into_rtranclp)
  qed
qed

text \<open>An item leaves the queue for a worker that has none.\<close>

lemma sim_begin:
  assumes "k < length (workers s)" "held_once s" "worker_items (workers s ! k) = {#}" "items s = i # rest"
    and w: "worker_items w = {#i#}" and l: "item_of l = i"
    and t: "items t = rest" "left t = left s @ [l]" "workers t = (workers s)[k := w]"
  shows "spec_step (strand_abs s) (strand_abs t) \<and> held_once t"
proof -
  obtain u where u: "strand_underway s = worker_items (workers s ! k) + u"
      "\<And>w. strand_underway (goto k w s) = worker_items w + u"
    by (rule goto_underway [OF assms(1)]) blast
  have t': "strand_underway t = add_mset i u" using u(2) [of w] t(3) w by (simp add: strand_underway_def)
  have taken: "strand_taken t = add_mset i (strand_taken s)" using t(2) l by (simp add: strand_taken_def)
  have "spec_step (strand_abs s) ((strand_abs s)\<lparr>waiting := rest, underway := add_mset i (underway (strand_abs s))\<rparr>)"
    by (rule spec_begin) (simp add: strand_abs_def assms(4))
  moreover have "held_once t" using assms(2,3) u(1) t' taken by (simp add: held_once_def)
  ultimately show ?thesis using assms(3) u(1) t' taken t(1) by (simp add: strand_abs_def)
qed

lemma abs_frame:
  assumes "items t = items s" "workers t = workers s" "left t = left s"
  shows "strand_abs t = strand_abs s" "held_once t = held_once s"
  using assms by (simp_all add: abs_defs)

lemma goto_twice: "value_loop k (goto k w s) = value_loop k s" "fail_loop k (goto k w s) = fail_loop k s"
  by (auto simp: value_loop_def fail_loop_def Let_def split: list.split)

lemma sim_loop:
  assumes "k < length (workers s)" "held_once s" "worker_items (workers s ! k) = {#}"
  shows "spec_step\<^sup>*\<^sup>* (strand_abs s) (strand_abs (value_loop k s)) \<and> held_once (value_loop k s)"
    "spec_step\<^sup>*\<^sup>* (strand_abs s) (strand_abs (fail_loop k s)) \<and> held_once (fail_loop k s)"
proof -
  note begin_run = sim_begin [OF assms, of _ _ "Running _" "Started _"]
    and begin_fail = sim_begin [OF assms, of _ _ "Failing _" "Failed _"]
  show "spec_step\<^sup>*\<^sup>* (strand_abs s) (strand_abs (value_loop k s)) \<and> held_once (value_loop k s)"
  proof (cases "items s")
    case Nil
    then show ?thesis using sim_end [OF assms(1,2), of AfterValue] by (simp add: value_loop_def)
  next
    case (Cons i rest)
    then show ?thesis using begin_run [OF Cons, of i i "value_loop k s"]
      by (simp add: value_loop_Cons r_into_rtranclp)
  qed
  show "spec_step\<^sup>*\<^sup>* (strand_abs s) (strand_abs (fail_loop k s)) \<and> held_once (fail_loop k s)"
  proof (cases "items s")
    case Nil
    then show ?thesis using sim_end [OF assms(1,2), of Finished] by (simp add: fail_loop_def)
  next
    case (Cons i rest)
    then show ?thesis using begin_fail [OF Cons, of i i "fail_loop k s"]
      by (simp add: fail_loop_def r_into_rtranclp)
  qed
qed

text \<open>The same for a worker whose item has just returned: the item ends first.\<close>

lemma sim_return:
  assumes "k < length (workers s)" "held_once s"
  shows "spec_step\<^sup>*\<^sup>* (strand_abs s) (strand_abs (value_loop k s)) \<and> held_once (value_loop k s)"
    "spec_step\<^sup>*\<^sup>* (strand_abs s) (strand_abs (fail_loop k s)) \<and> held_once (fail_loop k s)"
proof -
  have e: "spec_step\<^sup>*\<^sup>* (strand_abs s) (strand_abs (goto k AfterValue s)) \<and> held_once (goto k AfterValue s)"
    by (rule sim_end [OF assms]) simp
  then show "spec_step\<^sup>*\<^sup>* (strand_abs s) (strand_abs (value_loop k s)) \<and> held_once (value_loop k s)"
    "spec_step\<^sup>*\<^sup>* (strand_abs s) (strand_abs (fail_loop k s)) \<and> held_once (fail_loop k s)"
    using sim_loop [of k "goto k AfterValue s"] assms(1) by (auto simp: goto_twice)
qed

section \<open>The simulation\<close>

lemma strand_sim:
  assumes "held_once s" "strand_step s t"
  shows "held_once t \<and> spec_step\<^sup>*\<^sup>* (strand_abs s) (strand_abs t)"
  using assms(2)
proof (cases rule: strand_step.cases)
  case (submit i)
  have "strand_underway t = strand_underway s" "strand_taken t = strand_taken s" "items t = items s @ [i]"
    using submit by (auto simp: abs_defs task_submit_def send_worker_def Let_def)
  then show ?thesis
    using assms(1) spec_submit [of "strand_abs s" i] by (simp add: strand_abs_def held_once_def r_into_rtranclp)
next
  case (enter_value k)
  let ?s = "s\<lparr>remaining := of_nat (length (items s))\<rparr>"
  have "t = goto k AfterValue s \<or> t = value_loop k ?s" using enter_value by (simp add: queue_value_def)
  then show ?thesis
    using sim_end [of k s AfterValue] sim_return(1) [of k ?s] enter_value assms(1) abs_frame [of ?s s] by auto
next
  case (item_returns k i)
  then show ?thesis using sim_return(1) [of k s] assms(1) by blast
next
  case (enter_done k)
  have u: "spec_step\<^sup>*\<^sup>* (strand_abs s) (strand_abs (goto k Finished s)) \<and> held_once (goto k Finished s)"
    by (rule sim_end) (use enter_done assms(1) in simp_all)
  have "strand_abs t = strand_abs (goto k Finished s)" "held_once t = held_once (goto k Finished s)"
    using enter_done by (auto simp: queue_done_def send_worker_def abs_defs)
  then show ?thesis using u by simp
next
  case (enter_error k)
  let ?s = "s\<lparr>remaining := 0\<rparr>"
  show ?thesis
    using sim_return(2) [of k ?s] enter_error assms(1) abs_frame [of ?s s] by (auto simp: queue_error_def)
next
  case (fail_returns k i)
  then show ?thesis using sim_return(2) [of k s] assms(1) by blast
qed

interpretation strand_fifo_sim: simulation "\<lambda>s. s = strand_new" strand_step strand_abs held_once
    "\<lambda>a. a = spec_new" spec_step
proof unfold_locales
  fix s :: strand
  show "s = strand_new \<Longrightarrow> held_once s \<and> strand_abs s = spec_new"
    by (simp add: abs_defs strand_new_def spec_new_def)
  fix t :: strand
  show "held_once s \<Longrightarrow> strand_step s t \<Longrightarrow> held_once t \<and> spec_step\<^sup>*\<^sup>* (strand_abs s) (strand_abs t)"
    by (rule strand_sim)
qed

section \<open>Properties\<close>

text \<open>
  C17: A strand refines the abstract queue: every interleaving of its submitters and workers is a run of the
  machine that takes items from the front of a queue, has them under way and ends them. So every
  submitted item is in exactly one place: queued, with one worker, or ended, by value or by error.
\<close>
theorem strand_refines_fifo:
  assumes "strand_reach s"
  shows "reachable (\<lambda>a. a = spec_new) spec_step (strand_abs s)
    \<and> mset (submitted s) = mset (items s) + strand_underway s + ended (strand_abs s)"
proof -
  have sim: "held_once s" "reachable (\<lambda>a. a = spec_new) spec_step (strand_abs s)"
    using strand_fifo_sim.simulates [OF assms] by auto
  have "submitted s = map item_of (left s) @ items s"
    using fifo.reachable_inv [OF assms] by (simp add: fifo_inv_def)
  then show ?thesis
    using sim by (auto simp: held_once_def strand_taken_def strand_abs_def mset_subset_eq_exists_conv)
qed

theorem strand_refines_fifo_witness:
  "\<exists>s. strand_reach s \<and> strand_abs s = \<lparr>waiting = [9], underway = {#8#}, ended = {#7#}\<rparr> \<and>
     reachable (\<lambda>a. a = spec_new) spec_step (strand_abs s)"
proof -
  let ?es = "[Submit 7, Submit 8, Enter 0, Return 0, Submit 9]"
  let ?s = "the (strand_run ?es strand_new)"
  have r: "strand_reach ?s"
    by (rule strand_run_reach [of ?es, OF _ strand_reach_new]) (simp add: run_strand)
  show ?thesis using conjunct1 [OF strand_refines_fifo [OF r]] r
    by (intro exI [of _ ?s]) (simp add: run_strand abs_defs)
qed

end
