(* ===== verification/Blocking_Nested.thy ===== *)
theory Blocking_Nested
  imports Submit
begin

text \<open>
  The executors that \<open>blocking_submit\<close> hands out (\<open>o/submit.h\<close>): an executor that its receiver is sent is
  wrapped, once, so that what is scheduled on it is counted in \<open>nested\<close> until it has ended. The tests
  and notifications of the waiting thread are in \<open>Submit\<close>.
\<close>

section \<open>The wrapped executor\<close>

text \<open>\<open>nested_executor_impl\<close>, which holds an executor of the user; a wrapped one is not wrapped again.\<close>

datatype 'x nexec = Plain_Exec 'x | Nested_Exec 'x

fun nested_make :: "'x nexec \<Rightarrow> 'x nexec" where
  "nested_make (Plain_Exec x) = Nested_Exec x"
| "nested_make (Nested_Exec x) = Nested_Exec x"

fun nested_ex :: "'x nexec \<Rightarrow> 'x" where
  "nested_ex (Plain_Exec x) = x"
| "nested_ex (Nested_Exec x) = x"

definition nested_top :: "('x \<Rightarrow> 't) \<Rightarrow> 'x nexec \<Rightarrow> 't" where
  "nested_top ex_top n = ex_top (nested_ex n)"

section \<open>The receiver of a nested task\<close>

text \<open>The state: that of \<open>out\<close>, and \<open>lock_state\<close>. A done of \<open>out\<close> does not throw, as a customization point.\<close>

definition nested_down :: "('s \<times> wait_state) call" where
  "nested_down = (\<lambda>(s, st). Ret (s, st\<lparr>ls_nested := ls_nested st - 1\<rparr>))"

definition nested_value :: "('s, 'x nexec, 'e, 'y) rcv_scheme \<Rightarrow> 'x nexec \<Rightarrow> ('s \<times> wait_state) call" where
  "nested_value R x = on_fst (set_value R (nested_make x))"

definition nested_error :: "('s, 'x nexec, 'e, 'y) rcv_scheme \<Rightarrow> 'e error \<Rightarrow> ('s \<times> wait_state) call" where
  "nested_error R e = no_except (and_then (on_fst (set_error R e)) nested_down)"

definition nested_done :: "('s, 'x nexec, 'e, 'y) rcv_scheme \<Rightarrow> ('s \<times> wait_state) call" where
  "nested_done R = (\<lambda>st.
     case on_fst (set_done R) st of
       Ret t \<Rightarrow> nested_down t
     | Thr n t \<Rightarrow> (case nested_down t of Ret u \<Rightarrow> Thr n u | r \<Rightarrow> r)
     | Term \<Rightarrow> Term | UB \<Rightarrow> UB)"

definition nested_receiver :: "('s, 'x nexec, 'e, 'y) rcv_scheme \<Rightarrow> ('s \<times> wait_state, 'x nexec, 'e) rcv" where
  "nested_receiver R = \<lparr>r_value = nested_value R, r_error = nested_error R, r_done = nested_done R\<rparr>"

text \<open>\<open>nested_task_impl::submit\<close>, and \<open>schedule\<close> of the wrapped executor, which makes such a task.\<close>

definition nested_task_submit ::
  "('c, 's \<times> wait_state, 'x nexec, 'e, unit) sender \<Rightarrow> ('s, 'x nexec, 'e, 'y) rcv_scheme \<Rightarrow> ('c \<times> 's \<times> wait_state) call" where
  "nested_task_submit S R = (\<lambda>(c, s, st). S RValue (nested_receiver R) (c, s, st\<lparr>ls_nested := ls_nested st + 1\<rparr>))"

definition nested_schedule ::
  "('x \<Rightarrow> ('c, 's \<times> wait_state, 'x nexec, 'e, unit) sender) \<Rightarrow> 'x nexec \<Rightarrow> ('s, 'x nexec, 'e, 'y) rcv_scheme \<Rightarrow>
   ('c \<times> 's \<times> wait_state) call" where
  "nested_schedule sched n R = nested_task_submit (sched (nested_ex n)) R"

section \<open>What a nested task delivers\<close>

fun nested_signal :: "('x nexec, 'e) signal \<Rightarrow> ('x nexec, 'e) signal" where
  "nested_signal (Value x) = Value (nested_make x)"
| "nested_signal sig = sig"

text \<open>The count goes down with each terminal signal.\<close>

definition nested_ends :: "('x nexec, 'e) signal list \<Rightarrow> int" where
  "nested_ends sigs = int (length (filter is_terminal sigs))"

lemma nested_nothrow: "nothrow_error (nested_receiver R)"
  by (simp add: nothrow_error_def nested_receiver_def nested_error_def)

lemma nested_deliver:
  assumes "nothrow_error R"
  shows "deliver (nested_receiver R) sig (s, st) =
    map_outcome (\<lambda>t. (t, st\<lparr>ls_nested := ls_nested st - (if is_terminal sig then 1 else 0)\<rparr>))
      (deliver R (nested_signal sig) s)"
proof -
  have "deliver R (nested_signal sig) s \<noteq> Thr n t" for n t by (rule nothrow_deliver [OF assms])
  then show ?thesis
    by (cases sig; cases "deliver R (nested_signal sig) s")
       (auto simp: nested_receiver_def nested_value_def nested_error_def nested_done_def nested_down_def
         set_value_def [of "\<lparr>r_value = _, r_error = _, r_done = _\<rparr>"] set_error_def [of "\<lparr>r_value = _, r_error = _, r_done = _\<rparr>"]
         set_done_def [of "\<lparr>r_value = _, r_error = _, r_done = _\<rparr>"] on_member_def and_then_def try_catch_def no_except_def)
qed

lemma nested_deliver_all:
  assumes "nothrow_error R"
  shows "deliver_all (nested_receiver R) sigs (s, st) =
    map_outcome (\<lambda>t. (t, st\<lparr>ls_nested := ls_nested st - nested_ends sigs\<rparr>)) (deliver_all R (map nested_signal sigs) s)"
proof (induction sigs arbitrary: s st)
  case (Cons sig sigs)
  then show ?case
    by (cases "deliver R (nested_signal sig) s")
       (auto simp: nested_deliver [OF assms] nested_ends_def and_then_def nothrow_deliver [OF assms] algebra_simps)
qed (simp add: nested_ends_def)

section \<open>Properties\<close>

text \<open>
  A task that is scheduled on a wrapped executor leaves the count as it was when it has sent its one
  terminal signal: the receiver gets the signals of the task, with every executor among them wrapped
  once, so that what is scheduled on those is counted as well.
\<close>
theorem nested_task_balanced:
  assumes "\<And>R r. nothrow_error R \<Longrightarrow>
      sched x RValue R (c, r) = map_outcome (Pair c') (deliver_all R (map Value xs @ [sig]) r)"
    and "is_terminal sig" "nothrow_error R"
  shows "nested_schedule sched (Nested_Exec x) R (c, s, st) =
    map_outcome (\<lambda>t. (c', t, st)) (deliver_all R (map (\<lambda>y. Value (nested_make y)) xs @ [sig]) s)
   \<and> nested_make (nested_make y) = nested_make y"
proof (rule conjI)
  have "nested_ends (map Value xs @ [sig]) = 1"
    using assms(2) by (simp add: nested_ends_def filter_empty_conv)
  moreover have "map nested_signal (map Value xs @ [sig]) = map (\<lambda>y. Value (nested_make y)) xs @ [sig]"
    using assms(2) by (cases sig) simp_all
  ultimately show "nested_schedule sched (Nested_Exec x) R (c, s, st) =
    map_outcome (\<lambda>t. (c', t, st)) (deliver_all R (map (\<lambda>y. Value (nested_make y)) xs @ [sig]) s)"
    by (simp add: nested_schedule_def nested_task_submit_def assms(1) [OF nested_nothrow] nested_deliver_all [OF assms(3)]
        map_outcome_comp del: map_append list.map)
  show "nested_make (nested_make y) = nested_make y" by (cases y) simp_all
qed

definition exec_log :: "(nat nexec list, nat nexec, nat) rcv" where
  "exec_log = \<lparr>r_value = (\<lambda>v vs. Ret (vs @ [v])), r_error = (\<lambda>e vs. Ret []), r_done = (\<lambda>vs. Ret vs)\<rparr>"

theorem nested_task_balanced_witness:
  "nested_schedule (\<lambda>x. just id) (Nested_Exec (7 :: nat)) exec_log (Plain_Exec 3, [], \<lparr>ls_done = False, ls_nested = 1\<rparr>) =
     Ret (Plain_Exec 3, [Nested_Exec 3], \<lparr>ls_done = False, ls_nested = 1\<rparr>)"
proof -
  have n: "nothrow_error exec_log" by (simp add: nothrow_error_def exec_log_def)
  have "nested_schedule (\<lambda>x. just id) (Nested_Exec (7 :: nat)) exec_log (Plain_Exec 3, [], \<lparr>ls_done = False, ls_nested = 1\<rparr>) =
      map_outcome (\<lambda>t. (Plain_Exec 3, t, \<lparr>ls_done = False, ls_nested = 1\<rparr>))
        (deliver_all exec_log (map (\<lambda>y. Value (nested_make y)) [Plain_Exec 3] @ [Done]) [])"
    by (rule conjunct1 [OF nested_task_balanced [OF _ _ n]]) (simp_all add: just_s.sends)
  then show ?thesis by (simp add: run_signals exec_log_def)
qed

text \<open>
  With a nested task the caller can return, which destroys \<open>lock_state\<close>, while the thread of the task has
  brought the count to zero and is still to call \<open>notify_all\<close> on the condition variable in it.
\<close>
theorem blocking_notifies_destroyed:
  "\<exists>b. blocking_reach True b \<and> bl_waiter b = Returned \<and> bl_quiet b = 1"
proof -
  let ?st = "\<lambda>d n w k q. \<lparr>bl_state = \<lparr>ls_done = d, ls_nested = n\<rparr>, bl_waiter = w, bl_tasks = k, bl_quiet = q, bl_loud = 0\<rparr>"
  have step: "blocking_reach True c \<Longrightarrow> blocking_step True c d \<Longrightarrow> blocking_reach True d" for c d by (rule reach_step)
  have "blocking_reach True (?st False 0 Testing 0 0)" using blocking_reach_new [of True] by (simp add: blocking_new_def)
  from step [OF this value_begin] have "blocking_reach True (?st False 1 Testing 0 0)" by (simp add: run_blocking)
  from step [OF this task_begin] have "blocking_reach True (?st False 2 Testing 1 0)" by (simp add: run_blocking)
  from step [OF this value_end] have "blocking_reach True (?st False 1 Testing 1 0)" by (simp add: run_blocking)
  from step [OF this test_false] have "blocking_reach True (?st False 1 Sleepy 1 0)" by (simp add: run_blocking)
  from step [OF this sleep] have "blocking_reach True (?st False 1 Asleep 1 0)" by (simp add: run_blocking)
  from step [OF this terminal] have "blocking_reach True (?st True 1 Woken 1 0)" by (simp add: run_blocking)
  from step [OF this relock] have "blocking_reach True (?st True 1 Testing 1 0)" by (simp add: run_blocking)
  from step [OF this task_end] have "blocking_reach True (?st True 0 Testing 0 1)" by (simp add: run_blocking)
  from step [OF this test_true] have "blocking_reach True (?st True 0 Returned 0 1)" by (simp add: run_blocking finished_pred_def)
  then show ?thesis by (intro exI [of _ "?st True 0 Returned 0 1"]) simp
qed

end
