(* ===== verification/Heap_Items.thy ===== *)
theory Heap_Items
  imports Time_Source
begin

text \<open>
  The items of the heap of a \<open>time_source\<close> queue and the six comparison operators on them
  (\<open>time_source.h\<close>). \<open>std::priority_queue\<close> is given \<open>std::greater\<close>, so an item at the top is one that
  is greater than no other; its documentation asks for a strict weak order. \<open>Time_Source\<close> reads the
  heap through \<open>is_top\<close> and \<open>top_when\<close>, which is shown to be the same.
\<close>

datatype time_heap_item = Heap_Item (item_when: int) (item_what: nat)

definition item_lt :: "time_heap_item \<Rightarrow> time_heap_item \<Rightarrow> bool" where
  "item_lt l r \<longleftrightarrow> item_when l < item_when r"

definition item_gt :: "time_heap_item \<Rightarrow> time_heap_item \<Rightarrow> bool" where
  "item_gt l r \<longleftrightarrow> item_when l > item_when r"

definition item_eq :: "time_heap_item \<Rightarrow> time_heap_item \<Rightarrow> bool" where
  "item_eq l r \<longleftrightarrow> item_when l = item_when r"

definition item_ne :: "time_heap_item \<Rightarrow> time_heap_item \<Rightarrow> bool" where
  "item_ne l r \<longleftrightarrow> \<not> item_eq l r"

definition item_le :: "time_heap_item \<Rightarrow> time_heap_item \<Rightarrow> bool" where
  "item_le l r \<longleftrightarrow> \<not> item_gt l r"

definition item_ge :: "time_heap_item \<Rightarrow> time_heap_item \<Rightarrow> bool" where
  "item_ge l r \<longleftrightarrow> \<not> item_lt l r"

lemmas item_defs = item_lt_def item_gt_def item_eq_def item_ne_def item_le_def item_ge_def

text \<open>The operators make a preorder; it is no order, because items that are due at once compare equal.\<close>

instantiation time_heap_item :: preorder
begin

definition less_eq_time_heap_item :: "time_heap_item \<Rightarrow> time_heap_item \<Rightarrow> bool" where
  "l \<le> r \<longleftrightarrow> item_le l r"

definition less_time_heap_item :: "time_heap_item \<Rightarrow> time_heap_item \<Rightarrow> bool" where
  "l < r \<longleftrightarrow> item_lt l r"

instance
  by standard (auto simp: less_eq_time_heap_item_def less_time_heap_item_def item_defs)

end

text \<open>The element of the model's heap as an item.\<close>

definition heap_item :: "item \<Rightarrow> time_heap_item" where
  "heap_item it = Heap_Item (fst it) (snd it)"

lemma is_top_iff:
  "is_top i h \<longleftrightarrow> i < length h \<and> (\<forall>x \<in> set h. \<not> item_gt (heap_item (h ! i)) (heap_item x))"
proof (cases "i < length h")
  case True
  then have ne: "set (map fst h) \<noteq> {}" "fst (h ! i) \<in> set (map fst h)" by auto
  have "fst (h ! i) = Min (set (map fst h)) \<longleftrightarrow> (\<forall>t \<in> set (map fst h). fst (h ! i) \<le> t)"
    using ne Min_le [of "set (map fst h)"] Min_in [of "set (map fst h)"] by (metis List.finite_set antisym)
  then show ?thesis using True by (auto simp: is_top_def top_when_def item_gt_def heap_item_def)
qed (simp add: is_top_def)

text \<open>
  The comparison of heap items is a strict weak order, as the priority queue requires, and the six
  operators agree with each other; an item is at the top of the heap exactly if it is greater than no
  other, so the top is due first. Items that are due at the same time are equal to the operators, so
  the heap does not keep them in the order of their insertion.
\<close>
theorem heap_items_ordered:
  "\<not> item_gt a a \<and> (item_gt a b \<and> item_gt b c \<longrightarrow> item_gt a c) \<and>
   (\<not> item_gt a b \<and> \<not> item_gt b a \<longleftrightarrow> item_eq a b) \<and> (item_eq a b \<and> item_eq b c \<longrightarrow> item_eq a c) \<and>
   (item_gt a b \<longleftrightarrow> b < a) \<and> (item_ge a b \<longleftrightarrow> b \<le> a) \<and> (item_ne a b \<longleftrightarrow> a < b \<or> b < a) \<and>
   (is_top i h \<longleftrightarrow> i < length h \<and> (\<forall>x \<in> set h. \<not> item_gt (heap_item (h ! i)) (heap_item x)))"
  by (auto simp: is_top_iff item_defs less_eq_time_heap_item_def less_time_heap_item_def)

lemma heap_unstable: "is_top 1 [(5, 1), (5, 2)] \<and> is_top 0 [(5, 1), (5, 2)]"
  by (simp add: is_top_def top_when_def)

end
