(* ===== verification/Parallel_Bulk.thy ===== *)
theory Parallel_Bulk
  imports Bulk "HOL-Library.Multiset"
begin

text \<open>
  \<open>naive_executor_bulk_target\<close> of \<open>examples/reduce/reduce_2.cpp\<close> and \<open>examples/for_each/for_each_2.cpp\<close>:
  the target of \<open>bulk\<close> that runs one task per element on an executor. The tasks and the driver that
  schedules them share a tuple of atomics: the accumulation, which a task replaces by compare and
  exchange, the number of pending tasks, which decides who sends the result, and the number of
  exceptions, which decides whose exception is sent. A step is one operation on the tuple, or one call of
  the user's function; the executor may run what it was given at any time and in any order.
\<close>

section \<open>State\<close>

text \<open>
  A task: submitted; \<open>old\<close> is loaded, and \<open>func\<close> is to be called with a copy; \<open>func\<close> has made \<open>step\<close> of it,
  and the exchange is next; \<open>func\<close> has thrown; the exception is the first, and is to be stored; about
  to call \<open>stepDone\<close>; returned.
\<close>

datatype 'acc task_at = Queued | Loaded 'acc | Stepped 'acc 'acc | Raised nat | Storing nat | Finishing | Finished

text \<open>
  The driver: at the head of its loop with index \<open>i\<close>; with \<open>pending\<close> raised, about to submit task \<open>i\<close>;
  behind the loop, about to call \<open>stepDone\<close>; returned.
\<close>

datatype driver_at = Driving nat | Counted nat | Last_Step | Ended

text \<open>
  The tuple, the range, and the places of the tasks and the driver. History: \<open>pb_order\<close> holds the tasks in the
  order of their exchanges, \<open>pb_thrown\<close> the tasks that threw, with their exceptions, as they were counted.
\<close>

record ('acc, 'x, 's) bulk_shared =
  pb_first :: "nat option"
  pb_out :: 's
  pb_acc :: 'acc
  pb_pending :: "64 word"
  pb_excs :: "64 word"
  pb_range :: "'x list"
  pb_tasks :: "'acc task_at list"
  pb_driver :: driver_at
  pb_order :: "nat list"
  pb_thrown :: "(nat \<times> nat) list"

definition bulk_shared_new :: "'acc \<Rightarrow> 'x list \<Rightarrow> 's \<Rightarrow> ('acc, 'x, 's) bulk_shared" where
  "bulk_shared_new acc xs s = \<lparr>pb_first = None, pb_out = s, pb_acc = acc, pb_pending = 1, pb_excs = 0, pb_range = xs,
     pb_tasks = [], pb_driver = Driving 0, pb_order = [], pb_thrown = []\<rparr>"

text \<open>
  The call of the target: the driver is submitted; or, when \<open>init\<close> throws, a task that sends the
  exception.
\<close>

datatype 'b started = Submits_Driver 'b | Submits_Error nat

definition naive_bulk_target ::
  "('i \<Rightarrow> nat + 'acc) \<Rightarrow> 'i \<Rightarrow> 'x list \<Rightarrow> 's \<Rightarrow> ('acc, 'x, 's) bulk_shared started" where
  "naive_bulk_target init input xs s =
     (case init input of Inl n \<Rightarrow> Submits_Error n | Inr acc \<Rightarrow> Submits_Driver (bulk_shared_new acc xs s))"

definition error_task :: "('s, 'r, 'e, 'z) rcv_scheme \<Rightarrow> nat \<Rightarrow> 's call" where
  "error_task R n = no_except (set_error R (Eptr (Exn n)))"

section \<open>Steps\<close>

text \<open>
  \<open>stepDone\<close>. Who brings \<open>pending\<close> to zero is alone with the tuple, so what it sends is part of the same
  step. An exception that leaves the function of a task goes to \<open>abortEF\<close>.
\<close>

definition step_done :: "('s, 'r, 'e, 'z) rcv_scheme \<Rightarrow> ('acc \<Rightarrow> nat + 'r) \<Rightarrow> ('acc, 'x, 's) bulk_shared call" where
  "step_done R selector s0 =
     (let s = s0\<lparr>pb_pending := pb_pending s0 - 1\<rparr> in
      if pb_pending s \<noteq> 0 then Ret s
      else map_outcome (\<lambda>out. s\<lparr>pb_out := out\<rparr>) (no_except
        (case pb_first s of
           Some n \<Rightarrow> set_error R (Eptr (Exn n))
         | None \<Rightarrow>
             (case selector (pb_acc s) of
                Inl n \<Rightarrow> set_error R (Eptr (Exn n))
              | Inr r \<Rightarrow> try_catch (and_then (set_value R r) (set_done R)) (\<lambda>ep. set_error R (Eptr ep))))
        (pb_out s)))"

definition driver_step :: "('s, 'r, 'e, 'z) rcv_scheme \<Rightarrow> ('acc \<Rightarrow> nat + 'r) \<Rightarrow> ('acc, 'x, 's) bulk_shared call" where
  "driver_step R selector s =
     (case pb_driver s of
        Driving i \<Rightarrow>
          if i \<noteq> length (pb_range s) then Ret (s\<lparr>pb_pending := pb_pending s + 1, pb_driver := Counted i\<rparr>)
          else Ret (s\<lparr>pb_driver := Last_Step\<rparr>)
      | Counted i \<Rightarrow> Ret (s\<lparr>pb_tasks := pb_tasks s @ [Queued], pb_driver := Driving (Suc i)\<rparr>)
      | Last_Step \<Rightarrow> step_done R selector (s\<lparr>pb_driver := Ended\<rparr>)
      | Ended \<Rightarrow> Ret s)"

definition goto_task :: "nat \<Rightarrow> 'acc task_at \<Rightarrow> ('acc, 'x, 's) bulk_shared \<Rightarrow> ('acc, 'x, 's) bulk_shared" where
  "goto_task i p s = s\<lparr>pb_tasks := (pb_tasks s)[i := p]\<rparr>"

text \<open>\<open>compare_exchange_strong(old, step)\<close>: on failure \<open>old\<close> is loaded again.\<close>

definition exchange :: "nat \<Rightarrow> 'acc \<Rightarrow> 'acc \<Rightarrow> ('acc, 'x, 's) bulk_shared \<Rightarrow> ('acc, 'x, 's) bulk_shared" where
  "exchange i old acc s =
     (if pb_acc s = old then goto_task i Finishing (s\<lparr>pb_acc := acc, pb_order := pb_order s @ [i]\<rparr>)
      else goto_task i (Loaded (pb_acc s)) s)"

definition count_exception :: "nat \<Rightarrow> nat \<Rightarrow> ('acc, 'x, 's) bulk_shared \<Rightarrow> ('acc, 'x, 's) bulk_shared" where
  "count_exception i n s =
     goto_task i (if pb_excs s = 0 then Storing n else Finishing)
       (s\<lparr>pb_excs := pb_excs s + 1, pb_thrown := pb_thrown s @ [(i, n)]\<rparr>)"

definition call_func ::
  "('acc \<Rightarrow> 'x \<Rightarrow> (nat + 'acc) \<times> 'x) \<Rightarrow> nat \<Rightarrow> 'acc \<Rightarrow> ('acc, 'x, 's) bulk_shared \<Rightarrow> ('acc, 'x, 's) bulk_shared" where
  "call_func func i old s =
     (let (r, x') = func old (pb_range s ! i) in
      goto_task i (case r of Inl n \<Rightarrow> Raised n | Inr acc \<Rightarrow> Stepped old acc) (s\<lparr>pb_range := (pb_range s)[i := x']\<rparr>))"

definition task_step ::
  "('s, 'r, 'e, 'z) rcv_scheme \<Rightarrow> ('acc \<Rightarrow> nat + 'r) \<Rightarrow> ('acc \<Rightarrow> 'x \<Rightarrow> (nat + 'acc) \<times> 'x) \<Rightarrow> nat \<Rightarrow>
   ('acc, 'x, 's) bulk_shared call" where
  "task_step R selector func i s =
     (case pb_tasks s ! i of
        Queued \<Rightarrow> Ret (goto_task i (Loaded (pb_acc s)) s)
      | Loaded old \<Rightarrow> Ret (call_func func i old s)
      | Stepped old acc \<Rightarrow> Ret (exchange i old acc s)
      | Raised n \<Rightarrow> Ret (count_exception i n s)
      | Storing n \<Rightarrow> Ret (goto_task i Finishing (s\<lparr>pb_first := Some n\<rparr>))
      | Finishing \<Rightarrow> step_done R selector (goto_task i Finished s)
      | Finished \<Rightarrow> Ret s)"

inductive bulk_call ::
  "('s, 'r, 'e, 'z) rcv_scheme \<Rightarrow> ('acc \<Rightarrow> nat + 'r) \<Rightarrow> ('acc \<Rightarrow> 'x \<Rightarrow> (nat + 'acc) \<times> 'x) \<Rightarrow>
   ('acc, 'x, 's) bulk_shared \<Rightarrow> ('acc, 'x, 's) bulk_shared outcome \<Rightarrow> bool"
  for R :: "('s, 'r, 'e, 'z) rcv_scheme" and selector :: "'acc \<Rightarrow> nat + 'r" and func :: "'acc \<Rightarrow> 'x \<Rightarrow> (nat + 'acc) \<times> 'x" where
  driver: "pb_driver s \<noteq> Ended \<Longrightarrow> bulk_call R selector func s (driver_step R selector s)"
| task: "i < length (pb_tasks s) \<Longrightarrow> pb_tasks s ! i \<noteq> Finished \<Longrightarrow>
    bulk_call R selector func s (task_step R selector func i s)"

definition bulk_step where
  "bulk_step R selector func s t \<longleftrightarrow> bulk_call R selector func s (Ret t)"

inductive_cases bulk_callE: "bulk_call R selector func s r"

text \<open>
  The reachable states, for a range of fewer elements than \<open>std::size_t\<close> has values; both algorithms
  that use the target give it the identity for \<open>init\<close>.
\<close>

definition bulk_start :: "'acc \<Rightarrow> 'x list \<Rightarrow> 's \<Rightarrow> ('acc, 'x, 's) bulk_shared \<Rightarrow> bool" where
  "bulk_start acc xs s0 s \<longleftrightarrow> length xs + 1 < 2 ^ 64 \<and> naive_bulk_target Inr acc xs s0 = Submits_Driver s"

abbreviation bulk_reach where
  "bulk_reach R selector func acc xs s0 \<equiv> reachable (bulk_start acc xs s0) (bulk_step R selector func)"

definition all_finished :: "('acc, 'x, 's) bulk_shared \<Rightarrow> bool" where
  "all_finished s \<longleftrightarrow> pb_driver s = Ended \<and> (\<forall>t \<in> set (pb_tasks s). t = Finished)"

section \<open>The invariant\<close>

text \<open>Who still has a call of \<open>stepDone\<close> to make; \<open>late\<close> tasks are through with the accumulation.\<close>

definition busy :: "'acc task_at \<Rightarrow> nat" where
  "busy t = of_bool (t \<noteq> Finished)"

fun late :: "'acc task_at \<Rightarrow> bool" where
  "late Finishing = True"
| "late Finished = True"
| "late (Storing n) = True"
| "late t = False"

definition live :: "('acc, 'x, 's) bulk_shared \<Rightarrow> nat" where
  "live s = (case pb_driver s of Driving i \<Rightarrow> 1 | Counted i \<Rightarrow> 2 | Last_Step \<Rightarrow> 1 | Ended \<Rightarrow> 0) +
     sum_list (map busy (pb_tasks s))"

definition driver_ok :: "('acc, 'x, 's) bulk_shared \<Rightarrow> bool" where
  "driver_ok s \<longleftrightarrow>
     (case pb_driver s of
        Driving i \<Rightarrow> length (pb_tasks s) = i \<and> i \<le> length (pb_range s)
      | Counted i \<Rightarrow> length (pb_tasks s) = i \<and> i < length (pb_range s)
      | _ \<Rightarrow> length (pb_tasks s) = length (pb_range s))"

definition none_storing :: "nat set \<Rightarrow> ('acc, 'x, 's) bulk_shared \<Rightarrow> bool" where
  "none_storing I s \<longleftrightarrow> (\<forall>j < length (pb_tasks s). j \<notin> I \<longrightarrow> (\<forall>n. pb_tasks s ! j \<noteq> Storing n))"

text \<open>The exception that is sent is the one that was counted first.\<close>

definition first_ok :: "('acc, 'x, 's) bulk_shared \<Rightarrow> bool" where
  "first_ok s \<longleftrightarrow>
     (case pb_thrown s of
        [] \<Rightarrow> pb_first s = None \<and> none_storing {} s
      | (i, n) # _ \<Rightarrow> pb_first s = Some n \<and> none_storing {} s \<or>
          pb_first s = None \<and> i < length (pb_tasks s) \<and> pb_tasks s ! i = Storing n \<and> none_storing {i} s)"

definition history_ok :: "('acc, 'x, 's) bulk_shared \<Rightarrow> bool" where
  "history_ok s \<longleftrightarrow> distinct (pb_order s @ map fst (pb_thrown s)) \<and>
     set (pb_order s @ map fst (pb_thrown s)) = {i. i < length (pb_tasks s) \<and> late (pb_tasks s ! i)} \<and>
     pb_excs s = of_nat (length (pb_thrown s))"

definition bulk_result :: "('acc \<Rightarrow> nat + 'r) \<Rightarrow> ('acc, 'x, 's) bulk_shared \<Rightarrow> nat + 'r" where
  "bulk_result selector s = (case pb_first s of Some n \<Rightarrow> Inl n | None \<Rightarrow> selector (pb_acc s))"

text \<open>The receiver gets its signals at the end, and only then.\<close>

definition out_ok :: "('s, 'r, 'e, 'z) rcv_scheme \<Rightarrow> ('acc \<Rightarrow> nat + 'r) \<Rightarrow> 's \<Rightarrow> ('acc, 'x, 's) bulk_shared \<Rightarrow> bool" where
  "out_ok R selector s0 s \<longleftrightarrow>
     (if live s = 0 then deliver_all R (result_signals (bulk_result selector s)) s0 = Ret (pb_out s) else pb_out s = s0)"

definition control_ok :: "('acc, 'x, 's) bulk_shared \<Rightarrow> bool" where
  "control_ok s \<longleftrightarrow> driver_ok s \<and> history_ok s \<and> first_ok s \<and> length (pb_range s) + 1 < 2 ^ 64"

definition bulk_ok :: "('s, 'r, 'e, 'z) rcv_scheme \<Rightarrow> ('acc \<Rightarrow> nat + 'r) \<Rightarrow> 's \<Rightarrow> ('acc, 'x, 's) bulk_shared \<Rightarrow> bool" where
  "bulk_ok R selector s0 s \<longleftrightarrow> control_ok s \<and> pb_pending s = of_nat (live s) \<and> out_ok R selector s0 s"

lemmas control_defs = control_ok_def driver_ok_def history_ok_def first_ok_def none_storing_def

lemma sum_update: "i < length ts \<Longrightarrow> sum_list (map f (ts[i := t])) + f (ts ! i) = sum_list (map f ts) + (f t :: nat)"
  by (induction ts arbitrary: i) (auto split: nat.split)

lemma live_zero: "live s = 0 \<longleftrightarrow> all_finished s"
  by (auto simp: live_def all_finished_def busy_def split: driver_at.split)

lemma busy_sum: "sum_list (map busy ts) \<le> length ts"
  by (induction ts) (auto simp: busy_def)

lemma live_bound: "driver_ok s \<Longrightarrow> live s \<le> length (pb_range s) + 1"
  using busy_sum [of "pb_tasks s"]
  by (simp add: live_def driver_ok_def split: driver_at.splits)

lemma goto_task_sel [simp]:
  "pb_first (goto_task i p s) = pb_first s" "pb_out (goto_task i p s) = pb_out s" "pb_acc (goto_task i p s) = pb_acc s"
  "pb_pending (goto_task i p s) = pb_pending s" "pb_excs (goto_task i p s) = pb_excs s"
  "pb_range (goto_task i p s) = pb_range s" "pb_tasks (goto_task i p s) = (pb_tasks s)[i := p]"
  "pb_driver (goto_task i p s) = pb_driver s" "pb_order (goto_task i p s) = pb_order s"
  "pb_thrown (goto_task i p s) = pb_thrown s"
  by (simp_all add: goto_task_def)

lemma frame_simps [simp]:
  "history_ok (s\<lparr>pb_pending := p\<rparr>) = history_ok s" "history_ok (s\<lparr>pb_out := out\<rparr>) = history_ok s"
  "history_ok (s\<lparr>pb_driver := d\<rparr>) = history_ok s"
  "first_ok (s\<lparr>pb_pending := p\<rparr>) = first_ok s" "first_ok (s\<lparr>pb_out := out\<rparr>) = first_ok s"
  "first_ok (s\<lparr>pb_driver := d\<rparr>) = first_ok s"
  "driver_ok (s\<lparr>pb_pending := p\<rparr>) = driver_ok s" "driver_ok (s\<lparr>pb_out := out\<rparr>) = driver_ok s"
  "live (s\<lparr>pb_pending := p\<rparr>) = live s" "live (s\<lparr>pb_out := out\<rparr>) = live s"
  by (simp_all add: history_ok_def first_ok_def none_storing_def driver_ok_def live_def split: driver_at.split list.split)

lemma control_frame [simp]:
  "control_ok (s\<lparr>pb_pending := p\<rparr>) = control_ok s" "control_ok (s\<lparr>pb_out := out\<rparr>) = control_ok s"
  by (simp_all add: control_ok_def)

lemma live_goto:
  assumes "i < length (pb_tasks s)"
  shows "live (goto_task i p s) + busy (pb_tasks s ! i) = live s + busy p"
  using sum_update [OF assms, of busy p] by (simp add: live_def)

text \<open>A task becomes late; a task stays as late as it is.\<close>

lemma late_set:
  "i < length ts \<Longrightarrow> late p \<Longrightarrow>
     {j. j < length ts \<and> late (ts[i := p] ! j)} = insert i {j. j < length ts \<and> late (ts ! j)}"
  by (auto simp: nth_list_update)

lemma history_late:
  assumes "history_ok s" "i < length (pb_tasks s)" "\<not> late (pb_tasks s ! i)" "late p"
  shows "history_ok (goto_task i p (s\<lparr>pb_acc := acc, pb_order := pb_order s @ [i]\<rparr>))"
    "history_ok (goto_task i p (s\<lparr>pb_excs := pb_excs s + 1, pb_thrown := pb_thrown s @ [(i, n)]\<rparr>))"
proof -
  let ?L = "{j. j < length (pb_tasks s) \<and> late (pb_tasks s ! j)}"
  have "i \<notin> ?L" using assms(3) by simp
  moreover have "distinct (pb_order s @ map fst (pb_thrown s))" "set (pb_order s) \<union> fst ` set (pb_thrown s) = ?L"
    "pb_excs s = of_nat (length (pb_thrown s))"
    using assms(1) by (simp_all add: history_ok_def)
  ultimately have "i \<notin> set (pb_order s)" "i \<notin> fst ` set (pb_thrown s)" by blast+
  with assms(1) show "history_ok (goto_task i p (s\<lparr>pb_acc := acc, pb_order := pb_order s @ [i]\<rparr>))"
    "history_ok (goto_task i p (s\<lparr>pb_excs := pb_excs s + 1, pb_thrown := pb_thrown s @ [(i, n)]\<rparr>))"
    by (simp_all add: history_ok_def late_set [OF assms(2,4)])
qed

lemma history_goto:
  assumes "history_ok s" "i < length (pb_tasks s)" "late (pb_tasks s ! i) \<longleftrightarrow> late p"
  shows "history_ok (goto_task i p s)"
proof -
  have "{j. j < length (pb_tasks s) \<and> late ((pb_tasks s)[i := p] ! j)} = {j. j < length (pb_tasks s) \<and> late (pb_tasks s ! j)}"
    using assms(2,3) by (auto simp: nth_list_update split: if_splits)
  then show ?thesis using assms(1) by (simp add: history_ok_def)
qed

lemma first_goto:
  assumes "first_ok s" "i < length (pb_tasks s)" "\<And>n. pb_tasks s ! i \<noteq> Storing n" "\<And>n. p \<noteq> Storing n"
  shows "first_ok (goto_task i p s)"
  using assms by (auto simp: first_ok_def none_storing_def nth_list_update split: list.splits prod.splits)

lemma control_goto:
  assumes "control_ok s" "i < length (pb_tasks s)" "late (pb_tasks s ! i) \<longleftrightarrow> late p"
    "\<And>n. pb_tasks s ! i \<noteq> Storing n" "\<And>n. p \<noteq> Storing n"
  shows "control_ok (goto_task i p s)"
  using assms history_goto [of s i p] first_goto [of s i p]
  by (auto simp: control_ok_def driver_ok_def split: driver_at.splits)

lemma of_nat_zero: "n < 2 ^ 64 \<Longrightarrow> of_nat n = (0 :: 64 word) \<longleftrightarrow> n = 0"
  by (auto simp: word_of_nat_eq_0_iff dest: nat_dvd_not_less)

text \<open>The bound on the exceptions: every task throws at most once.\<close>

lemma length_thrown:
  assumes "control_ok s"
  shows "length (pb_thrown s) \<le> length (pb_tasks s)" "length (pb_thrown s) < 2 ^ 64"
    "pb_excs s = 0 \<longleftrightarrow> pb_thrown s = []"
proof -
  have h: "distinct (map fst (pb_thrown s))" "set (map fst (pb_thrown s)) \<subseteq> {..<length (pb_tasks s)}"
    "pb_excs s = of_nat (length (pb_thrown s))"
    using assms by (auto simp: control_ok_def history_ok_def)
  then have "length (map fst (pb_thrown s)) \<le> card {..<length (pb_tasks s)}"
    by (metis card_mono distinct_card finite_lessThan)
  then show le: "length (pb_thrown s) \<le> length (pb_tasks s)" by simp
  moreover have "length (pb_tasks s) \<le> length (pb_range s)"
    using assms by (auto simp: control_ok_def driver_ok_def split: driver_at.splits)
  ultimately show lt: "length (pb_thrown s) < 2 ^ 64" using assms by (simp add: control_ok_def)
  then show "pb_excs s = 0 \<longleftrightarrow> pb_thrown s = []" using h(3) by (simp add: of_nat_zero)
qed

lemma control_exchange:
  assumes "control_ok s" "i < length (pb_tasks s)" "pb_tasks s ! i = Stepped old acc"
  shows "control_ok (exchange i old acc s)"
proof (cases "pb_acc s = old")
  case True
  let ?s = "s\<lparr>pb_acc := acc, pb_order := pb_order s @ [i]\<rparr>"
  have "history_ok (goto_task i Finishing ?s)"
    by (rule history_late) (use assms in \<open>simp_all add: control_ok_def\<close>)
  moreover have "first_ok (goto_task i Finishing ?s)"
    by (rule first_goto) (use assms in \<open>auto simp: control_ok_def first_ok_def none_storing_def split: list.splits\<close>)
  ultimately show ?thesis using True assms(1)
    by (auto simp: exchange_def control_ok_def driver_ok_def split: driver_at.splits)
qed (use assms in \<open>simp add: exchange_def control_goto\<close>)

lemma control_call:
  assumes "control_ok s" "i < length (pb_tasks s)" "pb_tasks s ! i = Loaded old"
  shows "control_ok (call_func func i old s)"
proof -
  obtain r x' where f: "func old (pb_range s ! i) = (r, x')" by fastforce
  have "control_ok (s\<lparr>pb_range := (pb_range s)[i := x']\<rparr>)"
    using assms(1) by (auto simp: control_defs split: driver_at.splits list.splits)
  from control_goto [OF this, of i] show ?thesis
    using assms(2,3) by (simp add: call_func_def f split: sum.split)
qed

lemma control_count:
  assumes "control_ok s" "i < length (pb_tasks s)" "pb_tasks s ! i = Raised n"
  shows "control_ok (count_exception i n s)"
proof -
  let ?t = "count_exception i n s"
  have "history_ok ?t" unfolding count_exception_def
    by (rule history_late) (use assms in \<open>simp_all add: control_ok_def\<close>)
  moreover have "first_ok ?t"
    using assms length_thrown(3) [OF assms(1)]
    by (auto simp: control_ok_def count_exception_def first_ok_def none_storing_def nth_list_update split: list.splits prod.splits)
  ultimately show ?thesis using assms(1)
    by (auto simp: count_exception_def control_ok_def driver_ok_def split: driver_at.splits)
qed

lemma control_store:
  assumes "control_ok s" "i < length (pb_tasks s)" "pb_tasks s ! i = Storing n"
  shows "control_ok (goto_task i Finishing (s\<lparr>pb_first := Some n\<rparr>))"
proof -
  have "history_ok (goto_task i Finishing (s\<lparr>pb_first := Some n\<rparr>))"
    by (rule history_goto) (use assms in \<open>auto simp: control_ok_def history_ok_def\<close>)
  moreover have "first_ok (goto_task i Finishing (s\<lparr>pb_first := Some n\<rparr>))"
    using assms by (auto simp: control_ok_def first_ok_def none_storing_def nth_list_update split: list.splits)
  ultimately show ?thesis using assms(1)
    by (auto simp: control_ok_def driver_ok_def split: driver_at.splits)
qed

lemma control_driver:
  assumes "control_ok s" "driver_step R selector s = Ret t" "pb_driver s \<noteq> Last_Step"
  shows "control_ok t"
proof (cases "pb_driver s")
  case (Counted i)
  then have t: "t = s\<lparr>pb_tasks := pb_tasks s @ [Queued], pb_driver := Driving (Suc i)\<rparr>"
    using assms(2) by (simp add: driver_step_def)
  have "{j. j < Suc (length (pb_tasks s)) \<and> late ((pb_tasks s @ [Queued]) ! j)} =
      {j. j < length (pb_tasks s) \<and> late (pb_tasks s ! j)}"
    by (auto simp: nth_append less_Suc_eq)
  moreover have "first_ok t"
    using assms(1) by (auto simp: t control_ok_def first_ok_def none_storing_def nth_append split: list.splits)
  ultimately show ?thesis using assms(1) Counted
    by (auto simp: t control_ok_def history_ok_def driver_ok_def)
qed (use assms in \<open>auto simp: driver_step_def control_ok_def driver_ok_def split: if_splits\<close>)

lemma step_done_eq:
  "step_done R selector s =
     (let t = s\<lparr>pb_pending := pb_pending s - 1\<rparr> in
      if pb_pending t \<noteq> 0 then Ret t
      else map_outcome (\<lambda>out. t\<lparr>pb_out := out\<rparr>)
        (no_except (deliver_all R (result_signals (bulk_result selector s))) (pb_out s)))"
proof -
  have one: "set_error R e = deliver_all R [Error e]" for e
    by (rule ext) (simp add: and_then_def split: outcome.split)
  have two: "try_catch (and_then (set_value R r) (set_done R)) h = deliver_all R [Value r, Done]" for r h
    by (rule ext) (rule value_then_done)
  show ?thesis
    by (cases "pb_first s"; cases "selector (pb_acc s)") (simp_all add: step_done_def bulk_result_def Let_def one two)
qed

lemma step_done_ok:
  assumes "step_done R selector s = Ret t" "control_ok s" "pb_pending s = of_nat (live s + 1)" "pb_out s = s0"
  shows "bulk_ok R selector s0 t"
proof -
  let ?s = "s\<lparr>pb_pending := pb_pending s - 1\<rparr>"
  have "live s < 2 ^ 64" using live_bound [of s] assms(2) by (simp add: control_ok_def)
  then have pending: "pb_pending s - 1 = of_nat (live s)" "(of_nat (live s) :: 64 word) = 0 \<longleftrightarrow> live s = 0"
    using assms(3) of_nat_zero by simp_all
  show ?thesis
  proof (cases "live s = 0")
    case False
    then have "t = ?s" using assms(1) pending by (simp add: step_done_eq)
    then show ?thesis using False pending assms(2,4) by (simp add: bulk_ok_def out_ok_def)
  next
    case True
    then obtain out where out: "t = ?s\<lparr>pb_out := out\<rparr>"
      "deliver_all R (result_signals (bulk_result selector s)) s0 = Ret out"
      using assms(1,4) pending by (auto simp: step_done_eq Let_def)
    then show ?thesis using True pending assms(2)
      by (cases "pb_first s") (simp_all add: bulk_ok_def out_ok_def bulk_result_def)
  qed
qed

text \<open>A step that makes nobody finish.\<close>

lemma bulk_ok_frame:
  assumes "bulk_ok R selector s0 s" "control_ok t" "0 < live s" "pb_out t = pb_out s" "0 < live t"
    "pb_pending t + of_nat (live s) = pb_pending s + of_nat (live t)"
  shows "bulk_ok R selector s0 t"
  using assms by (auto simp: bulk_ok_def out_ok_def add.commute)

lemma live_busy: "i < length (pb_tasks s) \<Longrightarrow> pb_tasks s ! i \<noteq> Finished \<Longrightarrow> 0 < live s"
  by (metis all_finished_def live_zero neq0_conv nth_mem)

lemma bulk_ok_goto:
  assumes "bulk_ok R selector s0 s" "i < length (pb_tasks s)" "pb_tasks s ! i \<noteq> Finished" "p \<noteq> Finished"
    "control_ok t" "pb_tasks t = (pb_tasks s)[i := p]" "pb_driver t = pb_driver s" "pb_out t = pb_out s" "pb_pending t = pb_pending s"
  shows "bulk_ok R selector s0 t"
proof -
  have "live t = live s"
    using sum_update [OF assms(2), of busy p] assms(3,4,6,7) by (simp add: live_def busy_def)
  then show ?thesis
    using bulk_ok_frame [OF assms(1,5)] live_busy [OF assms(2,3)] assms(8,9) by simp
qed

lemma task_step_ok:
  assumes "task_step R selector func i s = Ret t" "bulk_ok R selector s0 s" "i < length (pb_tasks s)" "pb_tasks s ! i \<noteq> Finished"
  shows "bulk_ok R selector s0 t"
proof -
  note goto = bulk_ok_goto [OF assms(2-4)]
  have ctl: "control_ok s" using assms(2) by (simp add: bulk_ok_def)
  show ?thesis
  proof (cases "pb_tasks s ! i")
    case Queued
    then show ?thesis using assms(1) control_goto [OF ctl assms(3), of "Loaded (pb_acc s)"]
      by (intro goto [where p = "Loaded (pb_acc s)"]) (auto simp: task_step_def)
  next
    case (Loaded old)
    then show ?thesis using assms(1) control_call [OF ctl assms(3) Loaded, of func]
      by (intro goto [where p = "pb_tasks t ! i"])
         (auto simp: task_step_def call_func_def Let_def assms(3) split: prod.splits sum.splits if_splits)
  next
    case (Stepped old acc)
    then show ?thesis using assms(1) control_exchange [OF ctl assms(3) Stepped]
      by (intro goto [where p = "pb_tasks t ! i"]) (auto simp: task_step_def exchange_def assms(3) split: if_splits)
  next
    case (Raised n)
    then show ?thesis using assms(1) control_count [OF ctl assms(3) Raised]
      by (intro goto [where p = "pb_tasks t ! i"]) (auto simp: task_step_def count_exception_def assms(3) split: if_splits)
  next
    case (Storing n)
    then show ?thesis using assms(1) control_store [OF ctl assms(3) Storing]
      by (intro goto [where p = Finishing]) (auto simp: task_step_def)
  next
    case Finishing
    have "live (goto_task i Finished s) + 1 = live s"
      using live_goto [OF assms(3), of Finished] Finishing by (simp add: busy_def)
    moreover have "control_ok (goto_task i Finished s)" using ctl assms(3) Finishing by (intro control_goto) auto
    moreover have "pb_out s = s0" "pb_pending s = of_nat (live s)"
      using assms(2) live_busy [OF assms(3,4)] by (auto simp: bulk_ok_def out_ok_def)
    ultimately show ?thesis using assms(1) Finishing
      by (intro step_done_ok [of R selector "goto_task i Finished s"]) (auto simp: task_step_def)
  qed (use assms(4) in simp)
qed

lemma driver_step_ok:
  assumes "driver_step R selector s = Ret t" "bulk_ok R selector s0 s" "pb_driver s \<noteq> Ended"
  shows "bulk_ok R selector s0 t"
proof (cases "pb_driver s = Last_Step")
  case True
  have "live s = live (s\<lparr>pb_driver := Ended\<rparr>) + 1" using True by (simp add: live_def)
  moreover have "control_ok (s\<lparr>pb_driver := Ended\<rparr>)" using assms(2) True by (auto simp: bulk_ok_def control_ok_def driver_ok_def)
  moreover have "pb_out s = s0" "pb_pending s = of_nat (live s)"
    using assms(2) True by (auto simp: bulk_ok_def out_ok_def live_def)
  ultimately show ?thesis using assms(1) True
    by (intro step_done_ok [of R selector "s\<lparr>pb_driver := Ended\<rparr>"]) (auto simp: driver_step_def)
next
  case False
  have "control_ok t" by (rule control_driver [OF _ assms(1) False]) (use assms(2) in \<open>simp add: bulk_ok_def\<close>)
  then show ?thesis using assms False
    by (intro bulk_ok_frame [OF assms(2)])
       (auto simp: driver_step_def live_def busy_def split: driver_at.splits if_splits)
qed

lemma bulk_step_ok:
  assumes "bulk_step R selector func s t" "bulk_ok R selector s0 s"
  shows "bulk_ok R selector s0 t"
  using assms(1) unfolding bulk_step_def
  by (rule bulk_callE) (auto intro: driver_step_ok [OF sym assms(2)] task_step_ok [OF sym assms(2)])

lemma bulk_new_ok: "bulk_start acc xs s0 s \<Longrightarrow> bulk_ok R selector s0 s"
  by (auto simp: bulk_start_def naive_bulk_target_def bulk_shared_new_def bulk_ok_def control_defs out_ok_def live_def)

interpretation bulk: invariant_of "bulk_start acc xs s0" "bulk_step R selector func" "bulk_ok R selector s0"
  for acc xs s0 R selector func
  by unfold_locales (rule bulk_new_ok, assumption, rule bulk_step_ok)

section \<open>What the tasks compute\<close>

lemma step_done_frame: "step_done R selector s = Ret t \<Longrightarrow> \<exists>p out. t = s\<lparr>pb_pending := p, pb_out := out\<rparr>"
  by (cases s) (auto simp: step_done_eq Let_def split: if_splits)

text \<open>
  An invariant of the data: a predicate of the accumulation, the range and the history, and one of each
  task, that the four kinds of steps that touch them keep. The interface is used for \<open>reduce\<close> and for
  \<open>for_each\<close>.
\<close>

locale bulk_data =
  fixes func :: "'acc \<Rightarrow> 'x \<Rightarrow> (nat + 'acc) \<times> 'x" and acc0 :: 'acc and xs :: "'x list"
    and P :: "'acc \<Rightarrow> nat list \<Rightarrow> (nat \<times> nat) list \<Rightarrow> bool" and T :: "nat \<Rightarrow> 'acc \<Rightarrow> 'x \<Rightarrow> 'acc task_at \<Rightarrow> bool"
  assumes start: "P acc0 [] []" "i < length xs \<Longrightarrow> T i acc (xs ! i) Queued"
    and loads: "P acc ord thr \<Longrightarrow> T i acc x Queued \<Longrightarrow> T i acc x (Loaded acc)"
    and calls: "P acc ord thr \<Longrightarrow> T i acc x (Loaded old) \<Longrightarrow>
      T i acc (snd (func old x)) (case fst (func old x) of Inl n \<Rightarrow> Raised n | Inr a \<Rightarrow> Stepped old a)"
    and succeeds: "P acc ord thr \<Longrightarrow> T i acc x (Stepped acc a) \<Longrightarrow> P a (ord @ [i]) thr \<and> T i a x Finishing"
    and others: "P acc ord thr \<Longrightarrow> T i acc y (Stepped acc a) \<Longrightarrow> T j acc x p \<Longrightarrow> T j a x p"
    and fails: "P acc ord thr \<Longrightarrow> T i acc x (Stepped old a) \<Longrightarrow> acc \<noteq> old \<Longrightarrow> T i acc x (Loaded acc)"
    and counts: "P acc ord thr \<Longrightarrow> T i acc x (Raised n) \<Longrightarrow>
      P acc ord (thr @ [(i, n)]) \<and> T i acc x (Storing n) \<and> T i acc x Finishing"
    and ends: "T i acc x (Storing n) \<Longrightarrow> T i acc x Finishing" "T i acc x Finishing \<Longrightarrow> T i acc x Finished"
begin

definition data_ok :: "('acc, 'x, 's) bulk_shared \<Rightarrow> bool" where
  "data_ok s \<longleftrightarrow> P (pb_acc s) (pb_order s) (pb_thrown s) \<and> length (pb_range s) = length xs \<and>
     (\<forall>i < length (pb_tasks s). i < length xs \<longrightarrow> T i (pb_acc s) (pb_range s ! i) (pb_tasks s ! i)) \<and>
     (\<forall>i < length xs. length (pb_tasks s) \<le> i \<longrightarrow> pb_range s ! i = xs ! i)"

lemma data_frame: "data_ok (s\<lparr>pb_pending := p, pb_out := out\<rparr>) = data_ok s"
  by (simp add: data_ok_def)

lemma data_goto:
  assumes "data_ok s" "i < length (pb_tasks s)" "i < length xs \<longrightarrow> T i (pb_acc s) (pb_range s ! i) p"
  shows "data_ok (goto_task i p s)"
  using assms by (auto simp: data_ok_def nth_list_update)

lemma data_task:
  assumes "task_step R selector func i s = Ret t" "data_ok s" "i < length (pb_tasks s)" "length (pb_tasks s) \<le> length xs"
  shows "data_ok t"
proof -
  have i: "i < length xs" using assms(3,4) by simp
  have ok: "P (pb_acc s) (pb_order s) (pb_thrown s)" "T i (pb_acc s) (pb_range s ! i) (pb_tasks s ! i)"
    using assms(2,3) i by (simp_all add: data_ok_def)
  show ?thesis
  proof (cases "pb_tasks s ! i")
    case Queued
    then show ?thesis using assms(1) ok loads [OF ok(1)] data_goto [OF assms(2,3)] by (auto simp: task_step_def)
  next
    case (Loaded old)
    then show ?thesis using assms(1-3) ok calls [OF ok(1), of i "pb_range s ! i" old] i
      by (auto simp: task_step_def call_func_def data_ok_def nth_list_update split: prod.splits)
  next
    case (Stepped old a)
    show ?thesis
    proof (cases "pb_acc s = old")
      case True
      then have "P a (pb_order s @ [i]) (pb_thrown s)" "T i a (pb_range s ! i) Finishing"
        using succeeds [OF ok(1)] ok(2) Stepped by simp_all
      moreover have "T j a (pb_range s ! j) (pb_tasks s ! j)" if "j < length (pb_tasks s)" "j < length xs" for j
        using others [OF ok(1), of i "pb_range s ! i" a j] ok(2) Stepped True assms(2) that by (simp add: data_ok_def)
      ultimately show ?thesis using assms(1-3) True Stepped
        by (auto simp: task_step_def exchange_def data_ok_def nth_list_update)
    next
      case False
      then show ?thesis using assms(1) ok Stepped fails [OF ok(1)] data_goto [OF assms(2,3)]
        by (auto simp: task_step_def exchange_def)
    qed
  next
    case (Raised n)
    then show ?thesis using assms(1-3) ok counts [OF ok(1), of i "pb_range s ! i" n]
      by (auto simp: task_step_def count_exception_def data_ok_def nth_list_update)
  next
    case (Storing n)
    then show ?thesis using assms(1-3) ok ends(1)
      by (auto simp: task_step_def data_ok_def nth_list_update)
  next
    case Finishing
    then have "data_ok (goto_task i Finished s)" using ok ends(2) by (intro data_goto assms) auto
    then show ?thesis using assms(1) Finishing step_done_frame [of R selector "goto_task i Finished s" t]
      by (auto simp: task_step_def data_frame)
  qed (use assms(1,2) in \<open>simp add: task_step_def\<close>)
qed

lemma data_driver:
  assumes "driver_step R selector s = Ret t" "data_ok s"
  shows "data_ok t"
proof (cases "pb_driver s")
  case Last_Step
  then show ?thesis using assms step_done_frame [of R selector "s\<lparr>pb_driver := Ended\<rparr>" t]
    by (auto simp: driver_step_def data_ok_def)
next
  case (Counted i)
  then show ?thesis using assms start(2) [of "length (pb_tasks s)"]
    by (auto simp: driver_step_def data_ok_def nth_append less_Suc_eq)
qed (use assms in \<open>auto simp: driver_step_def data_ok_def split: if_splits\<close>)

lemma data_step:
  assumes "bulk_step R selector func s t" "data_ok s" "control_ok s"
  shows "data_ok t"
proof -
  have le: "length (pb_tasks s) \<le> length xs"
    using assms(2,3) by (auto simp: control_ok_def driver_ok_def data_ok_def split: driver_at.splits)
  show ?thesis using assms(1) unfolding bulk_step_def
    by (rule bulk_callE) (auto intro: data_driver [OF sym assms(2)] data_task [OF sym assms(2) _ le])
qed

lemma data_start: "bulk_start acc0 xs s0 s \<Longrightarrow> data_ok s"
  by (auto simp: bulk_start_def naive_bulk_target_def bulk_shared_new_def data_ok_def start(1))

lemma data_reach: "bulk_reach R selector func acc0 xs s0 s \<Longrightarrow> data_ok s"
proof (induction rule: reachable.induct)
  case (reach_step s t)
  then show ?case using bulk.reachable_inv [OF reach_step.hyps(1)] by (auto simp: bulk_ok_def intro: data_step)
qed (rule data_start)

end

text \<open>\<open>reduce\<close>: the accumulation is the fold over the elements in the order of the exchanges.\<close>

lemma fold_throws_snoc:
  "fold_throws f acc (xs @ [x]) = (case fold_throws f acc xs of Inl n \<Rightarrow> Inl n | Inr a \<Rightarrow> f a x)"
  by (induction xs arbitrary: acc) (auto split: sum.split)

definition reduce_data ::
  "('t \<Rightarrow> 'x \<Rightarrow> nat + 't) \<Rightarrow> 't \<Rightarrow> 'x list \<Rightarrow> 't \<Rightarrow> nat list \<Rightarrow> (nat \<times> nat) list \<Rightarrow> bool" where
  "reduce_data f init xs acc ord thr \<longleftrightarrow> fold_throws f init (map (nth xs) ord) = Inr acc \<and>
     (\<forall>(i, n) \<in> set thr. \<exists>a. f a (xs ! i) = Inl n)"

fun reduce_task :: "('t \<Rightarrow> 'x \<Rightarrow> nat + 't) \<Rightarrow> 'x list \<Rightarrow> nat \<Rightarrow> 't \<Rightarrow> 'x \<Rightarrow> 't task_at \<Rightarrow> bool" where
  "reduce_task f xs i acc x (Stepped old a) \<longleftrightarrow> x = xs ! i \<and> f old x = Inr a"
| "reduce_task f xs i acc x (Raised n) \<longleftrightarrow> x = xs ! i \<and> (\<exists>a. f a x = Inl n)"
| "reduce_task f xs i acc x p \<longleftrightarrow> x = xs ! i"

interpretation reduce_run: bulk_data "reduce_fn f" init xs "reduce_data f init xs" "reduce_task f xs" for f init xs
proof unfold_locales
  fix acc a x p i j y ord thr
  show "reduce_task f xs j acc x p \<Longrightarrow> reduce_task f xs j a x p" by (cases p) auto
qed (auto simp: reduce_data_def reduce_fn_def fold_throws_snoc split: sum.splits)

text \<open>\<open>for_each\<close>: the accumulation never changes, so every exchange succeeds and every element is visited once.\<close>

definition each_data ::
  "('x \<Rightarrow> (nat + unit) \<times> 'x) \<Rightarrow> 'acc \<Rightarrow> 'x list \<Rightarrow> 'acc \<Rightarrow> nat list \<Rightarrow> (nat \<times> nat) list \<Rightarrow> bool" where
  "each_data f init xs acc ord thr \<longleftrightarrow> acc = init \<and> (\<forall>i \<in> set ord. fst (f (xs ! i)) = Inr ()) \<and>
     (\<forall>(i, n) \<in> set thr. fst (f (xs ! i)) = Inl n)"

fun each_task :: "('x \<Rightarrow> (nat + unit) \<times> 'x) \<Rightarrow> 'acc \<Rightarrow> 'x list \<Rightarrow> nat \<Rightarrow> 'acc \<Rightarrow> 'x \<Rightarrow> 'acc task_at \<Rightarrow> bool" where
  "each_task f init xs i acc x Queued \<longleftrightarrow> x = xs ! i"
| "each_task f init xs i acc x (Loaded old) \<longleftrightarrow> x = xs ! i \<and> old = init"
| "each_task f init xs i acc x (Stepped old a) \<longleftrightarrow> x = snd (f (xs ! i)) \<and> fst (f (xs ! i)) = Inr () \<and> old = init \<and> a = init"
| "each_task f init xs i acc x (Raised n) \<longleftrightarrow> x = snd (f (xs ! i)) \<and> fst (f (xs ! i)) = Inl n"
| "each_task f init xs i acc x p \<longleftrightarrow> x = snd (f (xs ! i))"

interpretation each_run: bulk_data "each_fn f" init xs "each_data f init xs" "each_task f init xs" for f init xs
proof unfold_locales
  fix acc a x p i j y ord thr
  show "each_task f init xs j acc x p \<Longrightarrow> each_task f init xs j a x p" by (cases p) auto
qed (auto simp: each_data_def each_fn_def split: sum.splits prod.splits)

section \<open>The end of a run\<close>

text \<open>All elements have been taken into the accumulation, or the first counted exception is the result.\<close>

lemma all_finished_history:
  assumes "bulk_ok R selector s0 s" "all_finished s"
  shows "deliver_all R (result_signals (bulk_result selector s)) s0 = Ret (pb_out s)"
    "length (pb_tasks s) = length (pb_range s)"
    "distinct (pb_order s)" "set (pb_order s) \<union> fst ` set (pb_thrown s) = {..<length (pb_range s)}"
    "pb_first s = (case pb_thrown s of [] \<Rightarrow> None | (i, n) # _ \<Rightarrow> Some n)"
proof -
  have fin: "pb_driver s = Ended" "\<And>i. i < length (pb_tasks s) \<Longrightarrow> pb_tasks s ! i = Finished"
    using assms(2) by (auto simp: all_finished_def)
  have ctl: "driver_ok s" "history_ok s" "first_ok s" using assms(1) by (simp_all add: bulk_ok_def control_ok_def)
  show "deliver_all R (result_signals (bulk_result selector s)) s0 = Ret (pb_out s)"
    using assms live_zero [of s] by (simp add: bulk_ok_def out_ok_def)
  show len: "length (pb_tasks s) = length (pb_range s)" using ctl(1) fin(1) by (simp add: driver_ok_def)
  show "distinct (pb_order s)" "set (pb_order s) \<union> fst ` set (pb_thrown s) = {..<length (pb_range s)}"
    using ctl(2) fin(2) len by (auto simp: history_ok_def)
  show "pb_first s = (case pb_thrown s of [] \<Rightarrow> None | (i, n) # _ \<Rightarrow> Some n)"
    using ctl(3) fin(2) by (auto simp: first_ok_def split: list.splits)
qed

lemma mset_permuted:
  assumes "distinct ord" "set ord = {..<length xs}"
  shows "mset (map (nth xs) ord) = mset xs"
proof -
  have "mset ord = mset [0..<length xs]"
    using assms set_eq_iff_mset_eq_distinct [of ord "[0..<length xs]"] by (simp add: atLeast0LessThan)
  then have "mset (map (nth xs) ord) = mset (map (nth xs) [0..<length xs])" by (metis mset_map)
  then show ?thesis by (simp add: map_nth)
qed

lemma foldl_permuted:
  assumes "\<And>a x y. f (f a x) y = f (f a y) x" "mset xs = mset ys"
  shows "foldl f a xs = foldl f a ys"
proof -
  have "fold (\<lambda>x a. f a x) xs = fold (\<lambda>x a. f a x) ys"
  proof (rule fold_multiset_equiv)
    fix x y show "(\<lambda>a. f a x) \<circ> (\<lambda>a. f a y) = (\<lambda>a. f a y) \<circ> (\<lambda>a. f a x)"
      by (rule ext) (simp only: comp_apply assms(1) [of _ x y])
  qed (rule assms(2))
  then show ?thesis by (simp add: foldl_conv_fold)
qed

section \<open>Termination\<close>

text \<open>
  An exchange fails only if another one has succeeded since the load, so there are at most quadratically
  many: \<open>early\<close> counts the tasks that are not through with the accumulation, \<open>stale\<close> those whose
  exchange is going to fail, and \<open>weight\<close> what is left of each task and of the driver.
\<close>

fun early_task :: "'acc task_at \<Rightarrow> nat" where
  "early_task Queued = 1"
| "early_task (Loaded old) = 1"
| "early_task (Stepped old acc) = 1"
| "early_task t = 0"

definition early :: "('acc, 'x, 's) bulk_shared \<Rightarrow> nat" where
  "early s = (length (pb_range s) - length (pb_tasks s)) + sum_list (map early_task (pb_tasks s))"

fun stale_task :: "'acc \<Rightarrow> 'acc task_at \<Rightarrow> nat" where
  "stale_task acc (Loaded old) = of_bool (old \<noteq> acc)"
| "stale_task acc (Stepped old step) = of_bool (old \<noteq> acc)"
| "stale_task acc t = 0"

definition stale :: "('acc, 'x, 's) bulk_shared \<Rightarrow> nat" where
  "stale s = sum_list (map (stale_task (pb_acc s)) (pb_tasks s))"

fun task_weight :: "'acc task_at \<Rightarrow> nat" where
  "task_weight Queued = 6"
| "task_weight (Loaded old) = 5"
| "task_weight (Stepped old acc) = 4"
| "task_weight (Raised n) = 3"
| "task_weight (Storing n) = 2"
| "task_weight Finishing = 1"
| "task_weight Finished = 0"

fun driver_weight :: "nat \<Rightarrow> driver_at \<Rightarrow> nat" where
  "driver_weight n (Driving i) = 8 * (n - i) + 2"
| "driver_weight n (Counted i) = 8 * (n - i) + 1"
| "driver_weight n Last_Step = 1"
| "driver_weight n Ended = 0"

definition weight :: "('acc, 'x, 's) bulk_shared \<Rightarrow> nat" where
  "weight s = driver_weight (length (pb_range s)) (pb_driver s) + sum_list (map task_weight (pb_tasks s))"

lemmas weight_defs = early_def stale_def weight_def

lemma weight_frame [simp]:
  "early (s\<lparr>pb_pending := p, pb_out := out\<rparr>) = early s" "stale (s\<lparr>pb_pending := p, pb_out := out\<rparr>) = stale s"
  "weight (s\<lparr>pb_pending := p, pb_out := out\<rparr>) = weight s"
  by (simp_all add: weight_defs)

lemma driver_step_weighs:
  assumes "driver_step R selector s = Ret t" "driver_ok s" "pb_driver s \<noteq> Ended"
  shows "early t = early s" "stale t = stale s" "weight t < weight s"
proof -
  have "early t = early s \<and> stale t = stale s \<and> weight t < weight s"
  proof (cases "pb_driver s")
    case (Counted i)
    then obtain k where k: "length (pb_range s) - i = Suc k" using assms(2) 
      by (auto simp: driver_ok_def intro: that [OF Suc_diff_Suc [symmetric]])
    then show ?thesis using assms Counted
      by (auto simp: driver_step_def weight_defs driver_ok_def)
  next
    case Last_Step
    then show ?thesis using assms step_done_frame [of R selector "s\<lparr>pb_driver := Ended\<rparr>" t]
      by (auto simp: driver_step_def weight_defs)
  qed (use assms in \<open>auto simp: driver_step_def weight_defs driver_ok_def split: if_splits\<close>)
  then show "early t = early s" "stale t = stale s" "weight t < weight s" by auto
qed

lemma task_step_weighs:
  fixes s t :: "('a, 'd, 'b) bulk_shared"
  assumes "task_step R selector func i s = Ret t" "i < length (pb_tasks s)" "pb_tasks s ! i \<noteq> Finished"
  shows "(t, s) \<in> measures [early, stale, weight]"
proof -
  note upd = sum_update [OF assms(2)]
  have e: "early u + early_task (pb_tasks s ! i) = early s + early_task p"
    if "pb_tasks u = (pb_tasks s)[i := p]" "length (pb_range u) = length (pb_range s)" for u :: "('a, 'd, 'b) bulk_shared" and p
    using upd [of early_task p] that by (simp add: early_def)
  have st: "stale u + stale_task (pb_acc s) (pb_tasks s ! i) = stale s + stale_task (pb_acc s) p"
    if "pb_tasks u = (pb_tasks s)[i := p]" "pb_acc u = pb_acc s" for u :: "('a, 'd, 'b) bulk_shared" and p
    using upd [of "stale_task (pb_acc s)" p] that by (simp add: stale_def)
  have w: "weight u + task_weight (pb_tasks s ! i) = weight s + task_weight p"
    if "pb_tasks u = (pb_tasks s)[i := p]" "pb_driver u = pb_driver s" "length (pb_range u) = length (pb_range s)"
    for u :: "('a, 'd, 'b) bulk_shared" and p
    using upd [of task_weight p] that by (simp add: weight_def)
  show ?thesis
  proof (cases "pb_tasks s ! i")
    case Queued
    then show ?thesis using assms(1) e [of t "Loaded (pb_acc s)"] st [of t "Loaded (pb_acc s)"] w [of t "Loaded (pb_acc s)"]
      by (auto simp: task_step_def)
  next
    case (Loaded old)
    let ?p = "pb_tasks t ! i"
    show ?thesis using assms(1,2) Loaded e [of t ?p] st [of t ?p] w [of t ?p]
      by (auto simp: task_step_def call_func_def split: prod.splits sum.splits)
  next
    case (Stepped old a)
    let ?p = "pb_tasks t ! i"
    show ?thesis using assms(1,2) Stepped e [of t ?p] st [of t ?p] w [of t ?p]
      by (auto simp: task_step_def exchange_def split: if_splits)
  next
    case (Raised n)
    let ?p = "pb_tasks t ! i"
    show ?thesis using assms(1,2) Raised e [of t ?p] st [of t ?p] w [of t ?p]
      by (auto simp: task_step_def count_exception_def split: if_splits)
  next
    case (Storing n)
    then show ?thesis using assms(1) e [of t Finishing] st [of t Finishing] w [of t Finishing]
      by (auto simp: task_step_def)
  next
    case Finishing
    let ?g = "goto_task i Finished s"
    show ?thesis using assms(1) Finishing step_done_frame [of R selector ?g t] e [of ?g Finished] st [of ?g Finished] w [of ?g Finished]
      by (auto simp: task_step_def)
  qed (use assms(3) in simp)
qed

lemma bulk_step_weighs:
  assumes "bulk_step R selector func s t" "control_ok s"
  shows "(t, s) \<in> measures [early, stale, weight]"
  using assms(1) unfolding bulk_step_def
proof (rule bulk_callE)
  assume "Ret t = driver_step R selector s" "pb_driver s \<noteq> Ended"
  then show ?thesis using driver_step_weighs [of R selector s t] assms(2) by (simp add: control_ok_def)
qed (rule task_step_weighs [OF sym])

text \<open>Until everything is finished some thread can go on, if the receiver takes the result.\<close>

lemma bulk_progress:
  fixes s :: "('acc, 'x, 's) bulk_shared"
  assumes "bulk_ok R selector s0 s" "\<not> all_finished s"
    "\<And>r. \<exists>out. deliver_all R (result_signals r) s0 = Ret out"
  shows "\<exists>t. bulk_step R selector func s t"
proof -
  have out: "pb_out s = s0" using assms(1,2) live_zero [of s] by (simp add: bulk_ok_def out_ok_def)
  have sd: "\<exists>t. step_done R selector u = Ret t" if "pb_out u = s0" for u :: "('acc, 'x, 's) bulk_shared"
  proof -
    obtain o' where "deliver_all R (result_signals (bulk_result selector u)) s0 = Ret o'" using assms(3) by blast
    then show ?thesis using that by (simp add: step_done_eq Let_def)
  qed
  consider "pb_driver s \<noteq> Ended" | i where "i < length (pb_tasks s)" "pb_tasks s ! i \<noteq> Finished"
    using assms(2) by (metis all_finished_def in_set_conv_nth)
  then show ?thesis
  proof cases
    case 1
    have "\<exists>t. driver_step R selector s = Ret t"
      using sd [of "s\<lparr>pb_driver := Ended\<rparr>"] out by (auto simp: driver_step_def split: driver_at.split)
    then show ?thesis using driver [OF 1, of R selector func] by (auto simp: bulk_step_def)
  next
    case 2
    have "\<exists>t. task_step R selector func i s = Ret t"
      using sd [of "goto_task i Finished s"] out by (auto simp: task_step_def split: task_at.split)
    then show ?thesis using task [OF 2, of R selector func] by (auto simp: bulk_step_def)
  qed
qed

lemma all_finished_stuck: "all_finished s \<Longrightarrow> \<not> bulk_step R selector func s t"
  by (auto simp: all_finished_def bulk_step_def elim!: bulk_callE)

lemma bulk_wf: "wf {(t, s). bulk_reach R selector func acc xs s0 s \<and> bulk_step R selector func s t}"
proof (rule wf_subset [OF wf_measures])
  show "{(t, s). bulk_reach R selector func acc xs s0 s \<and> bulk_step R selector func s t} \<subseteq> measures [early, stale, weight]"
    by (auto simp: bulk_ok_def simp del: in_measures intro!: bulk_step_weighs dest!: bulk.reachable_inv)
qed

lemma bulk_finishes:
  assumes "bulk_reach R selector func acc xs s0 s" "\<And>r. \<exists>out. deliver_all R (result_signals r) s0 = Ret out"
  shows "\<exists>t. (bulk_step R selector func)\<^sup>*\<^sup>* s t \<and> bulk_reach R selector func acc xs s0 t \<and> all_finished t"
  using bulk_wf [of acc xs s0 R selector func] assms(1)
proof (induction s rule: wf_induct_rule)
  case (less s)
  show ?case
  proof (cases "all_finished s")
    case False
    then obtain t where t: "bulk_step R selector func s t"
      using bulk_progress [OF bulk.reachable_inv [OF less.prems] _ assms(2)] by blast
    then have "bulk_reach R selector func acc xs s0 t" using less.prems by (rule reach_step [rotated])
    with less.IH [of t] less.prems t show ?thesis by (auto intro: converse_rtranclp_into_rtranclp)
  qed (use less.prems in auto)
qed

section \<open>Properties\<close>

text \<open>
  C7: The parallel target terminates: whatever the executor does, there is no infinite run, although an
  exchange may fail and be repeated; a state in which no thread can go on is one in which the driver and all
  tasks have returned, and every run can be completed. Only then has the receiver got anything, and
  it has got one result.
\<close>
theorem parallel_bulk_terminates:
  assumes "bulk_reach R selector func acc xs s0 s" "\<And>r. \<exists>out. deliver_all R (result_signals r) s0 = Ret out"
  shows "(\<exists>t. (bulk_step R selector func)\<^sup>*\<^sup>* s t \<and> all_finished t) \<and>
    (all_finished s \<longleftrightarrow> (\<forall>t. \<not> bulk_step R selector func s t)) \<and>
    wf {(t, s). bulk_reach R selector func acc xs s0 s \<and> bulk_step R selector func s t} \<and>
    (if all_finished s then deliver_all R (result_signals (bulk_result selector s)) s0 = Ret (pb_out s) else pb_out s = s0)"
proof -
  have ok: "bulk_ok R selector s0 s" by (rule bulk.reachable_inv [OF assms(1)])
  then have "if all_finished s then deliver_all R (result_signals (bulk_result selector s)) s0 = Ret (pb_out s) else pb_out s = s0"
    using live_zero [of s] by (simp add: bulk_ok_def out_ok_def)
  moreover have "all_finished s \<longleftrightarrow> (\<forall>t. \<not> bulk_step R selector func s t)"
    using bulk_progress [OF ok _ assms(2), of func] all_finished_stuck [of s R selector func] by blast
  ultimately show ?thesis using bulk_finishes [OF assms] bulk_wf [of acc xs s0 R selector func] by blast
qed

text \<open>What \<open>get\<close> makes of the signals that end a parallel \<open>reduce\<close>.\<close>

abbreviation reduce_reach where
  "reduce_reach f init xs \<equiv>
     bulk_reach (receiver_fn get_receiver) Inr (reduce_fn f) init xs (receiver_new (None, None))"

lemma get_result:
  "deliver_all (receiver_fn get_receiver) (result_signals r) (receiver_new (None, None)) =
     Ret \<lparr>rs_done = True, rs_data = (case r of Inl n \<Rightarrow> (None, Some (Eptr (Exn n))) | Inr v \<Rightarrow> (Some v, None))\<rparr>"
  by (cases r)
     (simp_all add: run_signals receiver_fn_defs on_member_def receiver_new_def get_receiver_def get_on_value_def
       get_on_error_def ignoreDF_def)

lemma parallel_reduce_result:
  assumes "reduce_reach f init xs s" "all_finished s"
  shows "case pb_thrown s of
      [] \<Rightarrow> \<exists>ys r. mset ys = mset xs \<and> fold_throws f init ys = Inr r \<and> get_finish (rs_data (pb_out s)) = Got r
    | (i, n) # _ \<Rightarrow> i < length xs \<and> (\<exists>a. f a (xs ! i) = Inl n) \<and> get_finish (rs_data (pb_out s)) = Rethrown (Eptr (Exn n))"
proof -
  have ok: "bulk_ok (receiver_fn get_receiver) Inr (receiver_new (None, None)) s"
    by (rule bulk.reachable_inv [OF assms(1)])
  have data: "reduce_data f init xs (pb_acc s) (pb_order s) (pb_thrown s)" "length (pb_range s) = length xs"
    using reduce_run.data_reach [OF assms(1)] by (simp_all add: reduce_run.data_ok_def)
  note hist = all_finished_history [OF ok assms(2)]
  have ret: "\<lparr>rs_done = True, rs_data = (case bulk_result Inr s of Inl n \<Rightarrow> (None, Some (Eptr (Exn n))) | Inr v \<Rightarrow> (Some v, None))\<rparr> = pb_out s"
    using hist(1) by (simp add: get_result)
  have res: "get_finish (rs_data (pb_out s)) = (case bulk_result Inr s of Inl n \<Rightarrow> Rethrown (Eptr (Exn n)) | Inr v \<Rightarrow> Got v)"
    unfolding ret [symmetric] by (simp split: sum.split)
  show ?thesis
  proof (cases "pb_thrown s")
    case Nil
    then have "mset (map (nth xs) (pb_order s)) = mset xs"
      using hist(3,4) data(2) by (intro mset_permuted) auto
    moreover have "fold_throws f init (map (nth xs) (pb_order s)) = Inr (pb_acc s)" using data(1) by (simp add: reduce_data_def)
    moreover have "get_finish (rs_data (pb_out s)) = Got (pb_acc s)" using Nil res hist(5) by (simp add: bulk_result_def)
    ultimately show ?thesis unfolding Nil list.case by blast
  next
    case (Cons it rest)
    obtain i n where "it = (i, n)" by fastforce
    then show ?thesis using Cons res hist(4,5) data by (auto simp: bulk_result_def reduce_data_def)
  qed
qed

text \<open>
  C16: \<open>reduce\<close> on the parallel target, for a function whose applications commute and do not throw: in every
  interleaving \<open>get\<close> gets what the inline target computes, the left fold of the range, although
  the tasks exchange the accumulation in any order.
\<close>
theorem parallel_reduce_folds:
  assumes "reduce_reach (\<lambda>a x. Inr (f a x)) init xs s" "all_finished s" "\<And>a x y. f (f a x) y = f (f a y) x"
  shows "Some (Ret (get_finish (rs_data (pb_out s)))) = reduce inline_bulk_target mv xs init (\<lambda>a x. Inr (f a x))"
proof -
  have inline: "reduce inline_bulk_target mv xs init (\<lambda>a x. Inr (f a x)) = Some (Ret (Got (foldl f init xs)))"
    by (simp add: reduce_inline fold_pure)
  have "pb_thrown s = []"
    using parallel_reduce_result [OF assms(1,2)] by (auto split: list.splits)
  then obtain ys where "mset ys = mset xs" "get_finish (rs_data (pb_out s)) = Got (foldl f init ys)"
    using parallel_reduce_result [OF assms(1,2)] by (auto simp: fold_pure)
  then show ?thesis using foldl_permuted [of f, OF assms(3)] inline by metis
qed

text \<open>
  When the function throws, the tasks of the other elements still run; \<open>get\<close> rethrows an exception that
  the function threw on one of the elements.
\<close>
theorem parallel_reduce_throws:
  assumes "reduce_reach f init xs s" "all_finished s"
  shows "(\<exists>ys r. mset ys = mset xs \<and> fold_throws f init ys = Inr r \<and> get_finish (rs_data (pb_out s)) = Got r) \<or>
    (\<exists>x a n. x \<in> set xs \<and> f a x = Inl n \<and> get_finish (rs_data (pb_out s)) = Rethrown (Eptr (Exn n)))"
proof (cases "pb_thrown s")
  case Nil
  then show ?thesis using parallel_reduce_result [OF assms] by auto
next
  case (Cons it rest)
  then obtain i n a where "i < length xs" "f a (xs ! i) = Inl n" "get_finish (rs_data (pb_out s)) = Rethrown (Eptr (Exn n))"
    using parallel_reduce_result [OF assms] by (auto split: prod.splits)
  then show ?thesis by (metis nth_mem)
qed

text \<open>
  \<open>for_each\<close> on the parallel target: every element has been passed to the function once, also when some
  of the calls throw, whereas the inline target stops at the first exception; the receiver gets zero and
  done, or one of the exceptions.
\<close>
theorem parallel_for_each:
  assumes "bulk_reach R (\<lambda>acc. Inr 0) (each_fn f) (0 :: int) xs s0 s" "all_finished s"
  shows "pb_range s = map (\<lambda>x. snd (f x)) xs \<and>
    (if \<forall>x \<in> set xs. fst (f x) = Inr () then deliver_all R [Value 0, Done] s0 = Ret (pb_out s)
     else \<exists>x \<in> set xs. \<exists>n. fst (f x) = Inl n \<and> deliver_all R [Error (Eptr (Exn n))] s0 = Ret (pb_out s))"
proof -
  have ok: "bulk_ok R (\<lambda>acc. Inr 0) s0 s" by (rule bulk.reachable_inv [OF assms(1)])
  have data: "each_run.data_ok xs f 0 s" by (rule each_run.data_reach [OF assms(1)])
  note hist = all_finished_history [OF ok assms(2)]
  have len: "length (pb_range s) = length xs" "length (pb_tasks s) = length xs"
    using data hist(2) by (simp_all add: each_run.data_ok_def)
  have elem: "pb_range s ! i = snd (f (xs ! i))" if "i < length xs" for i
  proof -
    have "pb_tasks s ! i = Finished" using assms(2) len(2) that by (simp add: all_finished_def)
    then show ?thesis using data len that by (auto simp: each_run.data_ok_def)
  qed
  have range: "pb_range s = map (\<lambda>x. snd (f x)) xs" using len(1) elem by (intro nth_equalityI) simp_all
  have each: "each_data f 0 xs (pb_acc s) (pb_order s) (pb_thrown s)" using data by (simp add: each_run.data_ok_def)
  show ?thesis
  proof (cases "pb_thrown s")
    case Nil
    then have "fst (f (xs ! i)) = Inr ()" if "i < length xs" for i
      using each hist(4) len that by (auto simp: each_data_def)
    then have "\<forall>x \<in> set xs. fst (f x) = Inr ()" by (auto simp: in_set_conv_nth)
    then show ?thesis using hist(1,5) Nil range by (simp add: bulk_result_def)
  next
    case (Cons it rest)
    obtain i n where it: "it = (i, n)" by fastforce
    have "i \<in> {..<length (pb_range s)}" using hist(4) Cons it by (metis Un_iff fst_conv image_eqI list.set_intros(1))
    then have i: "i < length xs" "fst (f (xs ! i)) = Inl n"
      using each Cons it len by (simp_all add: each_data_def)
    moreover have "deliver_all R [Error (Eptr (Exn n))] s0 = Ret (pb_out s)"
      using hist(1,5) Cons it by (simp add: bulk_result_def)
    ultimately show ?thesis using range by (metis Inl_Inr_False nth_mem)
  qed
qed

section \<open>Witnesses\<close>

lemma reduce_reach_new: "length xs + 1 < 2 ^ 64 \<Longrightarrow> reduce_reach f init xs (bulk_shared_new init xs (receiver_new (None, None)))"
  by (rule reach_init) (simp add: bulk_start_def naive_bulk_target_def)

lemma get_returns: "\<exists>out. deliver_all (receiver_fn get_receiver) (result_signals r) (receiver_new (None, None)) = Ret out"
  by (simp add: get_result)

abbreviation int_reach where
  "int_reach f \<equiv> bulk_reach (receiver_fn (get_receiver :: ((int, nat) get_st, int, nat) rcv)) Inr (reduce_fn f)
     2 [4, 5, 6 :: int] (receiver_new (None, None))"

lemma int_finishes: "\<exists>s. int_reach f s \<and> all_finished s"
  using bulk_finishes [OF reduce_reach_new [where xs = "[4, 5, 6]" and f = f and init = 2] get_returns] by auto

theorem parallel_bulk_terminates_witness:
  "\<exists>t. (bulk_step (receiver_fn get_receiver) Inr (reduce_fn (\<lambda>a x. Inr (a + x))))\<^sup>*\<^sup>*
     (bulk_shared_new 2 [4, 5, 6 :: int] (receiver_new (None, None))) t \<and> all_finished t"
  by (rule parallel_bulk_terminates [OF reduce_reach_new get_returns, THEN conjunct1]) simp

theorem parallel_reduce_folds_witness:
  "\<exists>s. int_reach (\<lambda>a x. Inr (a + x)) s \<and> get_finish (rs_data (pb_out s)) = Got 17"
proof -
  obtain s where s: "int_reach (\<lambda>a x. Inr (a + x)) s" "all_finished s"
    using int_finishes [of "\<lambda>a x. Inr (a + x)"] by auto
  have "Some (Ret (get_finish (rs_data (pb_out s)))) = reduce inline_bulk_target id [4, 5, 6 :: int] 2 (\<lambda>a x. Inr (a + x))"
    by (rule parallel_reduce_folds [OF s]) simp
  then show ?thesis using s by (auto simp: reduce_inline)
qed

theorem parallel_reduce_throws_witness:
  "\<exists>s. int_reach (\<lambda>a x. Inl 7) s \<and> get_finish (rs_data (pb_out s)) = Rethrown (Eptr (Exn 7))"
proof -
  obtain s where s: "int_reach (\<lambda>a x. Inl 7) s" "all_finished s"
    using int_finishes [of "\<lambda>a x. Inl 7"] by auto
  have "fold_throws (\<lambda>a x. Inl 7) 2 ys \<noteq> Inr r" if "mset ys = mset [4, 5, 6 :: int]" for ys and r :: int
    using that by (cases ys) auto
  with parallel_reduce_throws [OF s] s show ?thesis by auto
qed

abbreviation set_reach where
  "set_reach xs \<equiv> bulk_reach (receiver_fn (get_receiver :: ((int, nat) get_st, int, nat) rcv)) (\<lambda>acc. Inr 0)
     (each_fn (\<lambda>x. (Inr (), 42 :: int))) (0 :: int) xs (receiver_new (None, None))"

theorem parallel_for_each_witness:
  "\<exists>s. set_reach [1, 2] s \<and> pb_range s = [42, 42]"
proof -
  have "set_reach [1, 2] (bulk_shared_new 0 [1, 2] (receiver_new (None, None)))"
    by (rule reach_init) (simp add: bulk_start_def naive_bulk_target_def)
  from bulk_finishes [OF this get_returns] obtain s where s: "set_reach [1, 2] s" "all_finished s" by blast
  from parallel_for_each [OF s] s show ?thesis by auto
qed

end
