(* ===== verification/Example_Errors.thy ===== *)
theory Example_Errors
  imports Bulk
begin

text \<open>
  The programs \<open>examples/set_done/set_done_2.cpp\<close> and \<open>examples/set_error/set_error_2.cpp\<close>: senders that
  complete without a value or with an error, and the \<open>concat\<close> operator that both define. What is
  printed is a list of strings, to which the functions of the receivers refer.
\<close>

section \<open>\<open>concat\<close>\<close>

text \<open>
  The value function takes \<open>out_\<close> by value and submits an \<open>any_receiver\<close> of it to the sender that was sent,
  so the inner sender signals a copy of \<open>out\<close>: what the functions refer to, \<open>rs_data\<close>, is shared, the
  \<open>done_\<close> flag is not. An \<open>any_receiver\<close> reacts as \<open>receiver_pass\<close> (\<open>any_receiver_transparent\<close>). The
  values are the states \<open>'d\<close> of senders \<open>I\<close>.
\<close>

definition concat_value ::
  "('d, 's receiver_st receiver_st, 'v, 'e, unit) sender \<Rightarrow> ('s receiver_st, 'v, 'e) rcv \<Rightarrow> 'd \<Rightarrow> 's receiver_st call" where
  "concat_value I R v st =
     map_outcome (\<lambda>(v', copy). st\<lparr>rs_data := rs_data (rs_data copy)\<rparr>) (I LValue (receiver_pass R) (v, receiver_new st))"

definition concat_submit ::
  "('d, 's receiver_st receiver_st, 'v, 'e, unit) sender \<Rightarrow> ('c, 's receiver_st receiver_st, 'd, 'e, unit) sender \<Rightarrow>
   ('c, 's receiver_st, 'v, 'e, unit) sender" where
  "concat_submit I S k R =
     submit_wrapped \<lparr>r_value = concat_value I R, r_error = passDEF R, r_done = passDDF R\<rparr> (S LValue)"

definition concat_sender ::
  "('d, 's receiver_st receiver_st, 'v, 'e, unit) sender \<Rightarrow> ('c, 's receiver_st receiver_st, 'd, 'e, unit) sender \<Rightarrow>
   ('c, 's receiver_st, 'v, 'e, unit) sender" where
  "concat_sender I S = single_sender_fn (concat_submit I S)"

text \<open>An \<open>any_single_sender\<close> that holds a sender of one of two types.\<close>

definition either_sender ::
  "('a, 's, 'v, 'e, 'x) sender \<Rightarrow> ('b, 's, 'v, 'e, 'x) sender \<Rightarrow> ('a + 'b, 's, 'v, 'e, 'x) sender" where
  "either_sender S T k R = (\<lambda>(c, s).
     case c of
       Inl a \<Rightarrow> map_outcome (\<lambda>(a', s'). (Inl a', s')) (S k R (a, s))
     | Inr b \<Rightarrow> map_outcome (\<lambda>(b', s'). (Inr b', s')) (T k R (b, s)))"

lemma either_left: "sender_contract S k a sigs a' \<Longrightarrow> sender_contract (either_sender S T) k (Inl a) sigs (Inl a')"
  by unfold_locales (simp add: either_sender_def sender_contract.sends map_outcome_comp)

lemma either_right: "sender_contract T k b sigs b' \<Longrightarrow> sender_contract (either_sender S T) k (Inr b) sigs (Inr b')"
  by unfold_locales (simp add: either_sender_def sender_contract.sends map_outcome_comp)

text \<open>A value that is submitted: its signals reach the functions of \<open>out\<close>, which stays open.\<close>

lemma concat_value_push:
  assumes "sender_contract I LValue v sigs v'"
  shows "concat_value I (receiver_fn F) v (receiver_new s) = map_outcome receiver_new (push_signals F sigs s)"
proof -
  let ?R = "receiver_fn F"
  have inner: "I LValue (receiver_pass ?R) (v, receiver_new (receiver_new s)) =
      map_outcome (Pair v') (deliver_all (receiver_pass ?R) sigs (receiver_new (receiver_new s)))"
    by (rule sender_contract.sends [OF assms receiver_pass_nothrow])
  have view: "map_outcome (\<lambda>st. rs_data (rs_data st)) (deliver_all (receiver_pass ?R) sigs (receiver_new (receiver_new s))) =
      push_signals F sigs s"
    using map_outcome_via [OF receiver_pass_deliver [OF rfn.receiver_nothrow], of rs_data F sigs "receiver_new s"]
    by (simp add: receiver_contract push_signals_upto_terminal)
  have "\<lparr>rs_done = False, rs_data = d\<rparr> = receiver_new d" for d :: 'a by (simp add: receiver_new_def)
  then show ?thesis
    by (simp add: concat_value_def inner map_outcome_comp map_outcome_via [OF view, of receiver_new, symmetric])
       (simp add: receiver_new_def)
qed

text \<open>What \<open>concat\<close> makes of an input that sends one value.\<close>

lemma concat_run:
  assumes "sender_contract S LValue c [Value v, Done] c'" "sender_contract I LValue v sigs v'"
  shows "concat_sender I S k (receiver_fn F) (c, receiver_new s) =
    map_outcome (\<lambda>st. (c', st)) (and_then (concat_value I (receiver_fn F) v) (set_done (receiver_fn F)) (receiver_new s))"
proof -
  have run: "concat_sender I S k (receiver_fn F) (c, receiver_new s) =
      map_outcome (Pair c') (push_signals \<lparr>r_value = concat_value I (receiver_fn F), r_error = passDEF (receiver_fn F),
        r_done = passDDF (receiver_fn F)\<rparr> [Value v, Done] (receiver_new s))"
    by (simp add: concat_sender_def single_sender_fn_def concat_submit_def submit_wrapped_contract [OF assms(1)]
        del: push_signals.simps)
  show ?thesis
  proof (cases "push_signals F sigs s")
    case (Ret t)
    then show ?thesis unfolding run
      by (cases "set_done (receiver_fn F) (receiver_new t)")
         (simp_all add: concat_value_push [OF assms(2)] passDDF_def and_then_def)
  next
    case (Thr n t)
    have "deliver_all (receiver_fn F) sigs (receiver_new s) \<noteq> Thr n u" for u
      by (rule nothrow_deliver_all [OF rfn.receiver_nothrow])
    then show ?thesis using Thr receiver_contract [of F sigs s] by (simp add: push_signals_upto_terminal)
  qed (simp_all add: run concat_value_push [OF assms(2)] and_then_def)
qed

lemma receiver_new_data [simp]: "rs_data (receiver_new d) = d"
  by (simp add: receiver_new_def)

lemma concat_data:
  assumes "sender_contract S LValue c [Value v, Done] c'" "sender_contract I LValue v sigs v'"
  shows "map_outcome (\<lambda>(c, st). rs_data st) (concat_sender I S k (receiver_fn F) (c, receiver_new s)) =
    and_then (push_signals F sigs) (push_signals F [Done]) s"
proof -
  have "map_outcome rs_data (set_done (receiver_fn F) (receiver_new t)) = push_signals F [Done] t" for t
    using receiver_fn_push [of "receiver_new t" F "[Done]"]
    by (cases "set_done (receiver_fn F) (receiver_new t)") (simp_all add: receiver_new_def and_then_def)
  then show ?thesis
    by (cases "push_signals F sigs s")
       (simp_all add: concat_run [OF assms] concat_value_push [OF assms(2)] map_outcome_comp and_then_def
         del: push_signals.simps)
qed

section \<open>The programs\<close>

text \<open>\<open>get_setting()\<close>: \<open>submit(out)\<close> wraps a copy of \<open>out\<close>.\<close>

definition setting_exists :: bool where
  "setting_exists = False"

definition get_setting_submit :: "(unit, 's, int, 'e, unit) sender" where
  "get_setting_submit k R = (\<lambda>(c, s).
     if setting_exists
     then map_outcome (\<lambda>(v, st). (c, rs_data st)) (just id RValue (receiver_pass R) (42, receiver_new s))
     else map_outcome (\<lambda>(u, st). (c, rs_data st)) (empty_sender RValue (receiver_pass R) (c, receiver_new s)))"

definition get_setting :: "(unit, 's, int, 'e, unit) sender" where
  "get_setting = single_sender_fn get_setting_submit"

definition println_fns :: "(string list, string, 'e) rcv" where
  "println_fns = \<lparr>r_value = (\<lambda>v out. Ret (out @ [v])), r_error = abortEF, r_done = ignoreDF\<rparr>"

text \<open>\<open>stop_abort\<close> is made of an error function only; \<open>submit()\<close> makes a \<open>receiver<>\<close>.\<close>

definition stop_abort_fns :: "('s, 'v, 'e) rcv" where
  "stop_abort_fns = \<lparr>r_value = ignoreVF, r_error = (\<lambda>e. skip), r_done = ignoreDF\<rparr>"

definition ignore_fns :: "('s, 'v, 'e) rcv" where
  "ignore_fns = \<lparr>r_value = ignoreVF, r_error = abortEF, r_done = ignoreDF\<rparr>"

text \<open>A pipeline that ends with \<open>submit\<close>, and what it leaves of the output.\<close>

abbreviation program ::
  "('d, 'v, 'e) rcv \<Rightarrow> ('c, 'd receiver_st, 'v, 'e, unit) sender \<Rightarrow> 'c \<Rightarrow> 'd call" where
  "program F S c out \<equiv> map_outcome snd (submit_fn F S RValue (c, out))"

definition print_ok :: "string list call" where
  "print_ok out = Ret (out @ [''OK''])"

definition set_done_main :: "(int \<Rightarrow> string) \<Rightarrow> string list call" where
  "set_done_main to_string = run_all
    [program (println_fns :: (string list, string, nat) rcv) (transform Single RValue (pure_fn to_string) get_setting) (),
     program (println_fns :: (string list, string, nat) rcv) (transform Single RValue (pure_fn to_string)
       (filter_sender Single (pure_fn (\<lambda>i. i < 42)) (just id))) 42,
     program (println_fns :: (string list, string, nat) rcv) (concat_sender (either_sender empty_sender (just id))
       (transform Single RValue (pure_fn (\<lambda>i. if i < 42 then Inl () else Inr (to_string i))) (just id))) 42,
     print_ok]"

definition set_error_main :: "'errc \<Rightarrow> string list call" where
  "set_error_main errc = run_all
    [program (stop_abort_fns :: (string list, int, 'errc) rcv) error_sender (Eptr Null),
     program (stop_abort_fns :: (string list, int, 'errc) rcv) error_sender (Eval errc),
     program (stop_abort_fns :: (string list, int, 'errc) rcv)
       (switch_on_error Single RValue (\<lambda>e. Eptr Null) error_sender error_sender) (Eval errc),
     program (ignore_fns :: (string list, int, 'errc) rcv)
       (switch_on_error Single RValue (\<lambda>e. 0) (just id) (just id)) 42,
     program (ignore_fns :: (string list, int, 'errc) rcv)
       (switch_on_error Single RValue (\<lambda>e. ()) empty_sender error_sender) (Eval errc),
     program (ignore_fns :: (string list, int, 'errc) rcv) (no_fail Single (just id)) 42,
     program (ignore_fns :: (string list, int, 'errc) rcv) (concat_sender (either_sender error_sender (just id))
       (transform Single RValue (pure_fn (\<lambda>v. if v < 40 then Inl (Eptr Null) else Inr v)) (just id))) 42,
     print_ok]"

lemma get_setting_contract: "sender_contract get_setting k () [Done] ()"
proof unfold_locales
  fix R s assume R: "nothrow_error (R :: ('a, int, 'b) rcv)"
  have "deliver_all (receiver_pass R) [Done] (receiver_new s) \<noteq> Thr n t" for n t
    by (rule nothrow_deliver_all [OF receiver_pass_nothrow])
  then show "get_setting k R ((), s) = map_outcome (Pair ()) (deliver_all R [Done] s)"
    using map_outcome_via [OF receiver_pass_deliver [OF R, of "[Done]" s], of "Pair ()"]
    by (simp add: get_setting_def single_sender_fn_def get_setting_submit_def setting_exists_def
        empty_s.sends [OF receiver_pass_nothrow] map_outcome_comp)
qed

lemma no_fail_contract:
  fixes S :: "('c, 's receiver_st, 'v, 'e, unit) sender"
  assumes "sender_contract S RValue c (map Value vs @ [Done]) c'"
  shows "sender_contract (no_fail n S :: ('c, 's, 'v, 'e, 'x) sender) k c (map Value vs @ [Done]) c'"
proof unfold_locales
  fix R s assume R: "nothrow_error (R :: ('s, 'v, 'e, 'x) rcv_scheme)"
  have "deliver_all R [Done] = set_done R"
    by (rule ext) (simp add: and_then_def split: outcome.split)
  then have "push_signals \<lparr>r_value = passDVF R, r_error = no_fail_error, r_done = passDDF R\<rparr>
        (map Value vs @ [Done :: ('v, 'e) signal]) s = deliver_all R (map Value vs @ [Done]) s"
    using no_fail_push [of R vs "Done :: ('v, 'e) signal" "[]" s]
    by (cases "deliver_all R (map Value vs) s") (simp_all add: deliver_all_append and_then_simps del: deliver_all_simps push_signals.simps)
  then show "no_fail n S k R (c, s) = map_outcome (Pair c') (deliver_all R (map Value vs @ [Done]) s)"
    by (simp add: no_fail_def sender_from_eq no_fail_submit_def submit_wrapped_contract [OF assms]
        del: push_signals.simps deliver_all_simps)
qed

text \<open>What a program computes, when the signals of its sender are known.\<close>

lemma program_push:
  assumes "sender_contract S RValue c sigs c'"
  shows "program F S c out = push_signals F sigs out"
  by (simp add: submit_fn_contract [OF assms] map_outcome_comp)

lemma program_concat:
  assumes "sender_contract S LValue c [Value v, Done] c'" "sender_contract I LValue v sigs v'"
  shows "program F (concat_sender I S) c out = and_then (push_signals F sigs) (push_signals F [Done]) out"
  using concat_data [OF assms, of RValue F out] by (simp add: submit_fn_def map_outcome_comp case_prod_unfold)

lemma just_transform_contract:
  "sender_contract (transform Single RValue (pure_fn f) (just id)) k v [Value (f v), Done] v"
  using transform_contract [OF just_s.sender_contract_axioms [of id RValue v], of Single "pure_fn f" k] by simp

lemma just_contract: "sender_contract (just id) k v [Value v, Done] v"
  using just_s.sender_contract_axioms [of id k v] by simp

lemmas program_contracts = just_contract just_transform_contract error_s.sender_contract_axioms empty_s.sender_contract_axioms
  transform_contract [OF get_setting_contract] transform_contract [OF filter_contract [OF just_contract]]
  switch_contract [OF error_s.sender_contract_axioms error_s.sender_contract_axioms]
  switch_contract [OF just_contract just_contract]
  switch_contract [OF error_s.sender_contract_axioms empty_s.sender_contract_axioms]
  no_fail_contract [where vs = "[v]" and S = "just id" for v, simplified, OF just_contract]

lemmas program_run = program_push [OF program_contracts(3)] program_push [OF program_contracts(5)]
  program_push [OF program_contracts(6)] program_push [OF program_contracts(7)] program_push [OF program_contracts(8)]
  program_push [OF program_contracts(9)] program_push [OF program_contracts(10)]

lemma concat_prints:
  "program F (concat_sender (either_sender S (just id)) (transform Single RValue (pure_fn g) (just id))) v out =
     and_then (push_signals F [Value w, Done]) (push_signals F [Done]) out" if "g v = Inr w"
  using program_concat [OF just_transform_contract [of g LValue v], of "either_sender S (just id)" "[Value w, Done]" "Inr w" F out]
  by (simp add: that either_right [OF just_contract] del: push_signals.simps)

lemmas print_defs = println_fns_def stop_abort_fns_def ignore_fns_def abortEF_def ignoreDF_def ignoreVF_def and_then_def
  no_except_def print_ok_def

section \<open>Properties\<close>

text \<open>
  C37: \<open>concat\<close> sends the signals of the sender that it was sent, and then done once more: the inner sender
  closes a copy of \<open>out\<close>, so the done of the input reaches the functions of \<open>out\<close> a second time, also
  after an error of the inner sender.
\<close>
theorem concat_repeats_done:
  assumes "\<And>R r. nothrow_error R \<Longrightarrow> S LValue R (c, r) = map_outcome (Pair c') (deliver_all R [Value v, Done] r)"
    and "\<And>R r. nothrow_error R \<Longrightarrow> I LValue R (v, r) = map_outcome (Pair v') (deliver_all R sigs r)"
  shows "map_outcome (\<lambda>(c, st). rs_data st) (concat_sender I S k (receiver_fn F) (c, receiver_new s)) =
    and_then (push_signals F sigs) (push_signals F [Done]) s"
proof (rule concat_data)
  show "sender_contract S LValue c [Value v, Done] c'" by unfold_locales (rule assms(1))
  show "sender_contract I LValue v sigs v'" by unfold_locales (rule assms(2))
qed

definition count_fns :: "(nat \<times> nat, int, nat) rcv" where
  "count_fns = \<lparr>r_value = (\<lambda>v (n, d). Ret (n + 1, d)), r_error = (\<lambda>e. skip), r_done = (\<lambda>(n, d). Ret (n, d + 1))\<rparr>"

theorem concat_repeats_done_witness:
  "map_outcome (\<lambda>(c, st). rs_data st)
     (concat_sender (just id) (just id) LValue (receiver_fn count_fns) (5, receiver_new (0, 0))) = Ret (1, 2)"
  by (subst concat_repeats_done [OF just_s.sends just_s.sends])
     (simp_all add: count_fns_def and_then_def no_except_def)

text \<open>
  The programs print what they are meant to: \<open>set_done_2\<close> the one string of the sender that has a value,
  and \<open>set_error_2\<close> nothing, because every error is handled before it reaches a receiver that would
  end the program.
\<close>
theorem examples_print:
  "set_done_main to_string out = Ret (out @ [to_string 42, ''OK'']) \<and> set_error_main errc out = Ret (out @ [''OK''])"
  unfolding set_done_main_def set_error_main_def
  by (simp_all add: program_run concat_prints print_defs)

end
