(* ===== verification/Example_Pool.thy ===== *)
theory Example_Pool
  imports Piping Submit
begin

text \<open>
  The executor that wraps a third-party thread pool (\<open>examples/pool.h\<close>) and the programs that use it:
  \<open>twoway_execute_2.cpp\<close> and \<open>then_execute_2.cpp\<close>, which do the same with promises (\<open>p1054\<close>) and with senders
  (\<open>p1055\<close>), \<open>composition_2.cpp\<close>, which writes the same compositions in three ways, and
  \<open>composition_4.cpp\<close>. The pool is a parameter.
\<close>

section \<open>\<open>pool_executor\<close>\<close>

text \<open>
  \<open>execute\<close> of the pool, on the state \<open>'p\<close> of the pool beside what the function works on. What is
  documented of it: the function is called once, on some thread, and an exception that leaves it ends
  the program.
\<close>

type_synonym ('p, 's) execute = "'s call \<Rightarrow> ('p \<times> 's) call"

definition pool_runs :: "('p, 's) execute \<Rightarrow> 'p \<Rightarrow> 'p \<Rightarrow> bool" where
  "pool_runs execute p p' \<longleftrightarrow> (\<forall>f s. execute f (p, s) = map_outcome (Pair p') (no_except f s))"

text \<open>\<open>schedule()\<close> makes a task that holds a copy \<open>ex\<close> of the executor; \<open>submit\<close> executes a function that signals \<open>out\<close>.\<close>

definition pool_schedule :: "'x \<Rightarrow> ('x \<times> 'x) outcome" where
  "pool_schedule ex = Ret (ex, ex)"

definition pool_task_submit :: "('p, 's) execute \<Rightarrow> 'ex \<Rightarrow> ('p, 's, 'ex, 'e, 'x) sender" where
  "pool_task_submit execute ex k R = execute (and_then (set_value R ex) (set_done R))"

lemma pool_contract:
  assumes "pool_runs execute p p'"
  shows "sender_contract (pool_task_submit execute ex :: ('p, 's, 'ex, 'e, 'x) sender) k p [Value ex, Done] p'"
proof unfold_locales
  fix R :: "('s, 'ex, 'e, 'x) rcv_scheme" and s
  have "and_then (set_value R ex) (set_done R) s = deliver_all R [Value ex, Done] s"
    by (simp add: and_then_def split: outcome.split)
  moreover have "and_then (set_value R ex) (set_done R) s \<noteq> Thr n t" for n t
    by (auto simp: and_then_def split: outcome.splits)
  ultimately show "pool_task_submit execute ex k R (p, s) = map_outcome (Pair p') (deliver_all R [Value ex, Done] s)"
    using assms
    by (cases "deliver_all R [Value ex, Done] s")
       (simp_all add: pool_runs_def pool_task_submit_def no_except_def del: deliver_all_simps)
qed

section \<open>\<open>twoway_execute\<close>\<close>

text \<open>\<open>p1054\<close>: \<open>sv\<close> is \<open>set_value\<close> of the promise, whose future the function returns.\<close>

definition promise_twoway_execute :: "('p, 's) execute \<Rightarrow> ('w \<Rightarrow> 's call) \<Rightarrow> (unit \<Rightarrow> nat + 'w) \<Rightarrow> ('p \<times> 's) call" where
  "promise_twoway_execute execute sv f =
     execute (\<lambda>s. case f () of Inl n \<Rightarrow> Thr n s | Inr w \<Rightarrow> sv w s)"

definition twoway_execute ::
  "('p, 's receiver_st) execute \<Rightarrow> 'ex \<Rightarrow> (unit \<Rightarrow> nat + 'w) \<Rightarrow> ('p, 's, 'w, 'e, 'x) sender" where
  "twoway_execute execute ex f = transform Single RValue (\<lambda>_. f ()) (pool_task_submit execute ex)"

section \<open>\<open>then_execute\<close>\<close>

text \<open>\<open>p1054\<close>: \<open>cont\<close> is \<open>then\<close> of the future \<open>pred\<close>.\<close>

definition promise_then_execute ::
  "('p, 's) execute \<Rightarrow> ('w \<Rightarrow> 's call) \<Rightarrow> ('v, 'w) user_fn \<Rightarrow> (('v \<Rightarrow> ('p \<times> 's) call) \<Rightarrow> ('p \<times> 's) call) \<Rightarrow> ('p \<times> 's) call" where
  "promise_then_execute execute sv f cont =
     cont (\<lambda>v. execute (\<lambda>s. case f v of Inl n \<Rightarrow> Thr n s | Inr w \<Rightarrow> sv w s))"

text \<open>
  \<open>p1055\<close>: \<open>pred | via(strands(e)) | transform(f)\<close>. The receiver of \<open>transform\<close> is what \<open>via\<close> delivers to, so
  the submission leaves the tasks of \<open>via\<close>, which the strand runs later \<open>pred\<close> is a parameter with a
  name, so \<open>via\<close> submits it as an lvalue.
\<close>

definition then_execute_out :: "('v, 'w) user_fn \<Rightarrow> ('s, 'w, 'e, 'x) rcv_scheme \<Rightarrow> ('s receiver_st, 'v, 'e) rcv" where
  "then_execute_out f R = receiver_data (transform_on Single f R)"

definition then_execute ::
  "('c, ('s receiver_st, ('v, 'e) signal) via_st receiver_st, 'v, 'e, unit) sender \<Rightarrow> 'c \<times> 's \<Rightarrow>
   ('c \<times> ('s receiver_st, ('v, 'e) signal) via_st receiver_st) outcome" where
  "then_execute S = (\<lambda>(c, s). via_submit LValue S (c, receiver_new s))"

definition then_execute_run ::
  "('v, 'w) user_fn \<Rightarrow> ('s, 'w, 'e, 'x) rcv_scheme \<Rightarrow> ('s receiver_st, ('v, 'e) signal) via_st receiver_st call" where
  "then_execute_run f R = via_flush (then_execute_out f R)"

text \<open>The state of the caller's receiver, in that of \<open>via\<close>.\<close>

abbreviation caller :: "('s receiver_st, 'i) via_st receiver_st \<Rightarrow> 's" where
  "caller st \<equiv> rs_data (via_out (rs_data st))"

text \<open>Submission queues tasks and signals nobody; the tasks then deliver the results.\<close>

lemma via_deliver_all:
  "via_ok st \<Longrightarrow> \<exists>st'. deliver_all via_receiver sigs st = Ret st' \<and> via_ok st' \<and>
     via_out (rs_data st') = via_out (rs_data st) \<and> via_tasks (rs_data st') = via_owed st sigs"
proof (induction sigs arbitrary: st)
  case Nil
  then show ?case by (simp add: via_owed_def)
next
  case (Cons sig sigs)
  obtain st1 where "deliver via_receiver sig st = Ret st1" "via_ok st1" "via_out (rs_data st1) = via_out (rs_data st)"
      "via_owed st1 sigs = via_owed st (sig # sigs)"
    using via_signal [OF Cons.prems, of sig] by blast
  with Cons.IH [of st1] show ?case by (auto simp: and_then_def)
qed

lemma then_execute_result:
  assumes "sender_contract S LValue c sigs c'" "nothrow_error R"
  shows "\<exists>st. then_execute S (c, s) = Ret (c', st) \<and> caller st = s \<and>
    map_outcome caller (then_execute_run f R st) = deliver_all R (transform_signals f (upto_terminal sigs)) s"
proof -
  let ?st = "receiver_new (via_start (receiver_new s))"
  let ?R = "then_execute_out f R"
  obtain st where st: "deliver_all via_receiver sigs ?st = Ret st" "via_out (rs_data st) = receiver_new s"
      "via_tasks (rs_data st) = map (\<lambda>sig. (sig, True)) (upto_terminal sigs)"
    using via_deliver_all [OF via_start_ok, of sigs "receiver_new s"]
    by (auto simp: via_owed_def receiver_new_def via_start_def)
  have via: "nothrow_error via_receiver" unfolding via_receiver_def by (rule rdata.receiver_nothrow)
  have "then_execute S (c, s) = Ret (c', st)"
    by (simp add: then_execute_def via_submit_def sender_contract.sends [OF assms(1) via] st(1))
  moreover have "map_outcome (\<lambda>st. via_out (rs_data st)) (then_execute_run f R st) =
      deliver_all ?R (upto_terminal sigs) (receiver_new s)"
    using viaq.flush_owed [of ?R st]
    by (simp add: then_execute_run_def via_flush_def st(2,3) via_task_all deliver_all_def del: map_map)
  from map_outcome_via [OF this, of rs_data]
  have "map_outcome caller (then_execute_run f R st) = deliver_all R (transform_signals f (upto_terminal sigs)) s"
    using receiver_data_push [of "receiver_new s" "transform_on Single f R" "upto_terminal sigs"]
    by (simp add: then_execute_out_def receiver_new_def transform_push [OF assms(2)] del: transform_on.simps)
  ultimately show ?thesis using st(2) by (auto simp: receiver_new_def)
qed

section \<open>Compositions\<close>

text \<open>
  The three functions of \<open>composition_2.cpp\<close>, each with its three statements: \<open>f\<close> and \<open>g\<close> are the
  \<open>transform\<close> operators, \<open>v\<close> is \<open>via(strands(cpu))\<close> and \<open>out\<close> is \<open>submit\<close>; \<open>cpu\<close> and \<open>io\<close> are the senders that
  \<open>schedule()\<close> returns. \<open>lisp\<close> applies the operators, \<open>sugar\<close> uses \<open>operator|\<close> and \<open>pipe\<close> the function of that name.
\<close>

definition lisp ::
  "('a, 'x) pipe_op \<Rightarrow> ('a, 'x) pipe_op \<Rightarrow> ('a, 'x) pipe_op \<Rightarrow> ('a, 'x) pipe_op \<Rightarrow> ('a, 'x) operand \<Rightarrow> ('a, 'x) operand \<Rightarrow>
   ('a, 'x) operand option list" where
  "lisp f g v out cpu io =
     [Option.bind (Option.bind (f cpu) g) out,
      Option.bind (Option.bind (Option.bind (f cpu) v) g) out,
      Option.bind (Option.bind (Option.bind (f io) v) g) out]"

definition sugar ::
  "('a, 'x) pipe_op \<Rightarrow> ('a, 'x) pipe_op \<Rightarrow> ('a, 'x) pipe_op \<Rightarrow> ('a, 'x) pipe_op \<Rightarrow> ('a, 'x) operand \<Rightarrow> ('a, 'x) operand \<Rightarrow>
   ('a, 'x) operand option list" where
  "sugar f g v out cpu io =
     (let bar = (\<lambda>r h. Option.bind r (\<lambda>x. pipe_or x h)) in
      [bar (bar (pipe_or cpu f) g) out,
       bar (bar (bar (pipe_or cpu f) v) g) out,
       bar (bar (bar (pipe_or io f) v) g) out])"

definition piped ::
  "('a, 'x) pipe_op \<Rightarrow> ('a, 'x) pipe_op \<Rightarrow> ('a, 'x) pipe_op \<Rightarrow> ('a, 'x) pipe_op \<Rightarrow> ('a, 'x) operand \<Rightarrow> ('a, 'x) operand \<Rightarrow>
   ('a, 'x) operand option list" where
  "piped f g v out cpu io = [pipe_14 cpu [f, g, out], pipe_14 cpu [f, v, g, out], pipe_14 io [f, v, g, out]]"

text \<open>
  \<open>composition_4.cpp\<close>: \<open>io_operation\<close> asks the caller for an executor, with \<open>t\<close> and \<open>p\<close> for its \<open>transform\<close> and \<open>tap\<close>;
  the two statements of \<open>main\<close> give one, or decline to.
\<close>

definition io_operation ::
  "('a, 'x) pipe_op \<Rightarrow> ('a, 'x) pipe_op \<Rightarrow> ('a, 'x) operand \<Rightarrow> ('a, 'x) requested option" where
  "io_operation t p io = Option.bind (pipe_17 io [t, p]) request_via"

definition io_main ::
  "('a, 'x) pipe_op \<Rightarrow> ('a, 'x) pipe_op \<Rightarrow> ('a, 'x) pipe_op \<Rightarrow> ('a, 'x) pipe_op \<Rightarrow> ('a, 'x) pipe_op \<Rightarrow> ('a, 'x) operand \<Rightarrow>
   ('a, 'x) operand option list" where
  "io_main t p v q out io =
     [Option.bind (Option.bind (io_operation t p io) (\<lambda>r. send_via_via r v)) (\<lambda>x. pipe_17 x [q, out]),
      Option.bind (Option.bind (io_operation t p io) via_cast) (\<lambda>x. pipe_or x out)]"

text \<open>An operator whose results are senders, and not executors.\<close>

definition makes_senders :: "('a, 'x) pipe_op \<Rightarrow> bool" where
  "makes_senders f \<longleftrightarrow> (\<forall>x y. f x = Some y \<longrightarrow> Sender_concept (fst y) [] \<and> \<not> Executor_concept (fst y) [])"

lemma pipe_sender:
  "Sender_concept (fst y) [] \<Longrightarrow> \<not> Executor_concept (fst y) [] \<Longrightarrow> pipe_or y h = h y"
  by (simp add: pipe_or_eq pipeable_iff)

lemma bind_makes:
  "makes_senders f \<Longrightarrow> (\<And>y. Sender_concept (fst y) [] \<Longrightarrow> \<not> Executor_concept (fst y) [] \<Longrightarrow> g y = h y) \<Longrightarrow>
   Option.bind (f x) g = Option.bind (f x) h"
  by (cases "f x") (simp_all add: makes_senders_def del: split_paired_All)

lemma get_data:
  "map_outcome (\<lambda>st. get_finish (rs_data st)) (deliver_all (receiver_fn get_receiver) sigs (receiver_new (None, None))) =
   Ret (get_finish (last_of None (signal_values sigs), first_error sigs))"
  using map_outcome_via [OF receiver_fn_push, of "receiver_new (None, None)" get_finish get_receiver sigs]
  by (simp add: receiver_new_def get_push)

section \<open>Properties\<close>

text \<open>
  The two forms of \<open>twoway_execute\<close> give the same value (the task of the pool is never blocking, so \<open>get\<close> waits); when the function throws, the sender form makes
  \<open>get\<close> rethrow the exception, while in the promise form it leaves the function that the pool runs, which
  ends the program.
\<close>
theorem twoway_execute_forms:
  assumes "pool_runs E p p'" "pool_runs E' p p'"
  shows "get_awaited (twoway_execute E ex f) [] p = Some (Ret (case f () of Inl n \<Rightarrow> Rethrown (Eptr (Exn n)) | Inr w \<Rightarrow> Got w)) \<and>
    promise_twoway_execute E' (\<lambda>w s. Ret (Some w)) f (p, None) =
      (case f () of Inl n \<Rightarrow> Term | Inr w \<Rightarrow> Ret (p', Some w))"
proof
  show "get_awaited (twoway_execute E ex f) [] p = Some (Ret (case f () of Inl n \<Rightarrow> Rethrown (Eptr (Exn n)) | Inr w \<Rightarrow> Got w))"
    unfolding twoway_execute_def
    by (simp add: get_awaited_contract [OF transform_contract [OF pool_contract [OF assms(1)]]] expected_got_def split: sum.split)
  show "promise_twoway_execute E' (\<lambda>w s. Ret (Some w)) f (p, None) =
      (case f () of Inl n \<Rightarrow> Term | Inr w \<Rightarrow> Ret (p', Some w))"
    using assms(2) by (simp add: promise_twoway_execute_def pool_runs_def no_except_def split: sum.split)
qed

text \<open>
  C38: \<open>then_execute\<close> with senders, as \<open>main\<close> uses it: \<open>just(v) | via(strands(e)) | transform(f) | get\<close>. When the
  strand has run its tasks the result is \<open>f v\<close>, or the exception of \<open>f\<close>; but the sender keeps the
  properties of \<open>just\<close>, so \<open>get\<close> takes it for \<open>AlwaysBlocking\<close> and does not wait, and what it reads right after
  \<open>submit\<close> is an empty result.
\<close>
theorem then_execute_not_awaited:
  "\<exists>c st qs. sender_from_properties just_properties = Some qs \<and> sender_from_properties qs = Some qs \<and>
     \<not> get_waits (sender_type qs :: nat cxx) \<and>
     then_execute (just mv) (v, receiver_new (None, None :: 'e error option)) = Ret (c, st) \<and>
     get_finish (rs_data (caller st)) = Undefined \<and>
     map_outcome (\<lambda>st. get_finish (rs_data (caller st))) (then_execute_run f (receiver_fn get_receiver) st) =
       Ret (case f v of Inl n \<Rightarrow> Rethrown (Eptr (Exn n)) | Inr w \<Rightarrow> Got w)"
proof -
  obtain st where st: "then_execute (just mv) (v, receiver_new (None, None :: 'e error option)) = Ret (mv v, st)"
      "caller st = receiver_new (None, None)"
      "map_outcome caller (then_execute_run f (receiver_fn get_receiver) st) =
       deliver_all (receiver_fn get_receiver) (transform_signals f (upto_terminal [Value v, Done])) (receiver_new (None, None))"
    using then_execute_result [OF just_s.sender_contract_axioms [of mv LValue v] rfn.receiver_nothrow [of get_receiver],
        of "receiver_new (None, None)" f] by blast
  have r: "map_outcome (\<lambda>st. get_finish (rs_data (caller st))) (then_execute_run f (receiver_fn get_receiver) st) =
       Ret (case f v of Inl n \<Rightarrow> Rethrown (Eptr (Exn n)) | Inr w \<Rightarrow> Got w)"
    unfolding map_outcome_via [OF st(3), of "\<lambda>st. get_finish (rs_data st)"] get_data by (simp split: sum.split)
  have p: "sender_from_properties just_properties = Some just_properties" "\<not> get_waits (sender_type just_properties :: nat cxx)"
    by (simp_all add: sender_from_properties_def just_properties_def property_set_index_def element_of_def
        single_sender_properties_def property_set_insert_one_def property_query_def property_query_fn_def
        get_waits_def trait_defs is_base_of_def sender_type_def)
  have e: "get_finish (rs_data (caller st)) = Undefined" by (simp add: st(2)) (simp add: receiver_new_def)
  show ?thesis by (intro exI [of _ "mv v"] exI [of _ st] exI [of _ just_properties] conjI) (fact p st(1) e r)+
qed

text \<open>
  The three ways of writing a composition are the same, when the operators make senders: application,
  \<open>operator|\<close> and \<open>pipe\<close>; and \<open>request_via\<close> with \<open>via\<close>, or with \<open>via_cast\<close>, is the composition without it.
\<close>
theorem composition_styles_agree:
  assumes "makes_senders f" "makes_senders g" "makes_senders v" "makes_senders t"
    and "Sender_concept (fst cpu) []" "\<not> Executor_concept (fst cpu) []" "Sender_concept (fst io) []" "\<not> Executor_concept (fst io) []"
  shows "lisp f g v out cpu io = sugar f g v out cpu io \<and> sugar f g v out cpu io = piped f g v out cpu io \<and>
    io_main f g v t out io = [pipe_17 io [f, g, v, t, out], pipe_17 io [f, g, out]]"
proof -
  note start = pipe_sender [OF assms(5,6)] pipe_sender [OF assms(7,8)]
  show ?thesis
    by (auto simp: lisp_def sugar_def piped_def io_main_def io_operation_def pipe_17_Cons pipe_17_Nil start pipe_sender
        request_via_def intro!: assms(1-4) [THEN bind_makes])
qed

section \<open>Witnesses\<close>

theorem twoway_execute_forms_witness:
  "get_awaited (twoway_execute (\<lambda>f (p, s). map_outcome (Pair (Suc p)) (no_except f s)) () (\<lambda>u. Inr 42)) [] 0 =
     Some (Ret (Got (42 :: nat) :: (nat, nat) got)) \<and>
   promise_twoway_execute (\<lambda>f (p, s). map_outcome (Pair (Suc p)) (no_except f s)) (\<lambda>w s. Ret (Some w)) (\<lambda>u. Inr (42 :: nat)) (0, None) =
     Ret (1, Some 42)"
  using twoway_execute_forms [of "\<lambda>f (p, s). map_outcome (Pair (Suc p)) (no_except f s)" 0 1
      "\<lambda>f (p, s). map_outcome (Pair (Suc p)) (no_except f s)" "()" "\<lambda>u. Inr (42 :: nat)"]
  by (simp add: pool_runs_def)

theorem composition_styles_agree_witness:
  "lisp (\<lambda>x. Some (inline_task_type, snd x + 1)) (\<lambda>x. Some (inline_task_type, snd x * 5)) (\<lambda>x. Some (inline_task_type, snd x + 7)) Some
     (inline_task_type :: nat cxx, 1 :: nat) (inline_task_type, 2) =
   piped (\<lambda>x. Some (inline_task_type, snd x + 1)) (\<lambda>x. Some (inline_task_type, snd x * 5)) (\<lambda>x. Some (inline_task_type, snd x + 7)) Some
     (inline_task_type, 1) (inline_task_type, 2)"
proof -
  have t: "Sender_concept (inline_task_type :: nat cxx) []" "\<not> Executor_concept (inline_task_type :: nat cxx) []"
    by (simp_all add: type_defs concept_defs query_run)
  have m: "makes_senders (\<lambda>x. Some (inline_task_type :: nat cxx, h x))" for h :: "nat cxx \<times> nat \<Rightarrow> nat"
    using t by (simp add: makes_senders_def)
  note agree = composition_styles_agree [OF m m m m, of "(inline_task_type, 1)" "(inline_task_type, 2)" _ _ _ Some, unfolded fst_conv, OF t t]
  show ?thesis by (rule trans [OF conjunct1 [OF agree] conjunct1 [OF conjunct2 [OF agree]]])
qed

end
