(* ===== verification/Flow_Protocol.thy ===== *)
theory Flow_Protocol
  imports Flow_From
begin

text \<open>
  \<open>flow_from\<close> (\<open>o/from.h\<close>) and a receiver of the user: any functions for starting, a value, an error and done, which
  may read and change the state of the receiver, throw, and call \<open>up\<close> in any way, to request more, to cancel or to
  fail, also while a value that they requested is being delivered to them. The executor works on the thread of the
  receiver and runs each task at once or later, in order (another thread is the subject of \<open>Flow_Race\<close>). What is observed of a run
  is the list of the calls on both sides. \<open>spec_step\<close> says which calls the protocol of a flow
  allows; every run of the model is a run of it, and stops only where the protocol owes nothing.
\<close>

section \<open>A receiver of the user\<close>

datatype up_call = Ask int | Cancel | Fail

text \<open>
  The body of a function of the receiver: changes of its state, decisions on its state, and calls on
  \<open>up\<close>, between which the state may change, as the executor may run a task in the middle of a call.
  A function may throw at any point.
\<close>

datatype 's handler = Return | Throw nat | Update "'s \<Rightarrow> 's" "'s handler" | Look "'s \<Rightarrow> 's handler" | Up up_call "'s handler"

record ('s, 'v, 'e) user_fns =
  u_starting :: "'s handler"
  u_value :: "'v \<Rightarrow> 's handler"
  u_error :: "'e error \<Rightarrow> 's handler"
  u_done :: "'s handler"

text \<open>
  What is observed: the functions of the receiver that are entered, the exceptions that leave them, and the calls that pass
  the \<open>up\<close> receiver.
\<close>

datatype 'v flow_event = Started | Got 'v | Errored | Finished | Asked int | Cancelled | Aborted | Raised

text \<open>The \<open>done_\<close> flag of the \<open>receiver\<close> that wraps \<open>flow_from_up\<close>, and what was observed so far.\<close>

record ('s, 'v) user_flow = "('s, 'v) flow_from" +
  uf_closed :: bool
  uf_log :: "'v flow_event list"

definition user_flow_new :: "'v list \<Rightarrow> 's \<Rightarrow> ('s, 'v) user_flow" where
  "user_flow_new xs s = flow_from.extend (flow_from_new xs s) \<lparr>uf_closed = False, uf_log = []\<rparr>"

definition observe :: "'v flow_event \<Rightarrow> ('s, 'v) user_flow \<Rightarrow> ('s, 'v) user_flow" where
  "observe e st = st\<lparr>uf_log := uf_log st @ [e]\<rparr>"

text \<open>A call on \<open>up\<close>, which is \<open>make_receiver(flow_from_up{p})\<close>: it is ignored once \<open>up\<close> was told to stop.\<close>

definition up_signal ::
  "(nat \<Rightarrow> bool) \<Rightarrow> ('s, 'v) user_flow flow_caller \<Rightarrow> up_call \<Rightarrow> ('s, 'v) user_flow \<Rightarrow> ('s, 'v) user_flow outcome option" where
  "up_signal policy call c st =
     (if uf_closed st then Some (Ret st)
      else case c of
          Ask n \<Rightarrow> up_value policy call n (observe (Asked n) st)
        | Cancel \<Rightarrow> up_done policy call (observe Cancelled (st\<lparr>uf_closed := True\<rparr>))
        | Fail \<Rightarrow> up_error policy call (observe Aborted (st\<lparr>uf_closed := True\<rparr>)))"

primrec run_handler ::
  "(nat \<Rightarrow> bool) \<Rightarrow> ('s, 'v) user_flow flow_caller \<Rightarrow> 's handler \<Rightarrow> ('s, 'v) user_flow \<Rightarrow> ('s, 'v) user_flow outcome option" where
  "run_handler policy call Return st = Some (Ret st)"
| "run_handler policy call (Throw k) st = Some (Thr k st)"
| "run_handler policy call (Update f h) st = run_handler policy call h (st\<lparr>ff_out := f (ff_out st)\<rparr>)"
| "run_handler policy call (Look g) st = run_handler policy call (g (ff_out st)) st"
| "run_handler policy call (Up c h) st =
     (case up_signal policy call c st of Some (Ret st') \<Rightarrow> run_handler policy call h st' | r \<Rightarrow> r)"

text \<open>
  The \<open>flow_receiver\<close> of the functions: its two flags guard every call. An exception that leaves a function is caught by
  the customization point that called it, which sends it to the error function; that one is \<open>noexcept\<close>.
\<close>

definition user_error ::
  "(nat \<Rightarrow> bool) \<Rightarrow> ('s, 'v, 'e) user_fns \<Rightarrow> ('s, 'v) user_flow flow_caller \<Rightarrow> 'e error \<Rightarrow> ('s, 'v) user_flow \<Rightarrow>
   ('s, 'v) user_flow outcome option" where
  "user_error policy U call e st =
     (if \<not> ff_started st then Some Term
      else if ff_done st then Some (Ret st)
      else case run_handler policy call (u_error U e) (observe Errored (st\<lparr>ff_done := True\<rparr>)) of
          Some (Thr k st') \<Rightarrow> Some Term | r \<Rightarrow> r)"

definition user_catch ::
  "(nat \<Rightarrow> bool) \<Rightarrow> ('s, 'v, 'e) user_fns \<Rightarrow> ('s, 'v) user_flow flow_caller \<Rightarrow> ('s, 'v) user_flow outcome option \<Rightarrow>
   ('s, 'v) user_flow outcome option" where
  "user_catch policy U call r =
     (case r of Some (Thr k st) \<Rightarrow> user_error policy U call (Eptr (Exn k)) (observe Raised st) | r \<Rightarrow> r)"

definition user_starting ::
  "(nat \<Rightarrow> bool) \<Rightarrow> ('s, 'v, 'e) user_fns \<Rightarrow> ('s, 'v) user_flow flow_caller \<Rightarrow> ('s, 'v) user_flow \<Rightarrow>
   ('s, 'v) user_flow outcome option" where
  "user_starting policy U call st =
     (if ff_started st then Some Term
      else user_catch policy U call (run_handler policy call (u_starting U) (observe Started (st\<lparr>ff_started := True\<rparr>))))"

definition user_value ::
  "(nat \<Rightarrow> bool) \<Rightarrow> ('s, 'v, 'e) user_fns \<Rightarrow> ('s, 'v) user_flow flow_caller \<Rightarrow> 'v \<Rightarrow> ('s, 'v) user_flow \<Rightarrow>
   ('s, 'v) user_flow outcome option" where
  "user_value policy U call v st =
     (if \<not> ff_started st then Some Term
      else if ff_done st then Some (Ret st)
      else user_catch policy U call (run_handler policy call (u_value U v) (observe (Got v) st)))"

definition user_done ::
  "(nat \<Rightarrow> bool) \<Rightarrow> ('s, 'v, 'e) user_fns \<Rightarrow> ('s, 'v) user_flow flow_caller \<Rightarrow> ('s, 'v) user_flow \<Rightarrow>
   ('s, 'v) user_flow outcome option" where
  "user_done policy U call st =
     (if \<not> ff_started st then Some Term
      else if ff_done st then Some (Ret st)
      else user_catch policy U call (run_handler policy call (u_done U) (observe Finished (st\<lparr>ff_done := True\<rparr>))))"

text \<open>\<open>static_assert(NothrowInvocable<EF&, std::exception_ptr>)\<close>: the error function does not throw.\<close>

primrec handler_nothrow :: "'s handler \<Rightarrow> bool" where
  "handler_nothrow Return = True"
| "handler_nothrow (Throw k) = False"
| "handler_nothrow (Update f h) = handler_nothrow h"
| "handler_nothrow (Look g) = (\<forall>s. handler_nothrow (g s))"
| "handler_nothrow (Up c h) = handler_nothrow h"

definition errors_nothrow :: "('s, 'v, 'e) user_fns \<Rightarrow> bool" where
  "errors_nothrow U \<longleftrightarrow> (\<forall>e. handler_nothrow (u_error U e))"

definition user_receiver ::
  "(nat \<Rightarrow> bool) \<Rightarrow> ('s, 'v, 'e) user_fns \<Rightarrow> (('s, 'v) user_flow, 'v, 'e) consumer" where
  "user_receiver policy U = \<lparr>c_starting = user_starting policy U, c_value = user_value policy U,
     c_error = user_error policy U, c_done = user_done policy U\<rparr>"

definition flow_from_submit ::
  "(nat \<Rightarrow> bool) \<Rightarrow> nat \<Rightarrow> ('s, 'v, 'e) user_fns \<Rightarrow> 'v list \<Rightarrow> 's \<Rightarrow> ('s, 'v) user_flow outcome option" where
  "flow_from_submit policy n U xs s = flow_run policy (user_receiver policy U) n (user_flow_new xs s)"

section \<open>The protocol\<close>

text \<open>
  How far a flow is, how many values were requested and how many were sent. A value needs a request and
  is the next one of the range; after \<open>up\<close> was told to stop, only done may follow; done comes once, when
  the range is at its end and something was requested, or after \<open>up\<close> was told to stop. An exception of the receiver is
  followed by its error, and then nothing more comes; one that leaves a function when the flow is over is dropped.
\<close>

datatype phase = Before | Running | Stopped | Raising | Over

fun spec_step :: "'v list \<Rightarrow> phase \<times> nat \<times> nat \<Rightarrow> 'v flow_event \<Rightarrow> (phase \<times> nat \<times> nat) option" where
  "spec_step xs (Before, a, k) Started = Some (Running, a, k)"
| "spec_step xs (Running, a, k) (Asked n) = Some (Running, a + nat n, k)"
| "spec_step xs (Running, a, k) (Got v) = (if k < a \<and> k < length xs \<and> v = xs ! k then Some (Running, a, Suc k) else None)"
| "spec_step xs (Running, a, k) Cancelled = Some (Stopped, a, k)"
| "spec_step xs (Running, a, k) Aborted = Some (Stopped, a, k)"
| "spec_step xs (Running, a, k) Finished = (if 0 < a \<and> k = length xs then Some (Over, a, k) else None)"
| "spec_step xs (Stopped, a, k) Finished = Some (Over, a, k)"
| "spec_step xs (Running, a, k) Raised = Some (Raising, a, k)"
| "spec_step xs (Stopped, a, k) Raised = Some (Raising, a, k)"
| "spec_step xs (Raising, a, k) Errored = Some (Over, a, k)"
| "spec_step xs (Over, a, k) Raised = Some (Over, a, k)"
| "spec_step xs (Over, a, k) (Asked n) = Some (Over, a + nat n, k)"
| "spec_step xs (Over, a, k) Cancelled = Some (Over, a, k)"
| "spec_step xs (Over, a, k) Aborted = Some (Over, a, k)"
| "spec_step xs _ _ = None"

definition spec_run :: "'v list \<Rightarrow> 'v flow_event list \<Rightarrow> (phase \<times> nat \<times> nat) option" where
  "spec_run xs es = foldl (\<lambda>r e. Option.bind r (\<lambda>q. spec_step xs q e)) (Some (Before, 0, 0)) es"

text \<open>A run may stop here: done or an error was sent, or every request was answered and there is more, or none was made.\<close>

fun spec_final :: "'v list \<Rightarrow> phase \<times> nat \<times> nat \<Rightarrow> bool" where
  "spec_final xs (ph, a, k) \<longleftrightarrow> ph = Over \<or> ph = Running \<and> a = k \<and> (k < length xs \<or> k = 0)"

lemma spec_run_snoc: "spec_run xs (es @ [e]) = Option.bind (spec_run xs es) (\<lambda>q. spec_step xs q e)"
  by (simp add: spec_run_def)

lemma spec_run_two: "spec_run xs (es @ [e, e']) =
    Option.bind (Option.bind (spec_run xs es) (\<lambda>q. spec_step xs q e)) (\<lambda>q. spec_step xs q e')"
  by (simp add: spec_run_def)

lemma spec_run_Nil: "spec_run xs [] = Some (Before, 0, 0)"
  by (simp add: spec_run_def)

section \<open>Calls that return\<close>

text \<open>A piece of code returns, in the same state for every fuel from some point on.\<close>

definition settles ::
  "(('s, 'v, 'z) flow_from_scheme, 'v, 'e) consumer \<Rightarrow>
   (('s, 'v, 'z) flow_from_scheme flow_caller \<Rightarrow> ('s, 'v, 'z) flow_from_scheme \<Rightarrow> ('s, 'v, 'z) flow_from_scheme outcome option) \<Rightarrow>
   ('s, 'v, 'z) flow_from_scheme \<Rightarrow> ('s, 'v, 'z) flow_from_scheme \<Rightarrow> bool" where
  "settles C f st st' \<longleftrightarrow> (\<exists>N. \<forall>n\<ge>N. f (flow_interp C n) st = Some (Ret st'))"

text \<open>A piece of code throws, likewise.\<close>

definition throws ::
  "(('s, 'v, 'z) flow_from_scheme, 'v, 'e) consumer \<Rightarrow>
   (('s, 'v, 'z) flow_from_scheme flow_caller \<Rightarrow> ('s, 'v, 'z) flow_from_scheme \<Rightarrow> ('s, 'v, 'z) flow_from_scheme outcome option) \<Rightarrow>
   ('s, 'v, 'z) flow_from_scheme \<Rightarrow> nat \<Rightarrow> ('s, 'v, 'z) flow_from_scheme \<Rightarrow> bool" where
  "throws C f st k st' \<longleftrightarrow> (\<exists>N. \<forall>n\<ge>N. f (flow_interp C n) st = Some (Thr k st'))"

lemma settles_throws:
  assumes "settles C f st st1" "throws C g st1 k st2"
  shows "throws C (\<lambda>call st. case f call st of Some (Ret st') \<Rightarrow> g call st' | r \<Rightarrow> r) st k st2"
proof -
  obtain N M where "\<forall>n\<ge>N. f (flow_interp C n) st = Some (Ret st1)" "\<forall>n\<ge>M. g (flow_interp C n) st1 = Some (Thr k st2)"
    using assms by (auto simp: settles_def throws_def)
  then show ?thesis by (auto simp: throws_def intro!: exI [of _ "max N M"])
qed

lemma settlesI: "(\<And>call. f call st = Some (Ret st')) \<Longrightarrow> settles C f st st'"
  by (simp add: settles_def)

lemma settles_cong: "(\<And>call. f call st = g call st0) \<Longrightarrow> settles C g st0 st' \<Longrightarrow> settles C f st st'"
  by (simp add: settles_def)

lemma settles_then:
  assumes "settles C f st st1" "settles C g st1 st2"
  shows "settles C (\<lambda>call st. case f call st of Some (Ret st') \<Rightarrow> g call st' | r \<Rightarrow> r) st st2"
proof -
  obtain N M where "\<forall>n\<ge>N. f (flow_interp C n) st = Some (Ret st1)" "\<forall>n\<ge>M. g (flow_interp C n) st1 = Some (Ret st2)"
    using assms by (auto simp: settles_def)
  then show ?thesis by (auto simp: settles_def intro!: exI [of _ "max N M"])
qed

lemma settles_Suc:
  assumes "settles C (\<lambda>call. case c of Task t \<Rightarrow> run_task C call t | Drain \<Rightarrow> flow_drain call) st st'"
  shows "settles C (\<lambda>call. call c) st st'"
proof -
  obtain N where "\<forall>n\<ge>N. (case c of Task t \<Rightarrow> run_task C (flow_interp C n) t | Drain \<Rightarrow> flow_drain (flow_interp C n)) st = Some (Ret st')"
    using assms by (auto simp: settles_def)
  then have "flow_interp C n c st = Some (Ret st')" if "Suc N \<le> n" for n
    using that by (cases n) (auto split: flow_code.splits)
  then show ?thesis unfolding settles_def by blast
qed

lemma settles_task: "settles C (\<lambda>call. run_task C call t) st st' \<Longrightarrow> settles C (\<lambda>call. call (Task t)) st st'"
  by (rule settles_Suc) simp

lemma settles_drain: "settles C flow_drain st st' \<Longrightarrow> settles C (\<lambda>call. call Drain) st st'"
  by (rule settles_Suc) simp

section \<open>The state and the protocol\<close>

definition phase_of :: "('s, 'v) user_flow \<Rightarrow> phase" where
  "phase_of st = (if \<not> ff_started st then Before else if ff_done st then Over else if ff_stop st then Stopped else Running)"

fun credit :: "flow_task \<Rightarrow> nat" where
  "credit (Request n) = nat n"
| "credit _ = 0"

definition queued :: "('s, 'v, 'z) flow_from_scheme \<Rightarrow> nat" where
  "queued st = sum_list (map credit (ff_tasks st))"

definition requested :: "'v flow_event list \<Rightarrow> bool" where
  "requested es \<longleftrightarrow> (\<exists>n. Asked n \<in> set es \<and> 1 \<le> n)"

lemma requested_simps [simp]:
  "\<not> requested []" "requested (es @ [e]) \<longleftrightarrow> requested es \<or> (\<exists>n. e = Asked n \<and> 1 \<le> n)"
  "requested (es @ [Raised, Errored]) \<longleftrightarrow> requested es"
  by (auto simp: requested_def)

text \<open>
  What was observed is a run of the protocol to where the state is, and what was requested and not yet
  sent is in the executor's tasks or, \<open>p\<close> values of it, in the loops of requests that are under way.
\<close>

definition follows :: "'v list \<Rightarrow> nat \<Rightarrow> ('s, 'v) user_flow \<Rightarrow> bool" where
  "follows xs p st \<longleftrightarrow> ff_started st \<and> ff_stop st = uf_closed st \<and> (Finish \<in> set (ff_tasks st) \<longrightarrow> ff_stop st) \<and>
     Start \<notin> set (ff_tasks st) \<and> (\<forall>n. Request n \<in> set (ff_tasks st) \<longrightarrow> 0 < n \<and> requested (uf_log st)) \<and>
     (\<exists>a k. spec_run xs (uf_log st) = Some (phase_of st, a, k) \<and>
        (phase_of st = Running \<longrightarrow> k \<le> length xs \<and> ff_left st = drop k xs \<and> a = k + p + queued st))"

text \<open>A stopped flow has a task that will end it; a flow at the end of its range has a request that will notice it.\<close>

definition ending :: "('s, 'v) user_flow \<Rightarrow> bool" where
  "ending st \<longleftrightarrow> (phase_of st = Stopped \<longrightarrow> Finish \<in> set (ff_tasks st))"

definition noticed :: "('s, 'v) user_flow \<Rightarrow> bool" where
  "noticed st \<longleftrightarrow> (phase_of st = Running \<longrightarrow> ff_left st \<noteq> [] \<or> 0 < queued st \<or> \<not> requested (uf_log st))"

text \<open>How many more calls of the receiver's functions there can be.\<close>

definition rank :: "('s, 'v) user_flow \<Rightarrow> nat" where
  "rank st = length (ff_left st) + (if ff_started st then 0 else 1) + (if ff_done st then 0 else 1)"

definition onward :: "('s, 'v) user_flow \<Rightarrow> ('s, 'v) user_flow \<Rightarrow> bool" where
  "onward st st' \<longleftrightarrow> rank st' \<le> rank st \<and> (\<exists>new. ff_tasks st' = ff_tasks st @ new) \<and>
     (requested (uf_log st) \<longrightarrow> requested (uf_log st')) \<and> (ending st \<longrightarrow> ending st') \<and> (ff_done st \<longrightarrow> ff_done st')"

lemma onward_refl [simp]: "onward st st"
  by (simp add: onward_def)

lemma onward_trans: "onward st st1 \<Longrightarrow> onward st1 st2 \<Longrightarrow> onward st st2"
  by (auto simp: onward_def)

definition idle :: "('s, 'v) user_flow \<Rightarrow> ('s, 'v) user_flow \<Rightarrow> bool" where
  "idle st st' \<longleftrightarrow> rank st' < rank st \<or> ff_tasks st' = ff_tasks st"

fun runnable :: "'v list \<Rightarrow> flow_task \<Rightarrow> nat \<Rightarrow> ('s, 'v) user_flow \<Rightarrow> bool" where
  "runnable xs Start p st \<longleftrightarrow> (\<exists>s k. st = (user_flow_new xs s)\<lparr>ff_submits := k\<rparr>) \<and> p = 0"
| "runnable xs (Request n) p st \<longleftrightarrow> 0 < n \<and> requested (uf_log st) \<and> follows xs (p + nat n) st"
| "runnable xs Finish p st \<longleftrightarrow> ff_stop st \<and> follows xs p st"

definition done_task :: "'v list \<Rightarrow> flow_task \<Rightarrow> nat \<Rightarrow> ('s, 'v) user_flow \<Rightarrow> ('s, 'v) user_flow \<Rightarrow> bool" where
  "done_task xs t p st st' \<longleftrightarrow> follows xs p st' \<and> onward st st' \<and> noticed st' \<and> idle st st' \<and> (t = Finish \<longrightarrow> ff_done st')"

text \<open>Every task returns that starts with fewer than \<open>m\<close> calls to go.\<close>

definition tasks_return :: "(nat \<Rightarrow> bool) \<Rightarrow> ('s, 'v, 'e) user_fns \<Rightarrow> 'v list \<Rightarrow> nat \<Rightarrow> bool" where
  "tasks_return policy U xs m \<longleftrightarrow>
     (\<forall>t p st. rank st < m \<longrightarrow> runnable xs t p st \<longrightarrow>
        (\<exists>st'. settles (user_receiver policy U) (\<lambda>call. call (Task t)) st st' \<and> done_task xs t p st st'))"

lemma phase_frame [simp]:
  "phase_of (st\<lparr>ff_submits := i\<rparr>) = phase_of st" "phase_of (st\<lparr>ff_tasks := ts\<rparr>) = phase_of st"
  "phase_of (st\<lparr>ff_out := s\<rparr>) = phase_of st" "phase_of (observe e st) = phase_of st"
  "phase_of (st\<lparr>ff_left := ys\<rparr>) = phase_of st"
  by (simp_all add: phase_of_def observe_def)

lemma observe_sel [simp]:
  "ff_left (observe e st) = ff_left st" "ff_stop (observe e st) = ff_stop st" "ff_started (observe e st) = ff_started st"
  "ff_done (observe e st) = ff_done st" "ff_out (observe e st) = ff_out st" "ff_tasks (observe e st) = ff_tasks st"
  "ff_submits (observe e st) = ff_submits st" "uf_closed (observe e st) = uf_closed st"
  "uf_log (observe e st) = uf_log st @ [e]" "queued (observe e st) = queued st" "rank (observe e st) = rank st"
  by (simp_all add: observe_def queued_def rank_def)

lemma user_receiver_sel [simp]:
  "c_starting (user_receiver policy U) = user_starting policy U" "c_value (user_receiver policy U) = user_value policy U"
  "c_error (user_receiver policy U) = user_error policy U" "c_done (user_receiver policy U) = user_done policy U"
  by (simp_all add: user_receiver_def)

section \<open>Calls on \<open>up\<close>\<close>

text \<open>A submission of a task that is runnable: it runs at once, or waits.\<close>

lemma submit_settles:
  assumes "tasks_return policy U xs m" "rank st < m" "runnable xs t p (st\<lparr>ff_submits := Suc (ff_submits st)\<rparr>)" "t \<noteq> Start"
  shows "\<exists>st'. settles (user_receiver policy U) (\<lambda>call. flow_submit policy call t) st st' \<and> follows xs p st' \<and>
    rank st' \<le> rank st \<and> (\<exists>new. ff_tasks st' = ff_tasks st @ new) \<and> (requested (uf_log st) \<longrightarrow> requested (uf_log st')) \<and>
    noticed st' \<and> (t = Finish \<or> ending st \<longrightarrow> ending st') \<and> (ff_done st \<longrightarrow> ff_done st')"
proof (cases "policy (ff_submits st)")
  case True
  let ?st = "st\<lparr>ff_submits := Suc (ff_submits st)\<rparr>"
  have r: "rank ?st = rank st" "ending ?st = ending st" by (simp_all add: rank_def ending_def)
  obtain st' where st': "settles (user_receiver policy U) (\<lambda>call. call (Task t)) ?st st'" "done_task xs t p ?st st'"
    using assms(1) [unfolded tasks_return_def, rule_format, OF _ assms(3)] assms(2) unfolding r(1) by blast
  have "settles (user_receiver policy U) (\<lambda>call. flow_submit policy call t) st st'"
    by (rule settles_cong [OF _ st'(1)]) (simp add: flow_submit_def True)
  moreover have "rank st' \<le> rank st" "\<exists>new. ff_tasks st' = ff_tasks st @ new" "requested (uf_log st) \<longrightarrow> requested (uf_log st')"
      "ending st \<longrightarrow> ending st'" "ff_done st \<longrightarrow> ff_done st'"
    using st'(2) r by (simp_all add: done_task_def onward_def)
  moreover have "ending st'" if "t = Finish"
    using st'(2) that by (simp add: done_task_def ending_def phase_of_def)
  ultimately show ?thesis using st'(2) by (intro exI [of _ st']) (simp add: done_task_def)
next
  case False
  let ?st' = "st\<lparr>ff_submits := Suc (ff_submits st), ff_tasks := ff_tasks st @ [t]\<rparr>"
  have "settles (user_receiver policy U) (\<lambda>call. flow_submit policy call t) st ?st'"
    by (rule settlesI) (simp add: flow_submit_def False)
  moreover have "follows xs p ?st'"
    using assms(3,4) by (cases t) (auto simp: follows_def queued_def)
  moreover have "0 < queued ?st'" if "t \<noteq> Finish"
    using assms(3,4) that by (cases t) (auto simp: queued_def)
  ultimately show ?thesis by (intro exI [of _ ?st']) (use assms(3,4) in \<open>cases t; auto simp: rank_def ending_def noticed_def phase_of_def\<close>)
qed

definition served :: "'v list \<Rightarrow> nat \<Rightarrow> ('s, 'v) user_flow \<Rightarrow> ('s, 'v) user_flow \<Rightarrow> bool" where
  "served xs p st st' \<longleftrightarrow> follows xs p st' \<and> onward st st' \<and> (noticed st \<longrightarrow> noticed st')"

lemma served_trans: "served xs p st st1 \<Longrightarrow> served xs p st1 st2 \<Longrightarrow> served xs p st st2"
  by (auto simp: served_def intro: onward_trans)

lemma follows_frame [simp]:
  "follows xs p (st\<lparr>ff_submits := i\<rparr>) = follows xs p st" "follows xs p (st\<lparr>ff_out := s\<rparr>) = follows xs p st"
  by (simp_all add: follows_def queued_def)

lemma follows_asked:
  "follows xs p st \<Longrightarrow> \<not> uf_closed st \<Longrightarrow> follows xs (p + nat n) (observe (Asked n) st)"
  by (auto simp: follows_def spec_run_snoc phase_of_def observe_def queued_def)

lemma follows_stopped:
  "follows xs p st \<Longrightarrow> \<not> uf_closed st \<Longrightarrow> e \<in> {Cancelled, Aborted} \<Longrightarrow>
   follows xs p ((observe e (st\<lparr>uf_closed := True\<rparr>))\<lparr>ff_stop := True\<rparr>)"
  by (auto simp: follows_def spec_run_snoc phase_of_def observe_def queued_def)

lemma stop_settles:
  assumes "tasks_return policy U xs m" "rank st < m" "follows xs p st" "\<not> uf_closed st" "e \<in> {Cancelled, Aborted}"
  shows "\<exists>st'. settles (user_receiver policy U)
      (\<lambda>call. flow_submit policy call Finish) ((observe e (st\<lparr>uf_closed := True\<rparr>))\<lparr>ff_stop := True\<rparr>) st' \<and> served xs p st st'"
proof -
  let ?st = "(observe e (st\<lparr>uf_closed := True\<rparr>))\<lparr>ff_stop := True\<rparr>"
  have "rank ?st = rank st" "ff_tasks ?st = ff_tasks st" by (simp_all add: rank_def)
  then show ?thesis
    using submit_settles [OF assms(1), of ?st Finish p] follows_stopped [OF assms(3-5)] assms(2)
    by (auto simp: served_def onward_def)
qed

lemma up_settles:
  assumes "tasks_return policy U xs m" "rank st < m" "follows xs p st"
  shows "\<exists>st'. settles (user_receiver policy U) (\<lambda>call. up_signal policy call c) st st' \<and> served xs p st st'"
proof (cases "uf_closed st")
  case True
  have "settles (user_receiver policy U) (\<lambda>call. up_signal policy call c) st st"
    by (rule settlesI) (simp add: up_signal_def True)
  then show ?thesis using assms(3) by (auto simp: served_def)
next
  case opened: False
  show ?thesis
  proof (cases c)
    case (Ask n)
    let ?st = "observe (Asked n) st"
    have f: "follows xs (p + nat n) ?st" using follows_asked [OF assms(3) opened] .
    have same: "ending ?st = ending st" by (simp add: ending_def)
    show ?thesis
    proof (cases "n < 1")
      case True
      have "settles (user_receiver policy U) (\<lambda>call. up_signal policy call c) st ?st"
        by (rule settlesI) (simp add: up_signal_def opened Ask up_value_def True)
      moreover have "served xs p st ?st"
        using f True same by (auto simp: served_def onward_def noticed_def)
      ultimately show ?thesis by blast
    next
      case False
      then obtain st' where st': "settles (user_receiver policy U) (\<lambda>call. flow_submit policy call (Request n)) ?st st'"
          "follows xs p st'" "rank st' \<le> rank ?st" "\<exists>new. ff_tasks st' = ff_tasks ?st @ new"
          "requested (uf_log ?st) \<longrightarrow> requested (uf_log st')" "noticed st'" "ending ?st \<longrightarrow> ending st'" "ff_done ?st \<longrightarrow> ff_done st'"
        using submit_settles [OF assms(1), of ?st "Request n" p] assms(2) f by auto
      have "settles (user_receiver policy U) (\<lambda>call. up_signal policy call c) st st'"
        by (rule settles_cong [OF _ st'(1)]) (simp add: up_signal_def opened Ask up_value_def False)
      then show ?thesis using st'(2-8) same by (auto simp: served_def onward_def)
    qed
  next
    case Cancel
    obtain st' where st': "settles (user_receiver policy U) (\<lambda>call. flow_submit policy call Finish)
        ((observe Cancelled (st\<lparr>uf_closed := True\<rparr>))\<lparr>ff_stop := True\<rparr>) st'" "served xs p st st'"
      using stop_settles [OF assms opened, of Cancelled] by auto
    have "settles (user_receiver policy U) (\<lambda>call. up_signal policy call c) st st'"
      by (rule settles_cong [OF _ st'(1)]) (simp add: up_signal_def opened Cancel up_done_def)
    then show ?thesis using st'(2) by blast
  next
    case Fail
    obtain st' where st': "settles (user_receiver policy U) (\<lambda>call. flow_submit policy call Finish)
        ((observe Aborted (st\<lparr>uf_closed := True\<rparr>))\<lparr>ff_stop := True\<rparr>) st'" "served xs p st st'"
      using stop_settles [OF assms opened, of Aborted] by auto
    have "settles (user_receiver policy U) (\<lambda>call. up_signal policy call c) st st'"
      by (rule settles_cong [OF _ st'(1)]) (simp add: up_signal_def opened Fail up_error_def)
    then show ?thesis using st'(2) by blast
  qed
qed

section \<open>The functions of the receiver\<close>

text \<open>A body returns, or throws if it may.\<close>

definition body_ends :: "(nat \<Rightarrow> bool) \<Rightarrow> ('s, 'v, 'e) user_fns \<Rightarrow> 's handler \<Rightarrow> ('s, 'v) user_flow \<Rightarrow> ('s, 'v) user_flow \<Rightarrow> bool" where
  "body_ends policy U h st st' \<longleftrightarrow>
     settles (user_receiver policy U) (\<lambda>call. run_handler policy call h) st st' \<or>
     \<not> handler_nothrow h \<and> (\<exists>k. throws (user_receiver policy U) (\<lambda>call. run_handler policy call h) st k st')"

lemma body_ends_cong:
  assumes "\<And>call. run_handler policy call h st = run_handler policy call h0 st0" "handler_nothrow h \<longrightarrow> handler_nothrow h0"
    and "body_ends policy U h0 st0 st'"
  shows "body_ends policy U h st st'"
  using assms by (auto simp: body_ends_def settles_def throws_def)

lemma body_settles: "body_ends policy U h st st' \<Longrightarrow> handler_nothrow h \<Longrightarrow>
    settles (user_receiver policy U) (\<lambda>call. run_handler policy call h) st st'"
  by (simp add: body_ends_def)

lemma handler_settles:
  assumes "tasks_return policy U xs m"
  shows "rank st < m \<Longrightarrow> follows xs p st \<Longrightarrow> \<exists>st'. body_ends policy U h st st' \<and> served xs p st st'"
proof (induction h arbitrary: st)
  case Return
  have "body_ends policy U Return st st"
    unfolding body_ends_def by (rule disjI1, rule settlesI) simp
  moreover have "served xs p st st" using Return.prems by (simp add: served_def)
  ultimately show ?case by blast
next
  case (Throw k)
  have "body_ends policy U (Throw k) st st"
    by (simp add: body_ends_def throws_def)
  moreover have "served xs p st st" using Throw.prems by (simp add: served_def)
  ultimately show ?case by blast
next
  case (Update f h)
  let ?st = "st\<lparr>ff_out := f (ff_out st)\<rparr>"
  have same: "rank ?st = rank st" "served xs p ?st = served xs p st"
    by (auto simp: rank_def fun_eq_iff served_def onward_def ending_def noticed_def queued_def)
  obtain st' where st': "body_ends policy U h ?st st'" "served xs p ?st st'"
    using Update.IH [of ?st] Update.prems same(1) by auto
  have "body_ends policy U (Update f h) st st'" by (rule body_ends_cong [OF _ _ st'(1)]) simp_all
  then show ?case using same(2) st'(2) by auto
next
  case (Look g)
  obtain st' where st': "body_ends policy U (g (ff_out st)) st st'" "served xs p st st'"
    using Look.IH [OF rangeI, of st] Look.prems by blast
  have "body_ends policy U (Look g) st st'" by (rule body_ends_cong [OF _ _ st'(1)]) simp_all
  then show ?case using st'(2) by blast
next
  case (Up c h)
  obtain st1 where st1: "settles (user_receiver policy U) (\<lambda>call. up_signal policy call c) st st1" "served xs p st st1"
    using up_settles [OF assms Up.prems] by blast
  then have "rank st1 < m" "follows xs p st1" using Up.prems by (simp_all add: served_def onward_def)
  then obtain st' where st': "body_ends policy U h st1 st'" "served xs p st1 st'"
    using Up.IH by blast
  have eq: "run_handler policy call (Up c h) = (\<lambda>st. case up_signal policy call c st of
      Some (Ret st') \<Rightarrow> run_handler policy call h st' | r \<Rightarrow> r)" for call by (rule ext) simp
  have "body_ends policy U (Up c h) st st'"
    using st'(1) settles_then [OF st1(1)] settles_throws [OF st1(1)] unfolding body_ends_def eq by fastforce
  then show ?case using served_trans [OF st1(2) st'(2)] by blast
qed

text \<open>A flow that is over stays so, whatever is observed of the receiver.\<close>

lemma follows_over: "follows xs p st \<Longrightarrow> ff_done st \<Longrightarrow> follows xs q st"
  by (auto simp: follows_def phase_of_def)

lemma served_over: "follows xs p st' \<Longrightarrow> onward st st' \<Longrightarrow> ff_done st' \<Longrightarrow> served xs q st st'"
  using follows_over by (auto simp: served_def noticed_def phase_of_def)

text \<open>The error that follows an exception.\<close>

lemma error_settles:
  assumes "tasks_return policy U xs m" "rank st \<le> m" "follows xs p st" "errors_nothrow U"
  shows "\<exists>st'. settles (user_receiver policy U) (\<lambda>call. user_error policy U call e) (observe Raised st) st' \<and>
    served xs q st st' \<and> ff_done st'"
proof (cases "ff_done st")
  case True
  have "settles (user_receiver policy U) (\<lambda>call. user_error policy U call e) (observe Raised st) (observe Raised st)"
    by (rule settlesI) (use assms(3) True in \<open>simp add: user_error_def follows_def\<close>)
  moreover have "follows xs p (observe Raised st)" "onward st (observe Raised st)"
    using assms(3) True by (auto simp: follows_def spec_run_snoc phase_of_def onward_def ending_def)
  ultimately show ?thesis using served_over [of xs p "observe Raised st" st q] True by auto
next
  case False
  let ?st = "observe Errored ((observe Raised st)\<lparr>ff_done := True\<rparr>)"
  have f: "follows xs p ?st" "onward st ?st" "rank ?st < rank st"
    using assms(3) False
    by (auto simp: follows_def spec_run_snoc spec_run_two phase_of_def onward_def ending_def rank_def observe_def queued_def split: if_splits)
  then have m: "rank ?st < m" using assms(2) by simp
  obtain st' where st': "body_ends policy U (u_error U e) ?st st'" "served xs p ?st st'"
    using handler_settles [OF assms(1) m f(1)] by blast
  have run: "settles (user_receiver policy U) (\<lambda>call. run_handler policy call (u_error U e)) ?st st'"
    using body_settles [OF st'(1)] assms(4) by (simp add: errors_nothrow_def)
  have started: "ff_started st" using assms(3) by (simp add: follows_def)
  have "settles (user_receiver policy U) (\<lambda>call. user_error policy U call e) (observe Raised st) st'"
  proof -
    obtain N where N: "\<forall>n\<ge>N. run_handler policy (flow_interp (user_receiver policy U) n) (u_error U e) ?st = Some (Ret st')"
      using run by (auto simp: settles_def)
    show ?thesis
      unfolding settles_def by (rule exI [of _ N]) (simp add: N user_error_def started False)
  qed
  moreover have "onward st st'" "ff_done st'" "follows xs p st'"
    using st'(2) onward_trans [OF f(2)] by (simp_all add: served_def) (simp add: onward_def observe_def)
  ultimately show ?thesis using served_over by blast
qed

text \<open>A function of the receiver, with the handler of its exceptions.\<close>

lemma caught_settles:
  assumes "tasks_return policy U xs m" "rank st < m" "follows xs p st" "errors_nothrow U"
  shows "\<exists>st'. settles (user_receiver policy U) (\<lambda>call st. user_catch policy U call (run_handler policy call h st)) st st' \<and>
    served xs p st st'"
proof -
  obtain st1 where st1: "body_ends policy U h st st1" "served xs p st st1"
    using handler_settles [OF assms(1-3)] by blast
  from st1(1) consider (ret) "settles (user_receiver policy U) (\<lambda>call. run_handler policy call h) st st1"
    | (thr) k where "throws (user_receiver policy U) (\<lambda>call. run_handler policy call h) st k st1"
    by (auto simp: body_ends_def)
  then show ?thesis
  proof cases
    case ret
    then obtain N where N: "\<forall>n\<ge>N. run_handler policy (flow_interp (user_receiver policy U) n) h st = Some (Ret st1)"
      by (auto simp: settles_def)
    have "settles (user_receiver policy U) (\<lambda>call st. user_catch policy U call (run_handler policy call h st)) st st1"
      unfolding settles_def by (rule exI [of _ N]) (simp add: N user_catch_def)
    then show ?thesis using st1(2) by blast
  next
    case thr
    have m: "rank st1 \<le> m" "follows xs p st1" using st1(2) assms(2) by (simp_all add: served_def onward_def)
    obtain st' where st': "settles (user_receiver policy U) (\<lambda>call. user_error policy U call (Eptr (Exn k))) (observe Raised st1) st'"
        "served xs p st1 st'"
      using error_settles [OF assms(1) m assms(4)] by blast
    obtain N M where N: "\<forall>n\<ge>N. run_handler policy (flow_interp (user_receiver policy U) n) h st = Some (Thr k st1)"
        "\<forall>n\<ge>M. user_error policy U (flow_interp (user_receiver policy U) n) (Eptr (Exn k)) (observe Raised st1) = Some (Ret st')"
      using thr st'(1) by (auto simp: settles_def throws_def)
    have "settles (user_receiver policy U) (\<lambda>call st. user_catch policy U call (run_handler policy call h st)) st st'"
      unfolding settles_def by (rule exI [of _ "max N M"]) (simp add: N user_catch_def)
    then show ?thesis using served_trans [OF st1(2) st'(2)] by blast
  qed
qed

text \<open>A value of the loop of a request, of which \<open>j\<close> are left after it.\<close>

lemma value_settles:
  assumes "tasks_return policy U xs m" "rank st \<le> m" "follows xs (p + Suc j) st" "\<not> ff_stop st" "ff_left st = y # ys" "errors_nothrow U"
  shows "\<exists>st'. settles (user_receiver policy U) (\<lambda>call. user_value policy U call y) (st\<lparr>ff_left := ys\<rparr>) st' \<and>
    follows xs (p + j) st' \<and> onward st st' \<and> rank st' < rank st"
proof -
  let ?st = "st\<lparr>ff_left := ys\<rparr>"
  have started: "ff_started st" using assms(3) by (simp add: follows_def)
  have r: "rank ?st < rank st" using assms(5) by (simp add: rank_def)
  show ?thesis
  proof (cases "ff_done st")
    case True
    have "settles (user_receiver policy U) (\<lambda>call. user_value policy U call y) ?st ?st"
      by (rule settlesI) (simp add: user_value_def started True)
    moreover have "follows xs (p + j) ?st" "onward st ?st"
      using assms(3) True r by (auto simp: follows_def phase_of_def queued_def onward_def ending_def)
    ultimately show ?thesis using r by blast
  next
    case False
    let ?st1 = "observe (Got y) ?st"
    have run: "phase_of st = Running" using assms(4) started False by (simp add: phase_of_def)
    then obtain k where k: "spec_run xs (uf_log st) = Some (Running, k + (p + Suc j) + queued st, k)" "ff_left st = drop k xs"
      using assms(3) by (auto simp: follows_def)
    have "k < length xs" using k(2) assms(5) by (cases "k < length xs") simp_all
    with k(2) have y: "k < length xs" "xs ! k = y" "ys = drop (Suc k) xs"
      using assms(5) by (simp_all add: Cons_nth_drop_Suc [symmetric])
    have q: "queued ?st = queued st" by (simp add: queued_def)
    have f: "follows xs (p + j) ?st1"
      using assms(3) run k y q by (auto simp: follows_def spec_run_snoc)
    have m: "rank ?st1 < m" using assms(2) r by simp
    obtain st' where st': "settles (user_receiver policy U) (\<lambda>call st. user_catch policy U call (run_handler policy call (u_value U y) st)) ?st1 st'"
        "served xs (p + j) ?st1 st'"
      using caught_settles [OF assms(1) m f assms(6)] by blast
    have "settles (user_receiver policy U) (\<lambda>call. user_value policy U call y) ?st st'"
      by (rule settles_cong [OF _ st'(1)]) (simp add: user_value_def started False)
    then show ?thesis using st'(2) r by (auto simp: served_def onward_def ending_def)
  qed
qed

section \<open>The tasks\<close>

text \<open>The loop leaves \<open>j'\<close> values unsent, if it was stopped or the range is at its end; a call of the receiver lowers the rank.\<close>

lemma loop_settles:
  assumes "tasks_return policy U xs m" "errors_nothrow U"
  shows "rank st \<le> m \<Longrightarrow> follows xs (p + j) st \<Longrightarrow>
    \<exists>st' j'. settles (user_receiver policy U) (\<lambda>call. request_loop (user_receiver policy U) call j) st st' \<and>
      follows xs (p + j') st' \<and> (j' = 0 \<or> ff_stop st' \<or> ff_left st' = []) \<and> onward st st' \<and> (st' = st \<or> rank st' < rank st)"
proof (induction j arbitrary: st)
  case 0
  have "settles (user_receiver policy U) (\<lambda>call. request_loop (user_receiver policy U) call 0) st st"
    by (rule settlesI) simp
  then show ?case using 0 by (intro exI [of _ st] exI [of _ "0 :: nat"]) (simp del: request_loop.simps)
next
  case (Suc j)
  show ?case
  proof (cases "ff_stop st \<or> ff_left st = []")
    case True
    then have "settles (user_receiver policy U) (\<lambda>call. request_loop (user_receiver policy U) call (Suc j)) st st"
      by (intro settlesI) auto
    then show ?thesis using Suc.prems True by (intro exI [of _ st] exI [of _ "Suc j"]) (simp del: request_loop.simps)
  next
    case False
    then obtain y ys where y: "ff_left st = y # ys" "\<not> ff_stop st" by (auto simp: neq_Nil_conv)
    obtain st1 where st1: "settles (user_receiver policy U) (\<lambda>call. user_value policy U call y) (st\<lparr>ff_left := ys\<rparr>) st1"
        "follows xs (p + j) st1" "onward st st1" "rank st1 < rank st"
      using value_settles [OF assms(1) Suc.prems y(2,1) assms(2)] by blast
    have "rank st1 \<le> m" using st1(4) Suc.prems(1) by simp
    then obtain st' j' where st': "settles (user_receiver policy U) (\<lambda>call. request_loop (user_receiver policy U) call j) st1 st'"
        "follows xs (p + j') st'" "j' = 0 \<or> ff_stop st' \<or> ff_left st' = []" "onward st1 st'" "st' = st1 \<or> rank st' < rank st1"
      using Suc.IH [OF _ st1(2)] by blast
    have "settles (user_receiver policy U) (\<lambda>call. request_loop (user_receiver policy U) call (Suc j)) st st'"
      by (rule settles_cong [OF _ settles_then [OF st1(1) st'(1)]]) (simp add: y cong: option.case_cong outcome.case_cong)
    moreover have "rank st' < rank st" using st1(4) st'(5) by auto
    ultimately show ?thesis using st'(2,3) onward_trans [OF st1(3) st'(4)] by blast
  qed
qed

lemma spec_asked:
  "spec_run xs es = Some (ph, a, k) \<Longrightarrow> 0 < a \<longleftrightarrow> requested es"
proof (induction es arbitrary: ph a k rule: rev_induct)
  case (snoc e es)
  then obtain ph' a' k' where q: "spec_run xs es = Some (ph', a', k')" "spec_step xs (ph', a', k') e = Some (ph, a, k)"
    by (auto simp: spec_run_snoc bind_eq_Some_conv)
  from q(2) have "a = a' + (case e of Asked n \<Rightarrow> nat n | _ \<Rightarrow> 0)"
    by (cases ph'; cases e) (auto split: if_splits)
  then show ?case using snoc.IH [OF q(1)] by (cases e) (auto simp: requested_def)
qed (simp add: spec_run_Nil requested_def)

text \<open>Done, when it is called: the range is at its end and something was requested, or the flow was stopped.\<close>

lemma done_settles:
  assumes "tasks_return policy U xs m" "rank st \<le> m" "errors_nothrow U"
    and "follows xs p st" "ff_stop st \<or> (ff_left st = [] \<and> requested (uf_log st))"
  shows "\<exists>st'. settles (user_receiver policy U) (\<lambda>call. user_done policy U call) st st' \<and> follows xs q st' \<and> onward st st' \<and> ff_done st' \<and>
    (st' = st \<or> rank st' < rank st)"
proof (cases "ff_done st")
  case True
  have "settles (user_receiver policy U) (\<lambda>call. user_done policy U call) st st"
    using assms(4) by (intro settlesI) (simp add: user_done_def True follows_def)
  moreover have "follows xs q st" using follows_over [OF assms(4) True] .
  ultimately show ?thesis using True by (intro exI [of _ st]) simp
next
  case False
  let ?st = "observe Finished (st\<lparr>ff_done := True\<rparr>)"
  have f: "follows xs q ?st"
    using assms(4,5) False spec_asked [of xs "uf_log st"]
    by (fastforce simp: follows_def phase_of_def spec_run_snoc queued_def split: if_splits)
  have on: "onward st ?st" "rank ?st < rank st"
    using False by (auto simp: onward_def rank_def ending_def phase_of_def)
  then have m: "rank ?st < m" using assms(2) by simp
  obtain st' where st': "settles (user_receiver policy U)
      (\<lambda>call st. user_catch policy U call (run_handler policy call (u_done U) st)) ?st st'" "served xs q ?st st'"
    using caught_settles [OF assms(1) m f assms(3)] by blast
  have started: "ff_started st" using assms(4) by (simp add: follows_def)
  have "settles (user_receiver policy U) (\<lambda>call. user_done policy U call) st st'"
    by (rule settles_cong [OF _ st'(1)]) (simp add: user_done_def started False)
  moreover have "follows xs q st'" "onward ?st st'" using st'(2) by (simp_all add: served_def)
  moreover have "ff_done st'" "rank st' < rank st" using \<open>onward ?st st'\<close> on(2) by (simp_all add: onward_def)
  ultimately show ?thesis using onward_trans [OF on(1)] by blast
qed

lemma request_settles:
  assumes "tasks_return policy U xs m" "rank st \<le> m" "runnable xs (Request n) p st" "errors_nothrow U"
  shows "\<exists>st'. settles (user_receiver policy U) (\<lambda>call. flow_request (user_receiver policy U) call n) st st' \<and>
    done_task xs (Request n) p st st'"
proof -
  let ?C = "user_receiver policy U"
  obtain st1 j where st1: "settles ?C (\<lambda>call. request_loop ?C call (nat n)) st st1" "follows xs (p + j) st1"
      "j = 0 \<or> ff_stop st1 \<or> ff_left st1 = []" "onward st st1" "st1 = st \<or> rank st1 < rank st"
    using loop_settles [OF assms(1,4,2), of p "nat n"] assms(3) by auto
  let ?close = "\<lambda>call st'. if ff_left st' = [] then user_done policy U call st' else Some (Ret st')"
  have run: "settles ?C (\<lambda>call. flow_request ?C call n) st st2" if "settles ?C ?close st1 st2" for st2
    by (rule settles_cong [OF _ settles_then [OF st1(1) that]]) (simp add: flow_request_def split: option.split outcome.split)
  show ?thesis
  proof (cases "ff_left st1 = []")
    case True
    have "requested (uf_log st1)" using assms(3) st1(4) by (simp add: onward_def)
    then obtain st2 where st2: "settles ?C (\<lambda>call. user_done policy U call) st1 st2" "follows xs p st2" "onward st1 st2" "ff_done st2"
        "st2 = st1 \<or> rank st2 < rank st1"
      using done_settles [OF assms(1) _ assms(4) st1(2), of p] True assms(2) st1(4) by (auto simp: onward_def)
    have "settles ?C (\<lambda>call. flow_request ?C call n) st st2"
      by (rule run, rule settles_cong [OF _ st2(1)]) (simp add: True)
    moreover have "idle st st2" using st1(5) st2(5) by (auto simp: idle_def)
    ultimately show ?thesis using st2(2,4) onward_trans [OF st1(4) st2(3)]
      by (auto simp: done_task_def noticed_def phase_of_def)
  next
    case False
    have "settles ?C (\<lambda>call. flow_request ?C call n) st st1"
      by (rule run, rule settlesI) (simp add: False)
    moreover have "follows xs p st1"
      using st1(2,3) False by (cases "j = 0") (auto simp: follows_def phase_of_def)
    ultimately show ?thesis using st1(4,5) False by (auto simp: done_task_def noticed_def idle_def)
  qed
qed

lemma start_settles:
  assumes "tasks_return policy U xs m" "rank st \<le> m" "runnable xs Start p st" "errors_nothrow U"
  shows "\<exists>st'. settles (user_receiver policy U) (\<lambda>call. user_starting policy U call) st st' \<and> done_task xs Start p st st'"
proof -
  let ?C = "user_receiver policy U" and ?st = "observe Started (st\<lparr>ff_started := True\<rparr>)"
  obtain s k where st: "st = (user_flow_new xs s)\<lparr>ff_submits := k\<rparr>" "p = 0" using assms(3) by auto
  have start: "follows xs p ?st" "noticed ?st" "\<not> ff_started st" "ff_tasks st = []" "ending ?st"
    by (simp_all add: st user_flow_new_def flow_from.defs flow_from_new_def follows_def noticed_def ending_def requested_def observe_def
        phase_of_def queued_def spec_run_def)
  have "rank st = Suc (rank ?st)" using start(3) by (simp add: rank_def)
  then have m: "rank ?st < m" using assms(2) by simp
  obtain st' where st': "settles ?C (\<lambda>call st. user_catch policy U call (run_handler policy call (u_starting U) st)) ?st st'"
      "served xs p ?st st'"
    using caught_settles [OF assms(1) m start(1) assms(4)] by blast
  have "settles ?C (\<lambda>call. user_starting policy U call) st st'"
    by (rule settles_cong [OF _ st'(1)]) (simp add: user_starting_def start(3))
  moreover have "rank st' < rank st" "follows xs p st'" "noticed st'" "ending st'"
    using st'(2) start(1,2,5) \<open>rank st = _\<close> by (simp_all add: served_def onward_def)
  moreover have "onward st st'"
    using calculation start(4) by (simp add: onward_def st user_flow_new_def flow_from.defs flow_from_new_def)
  ultimately show ?thesis by (auto simp: done_task_def idle_def)
qed

lemma tasks_settle:
  assumes "errors_nothrow U"
  shows "tasks_return policy U xs m"
proof (induction m)
  case 0
  show ?case by (simp add: tasks_return_def)
next
  case (Suc m)
  show ?case unfolding tasks_return_def
  proof (intro allI impI)
    fix t p and st :: "('a, 'b) user_flow"
    assume "rank st < Suc m" and runnable: "runnable xs t p st"
    then have st: "rank st \<le> m" "runnable xs t p st" by simp_all
    have "\<exists>st'. settles (user_receiver policy U) (\<lambda>call. run_task (user_receiver policy U) call t) st st' \<and> done_task xs t p st st'"
    proof (cases t)
      case Start
      then show ?thesis using start_settles [OF Suc.IH st(1) _ assms] st(2) by simp
    next
      case (Request n)
      then show ?thesis using request_settles [OF Suc.IH st(1) _ assms] st(2) by simp
    next
      case Finish
      then obtain st' where "settles (user_receiver policy U) (\<lambda>call. user_done policy U call) st st'" "follows xs p st'" "onward st st'" "ff_done st'"
          "st' = st \<or> rank st' < rank st"
        using done_settles [OF Suc.IH st(1) assms, of p p] st(2) by auto
      then show ?thesis using Finish by (auto simp: done_task_def noticed_def phase_of_def idle_def)
    qed
    then show "\<exists>st'. settles (user_receiver policy U) (\<lambda>call. call (Task t)) st st' \<and> done_task xs t p st st'"
      using settles_task by blast
  qed
qed

section \<open>The executor's loop\<close>

lemma drain_step:
  assumes "ff_tasks st = t # ts" "settles C (\<lambda>call. call (Task t)) (st\<lparr>ff_tasks := ts\<rparr>) st1" "settles C flow_drain st1 st2"
  shows "settles C flow_drain st st2"
proof (rule settles_cong [OF _ settles_then [OF assms(2) settles_drain [OF assms(3)]]])
  show "flow_drain call st = (case call (Task t) (st\<lparr>ff_tasks := ts\<rparr>) of
      Some (Ret st') \<Rightarrow> call Drain st' | r \<Rightarrow> r)" for call
    by (simp add: flow_drain_def assms(1))
qed

definition resting :: "'v list \<Rightarrow> ('s, 'v) user_flow \<Rightarrow> bool" where
  "resting xs st \<longleftrightarrow> follows xs 0 st \<and> ending st \<and> noticed st"

lemma drain_settles:
  assumes "errors_nothrow U"
  shows "resting xs st \<Longrightarrow> \<exists>st'. settles (user_receiver policy U) flow_drain st st' \<and> resting xs st' \<and> ff_tasks st' = []"
proof (induction st rule: wf_induct_rule [OF wf_measures [of "[rank, \<lambda>st. length (ff_tasks st)]"]])
  case (1 st)
  show ?case
  proof (cases "ff_tasks st")
    case Nil
    have "settles (user_receiver policy U) flow_drain st st"
      by (rule settlesI) (simp add: flow_drain_def Nil)
    then show ?thesis using 1(2) Nil by blast
  next
    case (Cons t ts)
    let ?st = "st\<lparr>ff_tasks := ts\<rparr>"
    have t: "runnable xs t 0 ?st"
      using 1(2) Cons by (cases t) (auto simp: resting_def follows_def queued_def)
    obtain st1 where st1: "settles (user_receiver policy U) (\<lambda>call. call (Task t)) ?st st1" "done_task xs t 0 ?st st1"
      using tasks_settle [OF assms, unfolded tasks_return_def, rule_format, OF lessI t] by blast
    have "ending st1"
    proof (cases "t = Finish")
      case False
      then have "ending ?st" using 1(2) Cons by (auto simp: resting_def ending_def)
      then show ?thesis using st1(2) by (simp add: done_task_def onward_def)
    qed (use st1(2) in \<open>simp add: done_task_def ending_def phase_of_def\<close>)
    then have "resting xs st1" using st1(2) by (simp add: done_task_def resting_def)
    moreover have "rank ?st = rank st" by (simp add: rank_def)
    then have "(st1, st) \<in> measures [rank, \<lambda>st. length (ff_tasks st)]"
      using st1(2) Cons by (auto simp: done_task_def idle_def onward_def)
    ultimately obtain st2 where "settles (user_receiver policy U) flow_drain st1 st2" "resting xs st2" "ff_tasks st2 = []"
      using 1(1) by blast
    then show ?thesis using drain_step [OF Cons st1(1)] by blast
  qed
qed

lemma submit_rests:
  assumes "errors_nothrow U"
  shows "\<exists>N st. (\<forall>n\<ge>N. flow_from_submit policy n U xs s = Some (Ret st)) \<and> resting xs st \<and> ff_tasks st = []"
proof -
  let ?C = "user_receiver policy U" and ?st = "(user_flow_new xs s)\<lparr>ff_submits := 1\<rparr>"
  have new: "ff_submits (user_flow_new xs s) = 0" "ff_tasks (user_flow_new xs s) = []"
    by (simp_all add: user_flow_new_def flow_from.defs flow_from_new_def)
  have "runnable xs Start 0 ?st" by auto
  then obtain st1 where st1: "settles ?C (\<lambda>call. call (Task Start)) ?st st1" "done_task xs Start 0 ?st st1"
    using tasks_settle [OF assms, unfolded tasks_return_def, rule_format, OF lessI] by blast
  have "ending ?st" by (simp add: ending_def phase_of_def user_flow_new_def flow_from.defs flow_from_new_def)
  then have "resting xs st1" using st1(2) by (simp add: done_task_def resting_def onward_def)
  then obtain st2 where st2: "settles ?C flow_drain st1 st2" "resting xs st2" "ff_tasks st2 = []"
    using drain_settles [OF assms] by blast
  have "settles ?C (\<lambda>call st. case flow_submit policy call Start st of Some (Ret st) \<Rightarrow> call Drain st | r \<Rightarrow> r)
      (user_flow_new xs s) st2"
  proof (cases "policy 0")
    case True
    show ?thesis
      by (rule settles_cong [OF _ settles_then [OF st1(1) settles_drain [OF st2(1)]]]) (simp add: flow_submit_def new True)
  next
    case False
    let ?queue = "?st\<lparr>ff_tasks := [Start]\<rparr>"
    have "?queue\<lparr>ff_tasks := []\<rparr> = ?st"
      by (simp add: user_flow_new_def flow_from.defs flow_from_new_def)
    then have "settles ?C flow_drain ?queue st2"
      using drain_step [of ?queue Start "[]" ?C st1 st2] st1(1) st2(1) by simp
    from settles_drain [OF this] show ?thesis
      by (rule settles_cong [rotated]) (simp add: flow_submit_def new False)
  qed
  then show ?thesis using st2(2,3)
    by (auto simp: settles_def flow_from_submit_def flow_run_def)
qed

section \<open>Fuel\<close>

text \<open>A run that returns is not changed by more fuel.\<close>

definition less_fuel :: "('st \<Rightarrow> 'st outcome option) \<Rightarrow> ('st \<Rightarrow> 'st outcome option) \<Rightarrow> bool" where
  "less_fuel f g \<longleftrightarrow> (\<forall>st r. f st = Some r \<longrightarrow> g st = Some r)"

lemma less_fuelD: "less_fuel f g \<Longrightarrow> f st = Some r \<Longrightarrow> g st = Some r"
  by (simp add: less_fuel_def)

lemma less_fuel_same [simp]: "less_fuel f f"
  by (simp add: less_fuel_def)

lemma less_fuel_then:
  assumes "less_fuel f f'" "less_fuel g g'"
  shows "less_fuel (\<lambda>st. case f st of Some (Ret st') \<Rightarrow> g st' | r \<Rightarrow> r) (\<lambda>st. case f' st of Some (Ret st') \<Rightarrow> g' st' | r \<Rightarrow> r)"
  using assms by (fastforce simp: less_fuel_def split: option.splits outcome.splits)

locale more_fuel =
  fixes call call' :: "('s, 'v) user_flow flow_caller" and policy :: "nat \<Rightarrow> bool" and U :: "('s, 'v, 'e) user_fns"
  assumes calls: "less_fuel (call c) (call' c)"
begin

lemma submit: "less_fuel (flow_submit policy call t) (flow_submit policy call' t)"
  using less_fuelD [OF calls] by (auto simp: less_fuel_def flow_submit_def Let_def split: if_splits)

lemma up: "less_fuel (up_signal policy call c) (up_signal policy call' c)"
  using less_fuelD [OF submit]
  by (auto simp: less_fuel_def up_signal_def up_value_def up_done_def up_error_def split: up_call.splits if_splits)

lemma handler: "less_fuel (run_handler policy call h) (run_handler policy call' h)"
proof (induction h)
  case (Up c h)
  have eq: "run_handler policy k (Up c h) = (\<lambda>st. case up_signal policy k c st of Some (Ret st') \<Rightarrow> run_handler policy k h st' | r \<Rightarrow> r)"
    for k :: "('s, 'v) user_flow flow_caller"
    by (rule ext) simp
  show ?case unfolding eq by (rule less_fuel_then [OF up Up.IH])
qed (auto simp: less_fuel_def)

lemma err: "less_fuel (user_error policy U call e) (user_error policy U call' e)"
  using less_fuelD [OF handler]
  by (fastforce simp: less_fuel_def user_error_def split: if_splits option.splits outcome.splits)

lemma catch:
  "run_handler policy call h st = r \<Longrightarrow> user_catch policy U call r = Some r' \<Longrightarrow>
   user_catch policy U call' (run_handler policy call' h st) = Some r'"
  using less_fuelD [OF handler, of h st] less_fuelD [OF err]
  by (fastforce simp: user_catch_def split: option.splits outcome.splits)

lemma receiver:
  "less_fuel (user_starting policy U call) (user_starting policy U call')"
  "less_fuel (user_value policy U call v) (user_value policy U call' v)"
  "less_fuel (user_done policy U call) (user_done policy U call')"
  using catch by (auto simp: less_fuel_def user_starting_def user_value_def user_done_def split: if_splits)

lemma loop: "less_fuel (request_loop (user_receiver policy U) call j) (request_loop (user_receiver policy U) call' j)"
proof (induction j)
  case (Suc j)
  have "less_fuel (\<lambda>st. case user_value policy U call x st of Some (Ret st') \<Rightarrow> request_loop (user_receiver policy U) call j st' | r \<Rightarrow> r)
      (\<lambda>st. case user_value policy U call' x st of Some (Ret st') \<Rightarrow> request_loop (user_receiver policy U) call' j st' | r \<Rightarrow> r)" for x
    by (rule less_fuel_then [OF receiver(2) Suc.IH])
  from less_fuelD [OF this] show ?case
    unfolding less_fuel_def request_loop.simps user_receiver_sel by (auto split: list.splits if_splits)
qed simp

lemma run: "less_fuel (run_task (user_receiver policy U) call t) (run_task (user_receiver policy U) call' t)"
proof (cases t)
  case (Request n)
  have eq: "run_task (user_receiver policy U) k t = (\<lambda>st. case request_loop (user_receiver policy U) k (nat n) st of
      Some (Ret st') \<Rightarrow> (\<lambda>st'. if ff_left st' = [] then user_done policy U k st' else Some (Ret st')) st' | r \<Rightarrow> r)"
    for k :: "('s, 'v) user_flow flow_caller"
    by (rule ext) (simp add: Request flow_request_def split: option.split outcome.split)
  have "less_fuel (\<lambda>st'. if ff_left st' = [] then user_done policy U call st' else Some (Ret st'))
      (\<lambda>st'. if ff_left st' = [] then user_done policy U call' st' else Some (Ret st'))"
    using receiver(3) by (simp add: less_fuel_def)
  then show ?thesis unfolding eq by (rule less_fuel_then [OF loop])
qed (simp_all add: receiver)

lemma drain: "less_fuel (flow_drain call) (flow_drain call')"
proof -
  have "less_fuel (\<lambda>st. case call (Task t) st of Some (Ret st') \<Rightarrow> call Drain st' | r \<Rightarrow> r)
      (\<lambda>st. case call' (Task t) st of Some (Ret st') \<Rightarrow> call' Drain st' | r \<Rightarrow> r)" for t
    by (rule less_fuel_then [OF calls calls])
  from less_fuelD [OF this] show ?thesis
    unfolding less_fuel_def flow_drain_def by (auto split: list.splits)
qed

end

lemma interp_Suc: "less_fuel (flow_interp (user_receiver policy U) n c) (flow_interp (user_receiver policy U) (Suc n) c)"
proof (induction n arbitrary: c)
  case (Suc n)
  have more: "more_fuel (flow_interp (user_receiver policy U) n) (flow_interp (user_receiver policy U) (Suc n))"
    by unfold_locales (rule Suc.IH)
  show ?case
    using more_fuel.run [OF more, of policy U] more_fuel.drain [OF more]
    by (cases c) (simp_all add: flow_interp.simps(2) [abs_def] del: flow_interp.simps)
qed (simp add: less_fuel_def)

interpretation fuel: more_fuel "flow_interp (user_receiver policy U) n" "flow_interp (user_receiver policy U) (Suc n)" policy U
  for policy U n
  by unfold_locales (rule interp_Suc)

lemma submit_mono:
  "n \<le> m \<Longrightarrow> flow_from_submit policy n U xs s = Some r \<Longrightarrow> flow_from_submit policy m U xs s = Some r"
proof (induction m rule: dec_induct)
  case (step m)
  have "less_fuel (flow_run policy (user_receiver policy U) m) (flow_run policy (user_receiver policy U) (Suc m))"
    unfolding flow_run_def [abs_def] by (rule less_fuel_then [OF fuel.submit fuel.calls])
  then show ?case using step by (auto simp: flow_from_submit_def dest: less_fuelD)
qed

text \<open>So all runs that return leave the same.\<close>

lemma submit_result:
  assumes "errors_nothrow U"
  obtains N st where "\<forall>n. flow_from_submit policy (N + n) U xs s = Some (Ret st)"
    "\<forall>n. flow_from_submit policy n U xs s \<in> {None, Some (Ret st)}" "resting xs st" "ff_tasks st = []"
proof -
  obtain N st where st: "\<forall>n\<ge>N. flow_from_submit policy n U xs s = Some (Ret st)" "resting xs st" "ff_tasks st = []"
    using submit_rests [OF assms, of policy xs s] by (elim exE conjE)
  have "flow_from_submit policy n U xs s \<in> {None, Some (Ret st)}" for n
  proof (cases "flow_from_submit policy n U xs s")
    case (Some r)
    then have "flow_from_submit policy (max N n) U xs s = Some r" by (rule submit_mono [rotated]) simp
    then show ?thesis using st(1) Some by simp
  qed simp
  then show thesis using st by (intro that [of N st]) simp_all
qed

lemma resting_final:
  assumes "resting xs st" "ff_tasks st = []"
  obtains q where "spec_run xs (uf_log st) = Some q" "spec_final xs q"
proof -
  obtain a k where q: "spec_run xs (uf_log st) = Some (phase_of st, a, k)"
      "phase_of st = Running \<longrightarrow> k \<le> length xs \<and> ff_left st = drop k xs \<and> a = k + queued st"
    using assms(1) by (auto simp: resting_def follows_def)
  have "phase_of st \<noteq> Before" using assms(1) by (simp add: resting_def follows_def phase_of_def)
  moreover have "phase_of st \<noteq> Stopped" using assms by (simp add: resting_def ending_def)
  moreover have "phase_of st \<noteq> Raising" by (simp add: phase_of_def)
  ultimately have "spec_final xs (phase_of st, a, k)"
    using q assms spec_asked [OF q(1)] by (cases "phase_of st") (auto simp: resting_def noticed_def queued_def)
  then show thesis using that q(1) by blast
qed

section \<open>Runs of the protocol\<close>

fun from_producer :: "'v flow_event \<Rightarrow> bool" where
  "from_producer Started = True"
| "from_producer (Got v) = True"
| "from_producer Errored = True"
| "from_producer Finished = True"
| "from_producer _ = False"

definition asked :: "'v flow_event list \<Rightarrow> nat" where
  "asked es = sum_list (map (\<lambda>e. case e of Asked n \<Rightarrow> nat n | _ \<Rightarrow> 0) es)"

definition told_to_stop :: "'v flow_event list \<Rightarrow> bool" where
  "told_to_stop es \<longleftrightarrow> Cancelled \<in> set es \<or> Aborted \<in> set es"

text \<open>An exception left a function of the receiver before the flow was done.\<close>

definition threw :: "'v flow_event list \<Rightarrow> bool" where
  "threw es \<longleftrightarrow> Raised \<in> set (takeWhile (\<lambda>e. e \<noteq> Finished) es)"

lemma threw_simps [simp]:
  "\<not> threw []" "threw [e] \<longleftrightarrow> e = Raised" "threw (es @ [e]) \<longleftrightarrow> threw es \<or> e = Raised \<and> Finished \<notin> set es"
proof -
  show "threw (es @ [e]) \<longleftrightarrow> threw es \<or> e = Raised \<and> Finished \<notin> set es"
    unfolding threw_def by (induction es) auto
qed (auto simp: threw_def)

lemma spec_signals:
  "spec_run xs es = Some (ph, a, k) \<Longrightarrow> a = asked es \<and> k \<le> a \<and> k \<le> length xs \<and>
    filter from_producer es = (if ph = Before then [] else [Started]) @ map Got (take k xs) @
      (if ph = Over then [if threw es then Errored else Finished] else []) \<and>
    (ph = Before \<longrightarrow> k = 0 \<and> es = []) \<and> (Finished \<in> set es \<longleftrightarrow> ph = Over \<and> \<not> threw es) \<and>
    (ph \<in> {Before, Running} \<longrightarrow> \<not> told_to_stop es) \<and> (ph = Stopped \<longrightarrow> told_to_stop es) \<and>
    (ph \<in> {Before, Running, Stopped} \<longrightarrow> \<not> threw es) \<and> (ph = Raising \<longrightarrow> threw es) \<and>
    (ph = Over \<longrightarrow> threw es \<or> told_to_stop es \<or> k = length xs \<and> 0 < a)"
proof (induction es arbitrary: ph a k rule: rev_induct)
  case (snoc e es)
  then obtain ph' a' k' where q: "spec_run xs es = Some (ph', a', k')" "spec_step xs (ph', a', k') e = Some (ph, a, k)"
    by (auto simp: spec_run_snoc bind_eq_Some_conv)
  from q(2) snoc.IH [OF q(1)] show ?case
    by (cases ph'; cases e) (auto simp: asked_def told_to_stop_def take_Suc_conv_app_nth split: if_splits)
qed (simp add: spec_run_Nil asked_def told_to_stop_def)

lemma spec_after_stop:
  "spec_run xs (as @ e # bs) = Some q \<Longrightarrow> e \<in> {Cancelled, Aborted} \<Longrightarrow>
   fst q \<in> {Stopped, Raising, Over} \<and> (\<forall>v. Got v \<notin> set bs)"
proof (induction bs arbitrary: q rule: rev_induct)
  case Nil
  then obtain ph a k where "spec_run xs as = Some (ph, a, k)" "spec_step xs (ph, a, k) e = Some q"
    by (auto simp: spec_run_snoc bind_eq_Some_conv)
  then show ?case using Nil.prems(2) by (cases ph) auto
next
  case (snoc f bs)
  then obtain ph a k where q: "spec_run xs (as @ e # bs) = Some (ph, a, k)" "spec_step xs (ph, a, k) f = Some q"
    using spec_run_snoc [of xs "as @ e # bs" f] by (cases "spec_run xs (as @ e # bs)") auto
  then show ?case using snoc.IH [OF q(1) snoc.prems(2)] by (cases ph; cases f) auto
qed

section \<open>Properties\<close>

text \<open>
  C6: \<open>flow_from\<close> keeps the protocol of a flow with every receiver whose error function does not throw: whatever its
  functions request, cancel, fail or throw, and whenever, and whether the executor runs a task at once or, in order, later, the
  run ends with nothing left to run, what was observed is a run of the protocol, and the protocol owes nothing.
\<close>
theorem flow_from_protocol:
  assumes "errors_nothrow U"
  shows "\<exists>N st q. (\<forall>n. flow_from_submit policy (N + n) U xs s = Some (Ret st)) \<and> ff_tasks st = [] \<and>
     spec_run xs (uf_log st) = Some q \<and> spec_final xs q"
proof -
  obtain N st where st: "\<forall>n. flow_from_submit policy (N + n) U xs s = Some (Ret st)"
    "\<forall>n. flow_from_submit policy n U xs s \<in> {None, Some (Ret st)}" "resting xs st" "ff_tasks st = []"
    by (rule submit_result [OF assms])
  obtain q where "spec_run xs (uf_log st) = Some q" "spec_final xs q"
    by (rule resting_final [OF st(3,4)])
  then show ?thesis using st(1,4) by (intro exI [of _ N] exI [of _ st] exI [of _ q]) simp
qed

text \<open>
  C15: What the receiver gets: the run ends, and has sent the start, then the first values of the range in order, no more of
  them than were requested, and then done, if the flow was told to stop or the whole range was requested, or the error of the
  receiver's own exception;
  a flow that was not told to stop and saw no exception sends every value that was requested, as far as the range goes.
\<close>
theorem flow_from_signals:
  assumes "errors_nothrow U"
  shows "\<exists>N st k. (\<forall>n. flow_from_submit policy (N + n) U xs s = Some (Ret st)) \<and>
    (\<forall>n. flow_from_submit policy n U xs s \<in> {None, Some (Ret st)}) \<and>
    k \<le> length xs \<and> k \<le> asked (uf_log st) \<and>
    filter from_producer (uf_log st) = Started # map Got (take k xs) @
      (if threw (uf_log st) then [Errored]
       else if told_to_stop (uf_log st) \<or> 0 < asked (uf_log st) \<and> length xs \<le> asked (uf_log st) then [Finished] else []) \<and>
    (told_to_stop (uf_log st) \<or> threw (uf_log st) \<or> k = min (length xs) (asked (uf_log st)))"
proof -
  obtain N st where st: "\<forall>n. flow_from_submit policy (N + n) U xs s = Some (Ret st)"
    "\<forall>n. flow_from_submit policy n U xs s \<in> {None, Some (Ret st)}" "resting xs st" "ff_tasks st = []"
    by (rule submit_result [OF assms])
  obtain ph a k where q: "spec_run xs (uf_log st) = Some (ph, a, k)" "spec_final xs (ph, a, k)"
    by (rule resting_final [OF st(3,4)]) auto
  have "filter from_producer (uf_log st) = Started # map Got (take k xs) @
      (if threw (uf_log st) then [Errored]
       else if told_to_stop (uf_log st) \<or> 0 < asked (uf_log st) \<and> length xs \<le> asked (uf_log st) then [Finished] else [])"
    using spec_signals [OF q(1)] q(2) by auto
  moreover have "told_to_stop (uf_log st) \<or> threw (uf_log st) \<or> k = min (length xs) (asked (uf_log st))"
    using spec_signals [OF q(1)] q(2) by auto
  ultimately show ?thesis
    using st(1,2) spec_signals [OF q(1)] by (intro exI [of _ N] exI [of _ st] exI [of _ k]) simp
qed

text \<open>
  C21: Cancellation from the receiver's own functions: the run ends, and after one of them has called done or error of
  \<open>up\<close>, no value is sent to the receiver any more, also by the requests that are under way when it calls; done is sent, or the
  error of the receiver's own exception.
\<close>
theorem flow_from_cancels:
  assumes "errors_nothrow U"
  shows "\<exists>N st. (\<forall>n. flow_from_submit policy (N + n) U xs s = Some (Ret st)) \<and>
    (\<forall>n. flow_from_submit policy n U xs s \<in> {None, Some (Ret st)}) \<and>
    (\<forall>as e bs. uf_log st = as @ e # bs \<longrightarrow> e \<in> {Cancelled, Aborted} \<longrightarrow>
      (\<forall>v. Got v \<notin> set bs) \<and> (if threw (uf_log st) then Errored else Finished) \<in> set (uf_log st))"
proof -
  obtain N st where st: "\<forall>n. flow_from_submit policy (N + n) U xs s = Some (Ret st)"
    "\<forall>n. flow_from_submit policy n U xs s \<in> {None, Some (Ret st)}" "resting xs st" "ff_tasks st = []"
    by (rule submit_result [OF assms])
  obtain ph a k where q: "spec_run xs (uf_log st) = Some (ph, a, k)" "spec_final xs (ph, a, k)"
    by (rule resting_final [OF st(3,4)]) auto
  have "(\<forall>v. Got v \<notin> set bs) \<and> (if threw (uf_log st) then Errored else Finished) \<in> set (uf_log st)"
    if "uf_log st = as @ e # bs" "e \<in> {Cancelled, Aborted}" for as e bs
  proof
    note stop = spec_after_stop [OF q(1) [unfolded that(1)] that(2)]
    then show "\<forall>v. Got v \<notin> set bs" by blast
    have "ph = Over" using stop q(2) by auto
    then have "(if threw (uf_log st) then Errored else Finished) \<in> set (filter from_producer (uf_log st))"
      using spec_signals [OF q(1)] by auto
    then show "(if threw (uf_log st) then Errored else Finished) \<in> set (uf_log st)" unfolding set_filter by blast
  qed
  then show ?thesis using st(1,2) by blast
qed

section \<open>Witnesses\<close>

text \<open>A receiver that takes \<open>c\<close> values, one at a time, and then cancels.\<close>

definition take_fns :: "nat \<Rightarrow> (nat, 'v, 'e) user_fns" where
  "take_fns c = \<lparr>u_starting = Up (Ask 1) Return,
     u_value = (\<lambda>v. Update Suc (Look (\<lambda>n. Up (if n < c then Ask 1 else Cancel) Return))),
     u_error = (\<lambda>e. Return), u_done = Return\<rparr>"

lemma take_two:
  "map_option (map_outcome (\<lambda>st. (ff_tasks st, uf_log st)))
     (flow_from_submit even 9 (take_fns 2 :: (nat, nat, nat) user_fns) [5, 6, 7] 0) =
   Some (Ret ([], [Started, Asked 1, Got 5, Asked 1, Got 6, Cancelled, Finished]))"
  by code_simp

text \<open>A receiver that requests three values at the start, and cancels while it gets the first.\<close>

definition hasty_fns :: "(nat, 'v, 'e) user_fns" where
  "hasty_fns = \<lparr>u_starting = Up (Ask 3) Return, u_value = (\<lambda>v. Update Suc (Up Cancel Return)),
     u_error = (\<lambda>e. Return), u_done = Return\<rparr>"

lemma hasty_cancels:
  "map_option (map_outcome uf_log) (flow_from_submit even 9 (hasty_fns :: (nat, nat, nat) user_fns) [5, 6, 7] 0) =
   Some (Ret [Started, Asked 3, Got 5, Cancelled, Finished])"
  by code_simp

text \<open>
  A receiver that requests three values and throws at the second, whose error function cancels; and one whose done function
  throws.
\<close>

definition failing_fns :: "(nat, 'v, 'e) user_fns" where
  "failing_fns = \<lparr>u_starting = Up (Ask 3) Return, u_value = (\<lambda>v. Update Suc (Look (\<lambda>n. if n < 2 then Return else Throw 4))),
     u_error = (\<lambda>e. Up Cancel Return), u_done = Throw 5\<rparr>"

lemma failing_fails:
  "map_option (map_outcome uf_log) (flow_from_submit even 9 (failing_fns :: (nat, nat, nat) user_fns) [5, 6, 7] 0) =
     Some (Ret [Started, Asked 3, Got 5, Got 6, Raised, Errored, Cancelled])"
  "map_option (map_outcome uf_log) (flow_from_submit even 9 (failing_fns :: (nat, nat, nat) user_fns) [5] 0) =
     Some (Ret [Started, Asked 3, Got 5, Finished, Raised])"
  by code_simp+

lemma fns_nothrow: "errors_nothrow (take_fns c)" "errors_nothrow hasty_fns" "errors_nothrow failing_fns"
  by (simp_all add: errors_nothrow_def take_fns_def hasty_fns_def failing_fns_def)

theorem flow_from_protocol_witness:
  "\<exists>N st q. (\<forall>n. flow_from_submit even (N + n) (failing_fns :: (nat, nat, nat) user_fns) [5, 6, 7] 0 = Some (Ret st)) \<and>
     ff_tasks st = [] \<and> spec_run [5, 6, 7] (uf_log st) = Some q \<and> spec_final [5, 6, 7 :: nat] q"
  by (rule flow_from_protocol [OF fns_nothrow(3)])

theorem flow_from_signals_witness:
  "\<exists>st k. flow_from_submit even 9 (take_fns 2 :: (nat, nat, nat) user_fns) [5, 6, 7] 0 = Some (Ret st) \<and>
    filter from_producer (uf_log st) = Started # map Got (take k [5, 6, 7]) @ [Finished]"
proof -
  obtain st where st: "flow_from_submit even 9 (take_fns 2 :: (nat, nat, nat) user_fns) [5, 6, 7] 0 = Some (Ret st)"
      "uf_log st = [Started, Asked 1, Got 5, Asked 1, Got 6, Cancelled, Finished]"
    using take_two by (auto simp: map_option_eq_Some)
  have told: "told_to_stop (uf_log st)" "\<not> threw (uf_log st)" by (simp_all add: st(2) told_to_stop_def threw_def)
  from flow_from_signals [where U = "take_fns 2 :: (nat, nat, nat) user_fns" and policy = even and xs = "[5, 6, 7]" and s = 0,
      OF fns_nothrow(1)] show ?thesis
  proof (elim exE conjE)
    fix N st' k assume a: "\<forall>n. flow_from_submit even n (take_fns 2 :: (nat, nat, nat) user_fns) [5, 6, 7] 0 \<in> {None, Some (Ret st')}"
      "filter from_producer (uf_log st') = Started # map Got (take k [5, 6, 7]) @
      (if threw (uf_log st') then [Errored]
       else if told_to_stop (uf_log st') \<or> 0 < asked (uf_log st') \<and> length [5, 6, 7 :: nat] \<le> asked (uf_log st') then [Finished] else [])"
    from a(1) st(1) have "st' = st" by (metis insertE option.distinct(1) option.inject outcome.inject(1) singletonD)
    then show ?thesis using a(2) told st(1) by (intro exI [of _ st] exI [of _ k]) (simp del: take_Suc_Cons)
  qed
qed

theorem flow_from_cancels_witness:
  "\<exists>st. flow_from_submit even 9 (hasty_fns :: (nat, nat, nat) user_fns) [5, 6, 7] 0 = Some (Ret st) \<and>
    Finished \<in> set (uf_log st)"
proof -
  obtain st where st: "flow_from_submit even 9 (hasty_fns :: (nat, nat, nat) user_fns) [5, 6, 7] 0 = Some (Ret st)"
      "uf_log st = [Started, Asked 3, Got 5] @ Cancelled # [Finished]"
    using hasty_cancels by (auto simp: map_option_eq_Some)
  obtain st' where st': "flow_from_submit even 9 (hasty_fns :: (nat, nat, nat) user_fns) [5, 6, 7] 0 \<in> {None, Some (Ret st')}"
      "\<forall>as e bs. uf_log st' = as @ e # bs \<longrightarrow> e \<in> {Cancelled, Aborted} \<longrightarrow>
        (\<forall>v. Got v \<notin> set bs) \<and> (if threw (uf_log st') then Errored else Finished) \<in> set (uf_log st')"
    using flow_from_cancels [where U = "hasty_fns :: (nat, nat, nat) user_fns" and policy = even and xs = "[5, 6, 7]" and s = 0,
        OF fns_nothrow(2)] by blast
  from st'(1) st(1) have "st' = st" by simp
  with st'(2) st(2) have "(if threw (uf_log st) then Errored else Finished) \<in> set (uf_log st)" by blast
  then show ?thesis using st by (simp add: threw_def)
qed

end
