(* ===== verification/Flow_Race.thy ===== *)
theory Flow_Race
  imports Flow_Protocol
begin

text \<open>
  \<open>flow_from\<close> (\<open>o/from.h\<close>) on an executor that runs its tasks one after the other on a thread of its own,
  as a strand does, and a receiver that gives \<open>up\<close> away: another thread requests and cancels while the
  tasks run. The steps of the two threads are interleaved where they meet, at the atomic \<open>stop\<close> and at
  the executor's queue: a cancellation may come between the test of \<open>stop\<close> and the value it let pass.
\<close>

section \<open>State\<close>

text \<open>Where the executor's thread is: between tasks, at the test of a request's loop, or before a \<open>set_value\<close>.\<close>

datatype 'v worker_at = Waiting | Checking nat | Sending 'v nat

text \<open>
  The producer, the flags of the \<open>flow_receiver\<close> that gets the values, the \<open>done_\<close> flag of the \<open>receiver\<close> around
  \<open>flow_from_up\<close>, and whether the other thread is between its store to \<open>stop\<close> and its \<open>submit\<close>.
\<close>

record 'v race =
  rc_left :: "'v list"
  rc_stop :: bool
  rc_tasks :: "flow_task list"
  rc_at :: "'v worker_at"
  rc_started :: bool
  rc_done :: bool
  rc_closed :: bool
  rc_stopping :: bool
  rc_log :: "'v flow_event list"

definition race_new :: "'v list \<Rightarrow> 'v race" where
  "race_new xs = \<lparr>rc_left = xs, rc_stop = False, rc_tasks = [Start], rc_at = Waiting, rc_started = False, rc_done = False,
     rc_closed = False, rc_stopping = False, rc_log = []\<rparr>"

definition note_event :: "'v flow_event \<Rightarrow> 'v race \<Rightarrow> 'v race" where
  "note_event e st = st\<lparr>rc_log := rc_log st @ [e]\<rparr>"

section \<open>The executor's thread\<close>

definition race_done :: "'v race \<Rightarrow> 'v race" where
  "race_done st = (if rc_done st then st else note_event Finished (st\<lparr>rc_done := True\<rparr>))"

text \<open>The next task.\<close>

definition take_task :: "'v race \<Rightarrow> 'v race option" where
  "take_task st =
     (case (rc_at st, rc_tasks st) of
        (Waiting, t # ts) \<Rightarrow>
          (let st' = st\<lparr>rc_tasks := ts\<rparr> in
           Some (case t of
               Start \<Rightarrow> note_event Started (st'\<lparr>rc_started := True\<rparr>)
             | Request n \<Rightarrow> st'\<lparr>rc_at := Checking (nat n)\<rparr>
             | Finish \<Rightarrow> race_done st'))
      | _ \<Rightarrow> None)"

text \<open>The condition of the loop; what follows the loop; the position is advanced before the value is sent.\<close>

definition check_loop :: "'v race \<Rightarrow> 'v race option" where
  "check_loop st =
     (case rc_at st of
        Checking j \<Rightarrow>
          (case (j, rc_left st) of
             (Suc j', x # xs) \<Rightarrow>
               Some (if rc_stop st then st\<lparr>rc_at := Waiting\<rparr> else st\<lparr>rc_left := xs, rc_at := Sending x j'\<rparr>)
           | (_, []) \<Rightarrow> Some (race_done (st\<lparr>rc_at := Waiting\<rparr>))
           | _ \<Rightarrow> Some (st\<lparr>rc_at := Waiting\<rparr>))
      | _ \<Rightarrow> None)"

definition send_value :: "'v race \<Rightarrow> 'v race option" where
  "send_value st =
     (case rc_at st of
        Sending x j \<Rightarrow>
          (let st' = st\<lparr>rc_at := Checking j\<rparr> in Some (if rc_done st then st' else note_event (Got x) st'))
      | _ \<Rightarrow> None)"

section \<open>The other thread\<close>

definition race_ask :: "int \<Rightarrow> 'v race \<Rightarrow> 'v race option" where
  "race_ask n st =
     (if \<not> rc_started st \<or> rc_stopping st then None
      else if rc_closed st then Some st
      else let st' = note_event (Asked n) st in
        Some (if n < 1 then st' else st'\<lparr>rc_tasks := rc_tasks st' @ [Request n]\<rparr>))"

text \<open>\<open>up.done()\<close>: the store to \<open>stop\<close>, and then the submission.\<close>

definition race_stop :: "'v race \<Rightarrow> 'v race option" where
  "race_stop st =
     (if \<not> rc_started st \<or> rc_stopping st then None
      else if rc_closed st then Some st
      else Some (note_event Cancelled (st\<lparr>rc_closed := True, rc_stop := True, rc_stopping := True\<rparr>)))"

definition race_submit :: "'v race \<Rightarrow> 'v race option" where
  "race_submit st =
     (if rc_stopping st then Some (st\<lparr>rc_stopping := False, rc_tasks := rc_tasks st @ [Finish]\<rparr>) else None)"

section \<open>Interleavings\<close>

datatype race_event = Take | Check | Send | Request_more int | Stop_flow | Submit_finish

fun race_step :: "race_event \<Rightarrow> 'v race \<Rightarrow> 'v race option" where
  "race_step Take = take_task"
| "race_step Check = check_loop"
| "race_step Send = send_value"
| "race_step (Request_more n) = race_ask n"
| "race_step Stop_flow = race_stop"
| "race_step Submit_finish = race_submit"

fun race_run :: "race_event list \<Rightarrow> 'v race \<Rightarrow> 'v race option" where
  "race_run [] st = Some st"
| "race_run (e # es) st = Option.bind (race_step e st) (race_run es)"

inductive races :: "'v race \<Rightarrow> 'v race \<Rightarrow> bool" where
  "race_step e st = Some st' \<Longrightarrow> races st st'"

text \<open>No task runs or waits, and no submission is under way.\<close>

definition race_over :: "'v race \<Rightarrow> bool" where
  "race_over st \<longleftrightarrow> rc_at st = Waiting \<and> rc_tasks st = [] \<and> \<not> rc_stopping st"

section \<open>The invariant\<close>

fun is_got :: "'v flow_event \<Rightarrow> bool" where
  "is_got (Got v) = True"
| "is_got _ = False"

text \<open>The values that were sent, those after the cancellation, and those that are promised.\<close>

definition sent :: "'v race \<Rightarrow> nat" where
  "sent st = length (filter is_got (rc_log st))"

definition late :: "'v flow_event list \<Rightarrow> nat" where
  "late es = length (filter is_got (dropWhile (\<lambda>e. e \<noteq> Cancelled) es))"

fun in_flight :: "'v worker_at \<Rightarrow> 'v list" where
  "in_flight (Sending x j) = [x]"
| "in_flight _ = []"

fun loop_credit :: "'v worker_at \<Rightarrow> nat" where
  "loop_credit (Checking j) = j"
| "loop_credit (Sending x j) = Suc j"
| "loop_credit Waiting = 0"

definition race_credit :: "'v race \<Rightarrow> nat" where
  "race_credit st = loop_credit (rc_at st) + sum_list (map credit (rc_tasks st))"

text \<open>Before the start task has run, and after.\<close>

definition race_fresh :: "'v list \<Rightarrow> 'v race \<Rightarrow> bool" where
  "race_fresh xs st \<longleftrightarrow> st = race_new xs"

definition race_begun :: "'v list \<Rightarrow> 'v race \<Rightarrow> bool" where
  "race_begun xs st \<longleftrightarrow> rc_started st \<and> Start \<notin> set (rc_tasks st) \<and> rc_stop st = rc_closed st \<and>
     (rc_stopping st \<longrightarrow> rc_stop st) \<and> (Finish \<in> set (rc_tasks st) \<longrightarrow> rc_stop st) \<and>
     (rc_stop st = (Cancelled \<in> set (rc_log st))) \<and> Aborted \<notin> set (rc_log st) \<and> Errored \<notin> set (rc_log st)"

text \<open>What was sent: the values before the position, but for one that is in flight; each was requested.\<close>

definition race_values :: "'v list \<Rightarrow> 'v race \<Rightarrow> bool" where
  "race_values xs st \<longleftrightarrow>
     filter from_producer (rc_log st) = Started # map Got (take (sent st) xs) @ (if rc_done st then [Finished] else []) \<and>
     drop (sent st) xs = in_flight (rc_at st) @ rc_left st \<and> sent st \<le> length xs \<and>
     sent st + length (in_flight (rc_at st)) \<le> asked (rc_log st) \<and>
     (rc_done st \<longrightarrow> in_flight (rc_at st) = [] \<and> (rc_stop st \<or> rc_left st = [] \<and> 0 < asked (rc_log st))) \<and>
     (\<not> rc_stop st \<and> \<not> rc_done st \<longrightarrow> asked (rc_log st) = sent st + race_credit st)"

definition race_ends :: "'v race \<Rightarrow> bool" where
  "race_ends st \<longleftrightarrow>
     (rc_stop st \<and> \<not> rc_stopping st \<longrightarrow> Finish \<in> set (rc_tasks st) \<or> rc_done st) \<and>
     (\<not> rc_stop st \<and> \<not> rc_done st \<and> rc_left st = [] \<and> rc_at st = Waiting \<longrightarrow>
        (\<exists>n. Request n \<in> set (rc_tasks st)) \<or> asked (rc_log st) = 0) \<and>
     (\<forall>n. Request n \<in> set (rc_tasks st) \<longrightarrow> 0 < n \<and> 0 < asked (rc_log st)) \<and>
     (rc_at st \<noteq> Waiting \<longrightarrow> 0 < asked (rc_log st))"

definition race_late :: "'v race \<Rightarrow> bool" where
  "race_late st \<longleftrightarrow> late (rc_log st) + (if rc_stop st then length (in_flight (rc_at st)) else 0) \<le> 1"

definition race_inv :: "'v list \<Rightarrow> 'v race \<Rightarrow> bool" where
  "race_inv xs st \<longleftrightarrow> race_fresh xs st \<or> race_begun xs st \<and> race_values xs st \<and> race_ends st \<and> race_late st"

lemmas race_defs = race_begun_def race_values_def race_ends_def race_late_def

lemma late_none: "Cancelled \<notin> set es \<Longrightarrow> late es = 0"
  by (induction es) (auto simp: late_def)

lemma late_snoc: "late (es @ [e]) = late es + (if Cancelled \<in> set es \<and> is_got e then 1 else 0)"
proof (cases "Cancelled \<in> set es")
  case False
  have "dropWhile (\<lambda>e. e \<noteq> Cancelled) (es @ [e]) = dropWhile (\<lambda>e. e \<noteq> Cancelled) [e]"
    by (rule dropWhile_append2) (metis False)
  then show ?thesis using False late_none [OF False] by (simp add: late_def)
next
  case True
  then have "dropWhile (\<lambda>e. e \<noteq> Cancelled) (es @ [e]) = dropWhile (\<lambda>e. e \<noteq> Cancelled) es @ [e]"
    by (rule dropWhile_append1) simp
  then show ?thesis using True by (simp add: late_def)
qed

lemma asked_snoc: "asked (es @ [e]) = asked es + (case e of Asked n \<Rightarrow> nat n | _ \<Rightarrow> 0)"
  by (simp add: asked_def)

lemma note_event_sel [simp]:
  "rc_left (note_event e st) = rc_left st" "rc_stop (note_event e st) = rc_stop st" "rc_tasks (note_event e st) = rc_tasks st"
  "rc_at (note_event e st) = rc_at st" "rc_started (note_event e st) = rc_started st" "rc_done (note_event e st) = rc_done st"
  "rc_closed (note_event e st) = rc_closed st" "rc_stopping (note_event e st) = rc_stopping st"
  "rc_log (note_event e st) = rc_log st @ [e]" "race_credit (note_event e st) = race_credit st"
  "sent (note_event e st) = sent st + (if is_got e then 1 else 0)"
  by (simp_all add: note_event_def race_credit_def sent_def)

lemma race_new_inv: "st = race_new xs \<Longrightarrow> race_inv xs st"
  by (simp add: race_inv_def race_fresh_def)

text \<open>The one step of the start, and the steps after it.\<close>

lemma started_inv:
  "race_inv xs (note_event Started ((race_new xs)\<lparr>rc_tasks := [], rc_started := True\<rparr>))"
  by (simp add: race_inv_def race_defs race_new_def sent_def race_credit_def asked_def late_def note_event_def)

definition going :: "'v list \<Rightarrow> 'v race \<Rightarrow> bool" where
  "going xs st \<longleftrightarrow> race_begun xs st \<and> race_values xs st \<and> race_ends st \<and> race_late st"

lemma going_inv: "going xs st \<Longrightarrow> race_inv xs st"
  by (simp add: going_def race_inv_def)

lemma asked_note: "asked (es @ [e]) = asked es" if "\<forall>n. e \<noteq> Asked n"
  using that by (cases e) (simp_all add: asked_snoc)

lemma take_going:
  assumes "going xs st" "rc_at st = Waiting" "rc_tasks st = t # ts" "take_task st = Some st'"
  shows "going xs st'"
proof (cases t)
  case Start
  then show ?thesis using assms(1,3) by (simp add: going_def race_begun_def)
next
  case (Request n)
  then have st': "st' = st\<lparr>rc_tasks := ts, rc_at := Checking (nat n)\<rparr>" using assms(2-4) by (simp add: take_task_def)
  show ?thesis using assms(1-3) Request unfolding st' going_def
    by (auto simp: race_defs race_credit_def sent_def)
next
  case Finish
  then have st': "st' = race_done (st\<lparr>rc_tasks := ts\<rparr>)" using assms(2-4) by (simp add: take_task_def)
  show ?thesis using assms(1-3) Finish unfolding st' going_def race_done_def
    by (auto simp: race_defs race_credit_def sent_def asked_note late_snoc)
qed

lemma check_going:
  assumes "going xs st" "rc_at st = Checking j" "check_loop st = Some st'"
  shows "going xs st'"
proof (cases "rc_left st")
  case Nil
  then have st': "st' = race_done (st\<lparr>rc_at := Waiting\<rparr>)"
    using assms(2,3) by (cases j) (simp_all add: check_loop_def)
  show ?thesis using assms(1,2) Nil unfolding st' going_def race_done_def
    by (auto simp: race_defs race_credit_def sent_def asked_note late_snoc)
next
  case (Cons x ys)
  show ?thesis
  proof (cases "j = 0 \<or> rc_stop st")
    case True
    then have st': "st' = st\<lparr>rc_at := Waiting\<rparr>"
      using assms(2,3) Cons by (cases j) (simp_all add: check_loop_def)
    show ?thesis using assms(1,2) Cons True unfolding st' going_def
      by (auto simp: race_defs race_credit_def sent_def)
  next
    case False
    then obtain k where j: "j = Suc k" by (cases j) simp_all
    then have st': "st' = st\<lparr>rc_left := ys, rc_at := Sending x k\<rparr>"
      using assms(2,3) Cons False by (simp add: check_loop_def)
    show ?thesis using assms(1,2) Cons False j unfolding st' going_def
      by (auto simp: race_defs race_credit_def sent_def)
  qed
qed

lemma goingI:
  "race_begun xs st \<Longrightarrow> race_values xs st \<Longrightarrow> race_ends st \<Longrightarrow> race_late st \<Longrightarrow> going xs st"
  by (simp add: going_def)

lemma goingD:
  assumes "going xs st"
  shows "race_begun xs st" "race_values xs st" "race_ends st" "race_late st"
  using assms by (simp_all add: going_def)

lemma send_going:
  assumes "going xs st" "rc_at st = Sending x j" "send_value st = Some st'"
  shows "going xs st'"
proof -
  note st = goingD [OF assms(1)]
  have open_: "\<not> rc_done st" using st(2) assms(2) by (simp add: race_values_def)
  then have st': "st' = note_event (Got x) (st\<lparr>rc_at := Checking j\<rparr>)"
    using assms(2,3) by (simp add: send_value_def)
  have d: "drop (sent st) xs = x # rc_left st" using st(2) assms(2) by (simp add: race_values_def)
  then have k: "sent st < length xs" by (cases "sent st < length xs") simp_all
  with d have t: "take (Suc (sent st)) xs = take (sent st) xs @ [x]" "drop (Suc (sent st)) xs = rc_left st"
    by (simp_all add: take_Suc_conv_app_nth Cons_nth_drop_Suc [symmetric])
  have s: "sent st' = Suc (sent st)" by (simp add: st' sent_def)
  have q: "race_credit st = Suc (race_credit st')" using assms(2) by (simp add: st' race_credit_def)
  show ?thesis
  proof (rule goingI)
    show "race_begun xs st'" using st(1) by (auto simp: st' race_begun_def)
    show "race_values xs st'"
      using st(2) assms(2) open_ k t unfolding race_values_def s by (simp add: q) (simp add: st' asked_note)
    show "race_ends st'" using st(3) assms(2) by (simp add: st' race_ends_def asked_note)
    show "race_late st'" using st(1,4) assms(2) by (simp add: st' race_late_def race_begun_def late_snoc split: if_splits)
  qed
qed

lemma ask_going:
  assumes "going xs st" "race_ask n st = Some st'"
  shows "going xs st'"
proof (cases "rc_closed st")
  case True
  then show ?thesis using assms by (simp add: race_ask_def split: if_splits)
next
  case False
  note st = goingD [OF assms(1)]
  let ?st = "note_event (Asked n) st"
  have st': "st' = (if n < 1 then ?st else ?st\<lparr>rc_tasks := rc_tasks ?st @ [Request n]\<rparr>)"
    using assms(2) False by (simp add: race_ask_def Let_def split: if_splits)
  have s: "sent st' = sent st" by (simp add: st' sent_def)
  have q: "race_credit st' = race_credit st + nat n" by (simp add: st' race_credit_def)
  have l: "rc_log st' = rc_log st @ [Asked n]" "rc_left st' = rc_left st" "rc_at st' = rc_at st" "rc_stop st' = rc_stop st"
      "rc_done st' = rc_done st" "rc_stopping st' = rc_stopping st" "rc_closed st' = rc_closed st" "rc_started st' = rc_started st"
      "rc_tasks st' = rc_tasks st @ (if n < 1 then [] else [Request n])"
    by (simp_all add: st')
  show ?thesis
  proof (rule goingI)
    show "race_begun xs st'" using st(1) by (auto simp: l race_begun_def)
    show "race_values xs st'" using st(2) unfolding race_values_def s q l asked_snoc by (auto simp: is_got.simps)
    show "race_ends st'" using st(3) by (auto simp: l race_ends_def asked_snoc)
    show "race_late st'" using st(4) by (auto simp: l race_late_def late_snoc)
  qed
qed

lemma stop_going:
  assumes "going xs st" "race_stop st = Some st'"
  shows "going xs st'"
proof (cases "rc_closed st")
  case True
  then show ?thesis using assms by (simp add: race_stop_def split: if_splits)
next
  case False
  note st = goingD [OF assms(1)]
  have st': "st' = note_event Cancelled (st\<lparr>rc_closed := True, rc_stop := True, rc_stopping := True\<rparr>)"
    using assms(2) False by (simp add: race_stop_def split: if_splits)
  have none: "late (rc_log st) = 0" using st(1) False by (intro late_none) (auto simp: race_begun_def)
  have one: "length (in_flight (rc_at st)) \<le> 1" by (cases "rc_at st") simp_all
  have s: "sent st' = sent st" by (simp add: st' sent_def)
  show ?thesis
  proof (rule goingI)
    show "race_begun xs st'" using st(1) by (auto simp: st' race_begun_def)
    show "race_values xs st'" using st(2) unfolding race_values_def s by (simp add: st' asked_note)
    show "race_ends st'" using st(3) by (simp add: st' race_ends_def asked_note)
    show "race_late st'" using none one by (simp add: st' race_late_def late_snoc)
  qed
qed

lemma submit_going:
  assumes "going xs st" "race_submit st = Some st'"
  shows "going xs st'"
proof -
  note st = goingD [OF assms(1)]
  have st': "st' = st\<lparr>rc_stopping := False, rc_tasks := rc_tasks st @ [Finish]\<rparr>" and "rc_stopping st"
    using assms(2) by (simp_all add: race_submit_def split: if_splits)
  then have "rc_stop st" using st(1) by (auto simp: race_begun_def)
  have s: "sent st' = sent st" by (simp add: st' sent_def)
  show ?thesis
  proof (rule goingI)
    show "race_begun xs st'" using st(1) \<open>rc_stop st\<close> by (auto simp: st' race_begun_def)
    show "race_values xs st'" using st(2) \<open>rc_stop st\<close> unfolding race_values_def s by (simp add: st')
    show "race_ends st'" using st(3) \<open>rc_stop st\<close> by (simp add: st' race_ends_def)
    show "race_late st'" using st(4) \<open>rc_stop st\<close> by (simp add: st' race_late_def)
  qed
qed

lemma race_step_inv:
  assumes "race_inv xs st" "race_step e st = Some st'"
  shows "race_inv xs st'"
proof (cases "race_fresh xs st")
  case True
  then have "e = Take" "st' = note_event Started ((race_new xs)\<lparr>rc_tasks := [], rc_started := True\<rparr>)"
    using assms(2) by (cases e; auto simp: race_fresh_def race_new_def take_task_def check_loop_def send_value_def race_ask_def
        race_stop_def race_submit_def)+
  then show ?thesis using started_inv by simp
next
  case False
  then have g: "going xs st" using assms(1) by (simp add: race_inv_def going_def)
  have "going xs st'"
  proof (cases e)
    case Take
    then obtain t ts where "rc_at st = Waiting" "rc_tasks st = t # ts" "take_task st = Some st'"
      using assms(2) by (auto simp: take_task_def split: worker_at.splits list.splits)
    then show ?thesis by (rule take_going [OF g])
  next
    case Check
    then obtain j where "rc_at st = Checking j" "check_loop st = Some st'"
      using assms(2) by (auto simp: check_loop_def split: worker_at.splits)
    then show ?thesis by (rule check_going [OF g])
  next
    case Send
    then obtain x j where "rc_at st = Sending x j" "send_value st = Some st'"
      using assms(2) by (auto simp: send_value_def split: worker_at.splits)
    then show ?thesis by (rule send_going [OF g])
  qed (use assms(2) g in \<open>auto intro: ask_going stop_going submit_going\<close>)
  then show ?thesis by (rule going_inv)
qed

interpretation racing: invariant_of "\<lambda>st. st = race_new xs" races "race_inv xs" for xs
  by unfold_locales (auto intro: race_new_inv race_step_inv elim: races.cases)

section \<open>Progress\<close>

lemma race_progress:
  assumes "\<not> race_over st"
  shows "\<exists>e st'. e \<in> {Take, Check, Send, Submit_finish} \<and> race_step e st = Some st'"
proof -
  from assms consider "rc_stopping st" | t ts where "rc_at st = Waiting" "rc_tasks st = t # ts"
    | j where "rc_at st = Checking j" | x j where "rc_at st = Sending x j"
    by (cases "rc_at st"; cases "rc_tasks st") (auto simp: race_over_def)
  then show ?thesis
  proof cases
    case 1
    then show ?thesis by (intro exI [of _ Submit_finish]) (simp add: race_submit_def)
  next
    case 2
    then show ?thesis by (intro exI [of _ Take]) (simp add: take_task_def Let_def)
  next
    case 3
    then show ?thesis by (intro exI [of _ Check]) (simp add: check_loop_def split: nat.split list.split)
  next
    case 4
    then show ?thesis by (intro exI [of _ Send]) (simp add: send_value_def Let_def)
  qed
qed

section \<open>Properties\<close>

text \<open>
  C12: In every interleaving the receiver gets the start, then the first values of the range in order, no
  more of them than were requested, and then at most one done, and after a cancellation at
  most one value: the one that had passed the test of \<open>stop\<close>.
\<close>
theorem race_signals:
  assumes "reachable (\<lambda>st. st = race_new xs) races st"
  shows "filter from_producer (rc_log st) =
      (if rc_started st then [Started] else []) @ map Got (take (sent st) xs) @ (if rc_done st then [Finished] else []) \<and>
    sent st \<le> length xs \<and> sent st \<le> asked (rc_log st) \<and> late (rc_log st) \<le> 1"
proof -
  have "race_inv xs st" by (rule racing.reachable_inv [OF assms])
  then consider "st = race_new xs" | "race_begun xs st" "race_values xs st" "race_late st"
    by (auto simp: race_inv_def race_fresh_def)
  then show ?thesis
  proof cases
    case 2
    have "sent st \<le> asked (rc_log st)" "late (rc_log st) \<le> 1" using 2(2,3) by (simp_all add: race_values_def race_late_def)
    with 2(1,2) show ?thesis by (simp add: race_values_def race_begun_def)
  qed (simp add: race_new_def sent_def asked_def late_def)
qed

text \<open>
  C8: The threads are never stuck: while a task runs or waits, or a cancellation is under way, one of them has a
  step; and when nothing is left to do, done was sent if the flow was cancelled or the whole range was
  requested, and a flow that was not cancelled has sent what was requested, as far as the range goes.
\<close>
theorem race_completes:
  assumes "reachable (\<lambda>st. st = race_new xs) races st"
  shows "if race_over st
    then rc_done st = (Cancelled \<in> set (rc_log st) \<or> 0 < asked (rc_log st) \<and> length xs \<le> asked (rc_log st)) \<and>
      (Cancelled \<in> set (rc_log st) \<or> sent st = min (length xs) (asked (rc_log st)))
    else \<exists>e st'. e \<in> {Take, Check, Send, Submit_finish} \<and> race_step e st = Some st'"
proof (cases "race_over st")
  case False
  then show ?thesis using race_progress [OF False] by simp
next
  case True
  have "race_inv xs st" by (rule racing.reachable_inv [OF assms])
  moreover have "\<not> race_fresh xs st" using True by (auto simp: race_fresh_def race_new_def race_over_def)
  ultimately have g: "going xs st" by (simp add: race_inv_def going_def)
  note st = goingD [OF g]
  have over: "rc_at st = Waiting" "rc_tasks st = []" "\<not> rc_stopping st" using True by (simp_all add: race_over_def)
  have left: "drop (sent st) xs = rc_left st" "sent st \<le> length xs" "sent st \<le> asked (rc_log st)"
    using st(2) over by (simp_all add: race_values_def)
  have all: "rc_left st = [] \<longleftrightarrow> sent st = length xs"
    unfolding left(1) [symmetric] using left(2) by auto
  have stop: "rc_stop st = (Cancelled \<in> set (rc_log st))" using st(1) by (auto simp: race_begun_def)
  show ?thesis
  proof (cases "rc_stop st")
    case True
    then show ?thesis using st(3) over stop by (simp add: race_ends_def race_over_def)
  next
    case False
    have fin: "rc_done st \<Longrightarrow> rc_left st = [] \<and> 0 < asked (rc_log st)" using st(2) False by (simp add: race_values_def)
    have run: "\<not> rc_done st \<Longrightarrow> asked (rc_log st) = sent st" using st(2) False over by (simp add: race_values_def race_credit_def)
    have more: "\<not> rc_done st \<Longrightarrow> rc_left st = [] \<Longrightarrow> asked (rc_log st) = 0" using st(3) False over by (simp add: race_ends_def)
    have "rc_done st = (0 < asked (rc_log st) \<and> length xs \<le> asked (rc_log st)) \<and> sent st = min (length xs) (asked (rc_log st))"
    proof (cases "rc_done st")
      case True
      then show ?thesis using fin left(3) all by simp
    next
      case open_: False
      then show ?thesis using run more left(2) all by (cases "rc_left st = []") simp_all
    qed
    then show ?thesis using True False stop by simp
  qed
qed

section \<open>Witnesses\<close>

text \<open>The two outcomes of a race between the value and the cancellation.\<close>

definition lost_race :: "race_event list" where
  "lost_race = [Take, Request_more 1, Take, Check, Stop_flow, Send, Check, Submit_finish, Take]"

definition won_race :: "race_event list" where
  "won_race = [Take, Request_more 1, Take, Stop_flow, Check, Submit_finish, Take]"

lemma races_run: "race_run es st = Some st' \<Longrightarrow> races\<^sup>*\<^sup>* st st'"
  by (induction es arbitrary: st)
     (auto simp: bind_eq_Some_conv intro: converse_rtranclp_into_rtranclp [rotated] races.intros)

lemma run_reachable: "race_run es (race_new xs) = Some st \<Longrightarrow> reachable (\<lambda>st. st = race_new xs) races st"
  by (rule reachable_steps [OF races_run reach_init]) simp_all

lemma lost_run: "map_option (\<lambda>st. (race_over st, rc_log st)) (race_run lost_race (race_new [42, 43 :: nat])) =
  Some (True, [Started, Asked 1, Cancelled, Got 42, Finished])"
  by code_simp

lemma won_run: "map_option (\<lambda>st. (race_over st, rc_log st)) (race_run won_race (race_new [42, 43 :: nat])) =
  Some (True, [Started, Asked 1, Cancelled, Finished])"
  by code_simp

theorem race_signals_witness:
  "\<exists>st. race_run lost_race (race_new [42, 43 :: nat]) = Some st \<and> late (rc_log st) = 1 \<and> sent st \<le> 2"
proof -
  obtain st where st: "race_run lost_race (race_new [42, 43 :: nat]) = Some st"
      "rc_log st = [Started, Asked 1, Cancelled, Got 42, Finished]"
    using lost_run by (auto simp: map_option_eq_Some)
  have "late (rc_log st) = 1" by (simp add: st(2) late_def)
  moreover have "sent st \<le> 2" using race_signals [OF run_reachable [OF st(1)]] by (simp del: filter.simps)
  ultimately show ?thesis using st(1) by blast
qed

theorem race_completes_witness:
  "\<exists>st. race_run won_race (race_new [42, 43 :: nat]) = Some st \<and> race_over st \<and> rc_done st"
proof -
  obtain st where st: "race_run won_race (race_new [42, 43 :: nat]) = Some st" "race_over st"
      "rc_log st = [Started, Asked 1, Cancelled, Finished]"
    using won_run by (auto simp: map_option_eq_Some)
  from race_completes [OF run_reachable [OF st(1)]] show ?thesis using st by simp
qed

end
