(* ===== verification/Time_Source_Refinement.thy ===== *)
theory Time_Source_Refinement
  imports Time_Source_Correct "HOL-Library.Multiset"
begin

text \<open>
  What a time source is for, as an abstract machine: at each queue items wait, one that is due no later
  than the others is taken, and then it is sent when its time has come, or fails. The steps of
  \<open>Time_Source\<close>, with its worker, flags, executors and error handler, are shown to simulate it, so
  no item is lost or sent twice, none is sent early, and none overtakes one of its queue that is due before it.
\<close>

section \<open>The abstract machine\<close>

record time_spec =
  sp_waiting :: "nat \<Rightarrow> item multiset"
  sp_taken :: "nat \<Rightarrow> item multiset"
  sp_sent :: "(item \<times> int) list"
  sp_now :: int

definition time_spec_new :: "int \<Rightarrow> time_spec" where
  "time_spec_new t = \<lparr>sp_waiting = (\<lambda>q. {#}), sp_taken = (\<lambda>q. {#}), sp_sent = [], sp_now = t\<rparr>"

inductive time_spec_step :: "time_spec \<Rightarrow> time_spec \<Rightarrow> bool" where
  spec_insert: "time_spec_step a (a\<lparr>sp_waiting := (sp_waiting a)(q := add_mset it (sp_waiting a q))\<rparr>)"
| spec_take: "sp_waiting a q = add_mset it w \<Longrightarrow> \<forall>x \<in># w. fst it \<le> fst x \<Longrightarrow>
    time_spec_step a (a\<lparr>sp_waiting := (sp_waiting a)(q := w), sp_taken := (sp_taken a)(q := add_mset it (sp_taken a q))\<rparr>)"
| spec_send: "sp_taken a q = add_mset it w \<Longrightarrow> fst it \<le> sp_now a \<Longrightarrow>
    time_spec_step a (a\<lparr>sp_taken := (sp_taken a)(q := w), sp_sent := sp_sent a @ [(it, sp_now a)]\<rparr>)"
| spec_fail: "sp_taken a q = add_mset it w \<Longrightarrow> time_spec_step a (a\<lparr>sp_taken := (sp_taken a)(q := w)\<rparr>)"
| spec_tick: "0 \<le> d \<Longrightarrow> time_spec_step a (a\<lparr>sp_now := sp_now a + d\<rparr>)"

section \<open>The abstraction\<close>

fun phase_items :: "phase \<Rightarrow> item multiset" where
  "phase_items (Running start it) = {#it#}"
| "phase_items (ErrorDrain it) = {#it#}"
| "phase_items (Failing it) = {#it#}"
| "phase_items _ = {#}"

text \<open>The items that receivers have taken, and the one that the handler has.\<close>

definition receiver_items :: "phase list \<Rightarrow> item multiset" where
  "receiver_items ps = \<Sum>\<^sub># (image_mset phase_items (mset ps))"

fun handler_items :: "worker_at \<Rightarrow> nat \<Rightarrow> item multiset" where
  "handler_items (Handling n q qs it) p = (if p = q then {#it#} else {#})"
| "handler_items _ p = {#}"

definition source_abs :: "source \<Rightarrow> time_spec" where
  "source_abs s = \<lparr>sp_waiting = (\<lambda>q. mset (tq_heap (ts_queue s q))),
     sp_taken = (\<lambda>q. receiver_items (tq_receivers (ts_queue s q)) + handler_items (ts_worker s) q),
     sp_sent = ts_log s, sp_now = ts_now s\<rparr>"

definition source_fresh :: "source \<Rightarrow> bool" where
  "source_fresh s \<longleftrightarrow> (\<forall>q \<ge> ts_count s. ts_queue s q = tqueue_new)"

lemma receiver_items_simps [simp]:
  "receiver_items [] = {#}" "receiver_items [p] = phase_items p" "receiver_items (ps @ [p]) = phase_items p + receiver_items ps"
  by (simp_all add: receiver_items_def)

lemma source_abs_sel [simp]:
  "sp_waiting (source_abs s) q = mset (tq_heap (ts_queue s q))"
  "sp_taken (source_abs s) q = receiver_items (tq_receivers (ts_queue s q)) + handler_items (ts_worker s) q"
  "sp_sent (source_abs s) = ts_log s" "sp_now (source_abs s) = ts_now s"
  by (simp_all add: source_abs_def)

text \<open>The top of the heap.\<close>

lemma top_taken:
  assumes "is_top i h"
  shows "mset h = add_mset (h ! i) (mset (heap_pop i h))" "\<forall>x \<in># mset (heap_pop i h). fst (h ! i) \<le> fst x"
proof -
  have i: "i < length h" using assms by (simp add: is_top_def)
  have "mset (take i h @ h ! i # drop (Suc i) h) = add_mset (h ! i) (mset (heap_pop i h))" by (simp add: heap_pop_def)
  then show all: "mset h = add_mset (h ! i) (mset (heap_pop i h))" using i by (simp add: id_take_nth_drop [symmetric])
  show "\<forall>x \<in># mset (heap_pop i h). fst (h ! i) \<le> fst x"
  proof
    fix x assume "x \<in># mset (heap_pop i h)"
    then have "x \<in># mset h" unfolding all by simp
    then show "fst (h ! i) \<le> fst x" using assms by (simp add: is_top_def top_when_def)
  qed
qed

section \<open>What a step does to a queue\<close>

text \<open>One queue changes: its taken items become \<open>P\<close>, and either nothing or the top leaves the heap, which is \<open>P\<close> then.\<close>

definition takes :: "nat \<Rightarrow> item multiset \<Rightarrow> item list \<Rightarrow> item list \<Rightarrow> bool" where
  "takes i P h h' \<longleftrightarrow> h' = h \<and> P = {#} \<or> is_top i h \<and> h' = heap_pop i h \<and> P = {#h ! i#}"

lemma spec_takes:
  assumes "takes i P h h'" "sp_waiting a q = mset h"
  shows "time_spec_step\<^sup>*\<^sup>* a (a\<lparr>sp_waiting := (sp_waiting a)(q := mset h'), sp_taken := (sp_taken a)(q := P + sp_taken a q)\<rparr>)"
  using assms(1) unfolding takes_def
proof
  assume "h' = h \<and> P = {#}"
  then show ?thesis using assms(2) by (simp add: fun_upd_idem)
next
  assume t: "is_top i h \<and> h' = heap_pop i h \<and> P = {#h ! i#}"
  then have "time_spec_step a (a\<lparr>sp_waiting := (sp_waiting a)(q := mset h'), sp_taken := (sp_taken a)(q := add_mset (h ! i) (sp_taken a q))\<rparr>)"
    using top_taken [of i h] assms(2) by (intro spec_take) simp_all
  then show ?thesis using t by simp
qed

text \<open>A receiver lets its item go, if it has one, and then takes the next one, if it does.\<close>

lemma spec_next:
  assumes "takes i P h h'" "sp_waiting a q = mset h" "sp_taken a q = phase_items p + H"
    and "l = sp_sent a \<or> (\<exists>it. phase_items p = {#it#} \<and> fst it \<le> sp_now a \<and> l = sp_sent a @ [(it, sp_now a)])"
  shows "time_spec_step\<^sup>*\<^sup>* a (a\<lparr>sp_waiting := (sp_waiting a)(q := mset h'), sp_taken := (sp_taken a)(q := P + H), sp_sent := l\<rparr>)"
proof -
  let ?a = "a\<lparr>sp_taken := (sp_taken a)(q := H), sp_sent := l\<rparr>"
  have "time_spec_step\<^sup>*\<^sup>* a ?a"
  proof (cases "phase_items p = {#}")
    case True
    then show ?thesis using assms(3,4) by (auto simp: fun_upd_idem)
  next
    case False
    then obtain it where it: "phase_items p = {#it#}" by (cases p) simp_all
    show ?thesis
    proof (cases "l = sp_sent a")
      case True
      then show ?thesis using spec_fail [of a q it H] assms(3) it by simp
    next
      case False
      then show ?thesis using spec_send [of a q it H] assms(3,4) it by auto
    qed
  qed
  moreover have "time_spec_step\<^sup>*\<^sup>* ?a (?a\<lparr>sp_waiting := (sp_waiting ?a)(q := mset h'), sp_taken := (sp_taken ?a)(q := P + sp_taken ?a q)\<rparr>)"
    by (rule spec_takes [OF assms(1)]) (simp add: assms(2))
  moreover have "?a\<lparr>sp_waiting := (sp_waiting ?a)(q := mset h'), sp_taken := (sp_taken ?a)(q := P + sp_taken ?a q)\<rparr> =
      a\<lparr>sp_waiting := (sp_waiting a)(q := mset h'), sp_taken := (sp_taken a)(q := P + H), sp_sent := l\<rparr>"
    by (cases a) simp
  ultimately show ?thesis by (metis rtranclp_trans)
qed

text \<open>The only receiver of a queue goes on.\<close>

lemma receiver_next:
  assumes "source_ok s" "receiver_at q r p s" "takes i P (tq_heap (ts_queue s q)) (tq_heap (ts_queue t q))"
    and "receiver_items (tq_receivers (ts_queue t q)) = P" "\<And>q'. q' \<noteq> q \<Longrightarrow> ts_queue t q' = ts_queue s q'"
    and "ts_now t = ts_now s" "ts_worker t = ts_worker s"
    and "ts_log t = ts_log s \<or> (\<exists>it. phase_items p = {#it#} \<and> fst it \<le> ts_now s \<and> ts_log t = ts_log s @ [(it, ts_now s)])"
  shows "time_spec_step\<^sup>*\<^sup>* (source_abs s) (source_abs t)"
proof -
  have one: "tq_receivers (ts_queue s q) = [p]"
    using receiver_alone [OF _ assms(2)] assms(1) by (simp add: source_ok_def)
  have "source_abs t = (source_abs s)\<lparr>sp_waiting := (sp_waiting (source_abs s))(q := mset (tq_heap (ts_queue t q))),
      sp_taken := (sp_taken (source_abs s))(q := P + handler_items (ts_worker s) q), sp_sent := ts_log t\<rparr>"
    using assms(4-7) by (auto simp: source_abs_def fun_eq_iff)
  then show ?thesis
    using spec_next [OF assms(3), of "source_abs s" q p "handler_items (ts_worker s) q" "ts_log t"] assms(8) one by simp
qed

text \<open>The calls of a receiver, on the queue that it alone works on.\<close>

definition queue_takes :: "nat \<Rightarrow> nat \<Rightarrow> source \<Rightarrow> source \<Rightarrow> bool" where
  "queue_takes q i s t \<longleftrightarrow>
     takes i (receiver_items (tq_receivers (ts_queue t q))) (tq_heap (ts_queue s q)) (tq_heap (ts_queue t q)) \<and>
     (\<forall>q'. q' \<noteq> q \<longrightarrow> ts_queue t q' = ts_queue s q') \<and> ts_now t = ts_now s \<and> ts_worker t = ts_worker s \<and>
     ts_log t = ts_log s \<and> ts_count t = ts_count s"

lemma wake_sel [simp]:
  "ts_queue (wake s) = ts_queue s" "ts_now (wake s) = ts_now s" "ts_worker (wake s) = ts_worker s" "ts_log (wake s) = ts_log s"
  "ts_count (wake s) = ts_count s"
  by (simp_all add: wake_def)

lemma error_drain_takes:
  assumes "tq_receivers (ts_queue s q) = [p]" "top_choice q i s"
  shows "queue_takes q i s (error_drain q 0 i s)"
  using assms by (auto simp: queue_takes_def takes_def error_drain_def on_queue_def Let_def)

lemma value_loop_takes:
  assumes "tq_receivers (ts_queue s q) = [p]" "top_choice q i s"
  shows "queue_takes q i s (tqueue_value_loop q 0 i start s)"
  using assms error_drain_takes [OF assms]
  by (auto simp: queue_takes_def takes_def tqueue_value_loop_def on_queue_def Let_def)

lemma error_loop_takes:
  assumes "tq_receivers (ts_queue s q) = [p]" "top_choice q i s"
  shows "queue_takes q i s (tqueue_error_loop q 0 i s)"
  using assms by (auto simp: queue_takes_def takes_def tqueue_error_loop_def drop_receiver_def on_queue_def Let_def)

lemma receiver_sim:
  assumes "source_ok s" "receiver_at q r p s" "queue_takes q i s t"
  shows "time_spec_step\<^sup>*\<^sup>* (source_abs s) (source_abs t)"
  using assms(3) by (intro receiver_next [OF assms(1,2)]) (auto simp: queue_takes_def)

lemma fresh_takes: "queue_takes q i s t \<Longrightarrow> q < ts_count s \<Longrightarrow> source_fresh s \<Longrightarrow> source_fresh t"
  by (auto simp: queue_takes_def source_fresh_def)

section \<open>The worker\<close>

lemma select_sim:
  assumes "source_ok s" "source_fresh s" "ts_worker s = Loop \<or> ts_worker s = Wait" "mset ps = mset (ts_pending s)"
  shows "source_abs (worker_select ps s) = source_abs s \<and> source_fresh (worker_select ps s)"
proof -
  obtain s1 e where p: "process_all (ts_now s) ps (s\<lparr>ts_dirty := 0\<rparr>, ts_now s + day) = (s1, e)" by fastforce
  have ps: "distinct ps" "\<forall>q \<in> set ps. q < ts_count s"
    using assms(1) mset_eq_imp_distinct_iff [OF assms(4)] mset_eq_setD [OF assms(4)]
    by (auto simp: source_ok_def flags_ok_def)
  note s1 = conjunct1 [OF process_all_result [OF ps(1) p]]
  show ?thesis using ps(2) assms(2,3)
    by (auto simp: worker_select_def p s1 source_abs_def source_fresh_def process_queue_sel fun_eq_iff Let_def)
qed

lemma handler_loop_sim:
  assumes "\<forall>p. top_choice p (f p) s"
  shows "time_spec_step\<^sup>*\<^sup>* (source_abs (s\<lparr>ts_worker := Caught\<rparr>)) (source_abs (handler_loop n f qs s))"
proof (induction qs)
  case (Cons q qs)
  let ?h = "tq_heap (ts_queue s q)" and ?a = "source_abs (s\<lparr>ts_worker := Caught\<rparr>)"
  show ?case
  proof (cases "?h = []")
    case False
    then have "takes (f q) {#?h ! f q#} ?h (heap_pop (f q) ?h)" using assms by (auto simp: takes_def)
    from spec_takes [OF this, of ?a q]
    have "time_spec_step\<^sup>*\<^sup>* ?a (?a\<lparr>sp_waiting := (sp_waiting ?a)(q := mset (heap_pop (f q) ?h)), sp_taken := (sp_taken ?a)(q := {#?h ! f q#} + sp_taken ?a q)\<rparr>)"
      by simp
    moreover have "?a\<lparr>sp_waiting := (sp_waiting ?a)(q := mset (heap_pop (f q) ?h)), sp_taken := (sp_taken ?a)(q := {#?h ! f q#} + sp_taken ?a q)\<rparr> =
        source_abs (handler_loop n f (q # qs) s)"
      using False by (auto simp: source_abs_def on_queue_def Let_def fun_eq_iff)
    ultimately show ?thesis by simp
  qed (use Cons.IH in simp)
qed simp

lemma handler_loop_fresh:
  "source_fresh s \<Longrightarrow> \<forall>q \<in> set qs. q < ts_count s \<Longrightarrow> source_fresh (handler_loop n f qs s)"
  by (induction qs) (auto simp: Let_def source_fresh_def on_queue_def)

section \<open>The simulation\<close>

lemma insert_sim:
  assumes "q < ts_count s" "source_fresh s" "insert_item q it s = Ret t"
  shows "time_spec_step\<^sup>*\<^sup>* (source_abs s) (source_abs t) \<and> source_fresh t"
proof (cases "ts_error s")
  case True
  then show ?thesis using assms(2,3) by (simp add: insert_item_def)
next
  case False
  have "source_abs t = (source_abs s)\<lparr>sp_waiting := (sp_waiting (source_abs s))(q := add_mset it (sp_waiting (source_abs s) q))\<rparr>"
    "source_fresh t"
    using assms False
    by (auto simp: insert_item_def Let_def on_queue_def wake_def source_abs_def source_fresh_def fun_eq_iff split: if_splits)
  then show ?thesis using spec_insert [of "source_abs s" q it] by simp
qed

lemma value_sim:
  assumes "source_ok s" "source_fresh s" "receiver_at q r Waiting s" "top_choice q i s" "tqueue_value own q r i now s = Ret t"
  shows "time_spec_step\<^sup>*\<^sup>* (source_abs s) (source_abs t) \<and> source_fresh t"
proof -
  note one = receiver_alone [OF _ assms(3)]
  have r: "r = 0" "tq_receivers (ts_queue s q) = [Waiting]" using one assms(1) by (simp_all add: source_ok_def)
  have "queue_takes q i s (set_phase q 0 Valued s)" if "tq_heap (ts_queue s q) = []"
    using r(2) by (simp add: queue_takes_def takes_def on_queue_def)
  then have "queue_takes q i s t"
    using assms(5) value_loop_takes [OF r(2) assms(4)] r(1)
    by (auto simp: tqueue_value_def queue_checked_def split: if_splits)
  then show ?thesis using receiver_sim [OF assms(1,3)] fresh_takes assms(2,3) by blast
qed

lemma finished_sim:
  assumes "source_ok s" "source_fresh s" "receiver_at q r (Running start it) s" "top_choice q i s" "fst it \<le> ts_now s"
  shows "time_spec_step\<^sup>*\<^sup>* (source_abs s) (source_abs (item_finished q r i start it s)) \<and> source_fresh (item_finished q r i start it s)"
proof -
  let ?s = "s\<lparr>ts_items := ts_items s - 1, ts_log := ts_log s @ [(it, ts_now s)]\<rparr>" and ?t = "item_finished q r i start it s"
  note one = receiver_alone [OF _ assms(3)]
  have r: "r = 0" "tq_receivers (ts_queue s q) = [Running start it]" using one assms(1) by (simp_all add: source_ok_def)
  have t: "queue_takes q i ?s ?t"
    using value_loop_takes [of ?s q _ i start] r assms(4) by (simp add: item_finished_def)
  have "time_spec_step\<^sup>*\<^sup>* (source_abs s) (source_abs ?t)"
    by (rule receiver_next [OF assms(1,3)]) (use t assms(5) in \<open>auto simp: queue_takes_def\<close>)
  moreover have "source_fresh ?t" using fresh_takes [OF t] assms(2,3) by (simp add: source_fresh_def)
  ultimately show ?thesis by simp
qed

lemma takes_sim:
  assumes "source_ok s" "source_fresh s" "receiver_at q r p s" "top_choice q i s"
  shows "time_spec_step\<^sup>*\<^sup>* (source_abs s) (source_abs (error_drain q r i s)) \<and> source_fresh (error_drain q r i s)"
    "time_spec_step\<^sup>*\<^sup>* (source_abs s) (source_abs (tqueue_error_loop q r i s)) \<and> source_fresh (tqueue_error_loop q r i s)"
proof -
  note one = receiver_alone [OF _ assms(3)]
  have r: "r = 0" "tq_receivers (ts_queue s q) = [p]" using one assms(1) by (simp_all add: source_ok_def)
  have "queue_takes q i s (error_drain q r i s)" "queue_takes q i s (tqueue_error_loop q r i s)"
    using error_drain_takes [OF r(2) assms(4)] error_loop_takes [OF r(2) assms(4)] r(1) by simp_all
  then show "time_spec_step\<^sup>*\<^sup>* (source_abs s) (source_abs (error_drain q r i s)) \<and> source_fresh (error_drain q r i s)"
    "time_spec_step\<^sup>*\<^sup>* (source_abs s) (source_abs (tqueue_error_loop q r i s)) \<and> source_fresh (tqueue_error_loop q r i s)"
    using receiver_sim [OF assms(1,3)] fresh_takes assms(2,3) by blast+
qed

lemma done_sim:
  assumes "source_ok s" "source_fresh s" "receiver_at q r Valued s" "tqueue_done stale q r s = Ret t"
  shows "source_abs t = source_abs s \<and> source_fresh t"
proof -
  have r: "r = 0" "tq_receivers (ts_queue s q) = [Valued]" using receiver_alone [OF _ assms(3)] assms(1) by (simp_all add: source_ok_def)
  show ?thesis using assms(2-4) r
    by (auto simp: tqueue_done_def queue_checked_def Let_def drop_receiver_def on_queue_def wake_def source_abs_def source_fresh_def
        fun_eq_iff split: if_splits option.splits)
qed

lemma catch_sim:
  assumes "source_ok s" "source_fresh s" "ts_worker s = Dispatch" "\<forall>p. top_choice p (f p) s"
  shows "time_spec_step\<^sup>*\<^sup>* (source_abs s) (source_abs (worker_catch f s)) \<and> source_fresh (worker_catch f s)"
proof -
  let ?s = "s\<lparr>ts_error := True\<rparr>"
  have "source_abs (?s\<lparr>ts_worker := Caught\<rparr>) = source_abs s" using assms(3) by (simp add: source_abs_def fun_eq_iff)
  moreover have "\<forall>q \<in> set (ts_pending s). q < ts_count s" using assms(1) by (auto simp: source_ok_def flags_ok_def)
  ultimately show ?thesis
    using handler_loop_sim [of ?s f "length (ts_pending s)" "ts_pending s"]
      handler_loop_fresh [of ?s "ts_pending s"] assms(2,4)
    by (simp add: worker_catch_def source_fresh_def)
qed

lemma resume_sim:
  assumes "source_ok s" "source_fresh s" "ts_worker s = Handling n q qs it" "\<forall>p. top_choice p (f p) s"
    and "handler_resume n q qs f s = Ret t"
  shows "time_spec_step\<^sup>*\<^sup>* (source_abs s) (source_abs t) \<and> source_fresh t"
proof -
  obtain qs' where t: "t = handler_loop n f qs' s" "set qs' \<subseteq> set (q # qs)"
    using assms(5) that [of "q # qs"] that [of qs]
    by (auto simp: handler_resume_def simp del: handler_loop.simps split: if_splits)
  have "set (q # qs) \<subseteq> set (ts_pending s)" using assms(1,3) by (auto simp: source_ok_def exit_ok_def)
  then have "\<forall>p \<in> set qs'. p < ts_count s" using t(2) assms(1) by (auto simp: source_ok_def flags_ok_def)
  then have "source_fresh t" using handler_loop_fresh assms(2) t(1) by simp
  have "sp_taken (source_abs s) q = add_mset it (receiver_items (tq_receivers (ts_queue s q)))" using assms(3) by simp
  from spec_fail [OF this]
  have "time_spec_step (source_abs s) ((source_abs s)\<lparr>sp_taken := (sp_taken (source_abs s))(q := receiver_items (tq_receivers (ts_queue s q)))\<rparr>)" .
  moreover have "(source_abs s)\<lparr>sp_taken := (sp_taken (source_abs s))(q := receiver_items (tq_receivers (ts_queue s q)))\<rparr> =
      source_abs (s\<lparr>ts_worker := Caught\<rparr>)"
    using assms(3) by (auto simp: source_abs_def fun_eq_iff)
  ultimately have "time_spec_step (source_abs s) (source_abs (s\<lparr>ts_worker := Caught\<rparr>))" by simp
  then show ?thesis using handler_loop_sim [OF assms(4), of n qs'] t(1) \<open>source_fresh t\<close>
    by (auto intro: converse_rtranclp_into_rtranclp)
qed

lemma source_call_sim:
  assumes "source_call stale s (Ret t)" "source_ok s" "source_fresh s"
  shows "time_spec_step\<^sup>*\<^sup>* (source_abs s) (source_abs t) \<and> source_fresh t"
  using assms(1)
proof (cases rule: source_call.cases)
  case make
  have "ts_queue s (ts_count s) = tqueue_new" using assms(3) by (simp add: source_fresh_def)
  then have "ts_queue (make_queue s) = ts_queue s" by (simp add: make_queue_def fun_upd_idem)
  then have "source_abs (make_queue s) = source_abs s" "source_fresh (make_queue s)"
    using assms(3) by (simp_all add: source_abs_def source_fresh_def) (simp_all add: make_queue_def)
  then show ?thesis using make by simp
next
  case (insert q it)
  then show ?thesis using insert_sim [OF _ assms(3)] by metis
next
  case (value_signal q r i own now)
  then show ?thesis using value_sim [OF assms(2,3)] by metis
next
  case (finished q r start it i)
  then show ?thesis using finished_sim [OF assms(2,3)] by simp
next
  case (drained q r it i)
  then show ?thesis using takes_sim(1) [OF assms(2,3)] by simp
next
  case (error q r i)
  from error have "queue_checked q (\<lambda>s. Ret (tqueue_error_loop q r i s)) s = Ret t" by (simp add: tqueue_error_def)
  from queue_checked_Ret [OF this] have "t = tqueue_error_loop q r i s" by simp
  then show ?thesis using error takes_sim(2) [OF assms(2,3)] by simp
next
  case (failed q r it i)
  then show ?thesis using takes_sim(2) [OF assms(2,3)] by simp
next
  case (done_signal q r)
  then show ?thesis using done_sim [OF assms(2,3)] by (metis rtranclp.rtrancl_refl)
next
  case exit
  then show ?thesis using assms(3) by (simp add: worker_exit_def source_abs_def source_fresh_def fun_eq_iff)
next
  case wait
  then show ?thesis using assms(3) by (simp add: source_abs_def source_fresh_def fun_eq_iff)
next
  case (select ps)
  then have "ts_worker s = Loop \<or> ts_worker s = Wait" by blast
  from select_sim [OF assms(2,3) this select(4)] show ?thesis using select(1) by simp
next
  case (dispatch q qs)
  have "q < ts_count s" using dispatch assms(2) by (auto simp: source_ok_def flags_ok_def)
  then have "source_abs (dispatch_queue q s) = source_abs s" "source_fresh (dispatch_queue q s)"
    using assms(3) by (auto simp: dispatch_queue_def on_queue_def source_abs_def source_fresh_def fun_eq_iff)
  then show ?thesis using dispatch by simp
next
  case (dispatch_throws f)
  then show ?thesis using catch_sim [OF assms(2,3)] by simp
next
  case (handled n q qs it f)
  then show ?thesis using resume_sim [OF assms(2,3)] by metis
next
  case dispatched
  then show ?thesis using assms(3) by (simp add: source_abs_def source_fresh_def fun_eq_iff)
next
  case join
  then show ?thesis using assms(3) by (simp add: source_join_def wake_def source_abs_def source_fresh_def fun_eq_iff)
next
  case (tick d)
  moreover have "source_abs (s\<lparr>ts_now := ts_now s + d\<rparr>) = (source_abs s)\<lparr>sp_now := sp_now (source_abs s) + d\<rparr>"
    by (simp add: source_abs_def)
  ultimately show ?thesis using assms(3) spec_tick [of d "source_abs s"] by (auto simp: source_fresh_def)
qed

interpretation timing: simulation "\<lambda>s. \<exists>n now. s = source_new n now" "source_step stale" source_abs
    "\<lambda>s. source_ok s \<and> source_fresh s" "\<lambda>a. \<exists>now. a = time_spec_new now" time_spec_step for stale
proof
  fix s assume "\<exists>n now. s = source_new n now"
  then obtain n now where s: "s = source_new n now" by blast
  have "source_abs s = time_spec_new now" "source_fresh s"
    by (simp_all add: s source_new_def source_abs_def time_spec_new_def source_fresh_def tqueue_new_def fun_eq_iff)
  then show "(source_ok s \<and> source_fresh s) \<and> (\<exists>now. source_abs s = time_spec_new now)"
    using source_new_ok s by blast
next
  fix s t assume "source_ok s \<and> source_fresh s" "source_step stale s t"
  then show "(source_ok t \<and> source_fresh t) \<and> time_spec_step\<^sup>*\<^sup>* (source_abs s) (source_abs t)"
    using source_call_sim source_step_ok by (metis source_step_def)
qed

section \<open>Runs of the abstract machine\<close>

text \<open>What was sent was sent in the order of the clock, and no item before it was due.\<close>

definition sent_on_time :: "time_spec \<Rightarrow> bool" where
  "sent_on_time a \<longleftrightarrow> sorted (map snd (sp_sent a)) \<and> (\<forall>(it, now) \<in> set (sp_sent a). fst it \<le> now \<and> now \<le> sp_now a)"

lemma sent_on_time_step: "sent_on_time a \<Longrightarrow> time_spec_step a b \<Longrightarrow> sent_on_time b"
  by (erule time_spec_step.cases) (fastforce simp: sent_on_time_def sorted_append)+

interpretation on_time: invariant_of "\<lambda>a. \<exists>now. a = time_spec_new now" time_spec_step sent_on_time
proof
  show "sent_on_time a" if "\<exists>now. a = time_spec_new now" for a
    using that by (auto simp: sent_on_time_def time_spec_new_def)
qed (rule sent_on_time_step)

section \<open>Properties\<close>

text \<open>
  C5: A time source implements the abstract machine: every state that it reaches, in any interleaving of the
  worker, the executors and the callers, with errors or without, stands for a state of the machine,
  and every run for a run of the machine; so items are sent in the order of the clock and never early.
\<close>
theorem time_source_refines:
  assumes "source_reach stale s" "(source_step stale)\<^sup>*\<^sup>* s t"
  shows "reachable (\<lambda>a. \<exists>now. a = time_spec_new now) time_spec_step (source_abs s) \<and>
    time_spec_step\<^sup>*\<^sup>* (source_abs s) (source_abs t) \<and>
    sorted (map snd (ts_log t)) \<and> (\<forall>(it, now) \<in> set (ts_log t). fst it \<le> now)"
proof -
  have s: "source_ok s \<and> source_fresh s" "reachable (\<lambda>a. \<exists>now. a = time_spec_new now) time_spec_step (source_abs s)"
    using timing.simulates [OF assms(1)] by simp_all
  have run: "time_spec_step\<^sup>*\<^sup>* (source_abs s) (source_abs t)" using timing.simulates_steps [OF assms(2) s(1)] by simp
  have "sent_on_time (source_abs t)" by (rule on_time.reachable_inv [OF reachable_steps [OF run s(2)]])
  then show ?thesis using s(2) run by (auto simp: sent_on_time_def)
qed

theorem time_source_refines_witness:
  "time_spec_step\<^sup>*\<^sup>* (source_abs one_running) (source_abs one_valued) \<and> sp_sent (source_abs one_valued) = [((0, 7), 0)]"
proof -
  have "source_call None one_running (Ret (item_finished 0 0 0 50 (0, 7) one_running))"
    by (rule finished) (simp_all add: one_running_eq source_new_def)
  then have "source_step None one_running one_valued" by (simp add: source_step_def one_valued_def)
  then have "(source_step None)\<^sup>*\<^sup>* one_running one_valued" by blast
  then show ?thesis using time_source_refines [OF one_reach(4), of None one_valued] by (simp add: one_valued_eq)
qed

end
