(* ===== verification/Example_Deferral.thy ===== *)
theory Example_Deferral
  imports Example_Errors Subject
begin

text \<open>
  The program \<open>examples/composition/composition_3.cpp\<close>: when a pipeline is built and when it runs. The
  functions of its taps print, so a tap and the receiver behind it share the output. Here the state of a receiver holds
  the output, \<open>out_of\<close> and \<open>out_in\<close> say where; the interface \<open>shared_output\<close> is what they satisfy.
\<close>

section \<open>A tap and a deferred function that print\<close>

locale shared_output =
  fixes out_of :: "'s \<Rightarrow> 'w" and out_in :: "'w \<Rightarrow> 's \<Rightarrow> 's"
  assumes of_in: "out_of (out_in w s) = w"
    and in_of: "out_in (out_of s) s = s"
    and in_in: "out_in w (out_in w' s) = out_in w s"

text \<open>
  \<open>tap_\<close> with side effects made of the functions \<open>F\<close> on the output: the first component is the
  \<open>done_\<close> flag of the copy of the side effects, the second the state of \<open>out\<close>.
\<close>

definition on_side :: "('s \<Rightarrow> 'w) \<Rightarrow> ('w \<Rightarrow> 's \<Rightarrow> 's) \<Rightarrow> 'w receiver_st call \<Rightarrow> (bool \<times> 's) call" where
  "on_side out_of out_in = on_member (\<lambda>(d, s). \<lparr>rs_done = d, rs_data = out_of s\<rparr>)
     (\<lambda>st (d, s). (rs_done st, out_in (rs_data st) s))"

definition tap_shared ::
  "('s \<Rightarrow> 'w) \<Rightarrow> ('w \<Rightarrow> 's \<Rightarrow> 's) \<Rightarrow> ('w, 'v, 'e) rcv \<Rightarrow> ('s, 'v, 'e, 'x) rcv_scheme \<Rightarrow> (bool \<times> 's, 'v, 'e) rcv" where
  "tap_shared out_of out_in F R = \<lparr>
     r_value = (\<lambda>v. and_then (on_side out_of out_in (set_value (receiver_fn F) v)) (on_snd (set_value R v))),
     r_error = (\<lambda>e. no_except (and_then (on_side out_of out_in (set_error (receiver_fn F) e)) (on_snd (set_error R e)))),
     r_done = and_then (on_side out_of out_in (set_done (receiver_fn F))) (on_snd (set_done R))\<rparr>"

definition tap_shared_submit ::
  "('s \<Rightarrow> 'w) \<Rightarrow> ('w \<Rightarrow> 's \<Rightarrow> 's) \<Rightarrow> ('w, 'v, 'e) rcv \<Rightarrow> cat \<Rightarrow> ('c, (bool \<times> 's) receiver_st, 'v, 'e, unit) sender \<Rightarrow>
   ('c, 's, 'v, 'e, 'x) sender" where
  "tap_shared_submit out_of out_in F cap S k R = (\<lambda>(c, s).
     map_outcome (\<lambda>(c', st). (c', snd (rs_data st)))
       (S cap (receiver_pass (tap_shared out_of out_in F R)) (c, receiver_new (False, s))))"

definition tap_shared_sender ::
  "cardinality \<Rightarrow> ('s \<Rightarrow> 'w) \<Rightarrow> ('w \<Rightarrow> 's \<Rightarrow> 's) \<Rightarrow> ('w, 'v, 'e) rcv \<Rightarrow> cat \<Rightarrow> ('c, (bool \<times> 's) receiver_st, 'v, 'e, unit) sender \<Rightarrow>
   ('c, 's, 'v, 'e, 'x) sender" where
  "tap_shared_sender n out_of out_in F cap S = sender_from n False (tap_shared_submit out_of out_in F cap S)"

text \<open>\<open>defer\<close> of a function \<open>f\<close> that reads and writes the output.\<close>

definition defer_shared_impl ::
  "('s \<Rightarrow> 'w) \<Rightarrow> ('w \<Rightarrow> 's \<Rightarrow> 's) \<Rightarrow> ('w \<Rightarrow> ('c, 'w) may_throw) \<Rightarrow> ('c, 's, 'v, 'e, 'x) sender \<Rightarrow> (unit, 's, 'v, 'e, 'x) sender" where
  "defer_shared_impl out_of out_in f S k R = (\<lambda>(u, s).
     case f (out_of s) of
       Throws n w \<Rightarrow> Thr n (u, out_in w s)
     | Returns c w \<Rightarrow> map_outcome (\<lambda>(c', s'). (u, s')) (S LValue R (c, out_in w s)))"

definition defer_shared ::
  "('s \<Rightarrow> 'w) \<Rightarrow> ('w \<Rightarrow> 's \<Rightarrow> 's) \<Rightarrow> ('w \<Rightarrow> ('c, 'w) may_throw) \<Rightarrow> ('c, 's, 'v, 'e, 'x) sender \<Rightarrow> (unit, 's, 'v, 'e, 'x) sender" where
  "defer_shared out_of out_in f S = single_sender_data (defer_shared_impl out_of out_in f S)"

section \<open>What a tap does to the output\<close>

text \<open>
  \<open>effect F sig\<close>: what the functions do to the output when they return. \<open>tapped\<close> is the sequence of
  calls of a tap: for every signal the side effect, and then \<open>out\<close>.
\<close>

definition effect :: "('w, 'v, 'e) rcv \<Rightarrow> (('v, 'e) signal \<Rightarrow> 'w \<Rightarrow> 'w) \<Rightarrow> ('v, 'e) signal \<Rightarrow> bool" where
  "effect F p sig \<longleftrightarrow> (\<forall>w. (case sig of Value v \<Rightarrow> r_value F v | Error e \<Rightarrow> r_error F e | Done \<Rightarrow> r_done F) w = Ret (p sig w))"

fun tapped ::
  "('s \<Rightarrow> 'w) \<Rightarrow> ('w \<Rightarrow> 's \<Rightarrow> 's) \<Rightarrow> (('v, 'e) signal \<Rightarrow> 'w \<Rightarrow> 'w) \<Rightarrow> ('s, 'v, 'e, 'x) rcv_scheme \<Rightarrow> ('v, 'e) signal list \<Rightarrow> 's call" where
  "tapped out_of out_in p R [] s = Ret s"
| "tapped out_of out_in p R (sig # sigs) s = and_then (deliver R sig) (tapped out_of out_in p R sigs) (out_in (p sig (out_of s)) s)"

lemma tap_shared_sel:
  "r_value (tap_shared out_of out_in F R) v = and_then (on_side out_of out_in (deliver (receiver_fn F) (Value v))) (on_snd (deliver R (Value v)))"
  "r_error (tap_shared out_of out_in F R) e =
     no_except (and_then (on_side out_of out_in (deliver (receiver_fn F) (Error e))) (on_snd (deliver R (Error e))))"
  "r_done (tap_shared out_of out_in F R) = and_then (on_side out_of out_in (deliver (receiver_fn F) Done)) (on_snd (deliver R Done))"
  by (simp_all add: tap_shared_def)

lemma deliver_by_call:
  "deliver R (Value v) = no_except (try_catch (r_value R v) (\<lambda>ep. r_error R (Eptr ep)))"
  "deliver R (Error e) = r_error R e"
  "deliver R Done = no_except (try_catch (r_done R) (\<lambda>ep. r_error R (Eptr ep)))"
  by (simp_all add: set_value_def set_error_def set_done_def)

lemma side_effect:
  assumes "effect F p sig"
  shows "on_side out_of out_in (deliver (receiver_fn F) sig) (False, s) = Ret (is_terminal sig, out_in (p sig (out_of s)) s)"
  by (cases sig)
     (use assms in \<open>auto simp: effect_def on_side_def set_value_def set_done_def set_error_def receiver_fn_defs
        on_member_def try_catch_def no_except_def\<close>)

lemma tap_shared_deliver:
  assumes "effect F p sig" "nothrow_error R"
  shows "deliver (tap_shared out_of out_in F R) sig (False, s) =
    map_outcome (Pair (is_terminal sig)) (deliver R sig (out_in (p sig (out_of s)) s))"
proof -
  let ?c = "and_then (on_side out_of out_in (deliver (receiver_fn F) sig)) (on_snd (deliver R sig))"
  have n: "\<And>t n u. deliver R sig t \<noteq> Thr n u"
    using assms(2) by (simp add: nothrow_deliver)
  have c: "?c (False, s) = map_outcome (Pair (is_terminal sig)) (deliver R sig (out_in (p sig (out_of s)) s))"
    by (simp add: and_then_def side_effect [OF assms(1)] on_member_def del: deliver.simps)
  have "deliver (tap_shared out_of out_in F R) sig (False, s) = ?c (False, s)"
  proof (cases sig)
    case (Value v)
    with c n show ?thesis
      by (cases "deliver R (Value v) (out_in (p (Value v) (out_of s)) s)")
         (simp_all add: deliver_by_call [of "tap_shared out_of out_in F R"] tap_shared_sel try_catch_def no_except_def del: deliver.simps)
  next
    case (Error e)
    with c n show ?thesis
      by (cases "deliver R (Error e) (out_in (p (Error e) (out_of s)) s)")
         (simp_all add: deliver_by_call [of "tap_shared out_of out_in F R"] tap_shared_sel no_except_def del: deliver.simps)
  next
    case Done
    with c n show ?thesis
      by (cases "deliver R Done (out_in (p Done (out_of s)) s)")
         (simp_all add: deliver_by_call [of "tap_shared out_of out_in F R"] tap_shared_sel try_catch_def no_except_def del: deliver.simps)
  qed
  with c show ?thesis by simp
qed

lemma tap_shared_nothrow: "nothrow_error (tap_shared out_of out_in F R)"
  by (simp add: nothrow_error_def tap_shared_def)

lemma tap_shared_deliver_all:
  assumes "nothrow_error R"
  shows "\<forall>sig \<in> set (upto_terminal sigs). effect F p sig \<Longrightarrow>
    map_outcome snd (deliver_all (tap_shared out_of out_in F R) (upto_terminal sigs) (False, s)) =
      tapped out_of out_in p R (upto_terminal sigs) s"
proof (induction sigs arbitrary: s)
  case (Cons sig sigs)
  have 1: "deliver (tap_shared out_of out_in F R) sig (False, s) =
      map_outcome (Pair (is_terminal sig)) (deliver R sig (out_in (p sig (out_of s)) s))"
    using Cons.prems by (intro tap_shared_deliver assms) (simp split: if_splits)
  show ?case
  proof (cases "deliver R sig (out_in (p sig (out_of s)) s)")
    case (Ret t)
    then show ?thesis using Cons by (auto simp: 1 and_then_def)
  qed (auto simp: 1 and_then_def)
qed simp

lemma tap_shared_sends:
  assumes S: "sender_contract S cap c sigs c'" and R: "nothrow_error R"
    and F: "\<forall>sig \<in> set (upto_terminal sigs). effect F p sig"
  shows "tap_shared_sender n out_of out_in F cap S k R (c, s) =
    map_outcome (Pair c') (tapped out_of out_in p R (upto_terminal sigs) s)"
proof -
  let ?D = "tap_shared out_of out_in F R"
  have "S cap (receiver_pass ?D) (c, receiver_new (False, s)) =
      map_outcome (Pair c') (deliver_all (receiver_pass ?D) sigs (receiver_new (False, s)))"
    by (rule sender_contract.sends [OF S receiver_pass_nothrow])
  moreover have "map_outcome (\<lambda>st. snd (rs_data st)) (deliver_all (receiver_pass ?D) sigs (receiver_new (False, s))) =
      tapped out_of out_in p R (upto_terminal sigs) s"
    using map_outcome_via [OF receiver_pass_deliver [OF tap_shared_nothrow], of snd out_of out_in F R sigs "(False, s)"]
    by (simp add: tap_shared_deliver_all [OF R F])
  ultimately show ?thesis
    by (simp add: tap_shared_sender_def sender_from_eq tap_shared_submit_def map_outcome_comp
        map_outcome_via [of "\<lambda>st. snd (rs_data st)" _ _ "Pair c'"])
qed

section \<open>The program\<close>

text \<open>Where the output is: in the data of a \<open>receiver<>\<close>, or beside a receiver that does not print.\<close>

definition put_data :: "'w \<Rightarrow> 'w receiver_st \<Rightarrow> 'w receiver_st" where
  "put_data w st = st\<lparr>rs_data := w\<rparr>"

definition put_beside :: "'w \<Rightarrow> 's \<times> 'w \<Rightarrow> 's \<times> 'w" where
  "put_beside w = (\<lambda>(s, w'). (s, w))"

interpretation in_data: shared_output rs_data put_data
  by unfold_locales (simp_all add: put_data_def)

interpretation in_beside: shared_output snd put_beside
  by unfold_locales (auto simp: put_beside_def split: prod.splits)

definition beside :: "('s, 'v, 'e, 'x) rcv_scheme \<Rightarrow> ('s \<times> 'w, 'v, 'e) rcv" where
  "beside R = \<lparr>r_value = (\<lambda>v. on_fst (r_value R v)), r_error = (\<lambda>e. on_fst (r_error R e)), r_done = on_fst (r_done R)\<rparr>"

text \<open>
  The lines that are printed, with \<open>fmt\<close> for the \<open>%d\<close> of \<open>printf\<close>. \<open>defer_execution()\<close> prints and makes the
  sender whose state is the stored 42; the sender \<open>just_tapped\<close> is its type.
\<close>

definition tap_just_fns :: "(int \<Rightarrow> string) \<Rightarrow> (string list, int, 'e) rcv" where
  "tap_just_fns fmt = \<lparr>r_value = (\<lambda>v out. Ret (out @ [''just - '' @ fmt v])), r_error = abortEF, r_done = ignoreDF\<rparr>"

definition just_tapped ::
  "('s \<Rightarrow> string list) \<Rightarrow> (string list \<Rightarrow> 's \<Rightarrow> 's) \<Rightarrow> (int \<Rightarrow> string) \<Rightarrow> (int, 's, int, 'e, 'x) sender" where
  "just_tapped out_of out_in fmt = tap_shared_sender Single out_of out_in (tap_just_fns fmt) RValue (just id)"

definition defer_execution :: "string list \<Rightarrow> (int, string list) may_throw" where
  "defer_execution out = Returns 42 (out @ [''construct just''])"

definition defer_construction ::
  "('s \<Rightarrow> string list) \<Rightarrow> (string list \<Rightarrow> 's \<Rightarrow> 's) \<Rightarrow> (int \<Rightarrow> string) \<Rightarrow> (unit, 's, int, 'e, 'x) sender" where
  "defer_construction out_of out_in fmt = defer_shared out_of out_in defer_execution (just_tapped out_of out_in fmt)"

text \<open>\<open>share\<close> submits the receiver of a new subject, beside the output.\<close>

definition eager_execution ::
  "('s, int, eptr) rcv \<Rightarrow> (int \<Rightarrow> string) \<Rightarrow> string list \<Rightarrow> (('s, int) subject receiver_st \<times> string list) outcome" where
  "eager_execution R fmt out =
     (case defer_execution out of
        Throws n out \<Rightarrow> Thr n (receiver_new subject_new, out)
      | Returns c out \<Rightarrow> map_outcome snd (just_tapped snd put_beside fmt LValue
          (beside (subject_get_receiver R)) (c, (receiver_new subject_new, out))))"

text \<open>\<open>main\<close>: the two pipelines are submitted as lvalues; \<open>submit()\<close> makes a \<open>receiver<>\<close>.\<close>

definition print_lines :: "string list \<Rightarrow> string list call" where
  "print_lines ls out = Ret (out @ ls)"

definition submit_lvalue :: "('c, string list receiver_st, int, eptr, unit) sender \<Rightarrow> ('c \<times> string list) call" where
  "submit_lvalue S = submit_fn ignore_fns S LValue"

definition main_defer_execution :: "(int \<Rightarrow> string) \<Rightarrow> string list call" where
  "main_defer_execution fmt out =
     (case defer_execution out of
        Throws n out \<Rightarrow> Thr n out
      | Returns de out \<Rightarrow> map_outcome snd (submit_lvalue (just_tapped rs_data put_data fmt)
          (de, out @ [''submit defer_execution''])))"

definition main_eager_execution :: "(int \<Rightarrow> string) \<Rightarrow> string list call" where
  "main_eager_execution fmt out =
     (case eager_execution (receiver_empty :: (unit receiver_st, int, eptr) rcv) fmt out of
        Ret (st, out) \<Rightarrow> map_outcome (\<lambda>sj. out @ [''submit eager_execution''])
           (subject_submit (receiver_empty :: (unit receiver_st, int, eptr) rcv) (receiver_new ()) (rs_data st))
      | Thr n (st, out) \<Rightarrow> Thr n out | Term \<Rightarrow> Term | UB \<Rightarrow> UB)"

definition deferral_main :: "(int \<Rightarrow> string) \<Rightarrow> string list call" where
  "deferral_main fmt = run_all
    [print_lines [[], ''call defer_execution''], main_defer_execution fmt,
     print_lines [[], ''call defer_construction'', ''submit defer_construction''],
     (\<lambda>out. map_outcome snd (submit_lvalue (defer_construction rs_data put_data fmt) ((), out))),
     print_lines [[], ''call eager_execution''], main_eager_execution fmt, print_ok]"

section \<open>What the pipelines print\<close>

definition just_lines :: "(int \<Rightarrow> string) \<Rightarrow> (int, 'e) signal \<Rightarrow> string list \<Rightarrow> string list" where
  "just_lines fmt sig out = (case sig of Value v \<Rightarrow> out @ [''just - '' @ fmt v] | _ \<Rightarrow> out)"

lemma just_effect: "\<forall>sig \<in> set (upto_terminal [Value v, Done]). effect (tap_just_fns fmt) (just_lines fmt) sig"
  by (simp add: effect_def tap_just_fns_def just_lines_def ignoreDF_def)

context shared_output
begin

lemma tapped_value:
  assumes "\<And>w. p Done w = w"
  shows "tapped out_of out_in p R [Value v, Done] s = deliver_all R [Value v, Done] (out_in (p (Value v) (out_of s)) s)"
  by (simp add: and_then_def assms in_of split: outcome.split)

end

lemma just_tapped_sends:
  assumes "shared_output out_of out_in" "nothrow_error R"
  shows "just_tapped out_of out_in fmt k R (c, s) =
    map_outcome (Pair c) (deliver_all R [Value c, Done] (out_in (out_of s @ [''just - '' @ fmt c]) s))"
proof -
  have "tapped out_of out_in (just_lines fmt) R [Value c, Done] s =
      deliver_all R [Value c, Done] (out_in (just_lines fmt (Value c :: (int, 'b) signal) (out_of s)) s)"
    by (rule shared_output.tapped_value [OF assms(1)]) (simp add: just_lines_def)
  then show ?thesis
    by (simp add: just_tapped_def tap_shared_sends [OF just_contract assms(2) just_effect] just_lines_def
        del: tapped.simps deliver_all_simps upto_terminal.simps) simp
qed

lemma deferred_sends:
  assumes "shared_output out_of out_in" "nothrow_error R"
  shows "defer_construction out_of out_in fmt k R ((), s) =
    map_outcome (Pair ()) (deliver_all R [Value 42, Done] (out_in (out_of s @ [''construct just'', ''just - '' @ fmt 42]) s))"
  using shared_output.of_in [OF assms(1)] shared_output.in_in [OF assms(1)]
  by (simp add: defer_construction_def defer_shared_def defer_shared_impl_def defer_execution_def single_sender_data_eq
      just_tapped_sends [OF assms] map_outcome_comp del: deliver_all_simps)

lemma ignored: "deliver_all (receiver_fn ignore_fns) [Value v, Done] (receiver_new s) = Ret \<lparr>rs_done = True, rs_data = s\<rparr>"
  by (simp add: ignore_fns_def ignoreVF_def ignoreDF_def receiver_fn_defs set_value_def set_done_def on_member_def
      try_catch_def no_except_def and_then_def receiver_new_def)

lemma put_new [simp]: "put_data w (receiver_new s) = receiver_new w"
  by (simp add: put_data_def receiver_new_def)

lemma submit_just_tapped:
  "submit_lvalue (just_tapped rs_data put_data fmt) (c, out) = Ret (c, out @ [''just - '' @ fmt c])"
  by (simp add: submit_lvalue_def submit_fn_def just_tapped_sends [OF in_data.shared_output_axioms rfn.receiver_nothrow] ignored
      del: deliver_all_simps)

lemma submit_deferred:
  "submit_lvalue (defer_construction rs_data put_data fmt) ((), out) =
     Ret ((), out @ [''construct just'', ''just - '' @ fmt 42])"
  by (simp add: submit_lvalue_def submit_fn_def deferred_sends [OF in_data.shared_output_axioms rfn.receiver_nothrow] ignored
      del: deliver_all_simps)

text \<open>The receiver of a subject that nobody was submitted to: it keeps the value, and that it is done.\<close>

lemma beside_deliver: "deliver (beside R) sig (s, w) = map_outcome (\<lambda>s. (s, w)) (deliver R sig s)"
  by (cases sig)
     (auto simp: beside_def set_value_def set_error_def set_done_def try_catch_def no_except_def on_member_def
       split: outcome.split)

lemma beside_deliver_all: "deliver_all (beside R) sigs (s, w) = map_outcome (\<lambda>s. (s, w)) (deliver_all R sigs s)"
proof (induction sigs arbitrary: s)
  case (Cons sig sigs)
  then show ?case by (cases "deliver R sig s") (simp_all add: and_then_def beside_deliver)
qed simp

definition subject_full :: "int \<Rightarrow> ('s, int) subject" where
  "subject_full v = subject_new\<lparr>sj_t := Some v, sj_done := True\<rparr>"

lemma subject_filled:
  "deliver_all (subject_get_receiver R) [Value v, Done] (receiver_new subject_new) =
     Ret \<lparr>rs_done = True, rs_data = subject_full v\<rparr>"
  by (simp add: subject_get_receiver_def receiver_pass_def receiver_data_defs subject_receiver_def subject_value_def subject_done_def
      passDVF_def passDDF_def set_value_def set_done_def on_member_def try_catch_def no_except_def and_then_def
      receiver_new_def subject_new_def subject_full_def)

lemma eager_runs:
  "eager_execution R fmt out =
     Ret (\<lparr>rs_done = True, rs_data = subject_full 42\<rparr>, out @ [''construct just'', ''just - '' @ fmt 42])"
proof -
  have "nothrow_error (beside (subject_get_receiver R) :: (_ \<times> string list, _, _) rcv)"
    using receiver_pass_nothrow [of "subject_receiver R"]
    by (auto simp: nothrow_error_def beside_def on_member_def subject_get_receiver_def)
  then show ?thesis
    by (simp add: eager_execution_def defer_execution_def just_tapped_sends [OF in_beside.shared_output_axioms] put_beside_def
        beside_deliver_all subject_filled map_outcome_comp del: deliver_all_simps)
qed

lemma submit_full:
  assumes "returns_as R f"
  shows "map_outcome sj_outs (submit_outs R outs (subject_full v)) = Ret (map (f (Value v)) outs)"
  by (subst submit_outs_late [OF assms, of Null "Some v" True "Value v"])
     (simp_all add: subject_submit_def subject_full_def subject_new_def Let_def)

section \<open>Properties\<close>

text \<open>
  When the three pipelines print, for any number of submissions: \<open>defer_execution\<close> prints the construction at
  once and the value once per submission; \<open>defer_construction\<close> prints nothing before it is submitted and both for every
  submission; \<open>eager_execution\<close> prints both at once and nothing when it is submitted, and then its receivers get the value, but no done.
\<close>
theorem deferral_order:
  assumes "returns_as R f"
  shows "(\<exists>de out'. defer_execution out = Returns de out' \<and>
       run_all (replicate n (submit_lvalue (just_tapped rs_data put_data fmt))) (de, out') =
         Ret (de, out @ [''construct just''] @ replicate n (''just - '' @ fmt 42))) \<and>
     run_all (replicate n (submit_lvalue (defer_construction rs_data put_data fmt))) ((), out) =
       Ret ((), out @ concat (replicate n [''construct just'', ''just - '' @ fmt 42])) \<and>
     (\<exists>st. eager_execution R fmt out = Ret (st, out @ [''construct just'', ''just - '' @ fmt 42]) \<and>
       map_outcome sj_outs (submit_outs R outs (rs_data st)) = Ret (map (f (Value 42)) outs))"
proof -
  have 1: "run_all (replicate n (submit_lvalue (just_tapped rs_data put_data fmt))) (c, out) =
      Ret (c, out @ replicate n (''just - '' @ fmt c))" for c out
    by (induction n arbitrary: out) (simp_all add: and_then_def submit_just_tapped)
  have 2: "run_all (replicate n (submit_lvalue (defer_construction rs_data put_data fmt))) ((), out) =
      Ret ((), out @ concat (replicate n [''construct just'', ''just - '' @ fmt 42]))" for out
    by (induction n arbitrary: out) (simp_all add: and_then_def submit_deferred)
  show ?thesis
    using submit_full [OF assms, of outs 42] by (simp add: defer_execution_def 1 2 eager_runs del: map_outcome_eq_Ret)
qed

definition int_noter :: "((int, eptr) signal list, int, eptr) rcv" where
  "int_noter = \<lparr>r_value = (\<lambda>v s. Ret (s @ [Value v])), r_error = (\<lambda>e s. Ret (s @ [Error e])), r_done = (\<lambda>s. Ret (s @ [Done]))\<rparr>"

lemma int_noter_returns: "returns_as int_noter (\<lambda>sig s. s @ [sig])"
  unfolding returns_as_def
proof (intro allI)
  fix sig s show "deliver int_noter sig s = Ret (s @ [sig])"
    by (cases sig) (simp_all add: int_noter_def run_signals)
qed

theorem deferral_order_witness:
  "\<exists>st. eager_execution int_noter (\<lambda>i. ''42'') [] = Ret (st, [''construct just'', ''just - 42'']) \<and>
     map_outcome sj_outs (submit_outs int_noter [[], []] (rs_data st)) = Ret [[Value 42], [Value 42]]"
  using deferral_order [OF int_noter_returns, of "[]" 0 "\<lambda>i. ''42''" "[[], []]"] by simp

text \<open>The transcript of the program, as its comments give it.\<close>

theorem deferral_main_prints:
  "deferral_main fmt [] = Ret
     [[], ''call defer_execution'', ''construct just'', ''submit defer_execution'', ''just - '' @ fmt 42,
      [], ''call defer_construction'', ''submit defer_construction'', ''construct just'', ''just - '' @ fmt 42,
      [], ''call eager_execution'', ''construct just'', ''just - '' @ fmt 42, ''submit eager_execution'', ''OK'']"
proof -
  let ?R = "receiver_empty :: (unit receiver_st, int, eptr) rcv"
  have "subject_submit ?R (receiver_new ()) (subject_full 42) =
      Ret (subject_full 42\<lparr>sj_outs := [receiver_new ()]\<rparr>)"
    by (simp add: subject_submit_def subject_full_def subject_new_def Let_def signal_out_def receiver_empty_def ignoreVF_def
        receiver_fn_defs set_value_def on_member_def try_catch_def no_except_def receiver_new_def)
  then show ?thesis
    by (simp add: deferral_main_def print_lines_def main_defer_execution_def defer_execution_def submit_just_tapped
        submit_deferred main_eager_execution_def eager_runs and_then_def print_ok_def)
qed

end
