(* ===== verification/Trampoline_Programs.thy ===== *)
theory Trampoline_Programs
  imports Trampoline_Correct Concepts
begin

text \<open>
  What programs see of the trampoline: \<open>owned_by_trampoline\<close> and \<open>repeat\<close> of \<open>trampoline.h\<close>, the countdown of
  \<open>test/TrampolineTest.cpp\<close>, whose receiver submits itself, and the order of the submissions.
\<close>

section \<open>\<open>owned_by_trampoline()\<close> and \<open>repeat()\<close>\<close>

definition owned_by_trampoline :: "tramp \<Rightarrow> bool" where
  "owned_by_trampoline st = is_owned st"

text \<open>
  \<open>repeat()\<close> makes a function that calls \<open>detail::repeat(exec)\<close>: the overload for a \<open>delegator\<close> submits \<open>recurse\<close>,
  when the delegator is a sender to \<open>recurse_t\<close> (an empty class without properties); any other call ends the program.
\<close>

definition recurse_type :: "unit cxx" where
  "recurse_type = Cxx None True False (\<lambda>_. False) (\<lambda>_. False) (\<lambda>_. False) None None None None None"

definition repeat_delegator :: "tramp call option" where
  "repeat_delegator = (if SenderTo True (delegator_type :: unit cxx) recurse_type [] then Some submit_recurse else None)"

definition repeat_any :: "tramp call" where
  "repeat_any st = Term"

definition repeat_fn :: "bool \<Rightarrow> tramp call" where
  "repeat_fn delegator =
     (case (if delegator then repeat_delegator else None) of Some f \<Rightarrow> f | None \<Rightarrow> repeat_any)"

text \<open>
  The function that \<open>repeat()\<close> makes ends the program whatever it is given, because an executor has none of the
  properties of a sender: \<open>submit(exec, recurse)\<close> cannot be reached through it.
\<close>

theorem repeat_terminates: "repeat_fn d st = Term"
proof -
  have "\<not> Sender_concept (delegator_type :: unit cxx) []" by code_simp
  then show ?thesis by (simp add: repeat_fn_def repeat_delegator_def SenderTo_def repeat_any_def)
qed

section \<open>The countdown\<close>

text \<open>
  \<open>countdownsingle\<close> and the recursive function of \<open>VirtualDerecursion\<close>, with the counter at \<open>n > 0\<close>: \<open>--counter\<close>, which is
  recorded, and another submission of itself unless it is zero.
\<close>

fun countdown :: "nat \<Rightarrow> task" where
  "countdown n = Task 0 True (Emit (n - 1) # (if n - 1 > 0 then [Submit OwnOrDelegate (countdown (n - 1))] else []))"

declare countdown.simps [simp del]

definition countdown_test :: "nat \<Rightarrow> tramp result" where
  "countdown_test n = trampoline_submit (4 * n + 2) OwnOrDelegate (countdown n) idle_thread"

lemma countdown_Suc:
  "countdown (Suc n) = Task 0 True (Emit n # (if n > 0 then [Submit OwnOrDelegate (countdown n)] else []))"
  by (subst countdown.simps) simp

lemma countdown_props:
  "norec_task (countdown (Suc n)) \<and> fuel_task (countdown (Suc n)) = 4 * Suc n \<and>
   ev_task (countdown (Suc n)) =
     mset (map EvUser [0..<Suc n]) + repeat_mset (Suc n) {#EvValue 0 0, EvDone 0#}"
proof (induction n)
  case (Suc n)
  then show ?case by (subst (1 2 3) countdown_Suc) (simp add: ev_final_def)
qed (simp add: countdown_Suc ev_final_def)

text \<open>
  The countdown of the tests, for every start above zero: the submission returns and gives the thread back, the
  counter takes every value below the start once, zero included, every submission gets value and done once, and no value
  is sent deeper than 100 calls.
\<close>
theorem countdown_derecursion:
  assumes "0 < n"
  shows "\<exists>st. countdown_test n = Some (Ret st) \<and> owner st = None \<and>
     mset (map erase (log st)) = mset (map EvUser [0..<n]) + repeat_mset n {#EvValue 0 0, EvDone 0#} \<and>
     (\<forall>nm d. EvValue nm d \<in> set (log st) \<longrightarrow> 0 \<le> d \<and> d \<le> 100)"
proof -
  obtain m where n: "n = Suc m" using assms by (cases n) auto
  have p: "norec_task (countdown n)" "fuel_task (countdown n) + 2 \<le> 4 * n + 2"
      "ev_task (countdown n) = mset (map EvUser [0..<n]) + repeat_mset n {#EvValue 0 0, EvDone 0#}"
    using countdown_props [of m] by (simp_all add: n)
  from submit_total [OF p(1) _ p(2), of idle_thread OwnOrDelegate] p(3) show ?thesis
    by (fastforce simp: countdown_test_def idle_thread_def seen_def log_ok_def)
qed

theorem countdown_derecursion_witness:
  "\<exists>st. countdown_test 100000 = Some (Ret st) \<and> owner st = None"
  using countdown_derecursion [of 100000] by auto

section \<open>The order of submissions\<close>

text \<open>
  \<open>nested k t\<close>: \<open>t\<close> inside \<open>k\<close> receivers that each submit the next. The receiver of \<open>order_task\<close> submits \<open>A\<close>, which
  records \<open>a\<close> and submits one that records \<open>b\<close>; then it records \<open>c\<close> and submits \<open>B\<close>, which records \<open>e\<close>.
\<close>

fun nested :: "nat \<Rightarrow> task \<Rightarrow> task" where
  "nested 0 t = t"
| "nested (Suc k) t = Task 0 True [Submit OwnOrDelegate (nested k t)]"

definition order_task :: "nat \<Rightarrow> nat \<Rightarrow> nat \<Rightarrow> nat \<Rightarrow> task" where
  "order_task a b c e = Task 0 True
     [Submit OwnOrDelegate (Task 0 True [Emit a, Submit OwnOrDelegate (Task 0 True [Emit b])]),
      Emit c, Submit OwnOrDelegate (Task 0 True [Emit e])]"

definition user_marks :: "tramp \<Rightarrow> event list" where
  "user_marks st = filter (\<lambda>e. case e of EvUser k \<Rightarrow> True | _ \<Rightarrow> False) (log st)"

text \<open>
  What a call records at depth \<open>d\<close> and adds to the queue, with any fuel from \<open>N\<close> on; and what the loop over the queue
  records.
\<close>

definition runs :: "nat \<Rightarrow> code \<Rightarrow> int \<Rightarrow> event list \<Rightarrow> work list \<Rightarrow> bool" where
  "runs N co d M Q \<longleftrightarrow> (\<forall>n st q. owner st = Some \<lparr>depth = d, queue = q, repeat_flag = False\<rparr> \<longrightarrow>
     (\<exists>st'. interp (N + n) co st = Some (Ret st') \<and> owner st' = Some \<lparr>depth = d, queue = q @ Q, repeat_flag = False\<rparr> \<and>
        user_marks st' = user_marks st @ M))"

definition drains :: "nat \<Rightarrow> work list \<Rightarrow> event list \<Rightarrow> bool" where
  "drains N q M \<longleftrightarrow> (\<forall>n st. owner st = Some \<lparr>depth = 0, queue = q, repeat_flag = False\<rparr> \<longrightarrow>
     (\<exists>st'. interp (N + n) Drain st = Some (Ret st') \<and> owner st' = Some \<lparr>depth = 0, queue = [], repeat_flag = False\<rparr> \<and>
        user_marks st' = user_marks st @ M))"

lemma user_marks_logged [simp]:
  "user_marks (logged (EvUser k) st) = user_marks st @ [EvUser k]" "user_marks (logged (EvValue nm d) st) = user_marks st"
  "user_marks (logged (EvDone nm) st) = user_marks st" "user_marks (upd_owner f st) = user_marks st"
  by (simp_all add: user_marks_def upd_owner_def)

lemma runs_more: "runs N co d M Q \<Longrightarrow> N \<le> N' \<Longrightarrow> runs N' co d M Q"
  unfolding runs_def by (metis add.assoc le_Suc_ex)

lemma drains_more: "drains N q M \<Longrightarrow> N \<le> N' \<Longrightarrow> drains N' q M"
  unfolding drains_def by (metis add.assoc le_Suc_ex)

lemma runs_nil: "runs (Suc N) (Body []) d [] []"
  by (simp add: runs_def)

lemma runs_emit: "runs (Suc N) (Body acts) d M Q \<Longrightarrow> runs (Suc N) (Body (Emit k # acts)) d (EvUser k # M) Q"
  unfolding runs_def
proof (intro allI impI)
  fix n :: nat and st :: tramp and q :: "work list"
  assume runs: "\<forall>n st q. owner st = Some \<lparr>depth = d, queue = q, repeat_flag = False\<rparr> \<longrightarrow>
      (\<exists>st'. interp (Suc N + n) (Body acts) st = Some (Ret st') \<and> owner st' = Some \<lparr>depth = d, queue = q @ Q, repeat_flag = False\<rparr> \<and>
        user_marks st' = user_marks st @ M)"
    and "owner st = Some \<lparr>depth = d, queue = q, repeat_flag = False\<rparr>"
  then have "owner (logged (EvUser k) st) = Some \<lparr>depth = d, queue = q, repeat_flag = False\<rparr>" by simp
  with runs obtain st1 where "interp (Suc N + n) (Body acts) (logged (EvUser k) st) = Some (Ret st1)"
      "owner st1 = Some \<lparr>depth = d, queue = q @ Q, repeat_flag = False\<rparr>" "user_marks st1 = user_marks (logged (EvUser k) st) @ M"
    by blast
  then show "\<exists>st'. interp (Suc N + n) (Body (Emit k # acts)) st = Some (Ret st') \<and>
      owner st' = Some \<lparr>depth = d, queue = q @ Q, repeat_flag = False\<rparr> \<and> user_marks st' = user_marks st @ EvUser k # M"
    by (intro exI [of _ st1]) simp
qed

lemma runs_submit:
  assumes "runs N (SubmitDelegate (work_new t)) d M Q" "runs (Suc N) (Body acts) d M' Q'"
  shows "runs (Suc N) (Body (Submit OwnOrDelegate t # acts)) d (M @ M') (Q @ Q')"
  unfolding runs_def
proof (intro allI impI)
  fix n :: nat and st :: tramp and q :: "work list"
  assume st: "owner st = Some \<lparr>depth = d, queue = q, repeat_flag = False\<rparr>"
  obtain st1 where st1: "interp (N + n) (SubmitDelegate (work_new t)) st = Some (Ret st1)"
      "owner st1 = Some \<lparr>depth = d, queue = q @ Q, repeat_flag = False\<rparr>" "user_marks st1 = user_marks st @ M"
    using assms(1) st unfolding runs_def by blast
  obtain st2 where st2: "interp (Suc N + n) (Body acts) st1 = Some (Ret st2)"
      "owner st2 = Some \<lparr>depth = d, queue = (q @ Q) @ Q', repeat_flag = False\<rparr>" "user_marks st2 = user_marks st1 @ M'"
    using assms(2) st1(2) unfolding runs_def by blast
  show "\<exists>st'. interp (Suc N + n) (Body (Submit OwnOrDelegate t # acts)) st = Some (Ret st') \<and>
      owner st' = Some \<lparr>depth = d, queue = q @ Q @ Q', repeat_flag = False\<rparr> \<and> user_marks st' = user_marks st @ M @ M'"
    using st1 st2 by (intro exI [of _ st2]) simp
qed

lemma runs_deliver:
  assumes "runs N (Body acts) d M Q" "owner st = Some \<lparr>depth = d, queue = q, repeat_flag = False\<rparr>"
  shows "\<exists>w' st'. deliver_work (interp (N + n)) (work_new (Task nm True acts)) st = Some (Ret (w', st')) \<and>
    owner st' = Some \<lparr>depth = d, queue = q @ Q, repeat_flag = False\<rparr> \<and> user_marks st' = user_marks st @ M"
proof -
  have "owner (logged (EvValue nm d) st) = Some \<lparr>depth = d, queue = q, repeat_flag = False\<rparr>" using assms(2) by simp
  then obtain st1 where "interp (N + n) (Body acts) (logged (EvValue nm d) st) = Some (Ret st1)"
      "owner st1 = Some \<lparr>depth = d, queue = q @ Q, repeat_flag = False\<rparr>" "user_marks st1 = user_marks st @ M"
    using assms(1) unfolding runs_def by (metis user_marks_logged(2))
  then show ?thesis
    using assms(2) by (simp add: deliver_work_def work_value_def work_new_def work_done_def current_depth_def)
qed

lemma runs_delegate:
  assumes "runs N (Body acts) (d + 1) M Q" "d < 100"
  shows "runs (Suc N) (SubmitDelegate (work_new (Task nm True acts))) d M Q"
  unfolding runs_def
proof (intro allI impI)
  fix n :: nat and st :: tramp and q :: "work list"
  assume st: "owner st = Some \<lparr>depth = d, queue = q, repeat_flag = False\<rparr>"
  then have "owner (add_depth 1 st) = Some \<lparr>depth = d + 1, queue = q, repeat_flag = False\<rparr>" by (simp add: add_depth_def upd_owner_def)
  from runs_deliver [OF assms(1) this, of n nm] show "\<exists>st'. interp (Suc N + n) (SubmitDelegate (work_new (Task nm True acts))) st = Some (Ret st') \<and>
      owner st' = Some \<lparr>depth = d, queue = q @ Q, repeat_flag = False\<rparr> \<and> user_marks st' = user_marks st @ M"
    using st assms(2)
    by (auto simp: submit_delegate_def is_owned_def current_depth_def add_depth_def upd_owner_def user_marks_def)
qed

lemma runs_push: "100 \<le> d \<Longrightarrow> runs (Suc N) (SubmitDelegate w) d [] [w]"
  by (auto simp: runs_def submit_delegate_def is_owned_def current_depth_def add_depth_def push_work_def upd_owner_def user_marks_def)

lemma drains_nil: "drains (Suc N) [] []"
  by (simp add: drains_def drain_def)

lemma drains_cons:
  assumes "runs N (Body acts) 0 M Q" "drains N (ws @ Q) M'"
  shows "drains (Suc N) (work_new (Task nm True acts) # ws) (M @ M')"
  unfolding drains_def
proof (intro allI impI)
  fix n :: nat and st :: tramp
  assume st: "owner st = Some \<lparr>depth = 0, queue = work_new (Task nm True acts) # ws, repeat_flag = False\<rparr>"
  let ?st = "upd_owner (\<lambda>p. p\<lparr>queue := ws\<rparr>) st"
  have "owner ?st = Some \<lparr>depth = 0, queue = ws, repeat_flag = False\<rparr>" using st by (simp add: upd_owner_def)
  from runs_deliver [OF assms(1) this, of n nm] obtain w' st1 where
    st1: "deliver_work (interp (N + n)) (work_new (Task nm True acts)) ?st = Some (Ret (w', st1))"
      "owner st1 = Some \<lparr>depth = 0, queue = ws @ Q, repeat_flag = False\<rparr>" "user_marks st1 = user_marks st @ M" by auto
  from assms(2) st1(2) obtain st2 where "interp (N + n) Drain st1 = Some (Ret st2)"
      "owner st2 = Some \<lparr>depth = 0, queue = [], repeat_flag = False\<rparr>" "user_marks st2 = user_marks st1 @ M'"
    unfolding drains_def by blast
  then show "\<exists>st'. interp (Suc N + n) Drain st = Some (Ret st') \<and>
      owner st' = Some \<lparr>depth = 0, queue = [], repeat_flag = False\<rparr> \<and> user_marks st' = user_marks st @ M @ M'"
    using st st1 by (simp add: drain_def)
qed

text \<open>On an idle thread, the submitted receiver runs as the only one of a queue does.\<close>

lemma submit_as_drain:
  assumes "runs N (Body acts) 0 M Q" "drains N Q M'"
  shows "\<exists>st. trampoline_submit (N + 3 + n) OwnOrDelegate (Task nm True acts) idle_thread = Some (Ret st) \<and> owner st = None \<and>
    user_marks st = M @ M'"
proof -
  let ?st = "take_owner idle_thread" and ?w = "work_new (Task nm True acts)"
  have o: "owner ?st = Some \<lparr>depth = 0, queue = [], repeat_flag = False\<rparr>" by (simp add: take_owner_def)
  have u: "upd_owner (\<lambda>p. p\<lparr>repeat_flag := False\<rparr>) ?st = ?st" "user_marks ?st = []"
    by (simp_all add: upd_owner_def take_owner_def idle_thread_def user_marks_def)
  obtain w' st1 where st1: "deliver_work (interp (N + n)) ?w ?st = Some (Ret (w', st1))"
      "owner st1 = Some \<lparr>depth = 0, queue = Q, repeat_flag = False\<rparr>" "user_marks st1 = M"
    using runs_deliver [OF assms(1) o, of n nm] u by auto
  have loop: "interp (Suc (N + n)) (NestLoop ?w) ?st = Some (Ret st1)"
    using st1(1,2) u by (simp add: nest_loop_def)
  have "drains (Suc N) Q M'" by (rule drains_more [OF assms(2)]) simp
  then obtain st2 where st2: "interp (Suc (N + n)) Drain st1 = Some (Ret st2)"
      "owner st2 = Some \<lparr>depth = 0, queue = [], repeat_flag = False\<rparr>" "user_marks st2 = M @ M'"
    using st1(2,3) unfolding drains_def by (metis add_Suc)
  have "interp (Suc (Suc (N + n))) (SubmitNest ?w) ?st = Some (Ret st2)"
    using loop st2(1) o by (subst interp.simps(2)) (simp add: submit_nest_def del: interp.simps)
  then have "interp (Suc (Suc (Suc (N + n)))) (SubmitDelegate ?w) idle_thread = Some (Ret (st2\<lparr>owner := None\<rparr>))"
    using st2(2) by (subst interp.simps(2)) (simp add: submit_delegate_def is_owned_def release_owner_def idle_thread_def del: interp.simps)
  then show ?thesis using st2(3) by (simp add: trampoline_submit_def user_marks_def eval_nat_numeral)
qed

text \<open>Nesting adds to the depth, up to 100; what would go deeper starts again from depth 0, from the queue.\<close>

lemma nested_Suc_Task: "\<exists>acts. nested (Suc k) t = Task 0 True acts"
  by simp

lemma nested_add: "nested (j + k) t = nested j (nested k t)"
  by (induction j) simp_all

lemma runs_nested:
  "t = Task 0 True acts \<Longrightarrow> runs (Suc N) (Body acts) (d + int k) M Q \<Longrightarrow> d + int k \<le> 100 \<Longrightarrow>
   runs (Suc (N + 2 * k)) (Body (t_body (nested k t))) d M Q"
proof (induction k arbitrary: d)
  case (Suc k)
  have "runs (Suc (N + 2 * k)) (Body (t_body (nested k t))) (d + 1) M Q"
    by (rule Suc.IH [OF Suc.prems(1)]) (use Suc.prems(2,3) in \<open>simp_all add: algebra_simps\<close>)
  moreover have "nested k t = Task 0 True (t_body (nested k t))" using Suc.prems(1) by (cases k) simp_all
  ultimately have "runs (Suc (Suc (N + 2 * k))) (SubmitDelegate (work_new (nested k t))) d M Q"
    using runs_delegate [of "Suc (N + 2 * k)" "t_body (nested k t)" d M Q 0] Suc.prems(3) by simp
  from runs_submit [OF this runs_nil] show ?case by simp
qed simp

lemma runs_overflow: "runs 202 (Body (t_body (nested (101 + k) t))) 0 [] [work_new (nested k t)]"
proof -
  have "runs (Suc 1) (Body [Submit OwnOrDelegate (nested k t)]) 100 ([] @ []) ([work_new (nested k t)] @ [])"
    by (rule runs_submit [OF _ runs_nil]) (use runs_push [of 100 0] in simp)
  then have "runs (Suc (1 + 2 * 100)) (Body (t_body (nested 100 (nested (Suc k) t)))) 0 [] [work_new (nested k t)]"
    by (intro runs_nested) simp_all
  then show ?thesis using nested_add [of 100 "Suc k" t] by simp
qed

text \<open>The body of \<open>order_task\<close> below depth 99, at depth 99 and at depth 100.\<close>

definition order_marks :: "nat \<Rightarrow> nat \<Rightarrow> nat \<Rightarrow> nat \<Rightarrow> nat \<Rightarrow> event list" where
  "order_marks k a b c e =
     (if k mod 101 = 99 then [EvUser a, EvUser c, EvUser e, EvUser b]
      else if k mod 101 = 100 then [EvUser c, EvUser a, EvUser b, EvUser e]
      else [EvUser a, EvUser b, EvUser c, EvUser e])"

lemma runs_one: "runs (Suc (Suc N)) (Body [Emit k]) d [EvUser k] []"
  by (rule runs_emit [OF runs_nil])

lemma runs_inner:
  "d < 100 \<Longrightarrow> runs 4 (Body [Emit a, Submit OwnOrDelegate (Task 0 True [Emit b])]) d [EvUser a, EvUser b] []"
  "100 \<le> d \<Longrightarrow> runs 4 (Body [Emit a, Submit OwnOrDelegate (Task 0 True [Emit b])]) d [EvUser a] [work_new (Task 0 True [Emit b])]"
proof -
  assume "d < 100"
  then have "runs (Suc 2) (SubmitDelegate (work_new (Task 0 True [Emit b]))) d [EvUser b] []"
    using runs_delegate [OF runs_one [of 0 b "d + 1"], of 0] by (simp add: numeral_2_eq_2)
  from runs_emit [OF runs_submit [OF this runs_nil], of a]
  show "runs 4 (Body [Emit a, Submit OwnOrDelegate (Task 0 True [Emit b])]) d [EvUser a, EvUser b] []"
    by (simp add: eval_nat_numeral)
next
  assume "100 \<le> d"
  from runs_emit [OF runs_submit [OF runs_push [OF this, of 2] runs_nil], of a]
  show "runs 4 (Body [Emit a, Submit OwnOrDelegate (Task 0 True [Emit b])]) d [EvUser a] [work_new (Task 0 True [Emit b])]"
    by (simp add: eval_nat_numeral)
qed

lemma runs_order:
  assumes "runs 5 (SubmitDelegate (work_new A)) d M Q" "runs 5 (SubmitDelegate (work_new B)) d M' Q'"
  shows "runs 6 (Body [Submit OwnOrDelegate A, Emit c, Submit OwnOrDelegate B]) d (M @ EvUser c # M') (Q @ Q')"
  using runs_submit [OF assms(1) runs_emit [OF runs_submit [OF assms(2) runs_nil], of c]] by simp

lemma order_runs:
  assumes "k \<le> 100"
  shows "\<exists>M Q M'. runs 6 (Body (t_body (order_task a b c e))) (int k) M Q \<and> drains 8 Q M' \<and> M @ M' = order_marks k a b c e"
proof -
  let ?A = "Task 0 True [Emit a, Submit OwnOrDelegate (Task 0 True [Emit b])]"
  let ?b = "Task 0 True [Emit b]" and ?B = "Task 0 True [Emit e]"
  have one: "runs 5 (SubmitDelegate (work_new ?B)) d [EvUser e] []" if "d < 100" for d
    using runs_delegate [OF runs_one [of 2 e "d + 1"] that] by (simp add: eval_nat_numeral)
  have push: "runs 5 (SubmitDelegate (work_new t)) d [] [work_new t]" if "100 \<le> d" for d t
    using runs_push [OF that, of 4] by simp
  have dr: "drains 8 [] []" "drains 8 [work_new ?b] [EvUser b]" "drains 8 [work_new ?A, work_new ?B] [EvUser a, EvUser b, EvUser e]"
  proof -
    show "drains 8 [] []" using drains_nil [of 7] by simp
    have "drains (Suc (Suc (Suc 0))) [work_new (Task 0 True [Emit k])] ([EvUser k] @ [])" for k
      by (rule drains_cons [OF runs_one]) (use drains_nil in simp)
    then have d1: "drains N [work_new (Task 0 True [Emit k])] [EvUser k]" if "3 \<le> N" for k N
      using drains_more [of 3] that by (simp add: eval_nat_numeral)
    then show "drains 8 [work_new ?b] [EvUser b]" by simp
    have "drains (Suc 4) (work_new ?A # [work_new ?B]) ([EvUser a, EvUser b] @ [EvUser e])"
      by (rule drains_cons [OF runs_inner(1)]) (simp_all add: d1)
    then show "drains 8 [work_new ?A, work_new ?B] [EvUser a, EvUser b, EvUser e]" using drains_more [of 5] by simp
  qed
  consider "k \<le> 98" | "k = 99" | "k = 100" using assms by linarith
  then show ?thesis
  proof cases
    case 1
    have "runs 5 (SubmitDelegate (work_new ?A)) (int k) [EvUser a, EvUser b] []"
      using runs_delegate [of 4 "t_body ?A" "int k" "[EvUser a, EvUser b]" "[]" 0] runs_inner(1) [of "int k + 1" a b] 1 by simp
    from runs_order [OF this one] 1 dr(1) show ?thesis by (fastforce simp: order_task_def order_marks_def)
  next
    case 2
    have "runs 5 (SubmitDelegate (work_new ?A)) (int k) [EvUser a] [work_new ?b]"
      using runs_delegate [of 4 "t_body ?A" "int k" "[EvUser a]" "[work_new ?b]" 0] runs_inner(2) [of "int k + 1" a b] 2 by simp
    from runs_order [OF this one, of c] 2 dr(2) show ?thesis by (fastforce simp: order_task_def order_marks_def)
  next
    case 3
    from runs_order [OF push push, of "int k" ?A c ?B] 3 dr(3) show ?thesis by (fastforce simp: order_task_def order_marks_def)
  qed
qed

lemma order_drains: "\<exists>N M Q M'. runs (Suc N) (Body (t_body (nested k (order_task a b c e)))) 0 M Q \<and> drains (Suc N) Q M' \<and>
  M @ M' = order_marks k a b c e"
proof (induction k rule: less_induct)
  case (less k)
  let ?t = "order_task a b c e"
  show ?case
  proof (cases "k \<le> 100")
    case True
    obtain M Q M' where r: "runs (Suc 5) (Body (t_body ?t)) (0 + int k) M Q" "drains 8 Q M'" "M @ M' = order_marks k a b c e"
      using order_runs [OF True, of a b c e] by auto
    have "runs (Suc (5 + 2 * k)) (Body (t_body (nested k ?t))) 0 M Q"
      by (rule runs_nested [OF _ r(1)]) (use True in \<open>simp_all add: order_task_def\<close>)
    then have "runs (Suc (7 + 2 * k)) (Body (t_body (nested k ?t))) 0 M Q" by (rule runs_more) simp
    moreover have "drains (Suc (7 + 2 * k)) Q M'" by (rule drains_more [OF r(2)]) simp
    ultimately show ?thesis using r(3) by blast
  next
    case False
    then obtain j where j: "k = 101 + j" using le_Suc_ex [of 101 k] by auto
    obtain N M Q M' where r: "runs (Suc N) (Body (t_body (nested j ?t))) 0 M Q" "drains (Suc N) Q M'" "M @ M' = order_marks j a b c e"
      using less.IH [of j] j by auto
    have "nested j ?t = Task 0 True (t_body (nested j ?t))" by (cases j) (simp_all add: order_task_def)
    with drains_cons [OF r(1), of "[]" M' 0] r(2) have "drains (Suc (Suc N)) [work_new (nested j ?t)] (M @ M')" by simp
    then have "drains (Suc (N + 201)) [work_new (nested j ?t)] (M @ M')" by (rule drains_more) simp
    moreover have "runs (Suc (N + 201)) (Body (t_body (nested k ?t))) 0 [] [work_new (nested j ?t)]"
      unfolding j by (rule runs_more [OF runs_overflow]) simp
    moreover have "order_marks k a b c e = order_marks j a b c e" by (simp add: order_marks_def j)
    ultimately show ?thesis using r(3) by (metis append_Nil)
  qed
qed

text \<open>
  C39: A receiver that is reached through \<open>k\<close> submissions submits \<open>A\<close> and then \<open>B\<close>, and \<open>A\<close> submits a receiver of its own.
  For almost every \<open>k\<close> they run in the order of submission, but not at the depth bound: at depth 99 the receiver of \<open>A\<close>, which
  was submitted first, waits in the queue while \<open>B\<close> runs at once, and at depth 100 both wait until their submitter is through;
  what waited starts again from depth 0, so this recurs at every 101st nesting. The executor claims \<open>is_fifo_sequence\<close>.
\<close>
theorem trampoline_not_fifo:
  "FifoSequence (delegator_type :: unit cxx) \<and>
   (\<exists>N. \<forall>n. \<exists>st. trampoline_submit (N + n) OwnOrDelegate (nested k (order_task a b c e)) idle_thread = Some (Ret st) \<and>
      owner st = None \<and>
      user_marks st =
        (if k mod 101 = 99 then [EvUser a, EvUser c, EvUser e, EvUser b]
         else if k mod 101 = 100 then [EvUser c, EvUser a, EvUser b, EvUser e]
         else [EvUser a, EvUser b, EvUser c, EvUser e]))"
proof (rule conjI)
  show "FifoSequence (delegator_type :: unit cxx)" by code_simp
  obtain N M Q M' where r: "runs (Suc N) (Body (t_body (nested k (order_task a b c e)))) 0 M Q" "drains (Suc N) Q M'"
      "M @ M' = order_marks k a b c e"
    using order_drains [of k a b c e] by blast
  have "nested k (order_task a b c e) = Task 0 True (t_body (nested k (order_task a b c e)))"
    by (cases k) (simp_all add: order_task_def)
  then have "\<forall>n. \<exists>st. trampoline_submit (Suc N + 3 + n) OwnOrDelegate (nested k (order_task a b c e)) idle_thread = Some (Ret st) \<and>
      owner st = None \<and> user_marks st = M @ M'"
    using submit_as_drain [OF r(1,2), of _ 0] by metis
  then show "\<exists>N. \<forall>n. \<exists>st. trampoline_submit (N + n) OwnOrDelegate (nested k (order_task a b c e)) idle_thread = Some (Ret st) \<and>
      owner st = None \<and>
      user_marks st =
        (if k mod 101 = 99 then [EvUser a, EvUser c, EvUser e, EvUser b]
         else if k mod 101 = 100 then [EvUser c, EvUser a, EvUser b, EvUser e]
         else [EvUser a, EvUser b, EvUser c, EvUser e])"
    unfolding r(3) order_marks_def by blast
qed

section \<open>The recursion of the nester\<close>

text \<open>Receivers that each submit the next one through \<open>nested_trampoline()\<close>, numbered from the innermost.\<close>

fun nest_chain :: "nat \<Rightarrow> task" where
  "nest_chain 0 = Task 0 True []"
| "nest_chain (Suc k) = Task (Suc k) True [Submit OwnOrNest (nest_chain k)]"

fun nest_events :: "nat \<Rightarrow> int \<Rightarrow> event list" where
  "nest_events 0 d = [EvValue 0 d, EvDone 0]"
| "nest_events (Suc k) d = EvValue (Suc k) d # nest_events k d @ [EvDone (Suc k)]"

abbreviation idle_at :: "int \<Rightarrow> pending" where
  "idle_at d \<equiv> \<lparr>depth = d, queue = [], repeat_flag = False\<rparr>"

lemma nest_one:
  assumes "owner st = Some (idle_at d)" "owner st1 = Some (idle_at d)"
    and "interp m (Body acts) (logged (EvValue nm d) st) = Some (Ret st1)"
  shows "interp (Suc (Suc m)) (SubmitNest (work_new (Task nm True acts))) st = Some (Ret (logged (EvDone nm) st1))"
proof -
  have "upd_owner (\<lambda>p. p\<lparr>repeat_flag := False\<rparr>) st = st" using assms(1) by (cases st) (simp add: upd_owner_def)
  then show ?thesis
    using assms
    by (simp add: submit_nest_def nest_loop_def deliver_work_def work_value_def work_new_def work_done_def current_depth_def drain_def)
qed

lemma nest_body:
  "interp m (SubmitNest (work_new t)) st = Some (Ret st1) \<Longrightarrow> interp (Suc m) (Body [Submit OwnOrNest t]) st = Some (Ret st1)"
  by simp

lemma own_and_nest:
  "interp m (SubmitNest w) (take_owner idle_thread) = Some (Ret ((take_owner idle_thread)\<lparr>log := es\<rparr>)) \<Longrightarrow>
   interp (Suc m) (SubmitDelegate w) idle_thread = Some (Ret \<lparr>owner = None, log = es\<rparr>)"
  by (simp add: submit_delegate_def is_owned_def idle_thread_def take_owner_def release_owner_def)

lemma nest_unowned:
  "interp m (SubmitDelegate w) idle_thread = r \<Longrightarrow> interp (Suc m) (SubmitNest w) idle_thread = r"
  by (simp add: submit_nest_def idle_thread_def)

lemma nest_chain_run:
  "owner st = Some (idle_at d) \<Longrightarrow>
   interp (3 * k + 3 + n) (SubmitNest (work_new (nest_chain k))) st = Some (Ret (st\<lparr>log := log st @ nest_events k d\<rparr>))"
proof (induction k arbitrary: st n)
  case 0
  have "interp (Suc n) (Body []) (logged (EvValue 0 d) st) = Some (Ret (logged (EvValue 0 d) st))" by simp
  from nest_one [OF 0 _ this] 0 show ?case by (simp add: numeral_eq_Suc del: interp.simps)
next
  case (Suc k)
  let ?st = "logged (EvValue (Suc k) d) st"
  let ?st1 = "?st\<lparr>log := log ?st @ nest_events k d\<rparr>"
  have "interp (Suc (3 * k + 3 + n)) (Body [Submit OwnOrNest (nest_chain k)]) ?st = Some (Ret ?st1)"
    using Suc.prems by (intro nest_body Suc.IH) simp
  from nest_one [OF Suc.prems _ this] Suc.prems show ?case
    by (simp add: numeral_eq_Suc del: interp.simps)
qed

text \<open>
  The bound on the depth is for the delegator: each of \<open>k + 1\<close> receivers that submit the next one through the nester gets
  its value inside the \<open>value\<close> of the one before, whatever \<open>k\<close> is, and the depth is 0 throughout.
\<close>
theorem nester_unbounded:
  "trampoline_submit (3 * k + 5) tg (nest_chain k) idle_thread = Some (Ret \<lparr>owner = None, log = nest_events k 0\<rparr>)"
proof -
  have run: "interp (3 * k + 3 + n) (SubmitNest (work_new (nest_chain k))) (take_owner idle_thread) =
      Some (Ret ((take_owner idle_thread)\<lparr>log := nest_events k 0\<rparr>))" for n
    using nest_chain_run [of "take_owner idle_thread" 0 k n] by (simp add: take_owner_def idle_thread_def)
  note dlg = own_and_nest [OF run]
  show ?thesis
    using dlg [of 1] nest_unowned [OF dlg [of 0]]
    by (cases tg) (simp_all add: trampoline_submit_def numeral_eq_Suc del: interp.simps)
qed

end
