(* ===== verification/Cancellation_Tests.thy ===== *)
theory Cancellation_Tests
  imports Flow_Receivers Entangle
begin

text \<open>
  The programs of \<open>test/FlowTest.cpp\<close>: a flow single sender that is cancelled through a pair of tokens, a
  \<open>stop\<close> flag and a function that sets it, entangled with one of the two functions of \<open>entangle.h\<close>. The
  tests add up, with a weight for each, the signals that are seen: 10 for starting, 100 for value, 1 for done, 1000 for error,
  10000 and 100000 for done and error of \<open>up\<close>. The interface \<open>stop_token\<close> is what the programs rely on.
\<close>

section \<open>The tokens\<close>

text \<open>
  The operations on a pair of tokens, \<open>True\<close> being the first of the pair: \<open>lock_both\<close> (None: the thread waits),
  \<open>*both.first\<close> under the lock, the call of \<open>set_stop_type\<close> on \<open>both.second\<close>, the end of the scope, and the
  destruction of the token.
\<close>

record 't token_ops =
  tk_new :: "'t outcome"
  tk_lock :: "bool \<Rightarrow> 't \<Rightarrow> 't outcome option"
  tk_read :: "'t \<Rightarrow> bool option"
  tk_set :: "'t call"
  tk_unlock :: "bool \<Rightarrow> 't \<Rightarrow> 't"
  tk_drop :: "bool \<Rightarrow> 't \<Rightarrow> 't outcome option"

text \<open>How far a token is: not used yet, locked, unlocked again, destroyed. The programs lock each token once.\<close>

datatype token_use = Fresh | Held | Used | Gone

text \<open>An operation that may wait returns, and in a state with \<open>P\<close>, or it does wait.\<close>

definition returns_or :: "bool \<Rightarrow> ('t \<Rightarrow> bool) \<Rightarrow> 't outcome option \<Rightarrow> bool" where
  "returns_or w P r \<longleftrightarrow> (case r of None \<Rightarrow> w | Some (Ret t) \<Rightarrow> P t | Some _ \<Rightarrow> False)"

lemma returns_or_simps [simp]:
  "returns_or w P None = w" "returns_or w P (Some (Ret t)) = P t" "returns_or w P (Some (Thr n t)) = False"
  "returns_or w P (Some Term) = False" "returns_or w P (Some UB) = False"
  by (simp_all add: returns_or_def)

lemma returns_orD: "returns_or w P r \<Longrightarrow> r = Some (Ret t) \<Longrightarrow> P t"
  by simp

lemma returns_orE: "returns_or w P r \<Longrightarrow> (w \<Longrightarrow> r = None \<Longrightarrow> Q) \<Longrightarrow> (\<And>t. r = Some (Ret t) \<Longrightarrow> P t \<Longrightarrow> Q) \<Longrightarrow> Q"
  by (auto simp: returns_or_def split: option.splits outcome.splits)

locale stop_token =
  fixes ops :: "'t token_ops" and holds :: "token_use \<Rightarrow> token_use \<Rightarrow> bool \<Rightarrow> 't \<Rightarrow> bool"
  assumes tok_new: "\<exists>t. tk_new ops = Ret t \<and> holds Fresh Fresh False t"
    and one_holder: "\<not> holds Held Held s t"
    and lock_first: "holds Fresh p s t \<Longrightarrow> returns_or (p = Held) (holds Held p s) (tk_lock ops True t)"
    and lock_second: "holds p Fresh s t \<Longrightarrow> returns_or (p = Held) (holds p Held s) (tk_lock ops False t)"
    and read_stop: "holds Held p s t \<Longrightarrow> tk_read ops t = Some s"
    and set_stop: "holds p Held s t \<Longrightarrow> \<exists>t'. tk_set ops t = Ret t' \<and> holds p Held True t'"
    and unlock_first: "holds Held p s t \<Longrightarrow> holds Used p s (tk_unlock ops True t)"
    and unlock_second: "holds p Held s t \<Longrightarrow> holds p Used s (tk_unlock ops False t)"
    and drop_first: "holds u p s t \<Longrightarrow> u \<in> {Fresh, Used} \<Longrightarrow> returns_or (p = Held) (holds Gone p s) (tk_drop ops True t)"
    and drop_second: "holds p u s t \<Longrightarrow> u \<in> {Fresh, Used} \<Longrightarrow> returns_or (p = Held) (holds p Gone s) (tk_drop ops False t)"

subsection \<open>\<open>shared_entangle\<close>\<close>

text \<open>The storage, and whether the pair that has the lock owns it. A token is moved from when it is locked.\<close>

definition shared_token_ops :: "((bool, unit) shared_state \<times> bool) token_ops" where
  "shared_token_ops = \<lparr>
     tk_new = Ret (shared_entangle False (), False),
     tk_lock = (\<lambda>w (st, own). map_option (map_outcome (\<lambda>(own', st'). (st', own'))) (lock_shared w st)),
     tk_read = (\<lambda>(st, own). if sh_alive st then Some (sh_first st) else None),
     tk_set = (\<lambda>(st, own). if sh_alive st then Ret (st\<lparr>sh_first := True\<rparr>, own) else UB),
     tk_unlock = (\<lambda>w (st, own). (unlock_shared own st, False)),
     tk_drop = (\<lambda>w (st, own). Some (Ret (if w then st\<lparr>sh_owner1 := False\<rparr> else st\<lparr>sh_owner2 := False\<rparr>, own)))\<rparr>"

definition shared_holds :: "token_use \<Rightarrow> token_use \<Rightarrow> bool \<Rightarrow> (bool, unit) shared_state \<times> bool \<Rightarrow> bool" where
  "shared_holds p q s = (\<lambda>(st, own).
     \<not> (p = Held \<and> q = Held) \<and> sh_first st = s \<and> sh_owner1 st = (p = Fresh) \<and> sh_owner2 st = (q = Fresh) \<and>
     sh_locked st = (p = Held \<or> q = Held) \<and> own = (p = Held \<or> q = Held) \<and>
     sh_pairs st = (if p = Held \<or> q = Held then 1 else 0))"

interpretation shared_token: stop_token shared_token_ops shared_holds
  by unfold_locales
     (auto simp: shared_token_ops_def shared_holds_def shared_defs Let_def split: if_splits)

subsection \<open>\<open>entangle\<close>\<close>

text \<open>
  The objects at addresses 1 and 2, and whether some thread has the locks: a lock is one step here, by
  \<open>entangle_exclusion\<close> and \<open>entangle_progress\<close>. The first holds the flag; a move of a token does not
  change what it finds (\<open>entangle_pointers\<close>). The destructor locks too.
\<close>

definition token_addr :: "bool \<Rightarrow> nat" where
  "token_addr w = (if w then 1 else 2)"

definition entangled_token_ops :: "(bool option ents \<times> bool) token_ops" where
  "entangled_token_ops = \<lparr>
     tk_new = map_outcome (\<lambda>h. (h, False)) (entangle id 3 4 1 2 (Some False) None Map.empty),
     tk_lock = (\<lambda>w (h, locked).
       if h (token_addr w) = None then Some UB else if locked then None else Some (Ret (h, True))),
     tk_read = (\<lambda>(h, locked). case lock_both 1 h of Some (Some b, _) \<Rightarrow> Some b | _ \<Rightarrow> None),
     tk_set = (\<lambda>(h, locked). case h 2 of
         None \<Rightarrow> UB
       | Some e \<Rightarrow> (case ent_dual e of
           None \<Rightarrow> Ret (h, locked)
         | Some y \<Rightarrow> (case h y of None \<Rightarrow> UB | Some d \<Rightarrow> Ret (h(y \<mapsto> d\<lparr>ent_t := Some True\<rparr>), locked)))),
     tk_unlock = (\<lambda>w (h, locked). (h, False)),
     tk_drop = (\<lambda>w (h, locked).
       if locked then None else Some (map_outcome (\<lambda>h. (h, False)) (ent_destroy (token_addr w) h)))\<rparr>"

definition entangled_holds :: "token_use \<Rightarrow> token_use \<Rightarrow> bool \<Rightarrow> bool option ents \<times> bool \<Rightarrow> bool" where
  "entangled_holds p q s = (\<lambda>(h, locked).
     \<not> (p = Held \<and> q = Held) \<and> locked = (p = Held \<or> q = Held) \<and>
     h 1 = (if p = Gone then None else Some \<lparr>ent_t = Some s, ent_dual = (if q = Gone then None else Some 2)\<rparr>) \<and>
     h 2 = (if q = Gone then None else Some \<lparr>ent_t = None, ent_dual = (if p = Gone then None else Some 1)\<rparr>))"

lemma entangled_token_new:
  "entangle id 3 4 1 2 (Some False) None (Map.empty :: bool option ents) =
     Ret [1 \<mapsto> \<lparr>ent_t = Some False, ent_dual = Some 2\<rparr>, 2 \<mapsto> \<lparr>ent_t = None, ent_dual = Some 1\<rparr>]"
  by (simp add: entangle_def ent_new_def set_dual_def ent_move_def ent_destroy_def and_then_def fun_eq_iff)

interpretation entangled_token: stop_token entangled_token_ops entangled_holds
  by unfold_locales
     (auto simp: entangled_token_ops_def entangled_holds_def entangled_token_new [simplified] token_addr_def lock_both_def
        ent_destroy_def set_dual_def split: if_splits option.splits)

section \<open>The immediate sender\<close>

text \<open>
  \<open>ImmediateFlowSingleSender\<close>: all runs inside \<open>submit\<close>. The state is the sum of the test and the tokens. A thread that
  waits for the lock that it has itself is undefined behaviour.
\<close>

record 't test_st =
  ts_signals :: int
  ts_tok :: 't

definition saw :: "int \<Rightarrow> 't test_st call" where
  "saw n st = Ret (st\<lparr>ts_signals := ts_signals st + n\<rparr>)"

definition on_tok :: "('t \<Rightarrow> 't outcome option) \<Rightarrow> 't test_st call" where
  "on_tok f st = (case f (ts_tok st) of None \<Rightarrow> UB | Some r \<Rightarrow> map_outcome (\<lambda>t. st\<lparr>ts_tok := t\<rparr>) r)"

text \<open>\<open>{ auto both = lock_both(data.stopper); (*(both.first))(both.second); }\<close>\<close>

definition request_stop :: "'t token_ops \<Rightarrow> 't test_st call" where
  "request_stop ops = run_all
     [on_tok (tk_lock ops False), on_tok (\<lambda>t. Some (tk_set ops t)), on_tok (\<lambda>t. Some (Ret (tk_unlock ops False t)))]"

definition up_fns :: "'t token_ops \<Rightarrow> ('t test_st, int, 'e) rcv" where
  "up_fns ops = \<lparr>r_value = ignoreVF, r_error = (\<lambda>e. and_then (saw 100000) (request_stop ops)),
     r_done = and_then (saw 10000) (request_stop ops)\<rparr>"

text \<open>
  \<open>make_consumer(f)\<close>: \<open>f\<close> sends the signals \<open>ups\<close> to \<open>up\<close>, and \<open>up\<close> is destroyed.
\<close>

definition test_consumer :: "'t token_ops \<Rightarrow> (int, 'e) signal list \<Rightarrow> ('t test_st, int, 'e, unit) flow_rcv" where
  "test_consumer ops ups = \<lparr>r_value = (\<lambda>v. saw 100), r_error = (\<lambda>e. saw 1000), r_done = saw 1,
     r_starting = (\<lambda>u. and_then (saw 10) (and_then
       (\<lambda>st. map_outcome rs_data (deliver_all (receiver_data (up_fns ops :: (_, int, 'e) rcv)) ups (receiver_new st)))
       (on_tok (tk_drop ops False))))\<rparr>"

text \<open>\<open>make_producer()\<close>: the lock is held while \<open>out\<close> is signalled; the first token goes with the scope.\<close>

definition on_flow :: "'s call \<Rightarrow> 's flow_st call" where
  "on_flow f = on_fdata f"

definition check_stop :: "'t token_ops \<Rightarrow> ('t test_st flow_st, int, 'e, unit) flow_rcv \<Rightarrow> 't test_st flow_st call" where
  "check_stop ops R st =
     (case tk_read ops (ts_tok (fs_data st)) of
        None \<Rightarrow> UB
      | Some stop \<Rightarrow> if \<not> stop then set_value R 42 st else set_done R st)"

definition immediate_producer :: "'t token_ops \<Rightarrow> ('t test_st flow_st, int, 'e, unit) flow_rcv \<Rightarrow> 't test_st flow_st call" where
  "immediate_producer ops R = run_all
     [set_starting R (), on_flow (on_tok (tk_lock ops True)), check_stop ops R,
      on_flow (on_tok (\<lambda>t. Some (Ret (tk_unlock ops True t)))), on_flow (on_tok (tk_drop ops True))]"

definition immediate_test :: "'t token_ops \<Rightarrow> (int, 'e) signal list \<Rightarrow> int outcome" where
  "immediate_test ops ups =
     (case tk_new ops of
        Ret t \<Rightarrow> map_outcome (\<lambda>st. ts_signals (fs_data st))
          (immediate_producer ops (flow_fn (test_consumer ops ups)) (flow_new \<lparr>ts_signals = 0, ts_tok = t\<rparr>))
      | Thr n t \<Rightarrow> Thr n 0 | Term \<Rightarrow> Term | UB \<Rightarrow> UB)"

text \<open>The signals that count: the first terminal one of \<open>up\<close> decides.\<close>

fun up_total :: "(int, 'e) signal list \<Rightarrow> int" where
  "up_total [] = 110"
| "up_total (Value v # ups) = up_total ups"
| "up_total (Error e # ups) = 100011"
| "up_total (Done # ups) = 10011"

fun cancels :: "(int, 'e) signal list \<Rightarrow> bool" where
  "cancels [] = False"
| "cancels (Value v # ups) = cancels ups"
| "cancels (sig # ups) = True"

context stop_token
begin

lemma stop_requested:
  assumes "holds Fresh Fresh False t"
  shows "\<exists>t'. request_stop ops \<lparr>ts_signals = n, ts_tok = t\<rparr> = Ret \<lparr>ts_signals = n, ts_tok = t'\<rparr> \<and> holds Fresh Used True t'"
proof -
  obtain t1 where t1: "tk_lock ops False t = Some (Ret t1)" "holds Fresh Held False t1"
    by (rule returns_orE [OF lock_second [OF assms]]) simp_all
  obtain t2 where t2: "tk_set ops t1 = Ret t2" "holds Fresh Held True t2"
    using set_stop [OF t1(2)] by blast
  show ?thesis using t1 t2 unlock_second [OF t2(2)]
    by (simp add: request_stop_def on_tok_def and_then_def)
qed

text \<open>What \<open>up\<close> does with a list of signals.\<close>

lemma up_signals:
  assumes "holds Fresh Fresh False t"
  shows "\<exists>t'. push_signals (up_fns ops) ups \<lparr>ts_signals = n, ts_tok = t\<rparr> =
      Ret \<lparr>ts_signals = n + (if cancels ups then up_total ups - 11 else 0), ts_tok = t'\<rparr> \<and>
     holds Fresh (if cancels ups then Used else Fresh) (cancels ups) t'"
proof (induction ups)
  case Nil
  then show ?case using assms by (simp add:)
next
  case (Cons sig ups)
  show ?case
  proof (cases sig)
    case (Value v)
    then show ?thesis using Cons by (cases "cancels ups") (simp_all add: up_fns_def ignoreVF_def)
  next
    case (Error e)
    then show ?thesis using stop_requested [OF assms, of "n + 100000"]
      by (auto simp: up_fns_def saw_def and_then_def no_except_def)
  next
    case Done
    then show ?thesis using stop_requested [OF assms, of "n + 10000"]
      by (auto simp: up_fns_def saw_def and_then_def)
  qed
qed

lemma immediate_total:
  "immediate_test ops ups = Ret (up_total ups)"
proof -
  let ?c = "test_consumer ops ups"
  obtain t0 where t0: "tk_new ops = Ret t0" "holds Fresh Fresh False t0" using tok_new by blast
  obtain t1 where t1: "push_signals (up_fns ops) ups \<lparr>ts_signals = 10, ts_tok = t0\<rparr> =
        Ret \<lparr>ts_signals = 10 + (if cancels ups then up_total ups - 11 else 0), ts_tok = t1\<rparr>"
      "holds Fresh (if cancels ups then Used else Fresh) (cancels ups) t1"
    using up_signals [OF t0(2)] by blast
  obtain t2 where t2: "tk_drop ops False t1 = Some (Ret t2)" "holds Fresh Gone (cancels ups) t2"
    by (rule returns_orE [OF drop_second [OF t1(2)]]) simp_all
  obtain t3 where t3: "tk_lock ops True t2 = Some (Ret t3)" "holds Held Gone (cancels ups) t3"
    by (rule returns_orE [OF lock_first [OF t2(2)]]) simp_all
  obtain t4 where t4: "tk_drop ops True (tk_unlock ops True t3) = Some (Ret t4)"
    by (rule returns_orE [OF drop_first [OF unlock_first [OF t3(2)]]]) simp_all
  have up: "map_outcome rs_data (deliver_all (receiver_data (up_fns ops)) ups (receiver_new \<lparr>ts_signals = 10, ts_tok = t0\<rparr>)) =
      Ret \<lparr>ts_signals = 10 + (if cancels ups then up_total ups - 11 else 0), ts_tok = t1\<rparr>"
    using receiver_data_push [of "receiver_new \<lparr>ts_signals = 10, ts_tok = t0\<rparr>" "up_fns ops" ups] t1(1)
    by (simp add: receiver_new_def)
  have total: "up_total ups = 110" if "\<not> cancels ups" using that by (induction ups rule: up_total.induct) simp_all
  have start: "set_starting (flow_fn ?c) () (flow_new \<lparr>ts_signals = 0, ts_tok = t0\<rparr>) =
      Ret \<lparr>fs_done = False, fs_started = True, fs_data =
        \<lparr>ts_signals = 10 + (if cancels ups then up_total ups - 11 else 0), ts_tok = t2\<rparr>\<rparr>"
    using up t2(1)
    by (simp add: set_starting_def flow_fn_defs flow_new_def test_consumer_def on_member_def try_catch_def no_except_def
        and_then_def saw_def on_tok_def del: map_outcome_eq_Ret)
  show ?thesis
    using t0(1) start t3(1) t4 read_stop [OF t3(2)] total
    by (cases "cancels ups")
       (simp_all add: immediate_test_def immediate_producer_def and_then_def on_flow_def on_member_def on_tok_def check_stop_def
         set_value_def set_done_def flow_fn_defs try_catch_def no_except_def test_consumer_def saw_def)
qed

end

section \<open>The concurrent sender\<close>

text \<open>
  \<open>ConcurrentFlowSingleSender\<close>: the producer's tasks run on one strand, the cancellation on another, at times that the
  tests choose. The state has the three atomic counters, the receiver \<open>out\<close> around them, the tokens, and where
  each of the two strands is. A signal to \<open>out\<close> is one step, because only the producer's strand signals it, and
  the test reads \<open>signals_\<close> after both other counters. When a task starts is left open.
\<close>

record counters =
  ct_signals :: int
  ct_terminal :: int
  ct_cancel :: int

datatype produce_at = P_Start | P_Started | P_Waiting | P_Check | P_Value | P_Done | P_Unlock | P_Drop | P_End

datatype cancel_at = C_None | C_Waiting | C_Lock | C_Set | C_Unlock | C_Drop | C_End

record 't cancel_race =
  cr_out :: "counters flow_st"
  cr_tok :: 't
  cr_prod :: produce_at
  cr_canc :: cancel_at

definition ct_add :: "int \<Rightarrow> int \<Rightarrow> int \<Rightarrow> counters call" where
  "ct_add n t c ct = Ret \<lparr>ct_signals = ct_signals ct + n, ct_terminal = ct_terminal ct + t, ct_cancel = ct_cancel ct + c\<rparr>"

text \<open>The functions of the receiver that the test submits.\<close>

definition counting_consumer :: "(counters, int, unit, unit) flow_rcv" where
  "counting_consumer = \<lparr>r_value = (\<lambda>v. ct_add 100 0 0), r_error = (\<lambda>e. ct_add 1000 1 0), r_done = ct_add 1 1 0,
     r_starting = (\<lambda>up. ct_add 10 0 0)\<rparr>"

text \<open>The counters part of the function for \<open>up.done\<close>.\<close>

definition up_done_count :: "counters flow_st call" where
  "up_done_count = on_fdata (ct_add 10000 0 1)"

definition cancel_race_start :: "'t \<Rightarrow> 't cancel_race" where
  "cancel_race_start t = \<lparr>cr_out = flow_new \<lparr>ct_signals = 0, ct_terminal = 0, ct_cancel = 0\<rparr>, cr_tok = t, cr_prod = P_Start,
     cr_canc = C_None\<rparr>"

definition signalled :: "counters flow_st call \<Rightarrow> produce_at \<Rightarrow> 't cancel_race \<Rightarrow> 't cancel_race option" where
  "signalled f p s = (case f (cr_out s) of Ret out \<Rightarrow> Some (s\<lparr>cr_out := out, cr_prod := p\<rparr>) | _ \<Rightarrow> None)"

definition took :: "'t outcome option \<Rightarrow> ('t cancel_race \<Rightarrow> 't cancel_race) \<Rightarrow> 't cancel_race \<Rightarrow> 't cancel_race option" where
  "took r g s = (case r of Some (Ret t) \<Rightarrow> Some (g (s\<lparr>cr_tok := t\<rparr>)) | _ \<Rightarrow> None)"

text \<open>
  The next step of the producer's strand: \<open>set_starting\<close>, whose function hands the cancellation to the other
  strand; \<open>schedule_at\<close>; the lock; the test; the signals; the end of the scope and of the task. None: it waits, or fails.
\<close>

fun produce_step :: "'t token_ops \<Rightarrow> produce_at \<Rightarrow> 't cancel_race \<Rightarrow> 't cancel_race option" where
  "produce_step ops P_Start s =
     map_option (\<lambda>s. s\<lparr>cr_canc := C_Waiting\<rparr>) (signalled (set_starting (flow_fn counting_consumer) ()) P_Started s)"
| "produce_step ops P_Started s = Some (s\<lparr>cr_prod := P_Waiting\<rparr>)"
| "produce_step ops P_Waiting s = took (tk_lock ops True (cr_tok s)) (\<lambda>s. s\<lparr>cr_prod := P_Check\<rparr>) s"
| "produce_step ops P_Check s =
     map_option (\<lambda>stop. s\<lparr>cr_prod := if \<not> stop then P_Value else P_Done\<rparr>) (tk_read ops (cr_tok s))"
| "produce_step ops P_Value s = signalled (set_value (flow_fn counting_consumer) 42) P_Done s"
| "produce_step ops P_Done s = signalled (set_done (flow_fn counting_consumer)) P_Unlock s"
| "produce_step ops P_Unlock s = Some (s\<lparr>cr_tok := tk_unlock ops True (cr_tok s), cr_prod := P_Drop\<rparr>)"
| "produce_step ops P_Drop s = took (tk_drop ops True (cr_tok s)) (\<lambda>s. s\<lparr>cr_prod := P_End\<rparr>) s"
| "produce_step ops P_End s = None"

text \<open>The cancelling strand: \<open>set_done(up)\<close> and the destruction of \<open>up\<close>.\<close>

fun cancel_step :: "'t token_ops \<Rightarrow> cancel_at \<Rightarrow> 't cancel_race \<Rightarrow> 't cancel_race option" where
  "cancel_step ops C_None s = None"
| "cancel_step ops C_Waiting s =
     (case up_done_count (cr_out s) of Ret out \<Rightarrow> Some (s\<lparr>cr_out := out, cr_canc := C_Lock\<rparr>) | _ \<Rightarrow> None)"
| "cancel_step ops C_Lock s = took (tk_lock ops False (cr_tok s)) (\<lambda>s. s\<lparr>cr_canc := C_Set\<rparr>) s"
| "cancel_step ops C_Set s = took (Some (tk_set ops (cr_tok s))) (\<lambda>s. s\<lparr>cr_canc := C_Unlock\<rparr>) s"
| "cancel_step ops C_Unlock s = Some (s\<lparr>cr_tok := tk_unlock ops False (cr_tok s), cr_canc := C_Drop\<rparr>)"
| "cancel_step ops C_Drop s = took (tk_drop ops False (cr_tok s)) (\<lambda>s. s\<lparr>cr_canc := C_End\<rparr>) s"
| "cancel_step ops C_End s = None"

inductive cancel_race_step :: "'t token_ops \<Rightarrow> 't cancel_race \<Rightarrow> 't cancel_race \<Rightarrow> bool" for ops where
  producer: "produce_step ops (cr_prod s) s = Some s' \<Longrightarrow> cancel_race_step ops s s'"
| canceller: "cancel_step ops (cr_canc s) s = Some s' \<Longrightarrow> cancel_race_step ops s s'"

inductive_cases cancel_race_stepE: "cancel_race_step ops s s'"

definition cancel_race_init :: "'t token_ops \<Rightarrow> 't cancel_race \<Rightarrow> bool" where
  "cancel_race_init ops s \<longleftrightarrow> (\<exists>t. tk_new ops = Ret t \<and> s = cancel_race_start t)"

definition cancel_race_over :: "'t cancel_race \<Rightarrow> bool" where
  "cancel_race_over s \<longleftrightarrow> cr_prod s = P_End \<and> cr_canc s = C_End"

text \<open>The loop of the test ends.\<close>

definition test_over :: "'t cancel_race \<Rightarrow> bool" where
  "test_over s \<longleftrightarrow> ct_terminal (fs_data (cr_out s)) \<noteq> 0 \<and> ct_cancel (fs_data (cr_out s)) \<noteq> 0"

definition seen_signals :: "'t cancel_race \<Rightarrow> int" where
  "seen_signals s = ct_signals (fs_data (cr_out s))"

subsection \<open>The invariant\<close>

fun prod_use :: "produce_at \<Rightarrow> token_use" where
  "prod_use P_Start = Fresh" | "prod_use P_Started = Fresh" | "prod_use P_Waiting = Fresh"
| "prod_use P_Drop = Used" | "prod_use P_End = Gone" | "prod_use _ = Held"

fun canc_use :: "cancel_at \<Rightarrow> token_use" where
  "canc_use C_Set = Held" | "canc_use C_Unlock = Held" | "canc_use C_Drop = Used" | "canc_use C_End = Gone"
| "canc_use _ = Fresh"

definition signalled_done :: "produce_at \<Rightarrow> bool" where
  "signalled_done p \<longleftrightarrow> p \<in> {P_Unlock, P_Drop, P_End}"

definition stop_set :: "cancel_at \<Rightarrow> bool" where
  "stop_set c \<longleftrightarrow> c \<in> {C_Unlock, C_Drop, C_End}"

text \<open>The counters, given where the strands are and whether a value was sent (\<open>v\<close>).\<close>

fun started_total :: "produce_at \<Rightarrow> int" where
  "started_total P_Start = 0"
| "started_total p = 10"

fun done_total :: "produce_at \<Rightarrow> int" where
  "done_total P_Unlock = 1" | "done_total P_Drop = 1" | "done_total P_End = 1" | "done_total p = 0"

fun cancel_total :: "cancel_at \<Rightarrow> int" where
  "cancel_total C_None = 0" | "cancel_total C_Waiting = 0" | "cancel_total c = 1"

definition expected :: "bool \<Rightarrow> produce_at \<Rightarrow> cancel_at \<Rightarrow> counters" where
  "expected v p c = \<lparr>ct_signals = started_total p + (if v then 100 else 0) + done_total p + 10000 * cancel_total c,
     ct_terminal = done_total p, ct_cancel = cancel_total c\<rparr>"

definition out_inv :: "bool \<Rightarrow> 't cancel_race \<Rightarrow> bool" where
  "out_inv v s \<longleftrightarrow> (cr_prod s = P_Start \<longleftrightarrow> cr_canc s = C_None) \<and>
     fs_started (cr_out s) = (cr_prod s \<noteq> P_Start) \<and> fs_done (cr_out s) = signalled_done (cr_prod s) \<and>
     fs_data (cr_out s) = expected v (cr_prod s) (cr_canc s) \<and> (v \<longrightarrow> cr_prod s = P_Done \<or> signalled_done (cr_prod s))"

definition cancel_race_inv :: "(token_use \<Rightarrow> token_use \<Rightarrow> bool \<Rightarrow> 't \<Rightarrow> bool) \<Rightarrow> bool \<Rightarrow> 't cancel_race \<Rightarrow> bool" where
  "cancel_race_inv holds v s \<longleftrightarrow>
     holds (prod_use (cr_prod s)) (canc_use (cr_canc s)) (stop_set (cr_canc s)) (cr_tok s) \<and> out_inv v s"

lemmas count_defs = counting_consumer_def ct_add_def up_done_count_def signalled_def took_def on_member_def
  set_starting_def set_value_def set_done_def flow_fn_defs try_catch_def no_except_def

lemma started_out:
  "\<not> fs_started st \<Longrightarrow> set_starting (flow_fn counting_consumer) () st =
     Ret (st\<lparr>fs_started := True, fs_data := (fs_data st)\<lparr>ct_signals := ct_signals (fs_data st) + 10\<rparr>\<rparr>)"
  by (simp add: count_defs)

lemma value_out:
  "fs_started st \<Longrightarrow> \<not> fs_done st \<Longrightarrow> set_value (flow_fn counting_consumer) v st =
     Ret (st\<lparr>fs_data := (fs_data st)\<lparr>ct_signals := ct_signals (fs_data st) + 100\<rparr>\<rparr>)"
  by (simp add: count_defs)

lemma done_out:
  "fs_started st \<Longrightarrow> \<not> fs_done st \<Longrightarrow> set_done (flow_fn counting_consumer) st =
     Ret (st\<lparr>fs_done := True, fs_data := (fs_data st)\<lparr>ct_signals := ct_signals (fs_data st) + 1,
       ct_terminal := ct_terminal (fs_data st) + 1\<rparr>\<rparr>)"
  by (simp add: count_defs)

lemma up_done_out:
  "up_done_count st = Ret (st\<lparr>fs_data := (fs_data st)\<lparr>ct_signals := ct_signals (fs_data st) + 10000,
       ct_cancel := ct_cancel (fs_data st) + 1\<rparr>\<rparr>)"
  by (simp add: count_defs)

lemmas out_simps = started_out value_out done_out up_done_out signalled_def signalled_done_def stop_set_def

lemma tookE: "took r g s = Some s' \<Longrightarrow> (\<And>t. r = Some (Ret t) \<Longrightarrow> s' = g (s\<lparr>cr_tok := t\<rparr>) \<Longrightarrow> Q) \<Longrightarrow> Q"
  by (auto simp: took_def split: option.splits outcome.splits)

text \<open>The value that the producer's step sends, if any.\<close>

definition sends_value :: "bool \<Rightarrow> 't cancel_race \<Rightarrow> bool" where
  "sends_value v s \<longleftrightarrow> v \<or> cr_prod s = P_Value"

lemma produce_out:
  assumes "out_inv v s" "produce_step ops (cr_prod s) s = Some s'"
  shows "out_inv (sends_value v s) s'"
  using assms
  by (cases "cr_prod s")
     (auto simp: out_inv_def out_simps expected_def sends_value_def split: if_splits elim!: tookE)

lemma cancel_out:
  assumes "out_inv v s" "cancel_step ops (cr_canc s) s = Some s'"
  shows "out_inv v s'"
  using assms
  by (cases "cr_canc s") (auto simp: out_inv_def up_done_out expected_def elim!: tookE)

context stop_token
begin

lemma produce_tok:
  assumes "holds (prod_use (cr_prod s)) (canc_use (cr_canc s)) (stop_set (cr_canc s)) (cr_tok s)" "out_inv v s"
    and "produce_step ops (cr_prod s) s = Some s'"
  shows "holds (prod_use (cr_prod s')) (canc_use (cr_canc s')) (stop_set (cr_canc s')) (cr_tok s')"
  using assms
  by (cases "cr_prod s")
     (auto simp: signalled_def out_inv_def stop_set_def unlock_first split: outcome.splits elim!: tookE
       dest: returns_orD [OF lock_first] returns_orD [OF drop_first])

lemma cancel_tok:
  assumes "holds (prod_use (cr_prod s)) (canc_use (cr_canc s)) (stop_set (cr_canc s)) (cr_tok s)"
    and "cancel_step ops (cr_canc s) s = Some s'"
  shows "holds (prod_use (cr_prod s')) (canc_use (cr_canc s')) (stop_set (cr_canc s')) (cr_tok s')"
  using assms
  by (cases "cr_canc s")
     (auto simp: up_done_out stop_set_def unlock_second elim!: tookE
       dest: returns_orD [OF lock_second] returns_orD [OF drop_second] set_stop)

lemma race_start_inv: "cancel_race_init ops s \<Longrightarrow> cancel_race_inv holds False s"
  using tok_new
  by (auto simp: cancel_race_init_def cancel_race_start_def cancel_race_inv_def out_inv_def expected_def flow_new_def
      signalled_done_def stop_set_def)

lemma produce_race_inv:
  "cancel_race_inv holds v s \<Longrightarrow> produce_step ops (cr_prod s) s = Some s' \<Longrightarrow> cancel_race_inv holds (sends_value v s) s'"
  using produce_tok [of s v s'] produce_out [of v s ops s'] by (auto simp: cancel_race_inv_def)

lemma cancel_race_inv_step:
  "cancel_race_inv holds v s \<Longrightarrow> cancel_step ops (cr_canc s) s = Some s' \<Longrightarrow> cancel_race_inv holds v s'"
  using cancel_tok [of s s'] cancel_out [of v s ops s'] by (auto simp: cancel_race_inv_def)

lemma can_produce:
  assumes "cancel_race_inv holds v s" "cr_prod s \<noteq> P_End" "canc_use (cr_canc s) \<noteq> Held"
  shows "\<exists>s'. produce_step ops (cr_prod s) s = Some s'"
proof -
  have tok: "holds (prod_use (cr_prod s)) (canc_use (cr_canc s)) (stop_set (cr_canc s)) (cr_tok s)" and out: "out_inv v s"
    using assms(1) by (simp_all add: cancel_race_inv_def)
  show ?thesis
  proof (cases "cr_prod s")
    case P_Waiting
    then have "holds Fresh (canc_use (cr_canc s)) (stop_set (cr_canc s)) (cr_tok s)" using tok by simp
    then show ?thesis by (rule returns_orE [OF lock_first]) (simp_all add: P_Waiting took_def assms(3))
  next
    case P_Drop
    then have "holds Used (canc_use (cr_canc s)) (stop_set (cr_canc s)) (cr_tok s)" using tok by simp
    then show ?thesis by (rule returns_orE [OF drop_first]) (simp_all add: P_Drop took_def assms(3))
  qed (use tok out assms(2) read_stop in \<open>auto simp: out_inv_def out_simps\<close>)
qed

lemma can_cancel:
  assumes "cancel_race_inv holds v s" "cr_canc s \<noteq> C_None" "cr_canc s \<noteq> C_End"
    and "prod_use (cr_prod s) \<noteq> Held \<or> canc_use (cr_canc s) = Held"
  shows "\<exists>s'. cancel_step ops (cr_canc s) s = Some s'"
proof -
  have tok: "holds (prod_use (cr_prod s)) (canc_use (cr_canc s)) (stop_set (cr_canc s)) (cr_tok s)"
    using assms(1) by (simp add: cancel_race_inv_def)
  show ?thesis
  proof (cases "cr_canc s")
    case C_Lock
    then have "holds (prod_use (cr_prod s)) Fresh (stop_set (cr_canc s)) (cr_tok s)" using tok by simp
    then show ?thesis by (rule returns_orE [OF lock_second]) (use assms(4) in \<open>simp_all add: C_Lock took_def\<close>)
  next
    case C_Set
    then have "holds (prod_use (cr_prod s)) Held (stop_set (cr_canc s)) (cr_tok s)" using tok by simp
    from set_stop [OF this] show ?thesis by (auto simp: C_Set took_def)
  next
    case C_Drop
    then have "holds (prod_use (cr_prod s)) Used (stop_set (cr_canc s)) (cr_tok s)" using tok by simp
    then show ?thesis by (rule returns_orE [OF drop_second]) (use assms(4) in \<open>simp_all add: C_Drop took_def\<close>)
  qed (use assms(2,3) in \<open>simp_all add: up_done_out\<close>)
qed

lemma strands_progress:
  assumes "cancel_race_inv holds v s" "\<not> cancel_race_over s"
  shows "\<exists>s'. cancel_race_step ops s s'"
proof (cases "cr_prod s = P_End \<or> canc_use (cr_canc s) = Held")
  case True
  then have "cr_canc s \<noteq> C_None \<and> cr_canc s \<noteq> C_End \<and> (prod_use (cr_prod s) \<noteq> Held \<or> canc_use (cr_canc s) = Held)"
    using assms by (auto simp: cancel_race_inv_def out_inv_def cancel_race_over_def)
  with can_cancel [OF assms(1)] show ?thesis by (blast intro: canceller)
next
  case False
  with can_produce [OF assms(1)] show ?thesis by (blast intro: producer)
qed

end

sublocale stop_token \<subseteq> races: invariant_of "cancel_race_init ops" "cancel_race_step ops" "\<lambda>s. \<exists>v. cancel_race_inv holds v s"
proof unfold_locales
  show "\<exists>v. cancel_race_inv holds v s" if "cancel_race_init ops s" for s
    using race_start_inv [OF that] by blast
  show "\<exists>v. cancel_race_inv holds v t" if "\<exists>v. cancel_race_inv holds v s" "cancel_race_step ops s t" for s t
    using that produce_race_inv cancel_race_inv_step by (blast elim: cancel_race_stepE)
qed

text \<open>The steps of a run are at most fifteen.\<close>

fun prod_rank :: "produce_at \<Rightarrow> nat" where
  "prod_rank P_Start = 8" | "prod_rank P_Started = 7" | "prod_rank P_Waiting = 6" | "prod_rank P_Check = 5" | "prod_rank P_Value = 4"
| "prod_rank P_Done = 3" | "prod_rank P_Unlock = 2" | "prod_rank P_Drop = 1" | "prod_rank P_End = 0"

fun canc_rank :: "cancel_at \<Rightarrow> nat" where
  "canc_rank C_None = 6" | "canc_rank C_Waiting = 5" | "canc_rank C_Lock = 4" | "canc_rank C_Set = 3" | "canc_rank C_Unlock = 2"
| "canc_rank C_Drop = 1" | "canc_rank C_End = 0"

definition race_rank :: "'t cancel_race \<Rightarrow> nat" where
  "race_rank s = prod_rank (cr_prod s) + canc_rank (cr_canc s)"

lemma race_rank_decreases:
  assumes "cancel_race_step ops s s'" "out_inv v s"
  shows "race_rank s' < race_rank s"
  using assms(1)
proof (cases rule: cancel_race_step.cases)
  case producer
  with assms(2) show ?thesis
    by (cases "cr_prod s")
       (auto simp: race_rank_def out_inv_def signalled_def split: if_splits outcome.splits elim!: tookE)
next
  case canceller
  then show ?thesis
    by (cases "cr_canc s") (auto simp: race_rank_def up_done_out elim!: tookE)
qed

context stop_token
begin

lemma test_over_total:
  assumes "cancel_race_inv holds v s" "test_over s"
  shows "seen_signals s = (if v then 10111 else 10011)"
proof -
  have "done_total (cr_prod s) \<noteq> 0" "cancel_total (cr_canc s) \<noteq> 0"
    using assms by (simp_all add: cancel_race_inv_def out_inv_def test_over_def expected_def)
  then have "done_total (cr_prod s) = 1" "cancel_total (cr_canc s) = 1" "started_total (cr_prod s) = 10"
    by (cases "cr_prod s"; cases "cr_canc s"; simp)+
  then show ?thesis using assms(1) by (simp add: cancel_race_inv_def out_inv_def seen_signals_def expected_def)
qed

lemma over_test_over: "cancel_race_inv holds v s \<Longrightarrow> cancel_race_over s \<Longrightarrow> test_over s"
  by (simp add: cancel_race_inv_def out_inv_def test_over_def cancel_race_over_def expected_def)

text \<open>The flag is set before the producer looks at it; the producer has looked at it, and it was not set.\<close>

lemma early_steps:
  assumes "(cancel_race_step ops)\<^sup>*\<^sup>* s t" "cancel_race_inv holds False s" "stop_set (cr_canc s)" "cr_prod s \<noteq> P_Value"
  shows "cancel_race_inv holds False t \<and> stop_set (cr_canc t) \<and> cr_prod t \<noteq> P_Value"
  using assms
proof (induction rule: rtranclp_induct)
  case (step t u)
  then have t: "cancel_race_inv holds False t" "stop_set (cr_canc t)" "cr_prod t \<noteq> P_Value" by blast+
  from step.hyps(2) show ?case
  proof (cases rule: cancel_race_step.cases)
    case producer
    have "stop_set (cr_canc u) \<and> cr_prod u \<noteq> P_Value"
    proof (cases "cr_prod t")
      case P_Check
      then have "tk_read ops (cr_tok t) = Some True" using t read_stop by (fastforce simp: cancel_race_inv_def)
      then show ?thesis using producer P_Check t(2) by auto
    qed (use producer t in \<open>auto simp: cancel_race_inv_def out_inv_def stop_set_def signalled_def split: outcome.splits elim!: tookE\<close>)
    then show ?thesis using produce_race_inv [OF t(1) producer] t(3) by (simp add: sends_value_def)
  next
    case canceller
    have "stop_set (cr_canc u) \<and> cr_prod u \<noteq> P_Value"
      using canceller t by (cases "cr_canc t") (auto simp: stop_set_def elim!: tookE)
    then show ?thesis using cancel_race_inv_step [OF t(1) canceller] by blast
  qed
qed simp

lemma late_steps:
  assumes "(cancel_race_step ops)\<^sup>*\<^sup>* s t" "cancel_race_inv holds v s" "sends_value v s"
  shows "\<exists>w. cancel_race_inv holds w t \<and> sends_value w t"
  using assms
proof (induction rule: rtranclp_induct)
  case (step t u)
  then obtain w where w: "cancel_race_inv holds w t" "sends_value w t" by blast
  from step.hyps(2) show ?case
  proof (cases rule: cancel_race_step.cases)
    case producer
    from produce_race_inv [OF w(1) producer] w(2) show ?thesis by (auto simp: sends_value_def [of _ u])
  next
    case canceller
    have "cr_prod u = cr_prod t" using canceller by (cases "cr_canc t") (auto simp: up_done_out elim!: tookE)
    then show ?thesis using cancel_race_inv_step [OF w(1) canceller] w(2) by (auto simp: sends_value_def)
  qed
qed blast

end

section \<open>Properties\<close>

abbreviation race_reach :: "'t token_ops \<Rightarrow> 't cancel_race \<Rightarrow> bool" where
  "race_reach ops \<equiv> reachable (cancel_race_init ops) (cancel_race_step ops)"

text \<open>What every reachable state of the race is, for any token.\<close>

definition race_ok :: "'t token_ops \<Rightarrow> 't cancel_race \<Rightarrow> bool" where
  "race_ok ops s \<longleftrightarrow>
     (test_over s \<longrightarrow> seen_signals s \<in> {10011, 10111}) \<and>
     (cancel_race_over s \<and> test_over s \<or> (\<exists>s'. cancel_race_step ops s s')) \<and>
     (\<forall>s'. cancel_race_step ops s s' \<longrightarrow> race_rank s' < race_rank s) \<and>
     (\<forall>t. (cancel_race_step ops)\<^sup>*\<^sup>* s t \<and> test_over t \<longrightarrow>
        (stop_set (cr_canc s) \<and> cr_prod s \<in> {P_Started, P_Waiting} \<longrightarrow> seen_signals t = 10011) \<and>
        (cr_prod s = P_Value \<longrightarrow> seen_signals t = 10111))"

context stop_token
begin

lemma reachable_race_ok:
  assumes "race_reach ops s"
  shows "race_ok ops s"
proof -
  obtain v where v: "cancel_race_inv holds v s" using races.reachable_inv [OF assms] by blast
  have early: "seen_signals t = 10011"
    if "(cancel_race_step ops)\<^sup>*\<^sup>* s t" "test_over t" "stop_set (cr_canc s)" "cr_prod s \<in> {P_Started, P_Waiting}" for t
  proof -
    have "\<not> v" using v that(4) by (auto simp: cancel_race_inv_def out_inv_def signalled_done_def)
    then have "cancel_race_inv holds False t" using early_steps [OF that(1)] v that(3,4) by auto
    from test_over_total [OF this that(2)] show ?thesis by simp
  qed
  have late: "seen_signals t = 10111"
    if "(cancel_race_step ops)\<^sup>*\<^sup>* s t" "test_over t" "cr_prod s = P_Value" for t
  proof -
    note run = that
    obtain w where w: "cancel_race_inv holds w t" "sends_value w t"
      using late_steps [OF run(1) v] run(3) by (auto simp: sends_value_def)
    have "cr_prod t \<noteq> P_Value"
      using w(1) run(2) by (auto simp: cancel_race_inv_def out_inv_def test_over_def expected_def)
    with w test_over_total [OF w(1) run(2)] show ?thesis by (simp add: sends_value_def)
  qed
  have "out_inv v s" using v by (simp add: cancel_race_inv_def)
  then show ?thesis
    using test_over_total [OF v] strands_progress [OF v] over_test_over [OF v] race_rank_decreases early late
    unfolding race_ok_def by (metis insertCI)
qed

end

text \<open>
  C13: The racing tests of \<open>FlowTest.cpp\<close>, with either pair of tokens and whatever the clocks do: when the loop of the test
  ends the sum is 10011 or 10111, no third one; a run never stops before both strands are through, and is finite; the
  cancellation that sets the flag before the producer looks at it gives 10011, the one that does not gives 10111.
\<close>
theorem cancellation_race_outcomes:
  "(race_reach shared_token_ops s \<longrightarrow> race_ok shared_token_ops s) \<and>
   (race_reach entangled_token_ops t \<longrightarrow> race_ok entangled_token_ops t)"
  by (simp add: shared_token.reachable_race_ok entangled_token.reachable_race_ok)

text \<open>A run by a schedule: \<open>True\<close> is a step of the producer's strand.\<close>

fun follow :: "'t token_ops \<Rightarrow> bool list \<Rightarrow> 't cancel_race \<Rightarrow> 't cancel_race option" where
  "follow ops [] s = Some s"
| "follow ops (b # bs) s =
     Option.bind (if b then produce_step ops (cr_prod s) s else cancel_step ops (cr_canc s) s) (follow ops bs)"

definition early_schedule :: "bool list" where
  "early_schedule = [True, True, False, False, False, False, False, True, True, True, True, True]"

definition late_schedule :: "bool list" where
  "late_schedule = [True, True, True, True, True, True, True, True, False, False, False, False, False]"

lemma follow_steps: "follow ops bs s = Some t \<Longrightarrow> race_reach ops s \<Longrightarrow> race_reach ops t"
proof (induction bs arbitrary: s)
  case (Cons b bs)
  then show ?case
    by (cases b) (auto simp: bind_eq_Some_conv intro: reach_step producer canceller)
qed simp

lemma race_reach_start: "tk_new ops = Ret t \<Longrightarrow> race_reach ops (cancel_race_start t)"
  by (rule reach_init) (simp add: cancel_race_init_def)

text \<open>Both sums are reached, with either pair of tokens, so the loop of the racing tests can end.\<close>

definition scheduled_sum :: "'t token_ops \<Rightarrow> bool list \<Rightarrow> (bool \<times> int) option" where
  "scheduled_sum ops bs =
     (case tk_new ops of
        Ret t \<Rightarrow> map_option (\<lambda>s. (cancel_race_over s, seen_signals s)) (follow ops bs (cancel_race_start t))
      | _ \<Rightarrow> None)"

lemma scheduled_reach:
  "scheduled_sum ops bs = Some (True, n) \<Longrightarrow> \<exists>s. race_reach ops s \<and> cancel_race_over s \<and> seen_signals s = n"
  by (auto simp: scheduled_sum_def split: outcome.splits intro: follow_steps [OF _ race_reach_start])

theorem cancellation_race_reached:
  "(\<exists>s. race_reach shared_token_ops s \<and> cancel_race_over s \<and> seen_signals s = 10011) \<and>
   (\<exists>s. race_reach shared_token_ops s \<and> cancel_race_over s \<and> seen_signals s = 10111) \<and>
   (\<exists>s. race_reach entangled_token_ops s \<and> cancel_race_over s \<and> seen_signals s = 10011) \<and>
   (\<exists>s. race_reach entangled_token_ops s \<and> cancel_race_over s \<and> seen_signals s = 10111)"
  by (intro conjI; rule scheduled_reach [of _ early_schedule] scheduled_reach [of _ late_schedule]; code_simp; fail)

theorem cancellation_race_outcomes_witness:
  "\<exists>s t. race_ok shared_token_ops s \<and> cancel_race_over s \<and> seen_signals s = 10011 \<and>
     race_ok entangled_token_ops t \<and> cancel_race_over t \<and> seen_signals t = 10111"
  using cancellation_race_outcomes cancellation_race_reached by blast

text \<open>
  The tests \<open>EarlyCancellation\<close> and \<open>LateCancellation\<close> for every consumer: whatever signals it sends to \<open>up\<close> before it
  returns, the sum is 10011 when the first terminal one is done, 100011 when it is an error, and 110 without any.
\<close>
theorem immediate_cancellation:
  "immediate_test shared_token_ops ups = Ret (up_total ups) \<and> immediate_test entangled_token_ops ups = Ret (up_total ups)"
  by (simp add: shared_token.immediate_total entangled_token.immediate_total)

end
