(* ===== verification/Cancellation_Many.thy ===== *)
theory Cancellation_Many
  imports Cancellation_Tests Operators
begin

text \<open>
  The programs of \<open>test/FlowManyTest.cpp\<close>: a flow many sender that sends one value when it is asked to, and done when
  it is cancelled. The weights are those of \<open>Cancellation_Tests\<close>, and 1000000 for a request.
\<close>

section \<open>The immediate sender\<close>

text \<open>
  \<open>ImmediateFlowManySender\<close>: \<open>Data\<close>, which the receiver \<open>up\<close> owns, holds \<open>out\<close> and the flag. The sum is what \<open>out\<close> refers
  to.
\<close>

record many_data =
  md_out :: "int flow_st"
  md_stop :: bool

definition sum_up :: "int \<Rightarrow> int call" where
  "sum_up n k = Ret (k + n)"

text \<open>\<open>make_consumer(f)\<close>, with \<open>start\<close> for what \<open>on_starting\<close> does.\<close>

definition many_consumer :: "(unit \<Rightarrow> int call) \<Rightarrow> (int, int, unit, unit) flow_rcv" where
  "many_consumer start = \<lparr>r_value = (\<lambda>v. sum_up 100), r_error = (\<lambda>e. sum_up 1000), r_done = sum_up 1, r_starting = start\<rparr>"

abbreviation many_out :: "(int flow_st, int, unit, unit) flow_rcv" where
  "many_out \<equiv> flow_fn (many_consumer ignoreStrtF)"

definition on_md_out :: "int flow_st call \<Rightarrow> many_data call" where
  "on_md_out = on_member md_out (\<lambda>o' d. d\<lparr>md_out := o'\<rparr>)"

definition many_up_fns :: "(many_data, int, unit) rcv" where
  "many_up_fns = \<lparr>
     r_value = (\<lambda>requested. and_then (on_md_out (on_fdata (sum_up 1000000))) (\<lambda>d.
        if requested < 1 then Ret d
        else and_then (if \<not> md_stop d then on_md_out (set_value many_out 42) else skip) (on_md_out (set_done many_out)) d)),
     r_error = (\<lambda>e. and_then (on_md_out (on_fdata (sum_up 100000)))
        (and_then (\<lambda>d. Ret (d\<lparr>md_stop := True\<rparr>)) (on_md_out (set_done many_out)))),
     r_done = and_then (on_md_out (on_fdata (sum_up 10000)))
        (and_then (\<lambda>d. Ret (d\<lparr>md_stop := True\<rparr>)) (on_md_out (set_done many_out)))\<rparr>"

text \<open>
  \<open>set_starting(up.data().out, std::move(up))\<close>: \<open>out\<close> has noted that it is started when \<open>up\<close>, and \<open>out\<close> in it, is
  moved into the parameter of \<open>on_starting\<close>; \<open>f\<close> then sends \<open>ups\<close>.
\<close>

definition many_start :: "(int, unit) signal list \<Rightarrow> unit \<Rightarrow> int call" where
  "many_start ups u = and_then (sum_up 10) (\<lambda>n.
     map_outcome (\<lambda>st. fs_data (md_out (rs_data st))) (deliver_all (receiver_data many_up_fns) ups
       (receiver_new \<lparr>md_out = \<lparr>fs_done = False, fs_started = True, fs_data = n\<rparr>, md_stop = False\<rparr>)))"

definition immediate_many :: "(int, unit) signal list \<Rightarrow> int outcome" where
  "immediate_many ups = map_outcome fs_data (set_starting (flow_fn (many_consumer (many_start ups))) () (flow_new 0))"

text \<open>The sum of a list of signals to \<open>up\<close>, given whether \<open>out\<close> is done.\<close>

fun many_total :: "bool \<Rightarrow> (int, unit) signal list \<Rightarrow> int" where
  "many_total d [] = 0"
| "many_total d (Value r # ups) =
     1000000 + (if r < 1 then many_total d ups else (if d then 0 else 101) + many_total True ups)"
| "many_total d (Error e # ups) = 100000 + (if d then 0 else 1)"
| "many_total d (Done # ups) = 10000 + (if d then 0 else 1)"

lemmas many_defs = many_up_fns_def many_consumer_def on_md_out_def sum_up_def on_member_def set_value_def set_done_def
  flow_fn_defs try_catch_def no_except_def and_then_def

lemma many_push:
  "map_outcome (\<lambda>d. fs_data (md_out d)) (push_signals many_up_fns ups
      \<lparr>md_out = \<lparr>fs_done = b, fs_started = True, fs_data = n\<rparr>, md_stop = False\<rparr>) = Ret (n + many_total b ups)"
proof (induction ups arbitrary: b n)
  case (Cons sig ups)
  show ?case
  proof (cases sig)
    case (Value r)
    then show ?thesis using Cons [of b "n + 1000000"] Cons [of True "n + 1000101"] Cons [of True "n + 1000000"]
      by (cases "r < 1"; cases b) (simp_all add: many_defs ac_simps del: map_outcome_eq_Ret)
  qed (simp_all add: many_defs)
qed simp

text \<open>
  The tests \<open>EarlyCancellation\<close> and \<open>LateCancellation\<close> for every consumer, whatever it requests and signals before it returns.
\<close>
theorem immediate_many_cancellation:
  "immediate_many ups = Ret (10 + many_total False ups)"
proof -
  have "map_outcome (\<lambda>st. fs_data (md_out (rs_data st))) (deliver_all (receiver_data many_up_fns) ups
      (receiver_new \<lparr>md_out = \<lparr>fs_done = False, fs_started = True, fs_data = 10\<rparr>, md_stop = False\<rparr>)) =
     Ret (10 + many_total False ups)"
    by (simp add: receiver_new_def many_push map_outcome_via [OF receiver_data_push, where g = "\<lambda>d. fs_data (md_out d)"]
        del: map_outcome_eq_Ret)
  then show ?thesis
    by (simp add: immediate_many_def set_starting_def flow_fn_defs flow_new_def many_consumer_def many_start_def sum_up_def
        on_member_def and_then_def try_catch_def no_except_def del: map_outcome_eq_Ret)
qed

lemma immediate_many_tests:
  "immediate_many [Done] = Ret 10011" "immediate_many [Value 1] = Ret 1000111"
  using immediate_many_cancellation by simp_all

section \<open>The concurrent sender\<close>

text \<open>
  \<open>ConcurrentFlowManySender\<close>: \<open>out\<close> and \<open>stop\<close> are shared; the producer's strand runs its tasks one at a time, in an order
  that the clock gives and that is left open: \<open>T_Begin\<close>, \<open>T_Produce\<close>, which \<open>up.value\<close> submits, and \<open>T_Finish\<close>, which
  \<open>up.done\<close> submits from the strand of the cancellation. \<open>T_Produce\<close> is in three steps.
\<close>

datatype many_task = T_Begin | T_Produce | T_Finish

datatype many_at = M_Idle | M_Value | M_Done

datatype many_cancel_at = K_None | K_Waiting | K_Stop | K_Submit | K_Count | K_End

record many_race =
  mr_out :: "counters flow_st"
  mr_stop :: bool
  mr_tasks :: "many_task list"
  mr_at :: many_at
  mr_canc :: many_cancel_at

definition many_race_start :: many_race where
  "many_race_start = \<lparr>mr_out = flow_new \<lparr>ct_signals = 0, ct_terminal = 0, ct_cancel = 0\<rparr>, mr_stop = False,
     mr_tasks = [T_Begin], mr_at = M_Idle, mr_canc = K_None\<rparr>"

definition mr_signal :: "counters flow_st call \<Rightarrow> many_race \<Rightarrow> many_race option" where
  "mr_signal f s = (case f (mr_out s) of Ret out \<Rightarrow> Some (s\<lparr>mr_out := out\<rparr>) | _ \<Rightarrow> None)"

text \<open>\<open>up.value(requested)\<close>.\<close>

definition up_request :: "int \<Rightarrow> many_race \<Rightarrow> many_race option" where
  "up_request requested s = map_option
     (\<lambda>s. if requested < 1 then s else s\<lparr>mr_tasks := mr_tasks s @ [T_Produce]\<rparr>) (mr_signal (on_fdata (ct_add 1000000 0 0)) s)"

text \<open>
  A task of the producer's strand. \<open>on_starting\<close> requests one value and hands \<open>up\<close> to the other strand.
\<close>

fun many_run_task :: "many_task \<Rightarrow> many_race \<Rightarrow> many_race option" where
  "many_run_task T_Begin s = Option.bind (mr_signal (set_starting (flow_fn counting_consumer) ()) s)
     (\<lambda>s. map_option (\<lambda>s. s\<lparr>mr_canc := K_Waiting\<rparr>) (up_request 1 s))"
| "many_run_task T_Produce s = Some (if \<not> mr_stop s then s\<lparr>mr_at := M_Value\<rparr> else s)"
| "many_run_task T_Finish s = mr_signal (set_done (flow_fn counting_consumer)) s"

fun many_strand_step :: "many_task \<Rightarrow> many_race \<Rightarrow> many_race option" where
  "many_strand_step t s =
     (case mr_at s of
        M_Idle \<Rightarrow> if t \<in> set (mr_tasks s) then many_run_task t (s\<lparr>mr_tasks := remove1 t (mr_tasks s)\<rparr>) else None
      | M_Value \<Rightarrow> map_option (\<lambda>s. s\<lparr>mr_at := M_Done\<rparr>) (mr_signal (set_value (flow_fn counting_consumer) 42) s)
      | M_Done \<Rightarrow> map_option (\<lambda>s. s\<lparr>mr_at := M_Idle\<rparr>) (mr_signal (set_done (flow_fn counting_consumer)) s))"

text \<open>\<open>up.done\<close> in the strand of the cancellation.\<close>

fun many_cancel_step :: "many_race \<Rightarrow> many_race option" where
  "many_cancel_step s =
     (case mr_canc s of
        K_None \<Rightarrow> None
      | K_Waiting \<Rightarrow> map_option (\<lambda>s. s\<lparr>mr_canc := K_Stop\<rparr>) (mr_signal (on_fdata (ct_add 10000 0 0)) s)
      | K_Stop \<Rightarrow> Some (s\<lparr>mr_stop := True, mr_canc := K_Submit\<rparr>)
      | K_Submit \<Rightarrow> Some (s\<lparr>mr_tasks := mr_tasks s @ [T_Finish], mr_canc := K_Count\<rparr>)
      | K_Count \<Rightarrow> map_option (\<lambda>s. s\<lparr>mr_canc := K_End\<rparr>) (mr_signal (on_fdata (ct_add 0 0 1)) s)
      | K_End \<Rightarrow> None)"

inductive many_race_step :: "many_race \<Rightarrow> many_race \<Rightarrow> bool" where
  strand: "many_strand_step t s = Some s' \<Longrightarrow> many_race_step s s'"
| cancelled: "many_cancel_step s = Some s' \<Longrightarrow> many_race_step s s'"

definition many_over :: "many_race \<Rightarrow> bool" where
  "many_over s \<longleftrightarrow> mr_tasks s = [] \<and> mr_at s = M_Idle \<and> mr_canc s = K_End"

definition many_test_over :: "many_race \<Rightarrow> bool" where
  "many_test_over s \<longleftrightarrow> ct_terminal (fs_data (mr_out s)) \<noteq> 0 \<and> ct_cancel (fs_data (mr_out s)) \<noteq> 0"

definition many_signals :: "many_race \<Rightarrow> int" where
  "many_signals s = ct_signals (fs_data (mr_out s))"

subsection \<open>The invariant\<close>

fun canc_done :: "many_cancel_at \<Rightarrow> int" where
  "canc_done K_End = 1" | "canc_done c = 0"

fun canc_sum :: "many_cancel_at \<Rightarrow> int" where
  "canc_sum K_None = 0" | "canc_sum K_Waiting = 1000010" | "canc_sum c = 1010010"

text \<open>\<open>v\<close>: a value was sent.\<close>

definition many_expected :: "bool \<Rightarrow> bool \<Rightarrow> many_cancel_at \<Rightarrow> counters" where
  "many_expected v d c = \<lparr>ct_signals = canc_sum c + 100 * of_bool v + of_bool d, ct_terminal = of_bool d, ct_cancel = canc_done c\<rparr>"

definition many_counts :: "bool \<Rightarrow> many_race \<Rightarrow> bool" where
  "many_counts v s \<longleftrightarrow> fs_started (mr_out s) = (mr_canc s \<noteq> K_None) \<and>
     fs_data (mr_out s) = many_expected v (fs_done (mr_out s)) (mr_canc s)"

text \<open>The tasks that are owed.\<close>

definition many_tasks_ok :: "many_race \<Rightarrow> bool" where
  "many_tasks_ok s \<longleftrightarrow> distinct (mr_tasks s) \<and> mr_stop s = (mr_canc s \<in> {K_Submit, K_Count, K_End}) \<and>
     (if mr_canc s = K_None then mr_tasks s = [T_Begin] \<and> mr_at s = M_Idle else T_Begin \<notin> set (mr_tasks s)) \<and>
     (T_Finish \<in> set (mr_tasks s) \<longrightarrow> mr_canc s \<in> {K_Count, K_End}) \<and>
     (mr_at s \<noteq> M_Idle \<longrightarrow> T_Produce \<notin> set (mr_tasks s))"

text \<open>
  As long as the flag is not set, only \<open>T_Produce\<close> can have sent done, after its value; \<open>T_Finish\<close> leaves \<open>out\<close> done.
\<close>

fun flow_phase :: "many_at \<Rightarrow> bool \<Rightarrow> bool \<Rightarrow> bool \<Rightarrow> bool \<Rightarrow> bool" where
  "flow_phase M_Value p stop d v = (\<not> d \<and> \<not> v)"
| "flow_phase M_Done p stop d v = (\<not> d \<and> v)"
| "flow_phase M_Idle p stop d v = (if p then \<not> v \<and> (d \<longrightarrow> stop) else if v then d else stop)"

definition many_flow_ok :: "bool \<Rightarrow> many_race \<Rightarrow> bool" where
  "many_flow_ok v s \<longleftrightarrow>
     (if mr_canc s = K_None then \<not> fs_done (mr_out s) \<and> \<not> v
      else flow_phase (mr_at s) (T_Produce \<in> set (mr_tasks s)) (mr_stop s) (fs_done (mr_out s)) v) \<and>
     (mr_canc s \<in> {K_Count, K_End} \<and> T_Finish \<notin> set (mr_tasks s) \<longrightarrow> fs_done (mr_out s))"

definition many_inv :: "bool \<Rightarrow> many_race \<Rightarrow> bool" where
  "many_inv v s \<longleftrightarrow> many_counts v s \<and> many_tasks_ok s \<and> many_flow_ok v s"

lemma many_start_inv: "many_inv False many_race_start"
  by (simp add: many_inv_def many_counts_def many_tasks_ok_def many_flow_ok_def many_race_start_def flow_new_def many_expected_def)

lemma add_out: "on_fdata (ct_add n t c) st = Ret (st\<lparr>fs_data := \<lparr>ct_signals = ct_signals (fs_data st) + n,
    ct_terminal = ct_terminal (fs_data st) + t, ct_cancel = ct_cancel (fs_data st) + c\<rparr>\<rparr>)"
  by (simp add: ct_add_def on_member_def)

lemma redone_out: "fs_started st \<Longrightarrow> fs_done st \<Longrightarrow> set_done (flow_fn counting_consumer) st = Ret st"
  by (simp add: count_defs)

lemma many_idle: "many_tasks_ok s \<Longrightarrow> mr_at s \<noteq> M_Idle \<Longrightarrow> mr_canc s \<noteq> K_None"
  by (auto simp: many_tasks_ok_def)

lemma many_value_inv:
  assumes "many_inv v s" "mr_at s = M_Value" "many_strand_step t s = Some s'"
  shows "many_inv True s'"
proof -
  have c: "mr_canc s \<noteq> K_None" "\<not> fs_done (mr_out s)" "\<not> v"
    using assms many_idle [of s] by (simp_all add: many_inv_def many_flow_ok_def)
  then have s': "s' = s\<lparr>mr_at := M_Done, mr_out := (mr_out s)\<lparr>fs_data := many_expected True False (mr_canc s)\<rparr>\<rparr>"
    using assms by (auto simp: many_inv_def many_counts_def mr_signal_def value_out many_expected_def)
  show ?thesis
    using assms c by (simp add: s' many_inv_def many_counts_def many_tasks_ok_def many_flow_ok_def)
qed

lemma many_done_inv:
  assumes "many_inv v s" "mr_at s = M_Done" "many_strand_step t s = Some s'"
  shows "many_inv v s'"
proof -
  have c: "mr_canc s \<noteq> K_None" "\<not> fs_done (mr_out s)" "v"
    using assms many_idle [of s] by (simp_all add: many_inv_def many_flow_ok_def)
  then have s': "s' = s\<lparr>mr_at := M_Idle, mr_out := (mr_out s)\<lparr>fs_done := True, fs_data := many_expected True True (mr_canc s)\<rparr>\<rparr>"
    using assms by (auto simp: many_inv_def many_counts_def mr_signal_def done_out many_expected_def)
  show ?thesis
    using assms c by (simp add: s' many_inv_def many_counts_def many_tasks_ok_def many_flow_ok_def)
qed

lemma many_begin_inv:
  assumes "many_inv v s" "mr_at s = M_Idle" "many_strand_step T_Begin s = Some s'"
  shows "many_inv v s'"
proof -
  have c: "mr_canc s = K_None" "mr_tasks s = [T_Begin]" "\<not> fs_done (mr_out s)" "\<not> v" "\<not> mr_stop s"
    using assms by (auto simp: many_inv_def many_tasks_ok_def many_flow_ok_def split: if_splits)
  then have s': "s' = s\<lparr>mr_tasks := [T_Produce], mr_canc := K_Waiting,
      mr_out := (mr_out s)\<lparr>fs_started := True, fs_data := many_expected False False K_Waiting\<rparr>\<rparr>"
    using assms
    by (auto simp: many_inv_def many_counts_def mr_signal_def started_out add_out up_request_def many_expected_def)
  show ?thesis
    using assms c by (simp add: s' many_inv_def many_counts_def many_tasks_ok_def many_flow_ok_def)
qed

lemma many_produce_inv:
  assumes "many_inv v s" "mr_at s = M_Idle" "many_strand_step T_Produce s = Some s'"
  shows "many_inv v s'"
proof -
  have c: "T_Produce \<in> set (mr_tasks s)" "mr_canc s \<noteq> K_None" "distinct (mr_tasks s)"
    using assms by (auto simp: many_inv_def many_tasks_ok_def split: if_splits)
  have s': "s' = (if mr_stop s then s else s\<lparr>mr_at := M_Value\<rparr>)\<lparr>mr_tasks := remove1 T_Produce (mr_tasks s)\<rparr>"
    using assms(2,3) c(1) by auto
  have "fs_done (mr_out s) \<longrightarrow> mr_stop s" "\<not> v"
    using assms(1,2) c by (simp_all add: many_inv_def many_flow_ok_def)
  then show ?thesis
    using assms c
    by (cases "mr_stop s")
       (auto simp: s' many_inv_def many_counts_def many_tasks_ok_def many_flow_ok_def set_remove1_eq)
qed

lemma many_finish_inv:
  assumes "many_inv v s" "mr_at s = M_Idle" "many_strand_step T_Finish s = Some s'"
  shows "many_inv v s'"
proof -
  have c: "T_Finish \<in> set (mr_tasks s)" "mr_canc s \<in> {K_Count, K_End}" "distinct (mr_tasks s)" "mr_stop s"
      "mr_canc s \<noteq> K_None"
    using assms by (auto simp: many_inv_def many_tasks_ok_def split: if_splits)
  have s': "s' = s\<lparr>mr_tasks := remove1 T_Finish (mr_tasks s),
      mr_out := (mr_out s)\<lparr>fs_done := True, fs_data := many_expected v True (mr_canc s)\<rparr>\<rparr>"
    using assms c
    by (cases "fs_done (mr_out s)")
       (auto simp: many_inv_def many_counts_def mr_signal_def done_out redone_out many_expected_def)
  show ?thesis
    using assms c
    by (cases "T_Produce \<in> set (mr_tasks s)"; cases v)
       (simp_all add: s' many_inv_def many_counts_def many_tasks_ok_def many_flow_ok_def set_remove1_eq)
qed

lemma many_cancel_inv:
  assumes "many_inv v s" "many_cancel_step s = Some s'"
  shows "many_inv v s'"
proof (cases "mr_canc s")
  case K_Waiting
  then have s': "s' = s\<lparr>mr_canc := K_Stop, mr_out := (mr_out s)\<lparr>fs_data := many_expected v (fs_done (mr_out s)) K_Stop\<rparr>\<rparr>"
    using assms by (auto simp: many_inv_def many_counts_def mr_signal_def add_out many_expected_def)
  show ?thesis using assms(1) K_Waiting
    by (auto simp: s' many_inv_def many_counts_def many_tasks_ok_def many_flow_ok_def)
next
  case K_Stop
  then have s': "s' = s\<lparr>mr_stop := True, mr_canc := K_Submit\<rparr>" using assms(2) by auto
  show ?thesis using assms(1) K_Stop
    by (cases "mr_at s"; cases "T_Produce \<in> set (mr_tasks s)"; cases v)
       (simp_all add: s' many_inv_def many_counts_def many_tasks_ok_def many_flow_ok_def many_expected_def)
next
  case K_Submit
  then have s': "s' = s\<lparr>mr_tasks := mr_tasks s @ [T_Finish], mr_canc := K_Count\<rparr>" using assms(2) by auto
  show ?thesis using assms(1) K_Submit
    by (auto simp: s' many_inv_def many_counts_def many_tasks_ok_def many_flow_ok_def many_expected_def)
next
  case K_Count
  then have s': "s' = s\<lparr>mr_canc := K_End, mr_out := (mr_out s)\<lparr>fs_data := many_expected v (fs_done (mr_out s)) K_End\<rparr>\<rparr>"
    using assms by (auto simp: many_inv_def many_counts_def mr_signal_def add_out many_expected_def)
  show ?thesis using assms(1) K_Count
    by (auto simp: s' many_inv_def many_counts_def many_tasks_ok_def many_flow_ok_def)
qed (use assms(2) in simp_all)

lemma many_strand_inv:
  assumes "many_inv v s" "many_strand_step t s = Some s'"
  shows "\<exists>w. many_inv w s'"
proof (cases "mr_at s")
  case M_Idle
  with assms many_begin_inv many_produce_inv many_finish_inv show ?thesis by (cases t) blast+
qed (use assms many_value_inv many_done_inv in blast)+

interpretation many_races: invariant_of "\<lambda>s. s = many_race_start" many_race_step "\<lambda>s. \<exists>v. many_inv v s"
proof unfold_locales
  show "\<exists>v. many_inv v s" if "s = many_race_start" for s using many_start_inv that by blast
  show "\<exists>v. many_inv v t" if "\<exists>v. many_inv v s" "many_race_step s t" for s t
    using that many_strand_inv many_cancel_inv by (blast elim: many_race_step.cases)
qed

text \<open>The strand can go on whenever it has a task or is inside one.\<close>

lemma many_strand_progress:
  assumes "many_inv v s" "mr_at s \<noteq> M_Idle \<or> mr_tasks s \<noteq> []"
  shows "\<exists>t s'. many_strand_step t s = Some s'"
proof (cases "mr_at s")
  case M_Idle
  then obtain t ts where t: "mr_tasks s = t # ts" using assms(2) by (cases "mr_tasks s") auto
  have "\<exists>s'. many_strand_step t s = Some s'"
  proof (cases t)
    case T_Finish
    then have "fs_started (mr_out s)"
      using assms(1) t by (auto simp: many_inv_def many_counts_def many_tasks_ok_def)
    then show ?thesis using M_Idle t T_Finish
      by (cases "fs_done (mr_out s)") (simp_all add: mr_signal_def done_out redone_out)
  next
    case T_Begin
    then have "\<not> fs_started (mr_out s)"
      using assms(1) t by (auto simp: many_inv_def many_counts_def many_tasks_ok_def split: if_splits)
    then show ?thesis using M_Idle t T_Begin by (simp add: mr_signal_def started_out up_request_def add_out)
  qed (use M_Idle t in simp)
  then show ?thesis by blast
qed (use assms many_idle [of s] in \<open>simp_all add: many_inv_def many_counts_def many_flow_ok_def mr_signal_def value_out done_out\<close>)

lemma many_progress:
  assumes "many_inv v s" "\<not> many_over s"
  shows "\<exists>s'. many_race_step s s'"
proof (cases "mr_at s \<noteq> M_Idle \<or> mr_tasks s \<noteq> []")
  case True
  from many_strand_progress [OF assms(1) this] show ?thesis by (blast intro: strand)
next
  case False
  then have "mr_canc s \<noteq> K_End" "mr_canc s \<noteq> K_None"
    using assms by (auto simp: many_over_def many_inv_def many_tasks_ok_def)
  then have "\<exists>s'. many_cancel_step s = Some s'" by (cases "mr_canc s") (simp_all add: mr_signal_def add_out)
  then show ?thesis by (blast intro: cancelled)
qed

text \<open>A measure that every step lowers.\<close>

fun task_rank :: "many_task \<Rightarrow> nat" where
  "task_rank T_Begin = 4" | "task_rank T_Produce = 3" | "task_rank T_Finish = 1"

fun at_rank :: "many_at \<Rightarrow> nat" where
  "at_rank M_Idle = 0" | "at_rank M_Value = 2" | "at_rank M_Done = 1"

fun canc_at_rank :: "many_cancel_at \<Rightarrow> nat" where
  "canc_at_rank K_None = 6" | "canc_at_rank K_Waiting = 6" | "canc_at_rank K_Stop = 5" | "canc_at_rank K_Submit = 4"
| "canc_at_rank K_Count = 2" | "canc_at_rank K_End = 0"

definition many_rank :: "many_race \<Rightarrow> nat" where
  "many_rank s = sum_list (map task_rank (mr_tasks s)) + at_rank (mr_at s) + canc_at_rank (mr_canc s)"

lemma rank_remove: "t \<in> set ts \<Longrightarrow> sum_list (map task_rank ts) = task_rank t + sum_list (map task_rank (remove1 t ts))"
  by (induction ts) auto

lemma many_rank_decreases:
  assumes "many_inv v s" "many_race_step s s'"
  shows "many_rank s' < many_rank s"
  using assms(2)
proof (cases rule: many_race_step.cases)
  case (strand t)
  have none: "mr_canc s = K_None" if "T_Begin \<in> set (mr_tasks s)"
    using assms(1) that by (auto simp: many_inv_def many_tasks_ok_def split: if_splits)
  show ?thesis
  proof (cases "mr_at s")
    case M_Idle
    with strand none rank_remove [of t "mr_tasks s"] show ?thesis
      by (cases t)
         (auto simp: many_rank_def mr_signal_def up_request_def add_out split: if_splits outcome.splits)
  qed (use strand in \<open>auto simp: many_rank_def mr_signal_def split: outcome.splits\<close>)
next
  case cancelled
  then show ?thesis
    by (cases "mr_canc s") (auto simp: many_rank_def mr_signal_def add_out)
qed

section \<open>Properties of the race\<close>

text \<open>
  C14: The racing test of \<open>FlowManyTest.cpp\<close>, whatever the clocks do: when its loop ends the sum is 1010011 or 1010111, no
  third one; \<open>out\<close> gets at most one value and one done although both strands cause them; a run never stops before all is
  through, the loop of the test ends by then, and every run is finite.
\<close>
theorem many_race_outcomes:
  assumes "reachable (\<lambda>s. s = many_race_start) many_race_step s"
  shows "(many_test_over s \<longrightarrow> many_signals s \<in> {1010011, 1010111}) \<and>
    (many_over s \<and> many_test_over s \<or> (\<exists>s'. many_race_step s s')) \<and>
    (\<forall>s'. many_race_step s s' \<longrightarrow> many_rank s' < many_rank s)"
proof -
  obtain v where v: "many_inv v s" using many_races.reachable_inv [OF assms] by blast
  have "many_signals s \<in> {1010011, 1010111}" if "many_test_over s"
    using v that
    by (cases "mr_canc s"; cases v)
       (auto simp: many_inv_def many_counts_def many_test_over_def many_signals_def many_expected_def)
  moreover have "many_test_over s" if "many_over s"
    using v that by (simp add: many_inv_def many_counts_def many_flow_ok_def many_over_def many_test_over_def many_expected_def)
  ultimately show ?thesis using many_progress [OF v] many_rank_decreases [OF v] by blast
qed

text \<open>A run by a schedule: the strand's tasks, and None for a step of the cancellation. Both sums are reached.\<close>

fun many_follow :: "many_task option list \<Rightarrow> many_race \<Rightarrow> many_race option" where
  "many_follow [] s = Some s"
| "many_follow (b # bs) s =
     Option.bind (case b of Some t \<Rightarrow> many_strand_step t s | None \<Rightarrow> many_cancel_step s) (many_follow bs)"

lemma many_follow_reach:
  "many_follow bs s = Some t \<Longrightarrow> reachable (\<lambda>s. s = many_race_start) many_race_step s \<Longrightarrow>
   reachable (\<lambda>s. s = many_race_start) many_race_step t"
proof (induction bs arbitrary: s)
  case (Cons b bs)
  then obtain s' where s': "(case b of Some t \<Rightarrow> many_strand_step t s | None \<Rightarrow> many_cancel_step s) = Some s'"
      "many_follow bs s' = Some t"
    by (auto simp: bind_eq_Some_conv)
  then have "many_race_step s s'" by (cases b) (auto intro: strand cancelled simp del: many_strand_step.simps many_cancel_step.simps)
  from Cons.IH [OF s'(2) reach_step [OF Cons.prems(2) this]] show ?case .
qed simp

lemma many_follow_start:
  "map_option f (many_follow bs many_race_start) = Some x \<Longrightarrow>
   \<exists>s. reachable (\<lambda>s. s = many_race_start) many_race_step s \<and> f s = x"
  by (auto intro: many_follow_reach reach_init)

theorem many_race_outcomes_witness:
  "(\<exists>s. many_over s \<and> many_signals s = 1010011 \<and> many_test_over s) \<and>
   (\<exists>s. many_over s \<and> many_signals s = 1010111 \<and> many_test_over s)"
proof -
  let ?early = "[Some T_Begin, None, None, None, None, Some T_Finish, Some T_Produce]"
  let ?late = "[Some T_Begin, Some T_Produce, Some T_Produce, None, None, None, Some T_Produce, None, Some T_Finish]"
  have "map_option (\<lambda>s. (many_over s, many_signals s)) (many_follow ?early many_race_start) = Some (True, 1010011)"
    by code_simp
  from many_follow_start [OF this] obtain s
    where s: "reachable (\<lambda>s. s = many_race_start) many_race_step s" "many_over s" "many_signals s = 1010011" by auto
  have "map_option (\<lambda>s. (many_over s, many_signals s)) (many_follow ?late many_race_start) = Some (True, 1010111)"
    by code_simp
  from many_follow_start [OF this] obtain t
    where t: "reachable (\<lambda>s. s = many_race_start) many_race_step t" "many_over t" "many_signals t = 1010111" by auto
  have fin: "\<not> many_race_step u u'" if "many_over u" for u u'
    using that by (auto simp: many_over_def elim!: many_race_step.cases split: many_task.splits)
  show ?thesis
    using many_race_outcomes [OF s(1)] many_race_outcomes [OF t(1)] fin s(2,3) t(2,3) by blast
qed

end
