(* ===== verification/Test_Pipelines.thy ===== *)
theory Test_Pipelines
  imports Example_Deferral Inline_Executors
begin

text \<open>
  The pipelines of \<open>test/PushmiTest.cpp\<close> and \<open>test/TrampolineTest.cpp\<close>. The functions of a test add to counters
  that they share, so an operator and the receiver behind it share them too, as in \<open>Example_Deferral\<close>; the theorems
  are about any sender in the place of the sender of the test.
\<close>

section \<open>\<open>transform\<close> with a function that has effects\<close>

text \<open>The function gets the shared state, and leaves it with its result or its exception.\<close>

type_synonym ('v, 'w, 'r) effect_fn = "'v \<Rightarrow> 'w \<Rightarrow> (nat + 'r) \<times> 'w"

definition transform_shared_value ::
  "('s \<Rightarrow> 'w) \<Rightarrow> ('w \<Rightarrow> 's \<Rightarrow> 's) \<Rightarrow> ('v, 'w, 'r) effect_fn \<Rightarrow> ('s, 'r, 'e, 'x) rcv_scheme \<Rightarrow> 'v \<Rightarrow> 's call" where
  "transform_shared_value out_of out_in f R v s =
     (case f v (out_of s) of (Inl n, w) \<Rightarrow> Thr n (out_in w s) | (Inr r, w) \<Rightarrow> set_value R r (out_in w s))"

definition transform_shared_fns ::
  "('s \<Rightarrow> 'w) \<Rightarrow> ('w \<Rightarrow> 's \<Rightarrow> 's) \<Rightarrow> ('v, 'w, 'r) effect_fn \<Rightarrow> ('s, 'r, 'e, 'x) rcv_scheme \<Rightarrow> ('s, 'v, 'e) rcv" where
  "transform_shared_fns out_of out_in f R =
     \<lparr>r_value = transform_shared_value out_of out_in f R, r_error = passDEF R, r_done = passDDF R\<rparr>"

definition transform_shared ::
  "cardinality \<Rightarrow> ('s \<Rightarrow> 'w) \<Rightarrow> ('w \<Rightarrow> 's \<Rightarrow> 's) \<Rightarrow> cat \<Rightarrow> ('v, 'w, 'r) effect_fn \<Rightarrow>
   ('c, 's receiver_st, 'v, 'e, unit) sender \<Rightarrow> ('c, 's, 'r, 'e, 'x) sender" where
  "transform_shared n out_of out_in cap f S = sender_from n False (\<lambda>k R.
     submit_wrapped (transform_shared_fns out_of out_in f R) (S cap))"

text \<open>Without effects it is the \<open>transform\<close> of \<open>Operators\<close>.\<close>

lemma transform_shared_pure:
  assumes "shared_output out_of out_in"
  shows "transform_shared n out_of out_in cap (\<lambda>v w. (f v, w)) S = transform n cap f S"
proof -
  have "transform_shared_value out_of out_in (\<lambda>v w. (f v, w)) R = transform_value_fn f R" for R :: "('a, 'c, 'd, 'e) rcv_scheme"
    by (intro ext) (simp add: transform_shared_value_def transform_value_fn_def shared_output.in_of [OF assms] split: sum.split)
  then show ?thesis
    by (simp add: transform_shared_def transform_shared_fns_def transform_def transform_submit_def [abs_def] transform_on_eq transform_on_single_def)
qed

text \<open>The data of a receiver shares what its state shares.\<close>

definition through_of :: "('s \<Rightarrow> 'w) \<Rightarrow> 's receiver_st \<Rightarrow> 'w" where
  "through_of g st = g (rs_data st)"

definition through_in :: "('w \<Rightarrow> 's \<Rightarrow> 's) \<Rightarrow> 'w \<Rightarrow> 's receiver_st \<Rightarrow> 's receiver_st" where
  "through_in p w st = st\<lparr>rs_data := p w (rs_data st)\<rparr>"

lemma shared_through: "shared_output g p \<Longrightarrow> shared_output (through_of g) (through_in p)"
  by (simp add: shared_output_def through_of_def through_in_def)

interpretation through_data: shared_output "through_of rs_data" "through_in put_data"
  by (rule shared_through [OF in_data.shared_output_axioms])

section \<open>The tests of \<open>PushmiTest.cpp\<close>\<close>

text \<open>\<open>signals\<close> and \<open>value\<close> of a test.\<close>

type_synonym tally = "int \<times> int"

definition tally_fns :: "(tally, int, 'e) rcv" where
  "tally_fns = \<lparr>r_value = (\<lambda>v (n, x). Ret (n + 100, x + v)), r_error = (\<lambda>e (n, x). Ret (n + 1000, x)),
     r_done = (\<lambda>(n, x). Ret (n + 10, x))\<rparr>"

text \<open>\<open>EmptySingleSender\<close>: the functions of the tap and of the receiver count alike.\<close>

definition count_fns :: "(int, 'v, 'e) rcv" where
  "count_fns = \<lparr>r_value = (\<lambda>v n. Ret (n + 100)), r_error = (\<lambda>e n. Ret (n + 1000)), r_done = (\<lambda>n. Ret (n + 10))\<rparr>"

definition tap_and_submit :: "cat \<Rightarrow> ('c, (bool \<times> int receiver_st) receiver_st, 'v, 'e, unit) sender \<Rightarrow> 'c \<Rightarrow> int outcome" where
  "tap_and_submit cap S c =
     map_outcome snd (submit_fn count_fns (tap_shared_sender Single rs_data put_data count_fns cap S) RValue (c, 0))"

fun weight :: "('v, 'e) signal list \<Rightarrow> int" where
  "weight [] = 0"
| "weight (Value v # sigs) = 100 + weight sigs"
| "weight (Error e # sigs) = 1000"
| "weight (Done # sigs) = 10"

text \<open>\<open>JustIntSingleSender\<close> and \<open>FromIntManySender\<close>: two transforms that count their calls.\<close>

definition add_one :: "(int, tally, int) effect_fn" where
  "add_one v w = (Inr (v + 1), (fst w + 10000, snd w))"

definition times_two :: "(int, tally, int) effect_fn" where
  "times_two v w = (Inr (v * 2), (fst w + 10000, snd w))"

definition transform_and_submit ::
  "cardinality \<Rightarrow> cat \<Rightarrow> ('c, tally receiver_st receiver_st receiver_st, int, 'e, unit) sender \<Rightarrow> 'c \<Rightarrow> tally outcome" where
  "transform_and_submit n cap S c =
     map_outcome snd (submit_fn tally_fns (transform_shared n rs_data put_data RValue times_two
       (transform_shared n (through_of rs_data) (through_in put_data) cap add_one S)) RValue (c, (0, 0)))"

section \<open>\<open>UsedWithOn\<close> and \<open>UsedWithVia\<close>\<close>

text \<open>A single sender that sends what it is told, also after done.\<close>

definition scripted :: "('v, 'e) signal list \<Rightarrow> (unit, 's, 'v, 'e, 'x) sender" where
  "scripted sigs = single_sender_fn (\<lambda>k R (c, s). map_outcome (Pair c) (deliver_all R sigs s))"

definition push_back_fns :: "('v list, 'v, 'e) rcv" where
  "push_back_fns = \<lparr>r_value = (\<lambda>v vs. Ret (vs @ [v])), r_error = abortEF, r_done = ignoreDF\<rparr>"

definition used_with_on :: "('v, 'e) signal list \<Rightarrow> 'v list outcome" where
  "used_with_on sigs = map_outcome snd (submit_fn push_back_fns
     (on_sender Single False id () (inline_submit () :: (unit, (unit, 'v list receiver_st) on_st receiver_st, unit, nat, unit) sender)
       (scripted sigs)) RValue ((), []))"

text \<open>\<open>via\<close> with the inline executor: a task is run as soon as a signal submits it, up to the first terminal signal.\<close>

fun inline_events :: "('v, 'e) signal list \<Rightarrow> ('v, 'e) signal Delivery_Queue.event list" where
  "inline_events [] = []"
| "inline_events (Value v # sigs) = Signal (Value v) # Run 0 # inline_events sigs"
| "inline_events (sig # sigs) = Signal sig # Run 0 # map Signal sigs"

definition used_with_via :: "('v, 'e) signal list \<Rightarrow> 'v list outcome" where
  "used_with_via sigs = map_outcome (\<lambda>st. rs_data (via_out (rs_data st)))
     (and_then (via_run (receiver_fn push_back_fns) (inline_events sigs)) (via_flush (receiver_fn push_back_fns))
       (receiver_new (via_start (receiver_new []))))"

section \<open>Properties\<close>

lemma count_push: "push_signals count_fns sigs n = Ret (n + weight sigs)"
proof (induction sigs arbitrary: n)
  case (Cons sig sigs)
  then show ?case by (cases sig) (simp_all add: count_fns_def no_except_def)
qed simp

lemma count_effect: "effect count_fns (\<lambda>sig n. n + (case sig of Value v \<Rightarrow> 100 | Error e \<Rightarrow> 1000 | Done \<Rightarrow> 10)) sig"
  by (cases sig) (simp_all add: effect_def count_fns_def)

lemma weight_upto: "weight (upto_terminal sigs) = weight sigs"
  by (induction sigs rule: weight.induct) simp_all

lemma tapped_weight:
  assumes "\<not> rs_done st"
  shows "map_outcome rs_data (tapped rs_data put_data (\<lambda>sig n. n + (case sig of Value v \<Rightarrow> 100 | Error e \<Rightarrow> 1000 | Done \<Rightarrow> 10))
      (receiver_fn count_fns) (upto_terminal sigs) st) = Ret (rs_data st + 2 * weight sigs)"
  using assms
proof (induction sigs arbitrary: st)
  case (Cons sig sigs)
  then show ?case
    by (cases sig)
       (simp_all add: and_then_def put_data_def count_fns_def receiver_fn_defs set_value_def set_error_def set_done_def
         on_member_def try_catch_def no_except_def del: map_outcome_eq_Ret)
qed simp

text \<open>
  A tap and a receiver with the same functions count every signal of any sender twice: values up to the
  first terminal signal, and that. For \<open>empty\<close> the test expects 20.
\<close>
theorem tap_counts_twice:
  assumes "\<And>R s. nothrow_error R \<Longrightarrow> S cap R (c, s) = map_outcome (Pair c') (deliver_all R sigs s)"
  shows "tap_and_submit cap S c = Ret (2 * weight sigs)"
proof -
  have S: "sender_contract S cap c sigs c'" by unfold_locales (rule assms)
  show ?thesis
    using tapped_weight [of "receiver_new 0" sigs]
    by (simp add: tap_and_submit_def submit_fn_def tap_shared_sends [OF S rfn.receiver_nothrow ballI [OF count_effect]]
        map_outcome_comp case_prod_unfold receiver_new_def del: map_outcome_eq_Ret)
qed

theorem tap_counts_twice_witness:
  "tap_and_submit LValue empty_sender () = Ret 20"
  by (rule trans [OF tap_counts_twice [of empty_sender LValue "()" "()" "[Done]", OF empty_s.sends]]) simp_all

text \<open>
  Two transforms that count, over any sender of integers: every value is transformed twice, in order, and the calls are
  20000 for each value; an error or done passes. For \<open>just(20)\<close> the test expects 20110 and 42, for \<open>from\<close> 60310 and 222.
\<close>

fun int_values :: "(int, 'e) signal list \<Rightarrow> int list" where
  "int_values [] = []"
| "int_values (Value v # sigs) = v # int_values sigs"
| "int_values (sig # sigs) = []"

abbreviation stage_two :: "(tally receiver_st receiver_st, int, 'e) rcv" where
  "stage_two \<equiv> receiver_data (transform_shared_fns rs_data put_data times_two (receiver_fn tally_fns))"

abbreviation stage_one_fns :: "(tally receiver_st receiver_st, int, 'e) rcv" where
  "stage_one_fns \<equiv> transform_shared_fns (through_of rs_data) (through_in put_data) add_one stage_two"

definition open_at :: "tally \<Rightarrow> tally receiver_st receiver_st" where
  "open_at w = \<lparr>rs_done = False, rs_data = \<lparr>rs_done = False, rs_data = w\<rparr>\<rparr>"

definition closed_at :: "tally \<Rightarrow> tally receiver_st receiver_st" where
  "closed_at w = \<lparr>rs_done = True, rs_data = \<lparr>rs_done = True, rs_data = w\<rparr>\<rparr>"

lemma stage_signals:
  "r_value (stage_one_fns :: (_, int, 'e) rcv) v (open_at (n, x)) = Ret (open_at (n + 20100, x + (v + 1) * 2))"
  "r_done (stage_one_fns :: (_, int, 'e) rcv) (open_at (n, x)) = Ret (closed_at (n + 10, x))"
  "r_error (stage_one_fns :: (_, int, 'e) rcv) e (open_at (n, x)) = Ret (closed_at (n + 1000, x))"
  by (simp_all add: transform_shared_fns_def transform_shared_value_def add_one_def times_two_def through_of_def through_in_def put_data_def tally_fns_def
      receiver_fn_defs receiver_data_defs passDDF_def passDEF_def set_value_def set_done_def set_error_def on_member_def
      try_catch_def no_except_def open_at_def closed_at_def)

fun tally_of :: "(int, 'e) signal list \<Rightarrow> tally \<Rightarrow> tally" where
  "tally_of [] w = w"
| "tally_of (Value v # sigs) w = tally_of sigs (fst w + 20100, snd w + (v + 1) * 2)"
| "tally_of (Error e # sigs) w = (fst w + 1000, snd w)"
| "tally_of (Done # sigs) w = (fst w + 10, snd w)"

lemma stage_push:
  "map_outcome (\<lambda>st. rs_data (rs_data st)) (push_signals stage_one_fns sigs (open_at w)) = Ret (tally_of sigs w)"
proof (induction sigs arbitrary: w)
  case (Cons sig sigs)
  obtain n x where w: "w = (n, x)" by (cases w)
  show ?case
    by (cases sig) (simp_all add: Cons stage_signals w no_except_def closed_at_def del: map_outcome_eq_Ret)
qed (simp add: open_at_def)

theorem transforms_tally:
  assumes "\<And>R s. nothrow_error R \<Longrightarrow> S cap R (c, s) = map_outcome (Pair c') (deliver_all R sigs s)"
  shows "transform_and_submit n cap S c = Ret (tally_of sigs (0, 0))"
proof -
  have S: "sender_contract S cap c sigs c'" by unfold_locales (rule assms)
  show ?thesis
    using stage_push [of sigs "(0, 0)"]
    by (simp add: transform_and_submit_def submit_fn_def transform_shared_def sender_from_eq submit_wrapped_contract [OF S]
        map_outcome_comp case_prod_unfold receiver_new_def open_at_def
        submit_wrapped_def [of "transform_shared_fns rs_data put_data times_two _"] del: map_outcome_eq_Ret)
qed

theorem transforms_tally_witness:
  "transform_and_submit Single LValue (just id) 20 = Ret (20110, 42) \<and>
   transform_and_submit Many LValue from_sender [0, 9, 99] = Ret (60310, 222)"
proof
  show "transform_and_submit Single LValue (just id) 20 = Ret (20110, 42)"
    by (rule trans [OF transforms_tally [of "just id" LValue 20 20 "[Value 20, Done]", OF sender_contract.sends [OF just_contract]]])
       simp_all
  show "transform_and_submit Many LValue from_sender [0, 9, 99] = Ret (60310, 222)"
    by (rule trans [OF transforms_tally [of from_sender LValue "[0, 9, 99]" "[0, 9, 99]" "map Value [0, 9, 99] @ [Done]", OF from_s.sends]])
       simp_all
qed

text \<open>
  \<open>on\<close> over a sender that goes on after done: the values up to done are pushed, the rest is ignored.
\<close>

lemma push_back:
  "first_error sigs = None \<Longrightarrow> push_signals push_back_fns sigs vs = Ret (vs @ signal_values sigs)"
proof (induction sigs arbitrary: vs)
  case (Cons sig sigs)
  then show ?case by (cases sig) (simp_all add: push_back_fns_def ignoreDF_def)
qed simp

lemma scripted_contract: "sender_contract (scripted sigs) k c sigs c"
  by unfold_locales (simp add: scripted_def single_sender_fn_def)

theorem used_with_on_values:
  assumes "first_error sigs = None"
  shows "used_with_on sigs = Ret (signal_values sigs)"
  by (simp add: used_with_on_def push_back [OF assms] map_outcome_comp
      submit_fn_contract [OF on_contract [OF inline_s.sender_contract_axioms scripted_contract]])

theorem used_with_on_values_witness:
  "used_with_on [Value 2, Done, Value 1, Value (-128), Value 127 :: (int, nat) signal] = Ret [2]"
  using used_with_on_values [of "[Value 2, Done, Value 1, Value (-128), Value 127 :: (int, nat) signal]"] by simp

lemma inline_events_ok: "list_all fifo_event (inline_events sigs) \<and> event_signals (inline_events sigs) = sigs"
proof -
  have "list_all fifo_event (map Signal ss) \<and> event_signals (map Signal ss) = ss" for ss :: "('a, 'b) signal list"
    by (induction ss) simp_all
  then show ?thesis by (induction sigs rule: inline_events.induct) simp_all
qed

text \<open>\<open>via\<close> over the same sender, with the inline executor.\<close>

theorem used_with_via_values:
  assumes "first_error sigs = None"
  shows "used_with_via sigs = Ret (signal_values sigs)"
proof -
  have "used_with_via sigs = map_outcome rs_data (map_outcome (\<lambda>st. via_out (rs_data st))
      (and_then (via_run (receiver_fn push_back_fns) (inline_events sigs)) (via_flush (receiver_fn push_back_fns))
        (receiver_new (via_start (receiver_new [])))))"
    by (simp add: used_with_via_def map_outcome_comp)
  also have "\<dots> = map_outcome rs_data (deliver_all (receiver_fn push_back_fns) (upto_terminal sigs) (receiver_new []))"
    using via_fifo [OF via_start_ok, of "inline_events sigs" "receiver_fn push_back_fns" "receiver_new []"] inline_events_ok [of sigs]
    by (simp add: via_owed_def receiver_new_def via_start_def deliver_all_def via_task_all del: map_map)
  finally show ?thesis by (simp add: receiver_fn_push push_signals_upto_terminal receiver_new_def push_back [OF assms])
qed

end
