(* ===== verification/Executor_References.thy ===== *)
theory Executor_References
  imports Concepts Senders
begin

text \<open>
  What can be made an \<open>any_executor_ref\<close>, an \<open>any_constrained_executor_ref\<close> or an \<open>any_time_executor_ref\<close>
  (\<open>executor.h\<close>): the constructors as candidates of overload resolution, the \<open>make\<close> functions with the deduction
  guides, and the types of the entries of the tables behind them. \<open>Executors\<close> says what the references do.
\<close>

section \<open>Arguments and concepts\<close>

datatype ref_template = Executor_Ref | Constrained_Ref | Time_Ref

text \<open>
  An argument: its decayed type; the template that it is a specialisation of, if it is one of the three, with \<open>True\<close> if it
  is the very class; its value category, and whether it is const.
\<close>

record ref_arg =
  ra_type :: "unit cxx"
  ra_class :: "(ref_template \<times> bool) option"
  ra_cat :: cat
  ra_const :: bool

text \<open>\<open>not_is_t<T, any_executor_ref>\<close> and its relatives: any specialisation of the template is excluded.\<close>

definition is_ref :: "ref_template \<Rightarrow> ref_arg \<Rightarrow> bool" where
  "is_ref R a = (case ra_class a of Some (C, same) \<Rightarrow> C = R | None \<Rightarrow> False)"

fun wraps :: "ref_template \<Rightarrow> unit cxx \<Rightarrow> bool" where
  "wraps Executor_Ref t = Executor_concept t []"
| "wraps Constrained_Ref t = ConstrainedExecutor_concept t []"
| "wraps Time_Ref t = TimeExecutor_concept t []"

text \<open>\<open>Wrapped&\<close> with \<open>Wrapped\<close> deduced, which may be const; and what \<open>Wrapped&&\<close> deduces.\<close>

definition binds_lvalue_ref :: "ref_arg \<Rightarrow> bool" where
  "binds_lvalue_ref a \<longleftrightarrow> ra_cat a = LValue \<or> ra_const a"

datatype ref_ty = No_Ref | Lvalue_Ref | Rvalue_Ref

fun forwarding_deduces :: "cat \<Rightarrow> ref_ty" where
  "forwarding_deduces LValue = Lvalue_Ref"
| "forwarding_deduces RValue = No_Ref"

fun collapse_rvalue :: "ref_ty \<Rightarrow> ref_ty" where
  "collapse_rvalue Lvalue_Ref = Lvalue_Ref"
| "collapse_rvalue _ = Rvalue_Ref"

section \<open>The constructors\<close>

datatype ref_ctor = Copy_Ctor | From_Lvalue | From_Forwarded

definition copy_viable :: "ref_template \<Rightarrow> ref_arg \<Rightarrow> bool" where
  "copy_viable R a \<longleftrightarrow> ra_class a = Some (R, True)"

definition lvalue_viable :: "ref_template \<Rightarrow> ref_arg \<Rightarrow> bool" where
  "lvalue_viable R a \<longleftrightarrow> \<not> is_ref R a \<and> wraps R (ra_type a) \<and> binds_lvalue_ref a"

text \<open>\<open>any_time_executor_ref(Wrapped&&)\<close> asks for \<open>std::is_rvalue_reference<Wrapped>\<close>.\<close>

definition forwarded_viable :: "ref_template \<Rightarrow> ref_arg \<Rightarrow> bool" where
  "forwarded_viable R a \<longleftrightarrow> R = Time_Ref \<and> \<not> is_ref R a \<and> wraps R (ra_type a) \<and> forwarding_deduces (ra_cat a) = Rvalue_Ref"

definition ref_candidates :: "ref_template \<Rightarrow> ref_arg \<Rightarrow> ref_ctor list" where
  "ref_candidates R a = (if copy_viable R a then [Copy_Ctor] else []) @ (if lvalue_viable R a then [From_Lvalue] else []) @
     (if forwarded_viable R a then [From_Forwarded] else [])"

text \<open>The body of a constructor stores \<open>std::addressof(w)\<close> in a \<open>void*\<close>.\<close>

fun ctor_body_ok :: "ref_arg \<Rightarrow> ref_ctor \<Rightarrow> bool" where
  "ctor_body_ok a Copy_Ctor = True"
| "ctor_body_ok a From_Lvalue = (\<not> ra_const a)"
| "ctor_body_ok a From_Forwarded = (\<not> ra_const a)"

definition ref_from :: "ref_template \<Rightarrow> ref_arg \<Rightarrow> ref_ctor option" where
  "ref_from R a = (case ref_candidates R a of [c] \<Rightarrow> if ctor_body_ok a c then Some c else None | _ \<Rightarrow> None)"

text \<open>
  A value that is sent to an erased receiver of a reference: \<open>any_receiver::value\<close> asserts that the reference can be
  constructed from it.
\<close>

definition erased_value_ok :: "ref_template \<Rightarrow> ref_arg \<Rightarrow> bool" where
  "erased_value_ok R a \<longleftrightarrow> ref_candidates R a \<noteq> []"

text \<open>What the tasks of the library send: a new executor by the inline ones, a local variable by the trampoline.\<close>

definition sent_prvalue :: "unit cxx \<Rightarrow> ref_arg" where
  "sent_prvalue t = \<lparr>ra_type = t, ra_class = None, ra_cat = RValue, ra_const = False\<rparr>"

definition sent_local :: "unit cxx \<Rightarrow> ref_arg" where
  "sent_local t = \<lparr>ra_type = t, ra_class = None, ra_cat = LValue, ra_const = False\<rparr>"

section \<open>The \<open>make\<close> functions and the deduction guides\<close>

text \<open>Which class the result is: one that refers to an executor with the type of \<open>top\<close> that is given, or the argument's.\<close>

datatype made_ref = Made "top_type option" | Same_Class

fun ref_parameter :: "ref_template \<Rightarrow> unit cxx \<Rightarrow> top_type option" where
  "ref_parameter Executor_Ref t = None"
| "ref_parameter Constrained_Ref t = top_of t"
| "ref_parameter Time_Ref t = top_of t"

definition make_ref :: "ref_template \<Rightarrow> ref_arg \<Rightarrow> made_ref option" where
  "make_ref R a =
     (if \<not> is_ref R a \<and> wraps R (ra_type a) \<and> binds_lvalue_ref a then Some (Made (ref_parameter R (ra_type a))) else None)"

text \<open>With the copy deduction candidate that every class template has.\<close>

definition ref_guide :: "ref_template \<Rightarrow> ref_arg \<Rightarrow> made_ref option" where
  "ref_guide R a =
     (if is_ref R a then Some Same_Class
      else if wraps R (ra_type a) \<and> binds_lvalue_ref a then Some (Made (ref_parameter R (ra_type a))) else None)"

section \<open>The tables\<close>

text \<open>
  The types of senders, for one error type: an \<open>any_single_sender\<close> with its values, or some other class. The
  conversion of another sender to an \<open>any_single_sender\<close> is explicit; \<open>ok\<close> says that the sender can be submitted to.
\<close>

datatype 'cv sent_type = Top_Value 'cv | Plain_Ref | Bound_Ref 'cv

datatype 'cv sender_ty = Any_Single "'cv sent_type list" | Sender_Class nat

datatype conversion = Direct | Implicit

definition sender_converts :: "conversion \<Rightarrow> bool \<Rightarrow> 'cv sender_ty \<Rightarrow> 'cv sender_ty \<Rightarrow> bool" where
  "sender_converts c ok s t \<longleftrightarrow> s = t \<or> c = Direct \<and> ok"

text \<open>The result of the entries for \<open>schedule\<close>, how the functions behind them convert to it, and the result of the members.\<close>

fun slot_sender :: "ref_template \<Rightarrow> 'cv \<Rightarrow> 'cv sender_ty" where
  "slot_sender Executor_Ref cv = Any_Single [Plain_Ref]"
| "slot_sender Constrained_Ref cv = Any_Single [Top_Value cv, Bound_Ref cv]"
| "slot_sender Time_Ref cv = Any_Single [Bound_Ref cv]"

fun slot_conversion :: "ref_template \<Rightarrow> conversion" where
  "slot_conversion Executor_Ref = Direct"
| "slot_conversion Constrained_Ref = Implicit"
| "slot_conversion Time_Ref = Direct"

fun member_sender :: "ref_template \<Rightarrow> 'cv \<Rightarrow> 'cv \<Rightarrow> 'cv sender_ty" where
  "member_sender Executor_Ref dv cv = Any_Single [Plain_Ref]"
| "member_sender Constrained_Ref dv cv = Any_Single [Bound_Ref dv]"
| "member_sender Time_Ref dv cv = Any_Single [Bound_Ref cv]"

text \<open>How many arguments the function behind an entry takes, when the class has \<open>n\<close> types \<open>VN\<close>.\<close>

fun slot_arguments :: "ref_template \<Rightarrow> nat \<Rightarrow> nat" where
  "slot_arguments Executor_Ref n = 0"
| "slot_arguments Constrained_Ref n = n"
| "slot_arguments Time_Ref n = n"

text \<open>A reference with \<open>n\<close> types \<open>VN\<close> to an executor whose \<open>schedule\<close> makes a sender of type \<open>s\<close>: the constructor, and then \<open>schedule\<close>.\<close>

definition ref_constructor_compiles :: "ref_template \<Rightarrow> nat \<Rightarrow> 'cv \<Rightarrow> bool \<Rightarrow> 'cv sender_ty \<Rightarrow> bool" where
  "ref_constructor_compiles R n cv ok s \<longleftrightarrow> slot_arguments R n = n \<and> sender_converts (slot_conversion R) ok s (slot_sender R cv)"

definition ref_schedule_compiles :: "ref_template \<Rightarrow> 'cv \<Rightarrow> 'cv \<Rightarrow> bool \<Rightarrow> bool" where
  "ref_schedule_compiles R dv cv ok \<longleftrightarrow>
     sender_converts Implicit ok (slot_sender R cv) (member_sender R dv cv)"

section \<open>What can be referred to\<close>

lemmas ref_defs = ref_candidates_def copy_viable_def lvalue_viable_def forwarded_viable_def is_ref_def

text \<open>No rvalue deduces an rvalue reference; the condition that would hold for rvalues is on \<open>Wrapped&&\<close>.\<close>

lemma forwarding_never_rvalue [simp]: "forwarding_deduces k \<noteq> Rvalue_Ref"
  by (cases k) simp_all

lemma collapse_is_rvalue: "collapse_rvalue (forwarding_deduces k) = Rvalue_Ref \<longleftrightarrow> k = RValue"
  by (cases k) simp_all

text \<open>
  What the references can be constructed from: the constructors are never ambiguous; a reference of the class itself is copied;
  an lvalue executor that satisfies the concept is referred to, unless it is const, for which the
  constructor is chosen and does not compile; nothing else, and in particular no temporary executor, although
  \<open>any_time_executor_ref\<close> has a constructor for that.
\<close>
theorem ref_constructors:
  "ref_from R a =
     (if ra_class a = Some (R, True) then Some Copy_Ctor
      else if \<not> is_ref R a \<and> wraps R (ra_type a) \<and> ra_cat a = LValue \<and> \<not> ra_const a then Some From_Lvalue else None) \<and>
   (ref_from R a = None \<and> ref_candidates R a \<noteq> [] \<longleftrightarrow> \<not> is_ref R a \<and> wraps R (ra_type a) \<and> ra_const a) \<and>
   From_Forwarded \<notin> set (ref_candidates R a)"
  by (cases "ra_cat a"; cases "ra_const a")
     (auto simp: ref_from_def ref_defs binds_lvalue_ref_def split: option.splits)

text \<open>
  The inline executors cannot be erased: their tasks send a temporary executor, from which the reference that an erased
  sender sends cannot be constructed. The local variable that the trampoline sends can be referred to, also for the
  threads of \<open>new_thread()\<close>, which run it.
\<close>
theorem inline_executors_not_erasable:
  "\<not> erased_value_ok Executor_Ref (sent_prvalue inline_executor_type) \<and>
   \<not> erased_value_ok Constrained_Ref (sent_prvalue inline_constrained_executor_type) \<and>
   \<not> erased_value_ok Time_Ref (sent_prvalue inline_time_executor_type) \<and>
   wraps Executor_Ref inline_executor_type \<and> wraps Constrained_Ref inline_constrained_executor_type \<and>
   wraps Time_Ref inline_time_executor_type \<and>
   ref_from Executor_Ref (sent_local delegator_type) = Some From_Lvalue"
proof -
  have concepts: "Executor_concept (inline_executor_type :: unit cxx) []"
    "ConstrainedExecutor_concept (inline_constrained_executor_type :: unit cxx) []"
    "TimeExecutor_concept (inline_time_executor_type :: unit cxx) []" "Executor_concept (delegator_type :: unit cxx) []"
    by code_simp+
  show ?thesis
    using ref_constructors [of Executor_Ref "sent_local delegator_type"] concepts
    by (simp add: erased_value_ok_def ref_defs sent_prvalue_def sent_local_def binds_lvalue_ref_def)
qed

text \<open>
  The \<open>make\<close> functions and the guides make the same class of every argument that is not a reference of the template
  already; those the guides copy and the \<open>make\<close> functions refuse. What \<open>make\<close> accepts has a
  constructor, which compiles unless the argument is const.
\<close>
theorem ref_guides_agree:
  "(if is_ref R a then make_ref R a = None \<and> ref_guide R a = Some Same_Class else make_ref R a = ref_guide R a) \<and>
   (make_ref R a \<noteq> None \<longleftrightarrow> ref_candidates R a = [From_Lvalue])"
  by (auto simp: make_ref_def ref_guide_def ref_defs split: option.splits)

text \<open>
  A reference to an executor whose sender is of a class of its own: \<open>any_executor_ref\<close> compiles without types \<open>VN\<close>, and
  \<open>any_time_executor_ref\<close> with any number, whenever the sender can be submitted to; \<open>any_constrained_executor_ref\<close> does not compile, and its
  \<open>schedule\<close> does not compile whatever it refers to, because their tables say that the senders send the constraint too.
\<close>
theorem ref_tables:
  "ref_constructor_compiles R n cv ok (Sender_Class k) \<longleftrightarrow> ok \<and> (case R of Executor_Ref \<Rightarrow> n = 0 | Constrained_Ref \<Rightarrow> False | Time_Ref \<Rightarrow> True)"
  "ref_schedule_compiles R dv cv ok \<longleftrightarrow> R \<noteq> Constrained_Ref"
  by (cases R; auto simp: ref_constructor_compiles_def ref_schedule_compiles_def sender_converts_def)+

end
