(* ===== verification/Time_Source_Lifetime.thy ===== *)
theory Time_Source_Lifetime
  imports Time_Source_Correct
begin

text \<open>
  Who keeps a \<open>time_source_shared\<close> alive, its thread, and its destructor (\<open>time_source.h\<close>): the \<open>time_source\<close> objects,
  everything else with a \<open>std::shared_ptr\<close> to it (factories, executors, tasks), the receivers of its queues, and the
  worker, whose parameter \<open>that\<close> is one too.
\<close>

section \<open>Owners\<close>

text \<open>\<open>lf_thread\<close>: the worker has not returned; \<open>lf_joinable\<close>: \<open>t_\<close> is a thread that was not joined.\<close>

record lifetime =
  lf_source :: source
  lf_sources :: nat
  lf_others :: nat
  lf_thread :: bool
  lf_joinable :: bool

text \<open>\<open>time_source()\<close>: makes the shared state and starts the worker.\<close>

definition lifetime_new :: "nat \<Rightarrow> int \<Rightarrow> lifetime" where
  "lifetime_new n t = \<lparr>lf_source = source_new n t, lf_sources = 1, lf_others = 0, lf_thread = True, lf_joinable = True\<rparr>"

definition queue_owners :: "source \<Rightarrow> nat" where
  "queue_owners s = (\<Sum>q<ts_count s. length (tq_receivers (ts_queue s q)))"

definition lf_refs :: "lifetime \<Rightarrow> nat" where
  "lf_refs s = lf_sources s + lf_others s + queue_owners (lf_source s) + (if lf_thread s then 1 else 0)"

text \<open>\<open>that->t_.join()\<close>: waits for the thread, and throws when it was joined before.\<close>

definition thread_join :: "lifetime \<Rightarrow> lifetime outcome option" where
  "thread_join s =
     (if \<not> lf_joinable s then Some (Thr 0 s)
      else if lf_thread s then None
      else Some (Ret (s\<lparr>lf_joinable := False\<rparr>)))"

text \<open>\<open>~time_source_shared\<close>.\<close>

definition source_destroy :: "lifetime \<Rightarrow> unit outcome" where
  "source_destroy s = (if lf_joinable s \<or> ts_items (lf_source s) \<noteq> 0 then Term else Ret ())"

text \<open>
  While there is an owner: objects are copied and dropped, threads call into the source, \<open>join\<close> is called on a \<open>time_source\<close>
  and returns, and the worker's thread ends.
\<close>

inductive lifetime_step :: "bool option \<Rightarrow> lifetime \<Rightarrow> lifetime \<Rightarrow> bool" for stale :: "bool option" where
  copy_source: "0 < lf_sources s \<Longrightarrow> lifetime_step stale s (s\<lparr>lf_sources := lf_sources s + 1\<rparr>)"
| new_owner: "0 < lf_refs s \<Longrightarrow> lifetime_step stale s (s\<lparr>lf_others := lf_others s + 1\<rparr>)"
| drop_source: "0 < lf_sources s \<Longrightarrow> lifetime_step stale s (s\<lparr>lf_sources := lf_sources s - 1\<rparr>)"
| drop_owner: "0 < lf_others s \<Longrightarrow> lifetime_step stale s (s\<lparr>lf_others := lf_others s - 1\<rparr>)"
| call_source: "0 < lf_refs s \<Longrightarrow> source_step stale (lf_source s) t \<Longrightarrow> ts_done t = ts_done (lf_source s) \<Longrightarrow>
    lifetime_step stale s (s\<lparr>lf_source := t\<rparr>)"
| call_join: "0 < lf_sources s \<Longrightarrow> lifetime_step stale s (s\<lparr>lf_source := source_join (lf_source s)\<rparr>)"
| join_returns: "0 < lf_sources s \<Longrightarrow> ts_done (lf_source s) \<Longrightarrow> thread_join s = Some (Ret s') \<Longrightarrow> lifetime_step stale s s'"
| thread_ends: "lf_thread s \<Longrightarrow> worker_ended (lf_source s) \<Longrightarrow> lifetime_step stale s (s\<lparr>lf_thread := False\<rparr>)"

abbreviation lifetime_reach :: "bool option \<Rightarrow> lifetime \<Rightarrow> bool" where
  "lifetime_reach stale \<equiv> reachable (\<lambda>s. \<exists>n t. s = lifetime_new n t) (lifetime_step stale)"

section \<open>Invariant\<close>

definition lifetime_ok :: "bool option \<Rightarrow> lifetime \<Rightarrow> bool" where
  "lifetime_ok stale s \<longleftrightarrow> source_reach stale (lf_source s) \<and> (\<not> lf_thread s \<longrightarrow> worker_ended (lf_source s)) \<and>
     (ts_worker (lf_source s) = Exited \<longrightarrow> ts_done (lf_source s)) \<and> (\<not> lf_joinable s \<longrightarrow> \<not> lf_thread s)"

lemma join_keeps: "ts_worker (source_join s) = ts_worker s" "ts_done (source_join s)"
  by (simp_all add: source_join_def wake_def)

lemma lifetime_ok_step:
  assumes "lifetime_step stale s s'" "lifetime_ok stale s"
  shows "lifetime_ok stale s'"
  using assms
proof (cases rule: lifetime_step.cases)
  case (call_source t)
  then show ?thesis
    using assms(2) worker_ends [OF call_source(3)] by (auto simp: lifetime_ok_def intro: reach_step)
next
  case call_join
  have "source_step stale (lf_source s) (source_join (lf_source s))" by (simp add: source_step_def source_call.join)
  then show ?thesis
    using assms(2) call_join by (auto simp: lifetime_ok_def join_keeps intro: reach_step)
qed (auto simp: lifetime_ok_def thread_join_def split: if_splits)

lemma lifetime_ok_new: "lifetime_ok stale (lifetime_new n t)"
proof -
  have "source_reach stale (source_new n t)" by (rule reach_init) blast
  then show ?thesis by (simp add: lifetime_ok_def lifetime_new_def) (simp add: source_new_def)
qed

interpretation lifetimes: invariant_of "\<lambda>s. \<exists>n t. s = lifetime_new n t" "lifetime_step stale" "lifetime_ok stale" for stale
  by unfold_locales (blast intro: lifetime_ok_new, rule lifetime_ok_step)

text \<open>Without a \<open>time_source\<close> nobody calls \<open>join\<close>.\<close>

lemma no_source_step:
  "lifetime_step stale s s' \<Longrightarrow> lf_sources s = 0 \<Longrightarrow>
   lf_sources s' = 0 \<and> ts_done (lf_source s') = ts_done (lf_source s)"
  by (cases rule: lifetime_step.cases) auto

lemma no_source_steps:
  "(lifetime_step stale)\<^sup>*\<^sup>* s t \<Longrightarrow> lf_sources s = 0 \<Longrightarrow> lf_sources t = 0 \<and> ts_done (lf_source t) = ts_done (lf_source s)"
  by (induction rule: rtranclp_induct) (auto dest: no_source_step)

section \<open>The destructor\<close>

text \<open>
  When the last owner is gone the worker has returned. If it returned from its loop, \<open>join\<close> was called, all items were
  completed, and the destructor passes if and only if a \<open>join\<close> has returned.
\<close>
theorem time_source_destructor:
  assumes "lifetime_reach stale s" "lf_refs s = 0"
  shows "worker_ended (lf_source s)"
    and "ts_worker (lf_source s) = Exited \<Longrightarrow> ts_done (lf_source s) \<and> source_destroy s = (if lf_joinable s then Term else Ret ())"
proof -
  have ok: "lifetime_ok stale s" using lifetimes.reachable_inv [OF assms(1)] .
  show "worker_ended (lf_source s)" using ok assms(2) by (auto simp: lifetime_ok_def lf_refs_def split: if_splits)
  assume e: "ts_worker (lf_source s) = Exited"
  have "items_ok (lf_source s)" "exit_ok (lf_source s)"
    using sources.reachable_inv [of stale "lf_source s"] ok by (simp_all add: lifetime_ok_def source_ok_def)
  then have "ts_items (lf_source s) = 0" using items_nonneg [of "lf_source s"] e by (simp add: exit_ok_def)
  then show "ts_done (lf_source s) \<and> source_destroy s = (if lf_joinable s then Term else Ret ())"
    using ok e by (simp add: lifetime_ok_def source_destroy_def)
qed

text \<open>
  A \<open>time_source\<close> that is discarded without \<open>join\<close>, against the comment in the destructor, does not end the program: its
  worker owns the state, so that unless an exception ends the worker the destructor never runs and the thread never ends.
\<close>
theorem time_source_discarded:
  assumes "lifetime_reach stale s" "lf_sources s = 0" "\<not> ts_done (lf_source s)" "(lifetime_step stale)\<^sup>*\<^sup>* s t"
    and "ts_worker (lf_source t) \<noteq> Caught"
  shows "lf_thread t \<and> 0 < lf_refs t \<and> \<not> worker_ended (lf_source t)"
proof -
  have ok: "lifetime_ok stale t"
    using lifetimes.reachable_inv [OF reachable_steps [OF assms(4,1)]] .
  have "\<not> ts_done (lf_source t)" using no_source_steps [OF assms(4,2)] assms(3) by simp
  then show ?thesis using ok assms(5) by (auto simp: lifetime_ok_def lf_refs_def)
qed

theorem time_source_discarded_witness:
  "\<exists>s. lifetime_reach None s \<and> lf_sources s = 0 \<and> lf_others s = 0 \<and> lf_thread s \<and> 0 < lf_refs s"
proof -
  let ?s = "(lifetime_new 0 0)\<lparr>lf_sources := 0\<rparr>"
  have "lifetime_step None (lifetime_new 0 0) ((lifetime_new 0 0)\<lparr>lf_sources := lf_sources (lifetime_new 0 0) - 1\<rparr>)"
    by (rule drop_source) (simp add: lifetime_new_def)
  then have step: "lifetime_step None (lifetime_new 0 0) ?s" by (simp add: lifetime_new_def)
  have start: "lifetime_reach None (lifetime_new 0 0)" by (rule reach_init) blast
  have r: "lifetime_reach None ?s" by (rule reach_step [OF start step])
  have "lf_thread ?s \<and> 0 < lf_refs ?s \<and> \<not> worker_ended (lf_source ?s)"
    by (rule time_source_discarded [OF r]) (simp_all add: lifetime_new_def source_new_def)
  moreover have "lf_sources ?s = 0 \<and> lf_others ?s = 0" by (simp add: lifetime_new_def)
  ultimately show ?thesis using r by blast
qed

end
