(* ===== verification/Spec2Isabelle.thy ===== *)
theory Spec2Isabelle
  imports Trampoline_Correct Any_Receiver Flow_Receivers Strand Senders Operators On_Via Subject Entangle
    Time_Source_Correct Submit Flow_From Concepts Opt Make_Executor Inline_Executors Pointers
    Make_Sender Concept_Emulation Factories Flow_Operators Flow_Via Piping Bulk Strand_Refinement Blocking_Nested
    Heap_Items Parallel_Bulk Example_Errors Example_Pool Flow_Race
    Time_Source_Refinement Example_Deferral Trampoline_Programs Cancellation_Tests Cancellation_Many Test_Pipelines
    Executor_References Time_Source_Lifetime
begin

text \<open>
  Verification of pushmi, a header-only C++ library of asynchronous senders, receivers and executors
  (\<open>src/include/pushmi\<close>), with the algorithms of its examples (\<open>src/examples\<close>).

  A sender, submitted a receiver, sends it signals: values, and then an error or done; a flow sender
  first says with \<open>starting\<close> how more is requested. Customization points (\<open>extension_points.h\<close>) send
  every signal. Operators turn senders into senders by wrapping the receiver. Executors make senders
  whose value is the executor, in a context: at once, on the trampoline of the thread, on a new thread,
  in a strand, at a time. Class templates make senders, receivers and executors of function objects,
  type-erased classes hold any of them, and a compile-time program of properties and concepts
  decides which overload applies.

  Conventions. A call on a state is a function to an outcome (\<open>Prelude\<close>): it returns, throws, ends
  the program (\<open>std::terminate\<close>, also what leaves a \<open>noexcept\<close> function) or is undefined. A class is
  a record of its members; a receiver type is the record \<open>rcv\<close> of its member functions, and a sender
  is a function of the value category and the receiver. What the functions of the user do is a
  parameter. A component that several threads work on is an inductive step relation whose steps
  are its critical sections, or its single atomic operations, interleaved sequentially; its
  properties are invariants of the reachable states (\<open>invariant_of\<close>). A call that re-enters itself
  through the user's code is interpreted with fuel, \<open>None\<close> being fuel exhausted, and it is proved how
  much is enough. What the compiler computes, overload resolution, property sets, concepts, is a
  function on descriptions of types; the overload tables are those of a compiler without concepts.

  Signals and receivers.
  \<^item> \<open>Extension_Points\<close>: \<open>set_value\<close>, \<open>set_error\<close>, \<open>set_done\<close>, \<open>set_starting\<close>; functions and promises
    as receivers; the interface \<open>signal_receiver\<close> of a receiver that ignores what follows a
    terminal signal. \<open>Pointers\<close>: the same through class references and pointers; \<open>future_from\<close>.
  \<^item> \<open>Receivers\<close> (\<open>receiver.h\<close>, \<open>boosters.h\<close>): \<open>receiver<VF, EF, DF>\<close> and \<open>receiver<Data, ...>\<close>;
    \<open>push_signals\<close> says which functions are called for a list of signals.
  \<^item> \<open>Type_Erasure\<close>, \<open>Any_Receiver\<close>: the storage of all erased classes, with its heap, and \<open>any_receiver\<close>,
    related to \<open>receiver<Data>\<close> by a simulation; the conversions of the arguments are parameters. \<open>Flow_Receivers\<close> (\<open>flow_receiver.h\<close>): the same
    with \<open>starting\<close>; the interface \<open>flow_signal_receiver\<close>.

  Senders and operators.
  \<^item> \<open>Senders\<close> (\<open>single_sender.h\<close>, \<open>many_sender.h\<close>, \<open>flow_single_sender.h\<close>, \<open>flow_many_sender.h\<close>): the
    classes and their erased forms; the interfaces \<open>sender_contract\<close> and \<open>flow_sender_contract\<close> of
    a sender that sends a given list of signals to any receiver.
  \<^item> \<open>Operators\<close> (\<open>o/just.h\<close>, \<open>o/error.h\<close>, \<open>o/empty.h\<close>, \<open>o/from.h\<close>, \<open>o/defer.h\<close>, \<open>o/transform.h\<close>,
    \<open>o/filter.h\<close>, \<open>o/tap.h\<close>, \<open>o/switch_on_error.h\<close>), and \<open>Flow_Operators\<close> for their flow variants: each
    operator is a function on lists of signals, and takes one contract to another.
  \<^item> \<open>Delivery_Queue\<close>, \<open>On_Via\<close>, \<open>Flow_Via\<close> (\<open>o/on.h\<close>, \<open>o/via.h\<close>): signals as tasks for an executor.
  \<^item> \<open>Flow_From\<close> (\<open>o/from.h\<close>, \<open>o/for_each.h\<close>): a range sent on request, to \<open>Pull\<close> alone or behind an
    operator (the interface \<open>flow_consumer\<close>). The executor runs a submitted task at once or later, as
    an arbitrary policy says. Fuel 6 above the length of the range is enough. \<open>Flow_Protocol\<close>: any
    receiver of the user, all of whose functions may request, cancel and fail at any moment, and throw but for the error
    function, against an automaton of
    the calls that the protocol of a flow allows; some fuel is enough, and more does not change the
    result. \<open>Flow_Race\<close>: requests and a cancellation from another thread.
  \<^item> \<open>Submit\<close>, \<open>Blocking_Nested\<close> (\<open>o/submit.h\<close>): \<open>submit\<close>, \<open>get\<close> with its choice between
    the two submissions and \<open>None\<close> for a wait that never ends, the wait of \<open>blocking_submit\<close> at the
    grain of the mutex and the condition variable, and the executors that it hands out.
  \<^item> \<open>Piping\<close> (\<open>piping.h\<close>, \<open>detail/functional.h\<close>, \<open>o/extension_operators.h\<close>, \<open>o/request_via.h\<close>).

  Examples.
  \<^item> \<open>Bulk\<close> (\<open>bulk.h\<close>, \<open>reduce.h\<close>, \<open>for_each.h\<close>, \<open>no_fail.h\<close>): the interface \<open>bulk_target\<close>.
    \<open>Parallel_Bulk\<close> (\<open>reduce_2.cpp\<close>, \<open>for_each_2.cpp\<close>): the target that runs one task per element, at
    the grain of atomic operations, with 64-bit counters for ranges below \<open>2 ^ 64 - 1\<close>; the interface \<open>bulk_data\<close>
    of what the tasks compute. Termination is the well-foundedness of the steps.
  \<^item> \<open>Example_Errors\<close> (\<open>set_done_2.cpp\<close>, \<open>set_error_2.cpp\<close>); \<open>Example_Pool\<close> (\<open>pool.h\<close>,
    \<open>twoway_execute_2.cpp\<close>, \<open>then_execute_2.cpp\<close>, \<open>composition_2.cpp\<close>, \<open>composition_4.cpp\<close>): the pool and the
    promises are parameters, with what is documented of them as the hypothesis \<open>pool_runs\<close>.
    \<open>Example_Deferral\<close> (\<open>composition_3.cpp\<close>): when pipelines are built and when they run, by what
    they print; taps and receivers that share an output, the interface \<open>shared_output\<close>.

  Tests.
  \<^item> \<open>Cancellation_Tests\<close> (\<open>FlowTest.cpp\<close>): a flow single sender that is cancelled, at once and in a
    race of two strands, through a pair of tokens; the interface \<open>stop_token\<close> holds of both functions of
    \<open>entangle.h\<close>. \<open>Cancellation_Many\<close> (\<open>FlowManyTest.cpp\<close>): a flow many sender that is requested and
    cancelled. What the tests sum up is the same in all interleavings, or one of two sums.
  \<^item> \<open>Test_Pipelines\<close> (\<open>PushmiTest.cpp\<close>, \<open>TrampolineTest.cpp\<close>): the pipelines of the tests over any
    sender, with functions that count.

  Executors and shared state.
  \<^item> \<open>Executors\<close> (\<open>executor.h\<close>); \<open>Executor_References\<close>: what a reference to an executor can be made of, and
    which of them compile; \<open>Inline_Executors\<close> (\<open>inline.h\<close>, \<open>new_thread.h\<close>, \<open>o/schedule.h\<close>).
  \<^item> \<open>Trampoline\<close>, \<open>Trampoline_Correct\<close> (\<open>trampoline.h\<close>): the thread's owner, queue and depth, and an
    interpreter of programs that submit. \<open>Trampoline_Programs\<close>: the countdown of the tests, \<open>repeat\<close>, the
    order of submissions at every nesting, and the recursion of the nester, which the depth does not count. The \<open>value\<close> of a
    submitted receiver is any program that submits; its error and done functions return and submit nothing. Fuel: \<open>fuel_task\<close> of the program plus 2. The code's
    bound on the depth, 100, is kept.
  \<^item> \<open>Strand\<close>, \<open>Strand_Refinement\<close> (\<open>strand.h\<close>): the queue with its workers, the counter at 64 bits;
    a refinement of an abstract queue (the interface \<open>simulation\<close>). \<open>Time_Source\<close>,
    \<open>Time_Source_Correct\<close>, \<open>Time_Source_Refinement\<close> (\<open>time_source.h\<close>): the worker, its wait, the heaps and the
    queues of one source, with unbounded counts and any order that \<open>partition\<close> leaves, and its refinement of an abstract machine of waiting items; \<open>Heap_Items\<close>: the
    comparison of the items of a heap, which are a preorder;
    \<open>Time_Source_Lifetime\<close>: the owners of the source, its thread and its destructor. \<open>Factories\<close>: what makes strands, time executors and their tasks.
  \<^item> \<open>Subject\<close> (\<open>subject.h\<close>, \<open>o/share.h\<close>); \<open>Entangle\<close> (\<open>entangle.h\<close>): the lock protocol as a step
    relation over atomic words, the moves as a pointer structure, and the pair with shared storage.

  Compile time.
  \<^item> \<open>Properties\<close> (\<open>traits.h\<close>, \<open>properties.h\<close>), \<open>Concepts\<close> (\<open>concepts.h\<close>), \<open>Concept_Emulation\<close>
    (\<open>detail/concept_def.h\<close>, \<open>detail/if_constexpr.h\<close>, the language concepts of \<open>traits.h\<close>).
  \<^item> \<open>Make_Receiver\<close>, \<open>Make_Executor\<close>, \<open>Make_Sender\<close>: the \<open>make\<close> functions as tables of overloads, the
    deduction guides, and the choice of \<open>sender_from\<close>. \<open>Opt\<close> (\<open>detail/opt.h\<close>): the optional value,
    refined to HOL options.

  What is shown. That a receiver sees at most one terminal signal and nothing after it, through every
  class, erased or not; what each operator and pipeline sends, with exceptions; that submissions
  return and lose nothing, in every interleaving, as far as the code has that property; and, where
  it does not, the run that shows it: the strand whose counter wraps, the handler of the time source
  that iterates over a queue that grows, the lost wake-up of \<open>blocking_submit\<close>, the flow that a
  \<open>filter\<close> stalls, and others. The theorems that state a property of the program carry an id.

  Not modelled: \<open>pushmi.h\<close>, which is generated from the headers; \<open>forwards.h\<close>, only declarations;
  the flow single variant of \<open>transform\<close>, which names a function that does not exist; the class \<open>pool\<close> of
  the examples, which only holds a third-party pool; \<open>NewThreadTest.cpp\<close>, which observes real threads and
  clocks, \<open>CompileTest.cpp\<close>, which only instantiates templates, the benchmarks and the benchmark framework. Weak memory,
  the allocation that fails, and the cost of copies are outside the model.
\<close>

end
